(* ===== verification/Prelude.thy ===== *)
theory Prelude
  imports Main "HOL-Library.Word"
begin

text \<open>
  Shared vocabulary of the development.

  Machine integers are words of their width; \<^verbatim>\<open>usize\<close> values that only count bytes or slots
  of live allocations are \<^typ>\<open>nat\<close> (the program runs on 64-bit targets, where an allocation never
  exceeds \<^verbatim>\<open>isize::MAX\<close>), and the places where the source asks for overflow explicitly
  (\<^verbatim>\<open>checked_add\<close>, \<^verbatim>\<open>wrapping_add\<close>, casts) are written out at their width.

  A fallible Rust function returns a \<open>result\<close>.  The third constructor, \<open>Panic\<close>, is the value of a
  path on which the Rust program panics: \<^verbatim>\<open>unwrap\<close>/\<^verbatim>\<open>expect\<close> on the wrong variant,
  \<^verbatim>\<open>unreachable!\<close>, \<^verbatim>\<open>assert!\<close>, or a slice index out of range.  A \<^verbatim>\<open>debug_assert!\<close> is absent from
  the release build and has no branch in the model.

  The theory also holds the conversions between integers and big-endian bytes and the facts about
  bytes and slices that several components use.
\<close>

unbundle bit_operations_syntax

named_theorems wf_intros \<open>preservation of the well-formedness invariants\<close>
named_theorems byte_simps \<open>bytes, masks and big-endian integers\<close>
named_theorems slice_simps \<open>slices of byte buffers\<close>

type_synonym u8 = "8 word"
type_synonym u16 = "16 word"
type_synonym u32 = "32 word"
type_synonym u64 = "64 word"
type_synonym bytes = "u8 list"
type_synonym usize = nat
type_synonym key4 = "u8 \<times> u8 \<times> u8 \<times> u8"

datatype ('e, 'a) result = Ok 'a | Err 'e | Panic

fun and_then :: "('e, 'a) result \<Rightarrow> ('a \<Rightarrow> ('e, 'b) result) \<Rightarrow> ('e, 'b) result" where
  "and_then (Ok x) f = f x"
| "and_then (Err e) f = Err e"
| "and_then Panic f = Panic"

text \<open>The \<^verbatim>\<open>?\<close> operator for code that also threads a state: later steps run only after success, and
  the state reached so far is kept on every exit.\<close>

fun try_st :: "'s \<times> ('e, 'a) result \<Rightarrow> ('s \<Rightarrow> 'a \<Rightarrow> 's \<times> ('e, 'b) result) \<Rightarrow> 's \<times> ('e, 'b) result" where
  "try_st (s, Ok x) f = f s x"
| "try_st (s, Err e) f = (s, Err e)"
| "try_st (s, Panic) f = (s, Panic)"

fun map_err :: "('e \<Rightarrow> 'f) \<Rightarrow> ('e, 'a) result \<Rightarrow> ('f, 'a) result" where
  "map_err g (Ok x) = Ok x"
| "map_err g (Err e) = Err (g e)"
| "map_err g Panic = Panic"

lemma map_err_iffs [simp]:
  "map_err g r = Panic \<longleftrightarrow> r = Panic" "map_err g r = Ok x \<longleftrightarrow> r = Ok x"
  by (cases r; auto)+

lemma and_then_eq_Ok_iff: "and_then r f = Ok y \<longleftrightarrow> (\<exists>x. r = Ok x \<and> f x = Ok y)"
  by (cases r) auto

lemma and_then_eq_Err_iff: "and_then r f = Err e \<longleftrightarrow> r = Err e \<or> (\<exists>x. r = Ok x \<and> f x = Err e)"
  by (cases r) auto

lemma and_then_eq_Panic_iff: "and_then r f = Panic \<longleftrightarrow> r = Panic \<or> (\<exists>x. r = Ok x \<and> f x = Panic)"
  by (cases r) auto

lemma try_st_cases:
  assumes "try_st m f = (s', r)"
  obtains (ok) s x where "m = (s, Ok x)" "f s x = (s', r)"
    | (err) e where "m = (s', Err e)" "r = Err e"
    | (panic) "m = (s', Panic)" "r = Panic"
  using assms by (cases "(m, f)" rule: try_st.cases) auto

lemma try_st_assoc: "try_st (try_st m f) g = try_st m (\<lambda>s x. try_st (f s x) g)"
  by (cases "(m, f)" rule: try_st.cases) auto

lemma fst_try_st: "fst (try_st m f) = (case snd m of Ok x \<Rightarrow> fst (f (fst m) x) | _ \<Rightarrow> fst m)"
  by (cases "(m, f)" rule: try_st.cases) auto

lemmas and_then_iffs = and_then_eq_Ok_iff and_then_eq_Err_iff and_then_eq_Panic_iff

subsection \<open>Slices and in-place writes\<close>

definition write_at :: "bytes \<Rightarrow> nat \<Rightarrow> bytes \<Rightarrow> ('e, bytes) result" where
  "write_at dst i src =
     (if i + length src \<le> length dst then Ok (take i dst @ src @ drop (i + length src) dst) else Panic)"

lemma write_at_fits [simp]:
  "i + length src \<le> length dst \<Longrightarrow> write_at dst i src = Ok (take i dst @ src @ drop (i + length src) dst)"
  by (simp add: write_at_def)

fun bytes_of_key :: "key4 \<Rightarrow> bytes" where
  "bytes_of_key (a, b, c, d) = [a, b, c, d]"

lemma length_bytes_of_key [simp]: "length (bytes_of_key k) = 4"
  by (cases k) simp

definition key_at :: "bytes \<Rightarrow> nat \<Rightarrow> key4" where
  "key_at xs i = (xs ! i, xs ! (i + 1), xs ! (i + 2), xs ! (i + 3))"

lemma list_of_length_2: "length xs = 2 \<Longrightarrow> \<exists>a b. xs = [a, b]"
  by (cases xs; cases "tl xs") auto

lemma take_append_split: "n \<le> length xs \<Longrightarrow> take n xs @ take (m - n) (drop n xs) = take m xs" if "n \<le> m"
  using that by (metis append_take_drop_id add_diff_inverse_nat not_less take_add)

lemma take_4_nth: "4 \<le> length xs \<Longrightarrow> take 4 xs = [xs ! 0, xs ! 1, xs ! 2, xs ! 3]"
  by (cases xs; cases "tl xs"; cases "tl (tl xs)"; cases "tl (tl (tl xs))") auto

subsection \<open>Bytes\<close>

lemma unat_u8_less [byte_simps]: "unat (x :: u8) < 256"
  using unsigned_less [of x, where ?'a = nat] by simp

lemma unat_u16_less [byte_simps]: "unat (x :: u16) < 65536"
  using unsigned_less [of x, where ?'a = nat] by simp

lemma unat_u32_less [byte_simps]: "unat (x :: u32) < 2 ^ 32"
  using unsigned_less [of x, where ?'a = nat] by simp

lemma unat_u64_less [byte_simps]: "unat (x :: u64) < 2 ^ 64"
  using unsigned_less [of x, where ?'a = nat] by simp

lemma unat_of_nat_mod: "unat (word_of_nat n :: 'a::len word) = n mod 2 ^ LENGTH('a)"
  by (simp add: unsigned_of_nat take_bit_eq_mod)

lemma unat_ucast_mod: "unat (ucast (w :: 'a::len word) :: 'b::len word) = unat w mod 2 ^ LENGTH('b)"
  by (simp add: unsigned_ucast_eq unsigned_take_bit_eq take_bit_eq_mod)

lemma take_bit_word_small: "unat (w :: 'a::len word) < 2 ^ n \<Longrightarrow> take_bit n w = w"
  by (simp add: word_unat_eq_iff unsigned_take_bit_eq take_bit_nat_eq_self_iff)

lemma all_u8_iff: "(\<forall>x :: u8. P x) \<longleftrightarrow> (\<forall>n < 256. P (word_of_nat n))"
proof
  assume a: "\<forall>n < 256. P (word_of_nat n)"
  show "\<forall>x :: u8. P x"
  proof
    fix x :: u8
    have "P (word_of_nat (unat x))" using a unat_u8_less [of x] by blast
    then show "P x" by simp
  qed
qed simp

subsection \<open>Big-endian integers\<close>

fun be_nat :: "bytes \<Rightarrow> nat" where
  "be_nat [] = 0"
| "be_nat (b # bs) = unat b * 256 ^ length bs + be_nat bs"

fun to_be :: "nat \<Rightarrow> nat \<Rightarrow> bytes" where
  "to_be 0 v = []"
| "to_be (Suc k) v = word_of_nat (v div 256 ^ k) # to_be k v"

lemma length_to_be [simp]: "length (to_be k v) = k"
  by (induction k) auto

lemma be_nat_less: "be_nat bs < 256 ^ length bs"
proof (induction bs)
  case (Cons b bs)
  have "unat b * 256 ^ length bs + be_nat bs < (unat b + 1) * 256 ^ length bs"
    using Cons.IH by simp
  also have "\<dots> \<le> 256 * 256 ^ length bs"
    using unat_u8_less [of b] by (intro mult_right_mono) auto
  finally show ?case by simp
qed simp

lemma be_nat_to_be: "be_nat (to_be k v) = v mod 256 ^ k"
proof (induction k)
  case (Suc k)
  have "unat (word_of_nat (v div 256 ^ k) :: u8) = v div 256 ^ k mod 256"
    by (simp add: unat_of_nat_mod)
  then show ?case
    using Suc mod_mult2_eq [of v "256 ^ k" 256] by (simp add: mult.commute)
qed simp

lemma to_be_mod: "to_be k (v mod 256 ^ n) = to_be k v" if "k \<le> n"
  using that
proof (induction k)
  case (Suc k)
  have e: "(256::nat) ^ n = 256 ^ k * (256 * 256 ^ (n - Suc k))"
    using Suc.prems by (metis Suc_diff_le diff_Suc_Suc le_add_diff_inverse power_Suc power_add Suc_leD)
  have "v mod 256 ^ n div 256 ^ k mod 256 = v div 256 ^ k mod 256"
    unfolding e by (subst mod_mult2_eq) (simp add: mod_mult2_eq mod_mod_cancel)
  then have "(word_of_nat (v mod 256 ^ n div 256 ^ k) :: u8) = word_of_nat (v div 256 ^ k)"
    by (subst word_unat_eq_iff) (simp add: unat_of_nat_mod)
  then show ?case using Suc by simp
qed simp

lemma to_be_be_nat: "to_be (length bs) (be_nat bs) = bs"
proof (induction bs)
  case (Cons b bs)
  have d: "be_nat (b # bs) div 256 ^ length bs = unat b"
    using be_nat_less [of bs] by simp
  have "to_be (length bs) (be_nat (b # bs)) = to_be (length bs) (be_nat (b # bs) mod 256 ^ length bs)"
    by (rule to_be_mod [OF le_refl, symmetric])
  also have "be_nat (b # bs) mod 256 ^ length bs = be_nat bs"
    using be_nat_less [of bs] by simp
  finally show ?case using Cons d by (simp del: be_nat.simps)
qed simp

definition u16_from_be :: "u8 \<Rightarrow> u8 \<Rightarrow> u16" where
  "u16_from_be a b = word_of_nat (be_nat [a, b])"

definition u64_from_be :: "bytes \<Rightarrow> u64" where
  "u64_from_be bs = word_of_nat (be_nat bs)"

definition u16_to_be :: "u16 \<Rightarrow> bytes" where
  "u16_to_be v = to_be 2 (unat v)"

definition u64_to_be :: "u64 \<Rightarrow> bytes" where
  "u64_to_be v = to_be 8 (unat v)"

lemma length_u16_to_be [simp]: "length (u16_to_be v) = 2"
  by (simp add: u16_to_be_def)

lemma length_u64_to_be [simp]: "length (u64_to_be v) = 8"
  by (simp add: u64_to_be_def)

lemma unat_u16_from_be: "unat (u16_from_be a b) = unat a * 256 + unat b"
  using be_nat_less [of "[a, b]"]
  by (simp add: u16_from_be_def unat_of_nat_mod del: of_nat_add of_nat_mult)

lemma unat_u64_from_be: "length bs = 8 \<Longrightarrow> unat (u64_from_be bs) = be_nat bs"
  using be_nat_less [of bs] by (simp add: u64_from_be_def unat_of_nat_mod)

lemma u16_from_be_to_be: "u16_to_be v = [a, b] \<Longrightarrow> u16_from_be a b = v"
  using be_nat_to_be [of 2 "unat v"] unat_u16_less [of v]
  by (simp add: u16_to_be_def u16_from_be_def del: be_nat.simps)

lemma u16_to_be_from_be: "u16_to_be (u16_from_be a b) = [a, b]"
  using to_be_be_nat [of "[a, b]"] unat_u16_from_be [of a b] by (simp add: u16_to_be_def numeral_2_eq_2)

lemma u64_from_be_to_be: "u64_from_be (u64_to_be v) = v"
  using be_nat_to_be [of 8 "unat v"] unat_u64_less [of v]
  by (simp add: u64_to_be_def u64_from_be_def del: to_be.simps)

lemma u64_to_be_from_be: "length bs = 8 \<Longrightarrow> u64_to_be (u64_from_be bs) = bs"
  using to_be_be_nat [of bs] by (simp add: u64_to_be_def unat_u64_from_be)

subsection \<open>Interleavings\<close>

lemma shuffles_append_right: "zs \<in> shuffles xs ys \<Longrightarrow> zs @ us \<in> shuffles xs (ys @ us)"
proof (induction zs arbitrary: xs ys)
  case (Cons z zs)
  have "xs \<noteq> [] \<and> hd xs = z \<and> zs \<in> shuffles (tl xs) ys \<or> ys \<noteq> [] \<and> hd ys = z \<and> zs \<in> shuffles xs (tl ys)"
    using Cons.prems by (simp only: Cons_in_shuffles_iff)
  then have "xs \<noteq> [] \<and> hd xs = z \<and> zs @ us \<in> shuffles (tl xs) (ys @ us) \<or>
      ys @ us \<noteq> [] \<and> hd (ys @ us) = z \<and> zs @ us \<in> shuffles xs (tl (ys @ us))"
    using Cons.IH [of "tl xs" ys] Cons.IH [of xs "tl ys"] by auto
  then show ?case by (simp only: Cons_in_shuffles_iff append_Cons)
qed simp

lemma shuffles_append_left: "zs \<in> shuffles xs ys \<Longrightarrow> zs @ us \<in> shuffles (xs @ us) ys"
  using shuffles_append_right [of zs ys xs us] by (simp add: shuffles_commutes)

end
