(* ===== verification/Cursor_Buf.thy ===== *)
theory Cursor_Buf
  imports Prelude
begin

text \<open>
  The head-cursor buffer of \<^verbatim>\<open>cursor_buf.rs\<close>, and the interface \<open>byte_queue\<close> that every byte
  buffer of the program provides: bytes are appended at the back and consumed from the front.
  Besides \<^verbatim>\<open>CursorBuf\<close> the WebSocket client (transmit buffer) and the connection (send buffer)
  keep such a queue with their own compaction policy; each interprets the locale in its theory.
\<close>

subsection \<open>The interface of a byte queue\<close>

datatype queue_op = Push bytes | Pop nat

fun queue_run :: "('q \<Rightarrow> bytes) \<Rightarrow> ('q \<Rightarrow> bytes \<Rightarrow> 'q) \<Rightarrow> ('q \<Rightarrow> nat \<Rightarrow> 'q) \<Rightarrow>
    'q \<Rightarrow> queue_op list \<Rightarrow> 'q \<times> bytes" where
  "queue_run view push pop q [] = (q, [])"
| "queue_run view push pop q (Push bs # ops) = queue_run view push pop (push q bs) ops"
| "queue_run view push pop q (Pop n # ops) =
     (let out = take n (view q); (q', outs) = queue_run view push pop (pop q n) ops in (q', out @ outs))"

fun queue_ops_ok :: "nat \<Rightarrow> queue_op list \<Rightarrow> bool" where
  "queue_ops_ok avail [] \<longleftrightarrow> True"
| "queue_ops_ok avail (Push bs # ops) \<longleftrightarrow> queue_ops_ok (avail + length bs) ops"
| "queue_ops_ok avail (Pop n # ops) \<longleftrightarrow> n \<le> avail \<and> queue_ops_ok (avail - n) ops"

fun pushed :: "queue_op list \<Rightarrow> bytes" where
  "pushed [] = []"
| "pushed (Push bs # ops) = bs @ pushed ops"
| "pushed (Pop n # ops) = pushed ops"

locale byte_queue =
  fixes view :: "'q \<Rightarrow> bytes"
    and invar :: "'q \<Rightarrow> bool"
    and push :: "'q \<Rightarrow> bytes \<Rightarrow> 'q"
    and pop :: "'q \<Rightarrow> nat \<Rightarrow> 'q"
  assumes view_push: "invar q \<Longrightarrow> view (push q bs) = view q @ bs"
    and view_pop: "invar q \<Longrightarrow> n \<le> length (view q) \<Longrightarrow> view (pop q n) = drop n (view q)"
    and invar_push: "invar q \<Longrightarrow> invar (push q bs)"
    and invar_pop: "invar q \<Longrightarrow> n \<le> length (view q) \<Longrightarrow> invar (pop q n)"
begin

lemma run_fifo:
  assumes "invar q" and "queue_ops_ok (length (view q)) ops"
  shows "invar (fst (queue_run view push pop q ops)) \<and>
    snd (queue_run view push pop q ops) @ view (fst (queue_run view push pop q ops)) = view q @ pushed ops"
  using assms
proof (induction ops arbitrary: q rule: pushed.induct)
  case (2 bs ops)
  then show ?case using invar_push [of q bs] view_push [of q bs] by simp
next
  case (3 n ops)
  have "invar (pop q n)" "view (pop q n) = drop n (view q)"
    using 3 invar_pop view_pop by auto
  then show ?case
    using "3.IH" [of "pop q n"] "3.prems"(2) by (auto simp: split_beta Let_def)
qed simp

lemma view_pop_all: "invar q \<Longrightarrow> view (pop q (length (view q))) = []"
  by (simp add: view_pop)

end

subsection \<open>\<^verbatim>\<open>CursorBuf\<close>\<close>

record CursorBuf =
  cb_data :: bytes
  cb_cap :: nat
  cb_head :: nat

text \<open>\<^verbatim>\<open>Vec\<close>'s amortised growth: at least double, at least what is needed, at least 8 bytes.\<close>

definition vec_grow :: "nat \<Rightarrow> nat \<Rightarrow> nat" where
  "vec_grow cap need = (if need \<le> cap then cap else max (max (2 * cap) need) 8)"

definition with_capacity :: "nat \<Rightarrow> CursorBuf" where
  "with_capacity cap = \<lparr>cb_data = [], cb_cap = cap, cb_head = 0\<rparr>"

definition cb_len :: "CursorBuf \<Rightarrow> nat" where
  "cb_len q = length (cb_data q) - cb_head q"

definition cb_is_empty :: "CursorBuf \<Rightarrow> bool" where
  "cb_is_empty q = (cb_head q = length (cb_data q))"

definition as_slice :: "CursorBuf \<Rightarrow> bytes" where
  "as_slice q = drop (cb_head q) (cb_data q)"

definition compact :: "CursorBuf \<Rightarrow> CursorBuf" where
  "compact q = (if cb_head q = 0 then q
     else q\<lparr>cb_data := drop (cb_head q) (cb_data q), cb_head := 0\<rparr>)"

definition extend_from_slice :: "CursorBuf \<Rightarrow> bytes \<Rightarrow> CursorBuf" where
  "extend_from_slice q bs =
     (if bs = [] then q
      else
        let need = length (cb_data q) + length bs;
            q' = (if need > cb_cap q \<and> cb_head q > 0 then compact q else q)
        in q'\<lparr>cb_data := cb_data q' @ bs,
              cb_cap := vec_grow (cb_cap q') (length (cb_data q') + length bs)\<rparr>)"

definition cb_consume :: "CursorBuf \<Rightarrow> nat \<Rightarrow> CursorBuf" where
  "cb_consume q n =
     (let h = cb_head q + n
      in if h = length (cb_data q) then q\<lparr>cb_data := [], cb_head := 0\<rparr> else q\<lparr>cb_head := h\<rparr>)"

definition cb_clear :: "CursorBuf \<Rightarrow> CursorBuf" where
  "cb_clear q = q\<lparr>cb_data := [], cb_head := 0\<rparr>"

text \<open>The invariant: the cursor stays inside the data and the data inside the allocation.  It is
  what makes \<^verbatim>\<open>&data[head..]\<close> and the raw pointer of \<^verbatim>\<open>as_ptr\<close> valid.\<close>

definition cb_wf :: "CursorBuf \<Rightarrow> bool" where
  "cb_wf q \<longleftrightarrow> cb_head q \<le> length (cb_data q) \<and> length (cb_data q) \<le> cb_cap q"

lemma vec_grow_ge: "need \<le> vec_grow cap need" "cap \<le> vec_grow cap need"
  by (auto simp: vec_grow_def)

lemma as_slice_with_capacity [simp]: "as_slice (with_capacity n) = []"
  by (simp add: as_slice_def with_capacity_def)

lemma cb_wf_with_capacity [wf_intros]: "cb_wf (with_capacity n)"
  by (simp add: cb_wf_def with_capacity_def)

lemma length_as_slice: "length (as_slice q) = cb_len q"
  by (simp add: as_slice_def cb_len_def)

lemma as_slice_compact [simp]: "as_slice (compact q) = as_slice q"
  by (simp add: compact_def as_slice_def)

lemma as_slice_clear [simp]: "as_slice (cb_clear q) = []"
  by (simp add: cb_clear_def as_slice_def)

lemma cb_wf_clear [wf_intros]: "cb_wf q \<Longrightarrow> cb_wf (cb_clear q)"
  by (simp add: cb_clear_def cb_wf_def)

lemma as_slice_consume [simp]: "as_slice (cb_consume q n) = drop n (as_slice q)"
  by (auto simp: cb_consume_def as_slice_def Let_def add.commute)

lemma cb_wf_consume [wf_intros]: "cb_wf q \<Longrightarrow> n \<le> length (as_slice q) \<Longrightarrow> cb_wf (cb_consume q n)"
  by (auto simp: cb_consume_def cb_wf_def Let_def as_slice_def)

lemma as_slice_extend: "cb_wf q \<Longrightarrow> as_slice (extend_from_slice q bs) = as_slice q @ bs"
  by (auto simp: extend_from_slice_def as_slice_def compact_def cb_wf_def Let_def)

lemma cb_wf_extend [wf_intros]: "cb_wf q \<Longrightarrow> cb_wf (extend_from_slice q bs)"
  using vec_grow_ge by (auto simp: extend_from_slice_def cb_wf_def compact_def Let_def)

lemma cb_is_empty_iff: "cb_wf q \<Longrightarrow> cb_is_empty q \<longleftrightarrow> as_slice q = []"
  by (auto simp: cb_is_empty_def as_slice_def cb_wf_def)

interpretation cursor: byte_queue as_slice cb_wf extend_from_slice cb_consume
  by unfold_locales (auto simp: as_slice_extend intro: wf_intros)

text \<open>Moving the bytes is avoided while they fit: an append that fits the allocation keeps the cursor
  and never reallocates, and one that does not fit moves the unread bytes to the front first, so the
  allocation grows only when the unread bytes and the new ones do not fit together.\<close>

lemma extend_realloc_iff:
  assumes "cb_wf q" "bs \<noteq> []"
  shows "cb_cap (extend_from_slice q bs) \<noteq> cb_cap q \<longleftrightarrow> cb_cap q < length (as_slice q) + length bs"
  using assms
  by (auto simp: extend_from_slice_def cb_wf_def compact_def Let_def as_slice_def vec_grow_def)

end
