(* ===== verification/Ws_Frame.thy ===== *)
theory Ws_Frame
  imports Prelude
begin

text \<open>
  Frame headers of RFC 6455, \<^verbatim>\<open>ws/frame.rs\<close>: \<open>parse_header\<close> and \<open>encode_header\<close>.  The
  specification is \<open>wire_header\<close>, the canonical byte string of a header, together with
  \<open>valid_header\<close>; the parser accepts exactly the canonical encodings of valid headers and the
  encoder writes exactly them.
\<close>

datatype OpCode = Continuation | Text | Binary | Close | Ping | Pong

fun is_control :: "OpCode \<Rightarrow> bool" where
  "is_control Close = True"
| "is_control Ping = True"
| "is_control Pong = True"
| "is_control _ = False"

fun is_data :: "OpCode \<Rightarrow> bool" where
  "is_data Continuation = True"
| "is_data Text = True"
| "is_data Binary = True"
| "is_data _ = False"

fun opcode_u8 :: "OpCode \<Rightarrow> u8" where
  "opcode_u8 Continuation = 0x0"
| "opcode_u8 Text = 0x1"
| "opcode_u8 Binary = 0x2"
| "opcode_u8 Close = 0x8"
| "opcode_u8 Ping = 0x9"
| "opcode_u8 Pong = 0xA"

datatype FrameError =
    RsvBitsSet
  | InvalidOpCode u8
  | ControlFrameFragmented
  | ControlFrameTooLarge
  | PayloadTooLarge
  | NonMinimalPayloadLength
  | ServerSentMaskedFrame

definition opcode_try_from :: "u8 \<Rightarrow> (FrameError, OpCode) result" where
  "opcode_try_from v =
     (if v = 0x0 then Ok Continuation
      else if v = 0x1 then Ok Text
      else if v = 0x2 then Ok Binary
      else if v = 0x8 then Ok Close
      else if v = 0x9 then Ok Ping
      else if v = 0xA then Ok Pong
      else Err (InvalidOpCode v))"

record FrameHeader =
  h_fin :: bool
  h_opcode :: OpCode
  h_mask :: "key4 option"
  h_payload_len :: u64

definition MAX_HEADER_LEN :: nat where
  "MAX_HEADER_LEN = 14"

definition MAX_CONTROL_PAYLOAD :: u64 where
  "MAX_CONTROL_PAYLOAD = 125"

text \<open>The length field: \<open>None\<close> is the early \<^verbatim>\<open>return Ok(None)\<close>.\<close>

definition parse_len_field :: "bytes \<Rightarrow> u8 \<Rightarrow> (FrameError, (u64 \<times> nat) option) result" where
  "parse_len_field buf len7 =
     (if len7 \<le> 125 then Ok (Some (ucast len7, 0))
      else if len7 = 126 then
        (if length buf < 4 then Ok None
         else
           let val = u16_from_be (buf ! 2) (buf ! 3)
           in if val < 126 then Err NonMinimalPayloadLength else Ok (Some (ucast val, 2)))
      else if len7 = 127 then
        (if length buf < 10 then Ok None
         else
           let val = u64_from_be (take 8 (drop 2 buf))
           in if val AND 0x8000000000000000 \<noteq> 0 then Err PayloadTooLarge
              else if val \<le> 0xFFFF then Err NonMinimalPayloadLength
              else Ok (Some (val, 8)))
      else Panic)"

definition parse_header :: "bytes \<Rightarrow> (FrameError, (FrameHeader \<times> nat) option) result" where
  "parse_header buf =
     (if length buf < 2 then Ok None
      else
        let b0 = buf ! 0; b1 = buf ! 1; fin = (b0 AND 0x80 \<noteq> 0)
        in if b0 AND 0x70 \<noteq> 0 then Err RsvBitsSet
           else and_then (opcode_try_from (b0 AND 0x0F)) (\<lambda>opcode.
             let masked = (b1 AND 0x80 \<noteq> 0); len7 = b1 AND 0x7F
             in and_then (parse_len_field buf len7) (\<lambda>fld.
               case fld of
                 None \<Rightarrow> Ok None
               | Some (payload_len, len_field_size) \<Rightarrow>
                   if is_control opcode \<and> \<not> fin then Err ControlFrameFragmented
                   else if is_control opcode \<and> payload_len > MAX_CONTROL_PAYLOAD
                   then Err ControlFrameTooLarge
                   else
                     let mask_field_size = (if masked then 4 else 0);
                         header_size = 2 + len_field_size + mask_field_size
                     in if length buf < header_size then Ok None
                        else
                          let mkey = (if masked then Some (key_at buf (2 + len_field_size)) else None)
                          in Ok (Some (\<lparr>h_fin = fin, h_opcode = opcode, h_mask = mkey,
                                        h_payload_len = payload_len\<rparr>, header_size)))))"

text \<open>The encoder writes into a caller's buffer and returns it with the number of bytes written.\<close>

definition encode_header ::
  "bytes \<Rightarrow> bool \<Rightarrow> OpCode \<Rightarrow> key4 option \<Rightarrow> u64 \<Rightarrow> ('e, bytes \<times> nat) result" where
  "encode_header dst fin opcode mkey payload_len =
     (let b0 = (if fin then opcode_u8 opcode OR 0x80 else opcode_u8 opcode);
          masked_bit = (if mkey \<noteq> None then 0x80 else 0 :: u8)
      in and_then (write_at dst 0 [b0]) (\<lambda>dst.
         and_then
           (if payload_len \<le> 125 then
              and_then (write_at dst 1 [masked_bit OR ucast payload_len]) (\<lambda>dst. Ok (dst, 2))
            else if payload_len \<le> 0xFFFF then
              and_then (write_at dst 1 [masked_bit OR 126]) (\<lambda>dst.
              and_then (write_at dst 2 (u16_to_be (ucast payload_len))) (\<lambda>dst. Ok (dst, 4)))
            else
              and_then (write_at dst 1 [masked_bit OR 127]) (\<lambda>dst.
              and_then (write_at dst 2 (u64_to_be payload_len)) (\<lambda>dst. Ok (dst, 10))))
           (\<lambda>(dst, idx).
              case mkey of
                None \<Rightarrow> Ok (dst, idx)
              | Some m \<Rightarrow> and_then (write_at dst idx (bytes_of_key m)) (\<lambda>dst. Ok (dst, idx + 4)))))"

subsection \<open>Specification: the canonical wire form\<close>

definition wire_len :: "bool \<Rightarrow> u64 \<Rightarrow> bytes" where
  "wire_len masked n =
     (let m = (if masked then 0x80 else 0)
      in if n \<le> 125 then [m OR ucast n]
         else if n \<le> 0xFFFF then (m OR 126) # u16_to_be (ucast n)
         else (m OR 127) # u64_to_be n)"

definition wire_header :: "FrameHeader \<Rightarrow> bytes" where
  "wire_header h =
     (if h_fin h then opcode_u8 (h_opcode h) OR 0x80 else opcode_u8 (h_opcode h)) #
     wire_len (h_mask h \<noteq> None) (h_payload_len h) @
     (case h_mask h of None \<Rightarrow> [] | Some m \<Rightarrow> bytes_of_key m)"

definition valid_header :: "FrameHeader \<Rightarrow> bool" where
  "valid_header h \<longleftrightarrow> unat (h_payload_len h) < 2 ^ 63 \<and>
     (is_control (h_opcode h) \<longrightarrow> h_fin h \<and> h_payload_len h \<le> 125)"

subsection \<open>Bytes of a header\<close>

lemma and_0x7F [byte_simps]: "(x :: u8) AND 0x7F = take_bit 7 x"
  by (simp add: take_bit_eq_mask mask_eq_exp_minus_1)

lemma and_0x0F [byte_simps]: "(x :: u8) AND 0x0F = take_bit 4 x"
  by (simp add: take_bit_eq_mask mask_eq_exp_minus_1)

lemma and_0x80_iff: "(x :: u8) AND 0x80 \<noteq> 0 \<longleftrightarrow> bit x 7"
  using and_exp_eq_0_iff_not_bit [of x 7] by simp

lemma and_exp_cases: "(x :: 'a::len word) AND 2 ^ k = (if bit x k then 2 ^ k else 0)"
  by (rule bit_eqI) (auto simp: bit_and_iff bit_exp_iff)

lemma and_0x80_cases: "(x :: u8) AND 0x80 = (if bit x 7 then 0x80 else 0)"
  using and_exp_cases [of x 7] by simp

lemma u8_split_7: "(if bit x 7 then 0x80 else 0) OR (x AND 0x7F) = (x :: u8)"
proof -
  have "(x AND 0x80) OR (x AND 0x7F) = x AND 0xFF"
    by (simp flip: bit.conj_disj_distrib)
  also have "(0xFF :: u8) = -1" by simp
  finally show ?thesis by (simp only: and_0x80_cases and.right_neutral)
qed

lemma len7_le_127: "(x :: u8) AND 0x7F \<le> 127"
  by (simp add: word_and_le1)

lemma masked_or_bits:
  fixes n :: u8
  assumes "n \<le> 127"
  shows "((if m then 0x80 else 0) OR n) AND 0x7F = n"
    and "((if m then 0x80 else 0) OR n) AND 0x80 \<noteq> 0 \<longleftrightarrow> m"
proof -
  have n: "take_bit 7 n = n"
    using assms by (intro take_bit_word_small) (simp add: word_le_nat_alt)
  show "((if m then 0x80 else 0) OR n) AND 0x7F = n"
    using n by (simp add: and_0x7F take_bit_or)
  show "((if m then 0x80 else 0) OR n) AND 0x80 \<noteq> 0 \<longleftrightarrow> m"
    using n by (auto simp: and_0x80_iff bit_or_iff bit_take_bit_iff dest: arg_cong [where f = "\<lambda>w. bit w 7"])
qed

lemma first_byte_iff:
  "(b0 AND 0x70 = 0 \<and> opcode_try_from (b0 AND 0x0F) = Ok op \<and> (b0 AND 0x80 \<noteq> 0) = fin)
    \<longleftrightarrow> b0 = (if fin then opcode_u8 op OR 0x80 else opcode_u8 op)" (is "?l \<longleftrightarrow> ?r")
proof
  assume l: ?l
  have "b0 AND 0x80 OR b0 AND 0x70 OR b0 AND 0x0F = b0 AND 0xFF"
    by (simp flip: bit.conj_disj_distrib)
  also have "(0xFF :: u8) = -1" by simp
  finally have b: "b0 = b0 AND 0x80 OR b0 AND 0x0F"
    using l by simp
  have "b0 AND 0x0F = opcode_u8 op"
    using l by (auto simp: opcode_try_from_def split: if_splits)
  then have "b0 = (if fin then 0x80 else 0) OR opcode_u8 op"
    using b l by (simp add: and_0x80_cases split: if_splits)
  then show ?r by (simp add: or.commute)
next
  assume ?r
  then show ?l by (cases op; cases fin) (simp_all add: opcode_try_from_def)
qed

lemma ucast_u64_of_u8 [byte_simps]: "unat (ucast (x :: u8) :: u64) = unat x"
  using unat_u8_less [of x] by (simp add: unat_ucast_mod)

lemma ucast_u64_of_u16 [byte_simps]: "unat (ucast (x :: u16) :: u64) = unat x"
  using unat_u16_less [of x] by (simp add: unat_ucast_mod)

lemma ucast_u8_inverse: "n \<le> 125 \<Longrightarrow> ucast (ucast (n :: u64) :: u8) = n"
  by (simp add: word_unat_eq_iff word_le_nat_alt unat_ucast_mod)

lemma ucast_u16_inverse: "n \<le> 0xFFFF \<Longrightarrow> ucast (ucast (n :: u64) :: u16) = n"
  by (simp add: word_unat_eq_iff word_le_nat_alt unat_ucast_mod)

lemma ucast_u64_inverse: "ucast (ucast (x :: u8) :: u64) = x" "ucast (ucast (y :: u16) :: u64) = y"
  using unat_u8_less [of x] unat_u16_less [of y] by (simp_all add: word_unat_eq_iff unat_ucast_mod)

lemma msb_u64_iff: "(v :: u64) AND 0x8000000000000000 \<noteq> 0 \<longleftrightarrow> 2 ^ 63 \<le> unat v"
proof -
  have "v AND 2 ^ 63 = 0 \<longleftrightarrow> \<not> bit v 63"
    by (simp only: and_exp_cases) simp
  moreover have "bit v 63 \<longleftrightarrow> 2 ^ 63 \<le> unat v"
  proof -
    have "unat v div 2 ^ 63 < 2" using unat_u64_less [of v] by simp
    then have "odd k \<longleftrightarrow> k = 1" if "k = unat v div 2 ^ 63" for k
      unfolding that [symmetric] by (metis One_nat_def less_2_cases_iff odd_one dvd_0_right)
    then have "odd (unat v div 2 ^ 63) \<longleftrightarrow> unat v div 2 ^ 63 = 1" by blast
    also have "\<dots> \<longleftrightarrow> 2 ^ 63 \<le> unat v" using unat_u64_less [of v] by auto
    finally show ?thesis
      using bit_unsigned_iff [of v 63, where ?'a = nat] by (simp add: bit_iff_odd)
  qed
  ultimately show ?thesis by simp
qed

subsection \<open>The parser accepts exactly the canonical headers\<close>

lemma len7_cases: "b1 AND 0x7F \<le> 125 \<or> b1 AND 0x7F = 126 \<or> b1 AND 0x7F = (127 :: u8)"
proof -
  have "unat (b1 AND 0x7F) \<le> 127"
    using len7_le_127 [of b1] by (simp add: word_le_nat_alt)
  then show ?thesis
    by (simp add: word_le_nat_alt word_unat_eq_iff) arith
qed

lemma parse_len_field_not_Panic: "parse_len_field buf (b1 AND 0x7F) \<noteq> Panic"
  using len7_cases [of b1] by (auto simp: parse_len_field_def Let_def)

lemma opcode_try_from_not_Panic: "opcode_try_from v \<noteq> Panic"
  by (simp add: opcode_try_from_def)

lemma parse_header_not_Panic: "parse_header buf \<noteq> Panic"
  by (auto simp: parse_header_def Let_def and_then_iffs parse_len_field_not_Panic
      opcode_try_from_not_Panic split: option.splits)

lemma parse_len_field_wire:
  assumes "unat n < 2 ^ 63" and "buf = b0 # wire_len m n @ rest"
  shows "parse_len_field buf (buf ! 1 AND 0x7F) = Ok (Some (n, length (wire_len m n) - 1))"
    and "buf ! 1 AND 0x80 \<noteq> 0 \<longleftrightarrow> m"
proof -
  consider (small) "n \<le> 125" | (mid) "\<not> n \<le> 125" "n \<le> 0xFFFF" | (big) "\<not> n \<le> 125" "\<not> n \<le> 0xFFFF"
    by blast
  then have "parse_len_field buf (buf ! 1 AND 0x7F) = Ok (Some (n, length (wire_len m n) - 1)) \<and>
    (buf ! 1 AND 0x80 \<noteq> 0 \<longleftrightarrow> m)"
  proof cases
    case small
    have "(ucast n :: u8) \<le> 125"
      using small by (simp add: word_le_nat_alt unat_ucast_mod)
    moreover from this have "(ucast n :: u8) \<le> 127" by (rule order_trans) simp
    ultimately show ?thesis
      using small assms masked_or_bits [of "ucast n" m]
      by (simp add: wire_len_def parse_len_field_def ucast_u8_inverse)
  next
    case mid
    obtain a b where ab: "u16_to_be (ucast n) = [a, b]"
      using list_of_length_2 [of "u16_to_be (ucast n)"] by auto
    have v: "u16_from_be a b = ucast n" using ab by (rule u16_from_be_to_be)
    have "\<not> (ucast n :: u16) < 126"
      using mid by (simp add: word_le_nat_alt word_less_nat_alt unat_ucast_mod)
    then show ?thesis
      using mid assms masked_or_bits [of 126 m] ab
      by (simp add: wire_len_def parse_len_field_def v ucast_u16_inverse)
  next
    case big
    have "n AND 0x8000000000000000 = 0" using assms msb_u64_iff [of n] by simp
    then show ?thesis
      using big assms masked_or_bits [of 127 m]
      by (simp add: wire_len_def parse_len_field_def u64_from_be_to_be)
  qed
  then show "parse_len_field buf (buf ! 1 AND 0x7F) = Ok (Some (n, length (wire_len m n) - 1))"
    and "buf ! 1 AND 0x80 \<noteq> 0 \<longleftrightarrow> m" by auto
qed

lemma parse_len_field_sound:
  assumes "parse_len_field buf (buf ! 1 AND 0x7F) = Ok (Some (n, k))" and "2 \<le> length buf"
  defines "m \<equiv> buf ! 1 AND 0x80 \<noteq> 0"
  shows "unat n < 2 ^ 63 \<and> k + 1 = length (wire_len m n) \<and> k + 2 \<le> length buf \<and>
    take (k + 1) (drop 1 buf) = wire_len m n"
proof -
  define b1 where "b1 = buf ! 1"
  have b1: "(if m then 0x80 else 0) OR (b1 AND 0x7F) = b1"
    using u8_split_7 [of b1] by (simp add: m_def b1_def and_0x80_iff del: One_nat_def)
  obtain b0 tl where buf: "buf = b0 # b1 # tl"
    using assms(2) by (cases buf; cases "tl buf") (auto simp: b1_def)
  consider (small) "b1 AND 0x7F \<le> 125" | (mid) "\<not> b1 AND 0x7F \<le> 125" "b1 AND 0x7F = 126"
    | (big) "\<not> b1 AND 0x7F \<le> 125" "b1 AND 0x7F = 127"
    using assms(1) by (auto simp: parse_len_field_def b1_def split: if_splits)
  then show ?thesis
  proof cases
    case small
    then have "n = ucast (b1 AND 0x7F)" "k = 0"
      using assms(1) by (auto simp: parse_len_field_def b1_def)
    then show ?thesis
      using small b1 buf
      by (auto simp: wire_len_def word_le_nat_alt ucast_u64_of_u8 ucast_u64_inverse)
  next
    case mid
    then obtain a b rest where tl: "tl = a # b # rest" "n = ucast (u16_from_be a b)" "k = 2"
      "\<not> u16_from_be a b < 126"
      using assms(1) buf by (cases tl; cases "List.tl tl") (auto simp: parse_len_field_def Let_def split: if_splits)
    then show ?thesis
      using mid b1 buf unat_u16_less [of "u16_from_be a b"]
      by (auto simp: wire_len_def word_le_nat_alt word_less_nat_alt ucast_u64_of_u16 ucast_u64_inverse u16_to_be_from_be)
  next
    case big
    then have n: "n = u64_from_be (take 8 tl)" "k = 8" "8 \<le> length tl" "n AND 0x8000000000000000 = 0" "\<not> n \<le> 0xFFFF"
      using assms(1) buf by (auto simp: parse_len_field_def Let_def split: if_splits)
    moreover from n(5) have "\<not> n \<le> 125" by (simp add: word_le_nat_alt)
    ultimately show ?thesis
      using big b1 buf msb_u64_iff [of n]
      by (auto simp: wire_len_def u64_to_be_from_be)
  qed
qed

lemma length_wire_len: "length (wire_len m n) = (if n \<le> 125 then 1 else if n \<le> 0xFFFF then 3 else 9)"
  by (simp add: wire_len_def)

lemma length_wire_header_bounds: "2 \<le> length (wire_header h)" "length (wire_header h) \<le> MAX_HEADER_LEN"
  by (auto simp: wire_header_def MAX_HEADER_LEN_def length_wire_len split: option.split)

lemma parse_header_wire:
  assumes "valid_header h"
  shows "parse_header (wire_header h @ rest) = Ok (Some (h, length (wire_header h)))"
proof -
  define b0 where "b0 = (if h_fin h then opcode_u8 (h_opcode h) OR 0x80 else opcode_u8 (h_opcode h))"
  define m where "m \<longleftrightarrow> h_mask h \<noteq> None"
  define tail where "tail = (case h_mask h of None \<Rightarrow> [] | Some k \<Rightarrow> bytes_of_key k) @ rest"
  define buf where "buf = b0 # wire_len m (h_payload_len h) @ tail"
  have buf: "wire_header h @ rest = buf"
    by (simp add: wire_header_def buf_def b0_def m_def tail_def)
  have "buf ! 0 = b0" by (simp add: buf_def)
  then have b0: "buf ! 0 AND 0x70 = 0" "opcode_try_from (buf ! 0 AND 0x0F) = Ok (h_opcode h)"
    "buf ! 0 AND 0x80 \<noteq> 0 \<longleftrightarrow> h_fin h"
    using first_byte_iff [of b0 "h_opcode h" "h_fin h"] b0_def by auto
  have l: "unat (h_payload_len h) < 2 ^ 63" using assms by (simp add: valid_header_def)
  note b1 = parse_len_field_wire [OF l buf_def]
  have len: "\<not> length buf < 2" by (simp add: buf_def length_wire_len)
  have hs: "2 + (length (wire_len m (h_payload_len h)) - 1) + (if m then 4 else 0) = length (wire_header h)"
    by (auto simp: wire_header_def m_def length_wire_len split: option.split)
  have mk: "(if m then Some (key_at buf (2 + (length (wire_len m (h_payload_len h)) - 1))) else None) = h_mask h"
    by (cases "h_mask h") (auto simp: key_at_def buf_def tail_def m_def nth_append length_wire_len)
  have c: "is_control (h_opcode h) \<Longrightarrow> h_fin h" "is_control (h_opcode h) \<Longrightarrow> \<not> MAX_CONTROL_PAYLOAD < h_payload_len h"
    using assms by (auto simp: valid_header_def MAX_CONTROL_PAYLOAD_def)
  have "\<not> length buf < length (wire_header h)" by (simp flip: buf)
  then show ?thesis
    unfolding buf parse_header_def Let_def using len b0 b1 hs mk c by (simp del: One_nat_def)
qed

lemma parse_header_SomeE:
  assumes "parse_header buf = Ok (Some (h, n))"
  obtains op pl k fin m where
    "2 \<le> length buf" "buf ! 0 AND 0x70 = 0" "opcode_try_from (buf ! 0 AND 0x0F) = Ok op"
    "parse_len_field buf (buf ! 1 AND 0x7F) = Ok (Some (pl, k))"
    "m \<longleftrightarrow> buf ! 1 AND 0x80 \<noteq> 0" "fin \<longleftrightarrow> buf ! 0 AND 0x80 \<noteq> 0"
    "is_control op \<longrightarrow> fin \<and> \<not> MAX_CONTROL_PAYLOAD < pl" "n = 2 + k + (if m then 4 else 0)" "n \<le> length buf"
    "h = \<lparr>h_fin = fin, h_opcode = op, h_mask = (if m then Some (key_at buf (2 + k)) else None), h_payload_len = pl\<rparr>"
proof -
  define m where "m \<longleftrightarrow> buf ! 1 AND 0x80 \<noteq> 0"
  define fin where "fin \<longleftrightarrow> buf ! 0 AND 0x80 \<noteq> 0"
  note body = assms [unfolded parse_header_def Let_def, folded m_def fin_def]
  obtain op fld where op: "2 \<le> length buf" "buf ! 0 AND 0x70 = 0" "opcode_try_from (buf ! 0 AND 0x0F) = Ok op"
    "parse_len_field buf (buf ! 1 AND 0x7F) = Ok fld"
    using body by (cases "length buf < 2"; cases "buf ! 0 AND 0x70 = 0") (auto simp: and_then_eq_Ok_iff)
  then obtain pl k where fld: "fld = Some (pl, k)"
    using body by (cases fld) auto
  have p: "is_control op \<longrightarrow> fin \<and> \<not> MAX_CONTROL_PAYLOAD < pl" "n = 2 + k + (if m then 4 else 0)" "n \<le> length buf"
    "h = \<lparr>h_fin = fin, h_opcode = op, h_mask = (if m then Some (key_at buf (2 + k)) else None), h_payload_len = pl\<rparr>"
    using body op by (auto simp: fld simp del: One_nat_def split: if_split_asm)
  show thesis by (rule that [OF op(1-3) op(4) [unfolded fld] m_def fin_def p])
qed

lemma parse_header_sound:
  assumes "parse_header buf = Ok (Some (h, n))"
  shows "valid_header h \<and> n = length (wire_header h) \<and> take n buf = wire_header h \<and> n \<le> length buf"
  using assms
proof (cases rule: parse_header_SomeE)
  case p: (1 op pl k fin m)
  note len = parse_len_field_sound [OF p(4,1), folded p(5)]
  have b0: "buf ! 0 = (if fin then opcode_u8 op OR 0x80 else opcode_u8 op)"
    using first_byte_iff [of "buf ! 0" op fin] p by simp
  obtain b tl where buf: "buf = b # tl" using p(1) by (cases buf) auto
  have "take n buf = buf ! 0 # take (k + 1) tl @ take (n - k - 2) (drop (k + 1) tl)"
    using p(8) by (simp add: buf take_Cons' take_add [symmetric])
  moreover have "take (n - k - 2) (drop (k + 1) tl) = (if m then bytes_of_key (key_at buf (2 + k)) else [])"
    using p(8,9) by (auto simp: buf key_at_def take_4_nth add.commute)
  ultimately show ?thesis
    using p(7-10) len b0
    by (auto simp: wire_header_def valid_header_def MAX_CONTROL_PAYLOAD_def buf simp del: not_None_eq)
qed

lemma parse_header_stable:
  assumes "parse_header buf \<noteq> Ok None"
  shows "parse_header (buf @ rest) = parse_header buf"
proof -
  have len: "2 \<le> length buf" using assms by (simp add: parse_header_def split: if_split_asm)
  have fld: "parse_len_field (buf @ rest) l = parse_len_field buf l" if "parse_len_field buf l \<noteq> Ok None" for l
    using that by (auto simp: parse_len_field_def nth_append Let_def split: if_split_asm)
  have key: "i + 4 \<le> length buf \<Longrightarrow> key_at (buf @ rest) i = key_at buf i" for i
    by (simp add: nth_append key_at_def)
  have nths: "(buf @ rest) ! 0 = buf ! 0" "(buf @ rest) ! 1 = buf ! 1"
    using len by (cases buf; cases "tl buf"; auto)+
  show ?thesis
  proof (cases "buf ! 0 AND 0x70 = 0 \<and> (\<exists>op. opcode_try_from (buf ! 0 AND 0x0F) = Ok op)")
    case False
    then show ?thesis
      using len unfolding parse_header_def nths Let_def
      by (cases "opcode_try_from (buf ! 0 AND 0x0F)") auto
  next
    case True
    then have "parse_len_field buf (buf ! 1 AND 0x7F) \<noteq> Ok None"
      using assms len by (auto simp: parse_header_def)
    then show ?thesis
      using True len assms unfolding parse_header_def nths Let_def fld [OF \<open>parse_len_field _ _ \<noteq> _\<close>]
      by (cases "parse_len_field buf (buf ! 1 AND 0x7F)")
        (auto simp del: One_nat_def intro!: key split: option.split if_split_asm)
  qed
qed

lemma parse_header_cases:
  obtains (err) e where "parse_header bs = Err e"
    | (more) "parse_header bs = Ok None"
    | (complete) h n where "parse_header bs = Ok (Some (h, n))" "n \<le> length bs"
proof (cases "parse_header bs")
  case (Ok v)
  then show ?thesis using more complete parse_header_sound [of bs] by (cases v) auto
qed (use err parse_header_not_Panic in auto)

lemma encode_header_correct:
  fixes dst :: bytes and fin :: bool and opcode :: OpCode and mkey :: "key4 option" and n :: u64
  assumes "MAX_HEADER_LEN \<le> length dst"
  defines "w \<equiv> wire_header \<lparr>h_fin = fin, h_opcode = opcode, h_mask = mkey, h_payload_len = n\<rparr>"
  shows "encode_header dst fin opcode mkey n = Ok (w @ drop (length w) dst, length w)"
proof -
  have d: "14 \<le> length dst" using assms(1) by (simp add: MAX_HEADER_LEN_def)
  consider (small) "n \<le> 125" | (mid) "\<not> n \<le> 125" "n \<le> 0xFFFF" | (big) "\<not> n \<le> 125" "\<not> n \<le> 0xFFFF"
    by blast
  then show ?thesis
    using d by cases (auto simp: encode_header_def w_def wire_header_def wire_len_def Let_def numeral_eq_Suc
        simp del: not_None_eq split: option.split)
qed

subsection \<open>Properties\<close>

text \<open>C10. Header parsing is exact: \<^verbatim>\<open>parse_header\<close> returns \<^verbatim>\<open>Some((h, n))\<close> if and only if the buffer
  begins with the canonical RFC 6455 encoding of \<^verbatim>\<open>h\<close>, of length \<^verbatim>\<open>n\<close>, and \<^verbatim>\<open>h\<close> is legal (63-bit
  length; control frames unfragmented and at most 125 bytes).  In particular reserved bits, reserved
  opcodes and non-minimal lengths are never accepted, and every legal header is.\<close>

theorem parse_header_iff:
  "parse_header buf = Ok (Some (h, n)) \<longleftrightarrow>
     valid_header h \<and> n = length (wire_header h) \<and> take n buf = wire_header h"
proof
  assume r: "valid_header h \<and> n = length (wire_header h) \<and> take n buf = wire_header h"
  then have "buf = wire_header h @ drop n buf" by (metis append_take_drop_id)
  then show "parse_header buf = Ok (Some (h, n))"
    using r parse_header_wire [of h "drop n buf"] by simp
qed (use parse_header_sound in blast)

text \<open>C25. Encode/parse round trip: on any buffer of at least 14 bytes \<^verbatim>\<open>encode_header\<close> succeeds,
  touches only the bytes it reports, reports at most 14, and \<^verbatim>\<open>parse_header\<close> on the buffer gives the
  header and the byte count back, whatever follows.\<close>

theorem encode_header_roundtrip:
  assumes "MAX_HEADER_LEN \<le> length dst" and "valid_header h"
  shows "\<exists>dst' n. encode_header dst (h_fin h) (h_opcode h) (h_mask h) (h_payload_len h) = Ok (dst', n) \<and>
    n \<le> MAX_HEADER_LEN \<and> length dst' = length dst \<and> drop n dst' = drop n dst \<and>
    parse_header dst' = Ok (Some (h, n))"
proof -
  have eta: "\<lparr>h_fin = h_fin h, h_opcode = h_opcode h, h_mask = h_mask h, h_payload_len = h_payload_len h\<rparr> = h"
    by simp
  note enc = encode_header_correct [OF assms(1), of "h_fin h" "h_opcode h" "h_mask h" "h_payload_len h",
      unfolded eta]
  show ?thesis
    using parse_header_wire [OF assms(2)] length_wire_header_bounds [of h] assms(1) by (simp add: enc)
qed

theorem encode_header_roundtrip_witness:
  "\<exists>dst' n. encode_header (replicate 14 0) True Text (Some (1, 2, 3, 4)) 300 = Ok (dst', n) \<and>
    n \<le> MAX_HEADER_LEN \<and> length dst' = 14 \<and> drop n dst' = drop n (replicate 14 0) \<and>
    parse_header dst' = Ok (Some (\<lparr>h_fin = True, h_opcode = Text, h_mask = Some (1, 2, 3, 4), h_payload_len = 300\<rparr>, n))"
  using encode_header_roundtrip [of "replicate 14 0"
      "\<lparr>h_fin = True, h_opcode = Text, h_mask = Some (1, 2, 3, 4), h_payload_len = 300\<rparr>"]
  by (simp add: MAX_HEADER_LEN_def valid_header_def)

text \<open>C27. Streaming safety of the header parser: it never panics, and once it has given a verdict
  (a header or an error) more bytes never change the verdict, so that parsing a growing buffer is
  the same as parsing the whole.\<close>

theorem parse_header_streaming:
  "parse_header buf \<noteq> Panic \<and> (parse_header buf = Ok None \<or> parse_header (buf @ rest) = parse_header buf)"
  using parse_header_not_Panic parse_header_stable by blast

end
