(* ===== verification/Ws_Parser.thy ===== *)
theory Ws_Parser
  imports Ws_Frame
begin

text \<open>
  The streaming frame parser of \<^verbatim>\<open>ws/parser.rs\<close>.  \<^verbatim>\<open>FrameParser\<close> has the single field \<^verbatim>\<open>state\<close>,
  so a parser is a \<open>ParserState\<close>; \<open>feed_one\<close> is the loop of \<^verbatim>\<open>FrameParser::feed_one\<close> with the
  running byte count as an argument.  \<open>feed_all\<close> is the calling convention documented there
  (\<open>loop until NeedMore\<close>), the vehicle for stating that how the bytes are cut into reads does not
  matter.
\<close>

datatype FrameEvent = FrameStart FrameHeader | PayloadChunk bytes | FrameEnd

datatype FeedOutcome = NeedMore nat | Event nat FrameEvent

datatype ParserState = Idle | HeaderPartial bytes nat | Payload nat

definition parser_new :: ParserState where
  "parser_new = Idle"

definition is_idle :: "ParserState \<Rightarrow> bool" where
  "is_idle s \<longleftrightarrow> s = Idle"

definition header_size_from_byte1 :: "u8 \<Rightarrow> ('e, nat) result" where
  "header_size_from_byte1 b1 =
     (let masked = (b1 AND 0x80 \<noteq> 0); len7 = b1 AND 0x7F; mask_field = (if masked then 4 else 0)
      in and_then
           (if len7 \<le> 125 then Ok 0 else if len7 = 126 then Ok 2 else if len7 = 127 then Ok 8 else Panic)
           (\<lambda>len_field. Ok (2 + len_field + mask_field)))"

function feed_loop :: "ParserState \<Rightarrow> bytes \<Rightarrow> nat \<Rightarrow> ParserState \<times> (FrameError, FeedOutcome) result" where
  "feed_loop Idle bs total_consumed =
     feed_loop (HeaderPartial (replicate MAX_HEADER_LEN 0) 0) bs total_consumed"
| "feed_loop (HeaderPartial partial filled) bs total_consumed =
     (case (if filled < 2 then Ok 2 else header_size_from_byte1 (partial ! 1)) of
        Err e \<Rightarrow> (HeaderPartial partial filled, Err e)
      | Panic \<Rightarrow> (HeaderPartial partial filled, Panic)
      | Ok min_needed \<Rightarrow>
          if min_needed \<le> filled then
            (case parse_header (take filled partial) of
               Err e \<Rightarrow> (HeaderPartial partial filled, Err e)
             | Panic \<Rightarrow> (HeaderPartial partial filled, Panic)
             | Ok None \<Rightarrow> (HeaderPartial partial filled, Panic)
             | Ok (Some (header, _)) \<Rightarrow>
                 if h_mask header \<noteq> None then (HeaderPartial partial filled, Err ServerSentMaskedFrame)
                 else (Payload (unat (h_payload_len header)), Ok (Event total_consumed (FrameStart header))))
          else
            let want = min_needed - filled; tk = min want (length bs)
            in if tk = 0 then (HeaderPartial partial filled, Ok (NeedMore total_consumed))
               else
                 (case write_at partial filled (take tk bs) of
                    Ok partial' \<Rightarrow> feed_loop (HeaderPartial partial' (filled + tk)) (drop tk bs) (total_consumed + tk)
                  | Err e \<Rightarrow> (HeaderPartial partial filled, Err e)
                  | Panic \<Rightarrow> (HeaderPartial partial filled, Panic)))"
| "feed_loop (Payload remaining) bs total_consumed =
     (if remaining = 0 then (Idle, Ok (Event total_consumed FrameEnd))
      else if bs = [] then (Payload remaining, Ok (NeedMore total_consumed))
      else
        let tk = min (length bs) remaining
        in (Payload (remaining - tk), Ok (Event (total_consumed + tk) (PayloadChunk (take tk bs)))))"
  by pat_completeness auto

termination feed_loop
  by (relation "measures [\<lambda>(s, bs, t). length bs, \<lambda>(s, bs, t). if s = Idle then 1 else 0]") auto

definition feed_one :: "ParserState \<Rightarrow> bytes \<Rightarrow> ParserState \<times> (FrameError, FeedOutcome) result" where
  "feed_one s bs = feed_loop s bs 0"

declare feed_loop.simps [simp del]

subsection \<open>The well-formed parser states and their view\<close>

text \<open>The header bytes collected so far, and the invariant: the 14-byte scratch array holds them
  followed by zeros and never more than one header needs.\<close>

definition hsize :: "u8 \<Rightarrow> nat" where
  "hsize b1 = 2 + (if b1 AND 0x7F \<le> 125 then 0 else if b1 AND 0x7F = 126 then 2 else 8) +
     (if b1 AND 0x80 \<noteq> 0 then 4 else 0)"

fun pending_header :: "ParserState \<Rightarrow> bytes" where
  "pending_header (HeaderPartial partial filled) = take filled partial"
| "pending_header _ = []"

definition header_state :: "bytes \<Rightarrow> ParserState" where
  "header_state pend = HeaderPartial (pend @ replicate (MAX_HEADER_LEN - length pend) 0) (length pend)"

definition header_ready :: "bytes \<Rightarrow> nat option" where
  "header_ready bs = (if length bs < 2 then None
     else if length bs < hsize (bs ! 1) then None else Some (hsize (bs ! 1)))"

lemma header_size_from_byte1_eq: "header_size_from_byte1 b1 = Ok (hsize b1)"
proof -
  have "unat (b1 AND 0x7F) \<le> 127"
    using len7_le_127 [of b1] by (simp add: word_le_nat_alt)
  then have "b1 AND 0x7F \<le> 125 \<or> b1 AND 0x7F = 126 \<or> b1 AND 0x7F = 127"
    by (simp add: word_le_nat_alt word_unat_eq_iff) arith
  then show ?thesis by (auto simp: header_size_from_byte1_def hsize_def Let_def)
qed

lemma hsize_bounds: "2 \<le> hsize b1" "hsize b1 \<le> MAX_HEADER_LEN"
  by (auto simp: hsize_def MAX_HEADER_LEN_def)

lemma parse_len_field_ready:
  assumes "2 \<le> length buf" "hsize (buf ! 1) \<le> length buf" "parse_len_field buf (buf ! 1 AND 0x7F) = Ok fld"
  shows "\<exists>n k. fld = Some (n, k) \<and> 2 + k + (if buf ! 1 AND 0x80 \<noteq> 0 then 4 else 0) = hsize (buf ! 1)"
  using assms
  by (auto simp: parse_len_field_def hsize_def Let_def split: if_split_asm)

lemma parse_header_ready:
  assumes "2 \<le> length buf" "hsize (buf ! 1) \<le> length buf"
  shows "parse_header buf \<noteq> Ok None"
proof
  assume "parse_header buf = Ok None"
  then obtain op fld where p: "opcode_try_from (buf ! 0 AND 0x0F) = Ok op"
    "parse_len_field buf (buf ! 1 AND 0x7F) = Ok fld"
    using assms(1) by (auto simp: parse_header_def Let_def and_then_eq_Ok_iff split: if_split_asm)
  then show False
    using \<open>parse_header buf = Ok None\<close> assms parse_len_field_ready [OF assms p(2)]
    by (auto simp: parse_header_def Let_def split: if_split_asm)
qed


definition header_need :: "bytes \<Rightarrow> nat" where
  "header_need pend = (if length pend < 2 then 2 else hsize (pend ! 1))"

fun parser_wf :: "ParserState \<Rightarrow> bool" where
  "parser_wf Idle \<longleftrightarrow> True"
| "parser_wf (HeaderPartial partial filled) \<longleftrightarrow>
     (let pend = take filled partial
      in HeaderPartial partial filled = header_state pend \<and> length pend \<le> header_need pend)"
| "parser_wf (Payload remaining) \<longleftrightarrow> remaining < 2 ^ 63"

subsection \<open>What one call of the parser does\<close>

definition header_verdict :: "bytes \<Rightarrow> nat \<Rightarrow> ParserState \<times> (FrameError, FeedOutcome) result" where
  "header_verdict hdr consumed =
     (case parse_header hdr of
        Ok (Some (h, _)) \<Rightarrow>
          if h_mask h \<noteq> None then (header_state hdr, Err ServerSentMaskedFrame)
          else (Payload (unat (h_payload_len h)), Ok (Event consumed (FrameStart h)))
      | Ok None \<Rightarrow> (header_state hdr, Panic)
      | Err e \<Rightarrow> (header_state hdr, Err e)
      | Panic \<Rightarrow> (header_state hdr, Panic))"

lemma header_need_bounds: "2 \<le> header_need pend" "header_need pend \<le> MAX_HEADER_LEN"
  using hsize_bounds [of "pend ! 1"] by (auto simp: header_need_def MAX_HEADER_LEN_def)

lemma header_ready_None_iff: "header_ready bs = None \<longleftrightarrow> length bs < header_need bs"
  using hsize_bounds by (auto simp: header_ready_def header_need_def)

lemma header_ready_Some_iff: "header_ready bs = Some n \<longleftrightarrow> 2 \<le> length bs \<and> n = header_need bs \<and> n \<le> length bs"
  using hsize_bounds by (auto simp: header_ready_def header_need_def)

lemma header_need_append:
  "length pend \<le> header_need pend \<Longrightarrow> header_need pend \<le> header_need (pend @ bs)"
  "2 \<le> length pend \<Longrightarrow> header_need (pend @ bs) = header_need pend"
  using hsize_bounds by (auto simp: header_need_def nth_append)

lemma header_ready_append: "header_ready bs = Some n \<Longrightarrow> header_ready (bs @ cs) = Some n"
  by (simp add: header_ready_Some_iff header_need_append(2))

lemma write_at_header_state:
  assumes "length pend + length xs \<le> MAX_HEADER_LEN"
  shows "write_at (pend @ replicate (MAX_HEADER_LEN - length pend) 0) (length pend) xs =
    Ok ((pend @ xs) @ replicate (MAX_HEADER_LEN - length (pend @ xs)) 0)"
  using assms by simp

lemma header_state_need:
  "(if length pend < 2 then Ok 2 else header_size_from_byte1 ((pend @ r) ! 1)) = Ok (header_need pend)"
  by (auto simp: header_need_def header_size_from_byte1_eq nth_append)

lemma feed_loop_header:
  assumes "length pend \<le> header_need pend"
  shows "feed_loop (header_state pend) bs t =
    (case header_ready (pend @ bs) of
       None \<Rightarrow> (header_state (pend @ bs), Ok (NeedMore (t + length bs)))
     | Some n \<Rightarrow> header_verdict (take n (pend @ bs)) (t + (n - length pend)))"
  using assms
proof (induction "length bs" arbitrary: pend bs t rule: less_induct)
  case less
  let ?need = "header_need pend" and ?r = "replicate (MAX_HEADER_LEN - length pend) 0"
  note step = feed_loop.simps(2) [of "pend @ ?r" "length pend" bs t, unfolded header_state_need, folded header_state_def,
      simplified]
  show ?case
  proof (cases "?need \<le> length pend")
    case True
    then have "length pend = ?need" using less.prems by simp
    moreover from this have "header_ready pend = Some (length pend)"
      using header_need_bounds [of pend] by (simp add: header_ready_Some_iff)
    ultimately show ?thesis
      by (simp add: step header_ready_append header_verdict_def)
  next
    case False
    define tk where "tk = min (?need - length pend) (length bs)"
    show ?thesis
    proof (cases "tk = 0")
      case True
      then have "feed_loop (header_state pend) bs t = (header_state pend, Ok (NeedMore t))"
        using False step by (simp add: tk_def [symmetric])
      moreover have "bs = []" using True False by (simp add: tk_def min_def split: if_split_asm)
      moreover have "header_ready pend = None" using False by (simp add: header_ready_None_iff)
      ultimately show ?thesis by simp
    next
      case tk: False
      have len: "length pend + tk \<le> ?need" "length (take tk bs) = tk"
        using less.prems by (auto simp: tk_def)
      have "feed_loop (header_state pend) bs t = feed_loop (header_state (pend @ take tk bs)) (drop tk bs) (t + tk)"
        using False tk len header_need_bounds(2) [of pend]
        by (subst step) (simp add: tk_def [symmetric] header_state_def)
      moreover have pend': "length (pend @ take tk bs) \<le> header_need (pend @ take tk bs)"
        using len header_need_append(1) [of pend "take tk bs"] less.prems by simp
      moreover have all: "(pend @ take tk bs) @ drop tk bs = pend @ bs" by simp
      moreover have "t + tk + (n - length (pend @ take tk bs)) = t + (n - length pend)"
        if "header_ready (pend @ bs) = Some n" for n
        using that header_need_append(1) [OF pend', of "drop tk bs"] pend' len
        unfolding all header_ready_Some_iff by simp
      moreover have "length (drop tk bs) < length bs" "t + tk + length (drop tk bs) = t + length bs"
        using tk len by auto
      ultimately show ?thesis
        using less.hyps [of "drop tk bs" "pend @ take tk bs" "t + tk"]
        by (cases "header_ready (pend @ bs)") (simp_all add: add.assoc)
    qed
  qed
qed

lemma feed_loop_Idle: "feed_loop Idle bs t = feed_loop (header_state []) bs t"
  by (simp add: feed_loop.simps header_state_def)

lemma parser_wf_header_cases:
  assumes "parser_wf p"
  obtains (payload) r where "p = Payload r" "r < 2 ^ 63"
    | (header) pend where "length pend \<le> header_need pend" "pend = pending_header p"
      "\<And>bs t. feed_loop p bs t = feed_loop (header_state pend) bs t"
      "p = Idle \<or> p = header_state pend"
proof (cases p)
  case Idle
  then show ?thesis using header [of "[]"] feed_loop_Idle by (simp add: header_need_def)
next
  case (HeaderPartial partial filled)
  then have e: "p = header_state (take filled partial)"
    "length (take filled partial) \<le> header_need (take filled partial)"
    using assms unfolding HeaderPartial parser_wf.simps Let_def by blast+
  show ?thesis
  proof (rule header)
    show "take filled partial = pending_header p" by (simp add: HeaderPartial)
  qed (use e in \<open>simp_all only: simp_thms\<close>)
next
  case (Payload r)
  then show ?thesis using payload assms by simp
qed

lemma feed_one_header:
  assumes "length pend \<le> header_need pend" "\<And>bs t. feed_loop p bs t = feed_loop (header_state pend) bs t"
  shows "feed_one p bs =
    (case header_ready (pend @ bs) of
       None \<Rightarrow> (header_state (pend @ bs), Ok (NeedMore (length bs)))
     | Some n \<Rightarrow> header_verdict (take n (pend @ bs)) (n - length pend))"
  using assms by (simp add: feed_one_def feed_loop_header split: option.split)

lemma feed_one_Payload:
  "feed_one (Payload r) bs =
     (if r = 0 then (Idle, Ok (Event 0 FrameEnd))
      else if bs = [] then (Payload r, Ok (NeedMore 0))
      else (Payload (r - min (length bs) r),
            Ok (Event (min (length bs) r) (PayloadChunk (take (min (length bs) r) bs)))))"
  by (simp add: feed_one_def feed_loop.simps Let_def)

text \<open>Termination measure of every loop that feeds the parser: bytes left, then how far the parser is
  from \<open>Idle\<close>.\<close>

fun parser_phase :: "ParserState \<Rightarrow> nat" where
  "parser_phase Idle = 0"
| "parser_phase (Payload _) = 1"
| "parser_phase (HeaderPartial _ _) = 2"

definition feed_measure :: "ParserState \<Rightarrow> bytes \<Rightarrow> nat" where
  "feed_measure p bs = 4 * length bs + parser_phase p"

lemma feed_loop_HeaderPartial:
  defines "need \<equiv> \<lambda>partial filled. if filled < 2 then 2 else hsize (partial ! 1)"
  shows "feed_loop (HeaderPartial partial filled) bs t =
    (if need partial filled \<le> filled then
       (case parse_header (take filled partial) of
          Err e \<Rightarrow> (HeaderPartial partial filled, Err e)
        | Panic \<Rightarrow> (HeaderPartial partial filled, Panic)
        | Ok None \<Rightarrow> (HeaderPartial partial filled, Panic)
        | Ok (Some (header, _)) \<Rightarrow>
            if h_mask header \<noteq> None then (HeaderPartial partial filled, Err ServerSentMaskedFrame)
            else (Payload (unat (h_payload_len header)), Ok (Event t (FrameStart header))))
     else let tk = min (need partial filled - filled) (length bs)
       in if tk = 0 then (HeaderPartial partial filled, Ok (NeedMore t))
          else (case write_at partial filled (take tk bs) of
                  Ok partial' \<Rightarrow> feed_loop (HeaderPartial partial' (filled + tk)) (drop tk bs) (t + tk)
                | Err e \<Rightarrow> (HeaderPartial partial filled, Err e)
                | Panic \<Rightarrow> (HeaderPartial partial filled, Panic)))"
  by (simp add: feed_loop.simps header_size_from_byte1_eq need_def)

lemma feed_loop_Event_header:
  "feed_loop (HeaderPartial partial filled) bs t = (p', Ok (Event c e)) \<Longrightarrow>
     t \<le> c \<and> c - t \<le> length bs \<and> (\<exists>r. p' = Payload r) \<and> (filled < 2 \<longrightarrow> t < c)"
proof (induction "length bs" arbitrary: partial filled bs t rule: less_induct)
  case less
  define need where "need = (if filled < 2 then 2 else hsize (partial ! 1))"
  note step = feed_loop_HeaderPartial [of partial filled bs t, folded need_def]
  show ?case
  proof (cases "need \<le> filled")
    case True
    then have "\<not> filled < 2" by (auto simp: need_def split: if_split_asm)
    then show ?thesis
      using less.prems True by (auto simp: step split: result.splits option.splits if_split_asm)
  next
    case False
    define tk where "tk = min (need - filled) (length bs)"
    obtain partial' where "tk \<noteq> 0"
      "feed_loop (HeaderPartial partial' (filled + tk)) (drop tk bs) (t + tk) = (p', Ok (Event c e))"
      using less.prems False
      by (auto simp: step tk_def [symmetric] Let_def split: result.split_asm if_split_asm)
    moreover have tk: "tk \<le> length bs" by (simp add: tk_def)
    ultimately have "t + tk \<le> c" "c - (t + tk) \<le> length (drop tk bs)" "\<exists>r. p' = Payload r"
      using less.hyps [of "drop tk bs" partial' "filled + tk" "t + tk"] by auto
    then show ?thesis using \<open>tk \<noteq> 0\<close> tk by auto
  qed
qed

lemma feed_one_Event_decreases:
  assumes "feed_one p bs = (p', Ok (Event c e))"
  shows "c \<le> length bs" and "feed_measure p' (drop c bs) < feed_measure p bs"
proof -
  have "c \<le> length bs \<and> feed_measure p' (drop c bs) < feed_measure p bs"
  proof (cases p)
    case Idle
    then show ?thesis
      using assms feed_loop_Event_header [of "replicate MAX_HEADER_LEN 0" 0 bs 0 p' c e]
      by (auto simp: feed_one_def feed_loop.simps(1) feed_measure_def)
  next
    case (HeaderPartial partial filled)
    then show ?thesis
      using assms feed_loop_Event_header [of partial filled bs 0 p' c e]
      by (auto simp: feed_one_def feed_measure_def)
  next
    case (Payload r)
    then show ?thesis
      using assms by (auto simp: feed_one_Payload feed_measure_def split: if_split_asm)
  qed
  then show "c \<le> length bs" and "feed_measure p' (drop c bs) < feed_measure p bs" by auto
qed

lemma feed_loop_NeedMore_not_Idle:
  "feed_loop (HeaderPartial partial filled) bs t = (p', Ok (NeedMore n)) \<Longrightarrow> p' \<noteq> Idle"
proof (induction "length bs" arbitrary: partial filled bs t rule: less_induct)
  case less
  define need where "need = (if filled < 2 then 2 else hsize (partial ! 1))"
  define tk where "tk = min (need - filled) (length bs)"
  note step = feed_loop_HeaderPartial [of partial filled bs t, folded need_def, unfolded Let_def, folded tk_def]
  consider "need \<le> filled" | "\<not> need \<le> filled" "tk = 0" | "\<not> need \<le> filled" "tk \<noteq> 0" by blast
  then show ?case
  proof cases
    case 3
    have tk: "tk \<le> length bs" by (simp add: tk_def)
    then show ?thesis
      using less.prems 3 less.hyps [of "drop tk bs" _ "filled + tk" "t + tk"]
      by (auto simp: step split: result.split_asm)
  qed (use less.prems in \<open>auto simp: step split: result.split_asm option.split_asm if_split_asm\<close>)
qed

lemma feed_one_NeedMore_not_Idle: "feed_one p bs = (p', Ok (NeedMore n)) \<Longrightarrow> p' \<noteq> Idle"
  using feed_loop_NeedMore_not_Idle [of "replicate MAX_HEADER_LEN 0" 0 bs 0 p' n]
    feed_loop_NeedMore_not_Idle [of _ _ bs 0 p' n]
  by (cases p) (auto simp: feed_one_def feed_loop.simps(1,3) Let_def split: if_split_asm)

text \<open>The caller's loop: events up to the point where the parser asks for more or fails.\<close>

function feed_all :: "ParserState \<Rightarrow> bytes \<Rightarrow> FrameEvent list \<times> ParserState \<times> (FrameError, unit) result" where
  "feed_all p bs =
     (case feed_one p bs of
        (p', Ok (Event c e)) \<Rightarrow> (let (es, q, r) = feed_all p' (drop c bs) in (e # es, q, r))
      | (p', Ok (NeedMore c)) \<Rightarrow> ([], p', Ok ())
      | (p', Err e) \<Rightarrow> ([], p', Err e)
      | (p', Panic) \<Rightarrow> ([], p', Panic))"
  by pat_completeness auto

termination feed_all
  by (relation "measure (\<lambda>(p, bs). feed_measure p bs)") (auto dest!: sym [of _ "feed_one _ _"] feed_one_Event_decreases(2))

declare feed_all.simps [simp del]

lemma parser_wf_header_state [wf_intros]: "length pend \<le> header_need pend \<Longrightarrow> parser_wf (header_state pend)"
  by (simp add: header_state_def Let_def)

lemma parse_header_size: "parse_header buf = Ok (Some (h, n)) \<Longrightarrow> n = hsize (buf ! 1)"
  by (erule parse_header_SomeE) (auto simp: parse_len_field_def hsize_def Let_def split: if_split_asm)

lemma header_verdict_cases:
  assumes "header_ready bs = Some n"
  obtains (start) h where "valid_header h" "h_mask h = None" "take n bs = wire_header h"
      "\<And>c. header_verdict (take n bs) c = (Payload (unat (h_payload_len h)), Ok (Event c (FrameStart h)))"
    | (error) e where "\<And>c. header_verdict (take n bs) c = (header_state (take n bs), Err e)"
      "parser_wf (header_state (take n bs))"
proof -
  have n: "2 \<le> length bs" "n = header_need bs" "n \<le> length bs" using assms by (auto simp: header_ready_Some_iff)
  then have "n = hsize (bs ! 1)" "2 \<le> n" using hsize_bounds by (auto simp: header_need_def)
  then have rdy: "parse_header (take n bs) \<noteq> Ok None"
    using n parse_header_ready [of "take n bs"] by simp
  have "header_need (take n bs) = n"
    using n \<open>2 \<le> n\<close> header_need_append(2) [of "take n bs" "drop n bs"] by simp
  then have wf: "parser_wf (header_state (take n bs))"
    using n by (intro wf_intros) simp
  consider h k where "parse_header (take n bs) = Ok (Some (h, k))" | e where "parse_header (take n bs) = Err e"
    using rdy parse_header_not_Panic [of "take n bs"]
    by (cases "parse_header (take n bs)"; cases "\<exists>v. parse_header (take n bs) = Ok v") auto
  then show thesis
  proof cases
    case (1 h k)
    then have h: "valid_header h" "take n bs = wire_header h"
      using parse_header_sound [of "take n bs" h k] parse_header_size [of "take n bs" h k] n
        \<open>n = hsize (bs ! 1)\<close> \<open>2 \<le> n\<close> by auto
    show ?thesis
    proof (cases "h_mask h = None")
      case True
      then show ?thesis using start h 1 by (simp add: header_verdict_def)
    next
      case False
      then show ?thesis using error wf 1 by (auto simp: header_verdict_def)
    qed
  next
    case (2 e)
    then show ?thesis using error wf by (simp add: header_verdict_def)
  qed
qed

lemma feed_one_wf:
  assumes "parser_wf p" and "feed_one p bs = (p', r)"
  shows "parser_wf p'" and "r \<noteq> Panic"
    and "r = Ok (NeedMore c) \<Longrightarrow> c = length bs"
    and "r = Ok (Event c (FrameStart h)) \<Longrightarrow>
      valid_header h \<and> h_mask h = None \<and> p' = Payload (unat (h_payload_len h)) \<and>
      pending_header p @ take c bs = wire_header h"
proof -
  have "parser_wf p' \<and> r \<noteq> Panic \<and> (r = Ok (NeedMore c) \<longrightarrow> c = length bs) \<and>
    (r = Ok (Event c (FrameStart h)) \<longrightarrow>
      valid_header h \<and> h_mask h = None \<and> p' = Payload (unat (h_payload_len h)) \<and>
      pending_header p @ take c bs = wire_header h)"
    using assms(1)
  proof (cases rule: parser_wf_header_cases)
    case (payload rem)
    then show ?thesis using assms(2) by (auto simp: feed_one_Payload split: if_split_asm)
  next
    case (header pend)
    note one = feed_one_header [OF header(1,3), of bs]
    show ?thesis
    proof (cases "header_ready (pend @ bs)")
      case None
      then have "parser_wf (header_state (pend @ bs))"
        by (intro wf_intros) (simp add: header_ready_None_iff)
      then show ?thesis using assms(2) one None by auto
    next
      case (Some n)
      have np: "length pend \<le> n"
        using Some header header_need_append(1) [of pend bs] by (simp add: header_ready_Some_iff)
      from Some show ?thesis
      proof (cases rule: header_verdict_cases)
        case (start h')
        then show ?thesis
          using assms(2) one Some np header(2) by (auto simp: valid_header_def)
      next
        case (error e)
        then show ?thesis using assms(2) one Some by auto
      qed
    qed
  qed
  then show "parser_wf p'" and "r \<noteq> Panic" and "r = Ok (NeedMore c) \<Longrightarrow> c = length bs"
    and "r = Ok (Event c (FrameStart h)) \<Longrightarrow>
      valid_header h \<and> h_mask h = None \<and> p' = Payload (unat (h_payload_len h)) \<and>
      pending_header p @ take c bs = wire_header h" by auto
qed


subsection \<open>Cutting the stream into reads\<close>

text \<open>A payload chunk carries as many bytes as one read happened to hold; the observable content of
  an event sequence is what remains when chunks are split into single bytes.\<close>

fun explode_event :: "FrameEvent \<Rightarrow> FrameEvent list" where
  "explode_event (PayloadChunk bs) = map (\<lambda>b. PayloadChunk [b]) bs"
| "explode_event e = [e]"

definition explode :: "FrameEvent list \<Rightarrow> FrameEvent list" where
  "explode es = concat (map explode_event es)"

lemma explode_simps [simp]:
  "explode [] = []" "explode (e # es) = explode_event e @ explode es" "explode (es @ fs) = explode es @ explode fs"
  by (simp_all add: explode_def)

definition after :: "FrameEvent list \<Rightarrow> FrameEvent list \<times> ParserState \<times> (FrameError, unit) result
    \<Rightarrow> FrameEvent list \<times> ParserState \<times> (FrameError, unit) result" where
  "after es res = (case res of (fs, q, r) \<Rightarrow> (es @ explode fs, q, r))"

lemma feed_all_NeedMore: "feed_one p bs = (p', Ok (NeedMore c)) \<Longrightarrow> feed_all p bs = ([], p', Ok ())"
  and feed_all_Err: "feed_one p bs = (p', Err x) \<Longrightarrow> feed_all p bs = ([], p', Err x)"
  and feed_all_Event: "feed_one p bs = (p', Ok (Event c e)) \<Longrightarrow>
     feed_all p bs = (case feed_all p' (drop c bs) of (es, q, r) \<Rightarrow> (e # es, q, r))"
  by (simp_all add: feed_all.simps [of p bs])

lemma after_Event:
  "feed_one p bs = (p', Ok (Event c e)) \<Longrightarrow> after es (feed_all p bs) = after (es @ explode_event e) (feed_all p' (drop c bs))"
  by (simp add: feed_all_Event after_def split: prod.split)

lemma feed_all_split_payload:
  assumes "a \<noteq> []" and "length a < k"
  shows "after [] (feed_all (Payload k) (a @ b)) = after (explode [PayloadChunk a]) (feed_all (Payload (k - length a)) b)"
proof (cases "b = []")
  case True
  then show ?thesis
    using assms by (simp add: feed_all_Event feed_one_Payload feed_all_NeedMore after_def)
next
  case False
  define m where "m = min (length b) (k - length a)"
  have m: "min (length (a @ b)) k = length a + m" using assms by (auto simp: m_def)
  have "feed_one (Payload k) (a @ b) =
      (Payload (k - (length a + m)), Ok (Event (length a + m) (PayloadChunk (a @ take m b))))"
    using assms by (simp add: feed_one_Payload m [simplified])
  moreover have "feed_one (Payload (k - length a)) b =
      (Payload (k - length a - m), Ok (Event m (PayloadChunk (take m b))))"
    using assms False by (simp add: feed_one_Payload m_def)
  ultimately show ?thesis by (simp add: after_Event)
qed

lemma feed_all_split_header:
  assumes pend: "length pend \<le> header_need pend" "\<And>bs t. feed_loop p bs t = feed_loop (header_state pend) bs t"
    and None: "header_ready (pend @ a) = None"
  shows "feed_all p a = ([], header_state (pend @ a), Ok ())"
    and "feed_all p (a @ b) = feed_all (header_state (pend @ a)) b"
proof -
  have pend': "length (pend @ a) \<le> header_need (pend @ a)" using None by (simp add: header_ready_None_iff)
  note one = feed_one_header [OF pend, of "a @ b"] and two = feed_one_header [OF pend' refl, of b]
  show "feed_all p a = ([], header_state (pend @ a), Ok ())"
    using feed_one_header [OF pend, of a] None by (simp add: feed_all_NeedMore)
  show "feed_all p (a @ b) = feed_all (header_state (pend @ a)) b"
  proof (cases "header_ready (pend @ a @ b)")
    case None
    then show ?thesis using one two by (simp add: feed_all_NeedMore)
  next
    case (Some n)
    have n: "length (pend @ a) \<le> n"
      using Some pend' header_need_append(1) [OF pend', of b] by (simp add: header_ready_Some_iff)
    from Some show ?thesis
    proof (cases rule: header_verdict_cases)
      case (start h)
      then show ?thesis using one two Some n by (simp add: feed_all_Event)
    next
      case (error e)
      then show ?thesis using one two Some by (simp add: feed_all_Err)
    qed
  qed
qed

lemma feed_all_split:
  assumes "parser_wf p" and "feed_all p a = (es, q, r)"
  shows "after [] (feed_all p (a @ b)) = (if r = Ok () then after (explode es) (feed_all q b) else (explode es, q, r))"
  using assms
proof (induction p a arbitrary: es q r rule: feed_all.induct)
  case (1 p a)
  note IH = "1.IH" and res = "1.prems"(2)
  have same: ?case
    if one: "feed_one p a = (p', Ok (Event c e))" and both: "feed_one p (a @ b) = (p', Ok (Event c e))" for p' c e
  proof -
    obtain es' where es': "feed_all p' (drop c a) = (es', q, r)" "es = e # es'"
      using res one by (auto simp: feed_all_Event split: prod.split_asm)
    have "c \<le> length a" using feed_one_Event_decreases(1) [OF one] .
    then have "after [] (feed_all p (a @ b)) = after (explode_event e) (feed_all p' (drop c a @ b))"
      by (simp add: after_Event [OF both])
    moreover have "after [] (feed_all p' (drop c a @ b)) =
        (if r = Ok () then after (explode es') (feed_all q b) else (explode es', q, r))"
      using IH [OF one [symmetric] refl refl feed_one_wf(1) [OF "1.prems"(1) one] es'(1)] .
    ultimately show ?thesis
      by (auto simp: after_def es'(2) split: prod.split_asm if_split_asm)
  qed
  from "1.prems"(1) show ?case
  proof (cases rule: parser_wf_header_cases)
    case (payload k)
    consider "k = 0" | "a = []" "k \<noteq> 0" | "a \<noteq> []" "k \<le> length a" "k \<noteq> 0" | "a \<noteq> []" "length a < k" by linarith
    then show ?thesis
    proof cases
      case 4
      then have "feed_all p a = ([PayloadChunk a], Payload (k - length a), Ok ())"
        by (simp add: payload feed_all_Event feed_one_Payload feed_all_NeedMore)
      then show ?thesis using res feed_all_split_payload [OF 4] by (simp add: payload)
    qed (use res payload same in \<open>auto simp: feed_one_Payload feed_all_NeedMore after_def split: prod.split\<close>)
  next
    case (header pend)
    note one = feed_one_header [OF header(1,3)]
    show ?thesis
    proof (cases "header_ready (pend @ a)")
      case None
      then show ?thesis
        using feed_all_split_header [OF header(1,3) None] res by (auto simp: after_def split: prod.split)
    next
      case (Some n)
      have n: "header_ready (pend @ a @ b) = Some n" "take n (pend @ a @ b) = take n (pend @ a)"
        using header_ready_append [OF Some, of b] Some by (auto simp: header_ready_Some_iff)
      from Some show ?thesis
      proof (cases rule: header_verdict_cases)
        case (start h)
        then show ?thesis using same one [of a] one [of "a @ b"] Some n by simp
      next
        case (error e)
        then show ?thesis
          using res one [of a] one [of "a @ b"] Some n by (auto simp: feed_all_Err after_def)
      qed
    qed
  qed
qed

lemma feed_all_wf: "parser_wf p \<Longrightarrow> feed_all p bs = (es, q, r) \<Longrightarrow> parser_wf q \<and> r \<noteq> Panic"
proof (induction p bs arbitrary: es q r rule: feed_all.induct)
  case (1 p bs)
  obtain p' o1 where one: "feed_one p bs = (p', o1)" by fastforce
  note wf = feed_one_wf(1,2) [OF "1.prems"(1) one]
  show ?case
  proof (cases "\<exists>c e. o1 = Ok (Event c e)")
    case True
    then obtain c e where ev: "feed_one p bs = (p', Ok (Event c e))" using one by auto
    then show ?thesis
      using "1.IH" [OF ev [symmetric] refl refl wf(1)] "1.prems"(2)
      by (auto simp: feed_all_Event split: prod.split_asm)
  next
    case False
    then show ?thesis
      using one wf "1.prems"(2) by (auto simp: feed_all.simps [of p bs] split: result.split_asm FeedOutcome.split_asm)
  qed
qed

fun feed_chunks :: "ParserState \<Rightarrow> bytes list \<Rightarrow> FrameEvent list \<times> ParserState \<times> (FrameError, unit) result" where
  "feed_chunks p [] = ([], p, Ok ())"
| "feed_chunks p (c # cs) =
     (case feed_all p c of
        (es, q, Ok _) \<Rightarrow> (case feed_chunks q cs of (fs, q', r) \<Rightarrow> (es @ fs, q', r))
      | (es, q, Err e) \<Rightarrow> (es, q, Err e)
      | (es, q, Panic) \<Rightarrow> (es, q, Panic))"

lemma feed_chunks_concat:
  "parser_wf p \<Longrightarrow> cs \<noteq> [] \<Longrightarrow> after [] (feed_chunks p cs) = after [] (feed_all p (concat cs))"
proof (induction cs arbitrary: p)
  case (Cons c cs)
  obtain es q r where res: "feed_all p c = (es, q, r)" by (cases "feed_all p c") auto
  note wf = feed_all_wf [OF Cons.prems(1) res]
  show ?case
  proof (cases "r = Ok () \<and> cs \<noteq> []")
    case True
    then have "after [] (feed_chunks q cs) = after [] (feed_all q (concat cs))"
      using Cons.IH wf by blast
    moreover obtain fs q' r' where rest: "feed_chunks q cs = (fs, q', r')" by (rule prod_cases3)
    moreover obtain fs2 q2 r2 where all: "feed_all q (concat cs) = (fs2, q2, r2)" by (rule prod_cases3)
    ultimately show ?thesis
      using feed_all_split [OF Cons.prems(1) res, of "concat cs"] True
      by (simp add: res after_def)
  next
    case False
    then consider "r = Ok ()" "cs = []" | e where "r = Err e" using wf by (cases r) auto
    then show ?thesis
      using feed_all_split [OF Cons.prems(1) res, of "concat cs"] by cases (simp_all add: res after_def)
  qed
qed simp

subsection \<open>Properties\<close>

text \<open>C26. Parser safety: in every well-formed state \<^verbatim>\<open>feed_one\<close> keeps the state well-formed on every
  branch (the scratch buffer of at most 14 bytes included), never reaches the \<^verbatim>\<open>unreachable!\<close> or an
  index out of range, never consumes more than it was given, and consumes everything when it asks
  for more; a started frame is unmasked, legal, and the bytes it was parsed from (those kept from
  earlier reads, then the ones consumed now) are its wire form.\<close>

theorem feed_one_safe:
  assumes "parser_wf p" and "feed_one p bs = (p', r)"
  shows "parser_wf p' \<and> r \<noteq> Panic \<and>
    (\<forall>c. r = Ok (NeedMore c) \<longrightarrow> c = length bs) \<and> (\<forall>c e. r = Ok (Event c e) \<longrightarrow> c \<le> length bs) \<and>
    (\<forall>c h. r = Ok (Event c (FrameStart h)) \<longrightarrow> valid_header h \<and> h_mask h = None \<and>
       p' = Payload (unat (h_payload_len h)) \<and> pending_header p @ take c bs = wire_header h)"
  using feed_one_wf [OF assms] feed_one_Event_decreases(1) [of p bs p'] assms(2) by blast

theorem feed_one_safe_witness:
  "feed_one Idle [0x81, 0x02, 0x68] =
     (Payload 2, Ok (Event 2 (FrameStart \<lparr>h_fin = True, h_opcode = Text, h_mask = None, h_payload_len = 2\<rparr>))) \<and>
   valid_header \<lparr>h_fin = True, h_opcode = Text, h_mask = None, h_payload_len = 2\<rparr>"
proof -
  have e: "feed_one Idle [0x81, 0x02, 0x68] =
     (Payload 2, Ok (Event 2 (FrameStart \<lparr>h_fin = True, h_opcode = Text, h_mask = None, h_payload_len = 2\<rparr>)))"
    by code_simp
  from feed_one_safe [OF _ e] show ?thesis using e by simp
qed

text \<open>C11. How the byte stream is cut into reads does not matter: feeding any sequence of chunks one
  after the other yields the same frame events (payload compared byte by byte), the same final
  parser state and the same error, as feeding their concatenation at once.\<close>

theorem parser_chunking_invariance:
  assumes "parser_wf p" and "cs \<noteq> []"
    and "feed_chunks p cs = (es, q, r)" and "feed_all p (concat cs) = (es', q', r')"
  shows "explode es = explode es' \<and> q = q' \<and> r = r'"
  using feed_chunks_concat [OF assms(1,2)] assms(3,4) by (simp add: after_def)

theorem parser_chunking_invariance_witness:
  "\<exists>es q r es' q' r'. feed_chunks Idle [[0x82], [0x03, 0x01], [0x02, 0x03, 0x88]] = (es, q, r) \<and>
     feed_all Idle [0x82, 0x03, 0x01, 0x02, 0x03, 0x88] = (es', q', r') \<and> explode es = explode es' \<and> q = q' \<and> r = r'"
proof -
  obtain es q r where a: "feed_chunks Idle [[0x82], [0x03, 0x01], [0x02, 0x03, 0x88]] = (es, q, r)" by (rule prod_cases3)
  obtain es' q' r' where b: "feed_all Idle [0x82, 0x03, 0x01, 0x02, 0x03, 0x88] = (es', q', r')" by (rule prod_cases3)
  show ?thesis
    using parser_chunking_invariance [OF _ _ a, of es' q' r'] a b by auto
qed

end
