(* ===== verification/Ws_Mask.thy ===== *)
theory Ws_Mask
  imports Prelude
begin

text \<open>
  Client-to-server masking, \<^verbatim>\<open>ws/mask.rs\<close>.  \<open>mask_ref\<close> is RFC 6455's definition (octet \<open>i\<close> is
  XORed with key octet \<open>i mod 4\<close>); the 8-byte chunked scalar routine and the 32-byte AVX2 routine
  are modelled with their chunk loops and their tail loops and shown equal to it.

  A native-endian load, XOR and store of a chunk acts on each byte of the chunk separately, whatever
  the byte order, because load and store use the same order: \<open>xor_chunk\<close>.
\<close>

definition xor_chunk :: "bytes \<Rightarrow> nat \<Rightarrow> bytes \<Rightarrow> bytes" where
  "xor_chunk buf i pat = take i buf @ map2 (XOR) (take (length pat) (drop i buf)) pat @ drop (i + length pat) buf"

lemma length_xor_chunk [simp]: "i + length pat \<le> length buf \<Longrightarrow> length (xor_chunk buf i pat) = length buf"
  by (simp add: xor_chunk_def)

function scalar_chunks :: "bytes \<Rightarrow> key4 \<Rightarrow> nat \<Rightarrow> bytes \<times> nat" where
  "scalar_chunks buf key i =
     (if i + 8 \<le> length buf then
        (let key8 = bytes_of_key key @ bytes_of_key key
         in scalar_chunks (xor_chunk buf i key8) key (i + 8))
      else (buf, i))"
  by pat_completeness auto

termination scalar_chunks
  by (relation "measure (\<lambda>(buf, key, i). length buf - i)") auto

function scalar_tail :: "bytes \<Rightarrow> key4 \<Rightarrow> nat \<Rightarrow> nat \<Rightarrow> bytes" where
  "scalar_tail buf key i k =
     (if i < length buf then
        scalar_tail (buf[i := buf ! i XOR bytes_of_key key ! k]) key (i + 1) ((k + 1) AND 3)
      else buf)"
  by pat_completeness auto

termination scalar_tail
  by (relation "measure (\<lambda>(buf, key, i, k). length buf - i)") auto

definition mask_scalar :: "bytes \<Rightarrow> key4 \<Rightarrow> bytes" where
  "mask_scalar buf key = (let (buf', i) = scalar_chunks buf key 0 in scalar_tail buf' key i 0)"

function avx2_chunks :: "bytes \<Rightarrow> key4 \<Rightarrow> nat \<Rightarrow> bytes \<times> nat" where
  "avx2_chunks buf key i =
     (if i + 32 \<le> length buf then
        (let key_vec = concat (replicate 8 (bytes_of_key key))
         in avx2_chunks (xor_chunk buf i key_vec) key (i + 32))
      else (buf, i))"
  by pat_completeness auto

termination avx2_chunks
  by (relation "measure (\<lambda>(buf, key, i). length buf - i)")
    (auto simp: length_concat sum_list_replicate)

function avx2_tail :: "bytes \<Rightarrow> key4 \<Rightarrow> nat \<Rightarrow> bytes" where
  "avx2_tail buf key i =
     (if i < length buf then avx2_tail (buf[i := buf ! i XOR bytes_of_key key ! (i AND 3)]) key (i + 1)
      else buf)"
  by pat_completeness auto

termination avx2_tail
  by (relation "measure (\<lambda>(buf, key, i). length buf - i)") auto

definition mask_avx2 :: "bytes \<Rightarrow> key4 \<Rightarrow> bytes" where
  "mask_avx2 buf key = (let (buf', i) = avx2_chunks buf key 0 in avx2_tail buf' key i)"

text \<open>The dispatch: CPUID decides once which routine is cached.\<close>

definition mask_inplace :: "bool \<Rightarrow> bytes \<Rightarrow> key4 \<Rightarrow> bytes" where
  "mask_inplace avx2_detected buf key =
     (if avx2_detected then mask_avx2 buf key else mask_scalar buf key)"

declare scalar_chunks.simps [simp del] scalar_tail.simps [simp del]
  avx2_chunks.simps [simp del] avx2_tail.simps [simp del]

subsection \<open>Specification\<close>

definition mask_ref :: "bytes \<Rightarrow> key4 \<Rightarrow> bytes" where
  "mask_ref buf key = map (\<lambda>i. buf ! i XOR bytes_of_key key ! (i mod 4)) [0..<length buf]"

lemma length_mask_ref [simp]: "length (mask_ref buf key) = length buf"
  by (simp add: mask_ref_def)

lemma nth_mask_ref [simp]: "i < length buf \<Longrightarrow> mask_ref buf key ! i = buf ! i XOR bytes_of_key key ! (i mod 4)"
  by (simp add: mask_ref_def)

lemma mask_ref_Nil [simp]: "mask_ref [] key = []"
  by (simp add: mask_ref_def)

lemma mask_ref_involution [simp]: "mask_ref (mask_ref buf key) key = buf"
  by (rule nth_equalityI) (simp_all add: xor.assoc)

text \<open>The loops keep the buffer masked up to their index.\<close>

definition mask_upto :: "bytes \<Rightarrow> key4 \<Rightarrow> nat \<Rightarrow> bytes" where
  "mask_upto buf key i = mask_ref (take i buf) key @ drop i buf"

lemma mask_upto_0: "mask_upto buf key 0 = buf"
  and mask_upto_all: "length buf \<le> i \<Longrightarrow> mask_upto buf key i = mask_ref buf key"
  by (simp_all add: mask_upto_def)

lemma length_mask_upto [simp]: "length (mask_upto buf key i) = length buf"
  by (simp add: mask_upto_def)

lemma nth_mask_upto: "j < length buf \<Longrightarrow>
    mask_upto buf key i ! j = (if j < i then buf ! j XOR bytes_of_key key ! (j mod 4) else buf ! j)"
  by (auto simp: mask_upto_def nth_append min_def)

lemma and_3_eq_mod: "(n :: nat) AND 3 = n mod 4"
  using take_bit_eq_mask [of 2 n] by (simp add: take_bit_eq_mod mask_eq_exp_minus_1)

lemma mask_upto_step:
  "i < length buf \<Longrightarrow> k = i mod 4 \<Longrightarrow>
    (mask_upto buf key i)[i := mask_upto buf key i ! i XOR bytes_of_key key ! k] = mask_upto buf key (Suc i)"
  by (rule nth_equalityI) (auto simp: nth_list_update nth_mask_upto less_Suc_eq)

lemma nth_concat_replicate:
  "m < n * length p \<Longrightarrow> concat (replicate n p) ! m = p ! (m mod length p)"
proof (induction n arbitrary: m)
  case (Suc n)
  then show ?case by (auto simp: nth_append le_mod_geq not_less)
qed simp

lemma xor_chunk_mask_upto:
  assumes "4 dvd i" and "i + 4 * c \<le> length buf"
  shows "xor_chunk (mask_upto buf key i) i (concat (replicate c (bytes_of_key key))) = mask_upto buf key (i + 4 * c)"
    (is "xor_chunk ?b i ?p = _")
proof (rule nth_equalityI)
  have len: "length ?p = 4 * c" by (simp add: length_concat sum_list_replicate)
  then show "length (xor_chunk ?b i ?p) = length (mask_upto buf key (i + 4 * c))"
    using assms(2) by simp
  fix j assume "j < length (xor_chunk ?b i ?p)"
  then have j: "j < length buf" using len assms(2) by simp
  have "i \<le> j \<Longrightarrow> (j - i) mod 4 = j mod 4" 
    using assms(1) by (metis add_0 dvd_imp_mod_0 le_add_diff_inverse mod_add_left_eq)
  then show "xor_chunk ?b i ?p ! j = mask_upto buf key (i + 4 * c) ! j"
    using j len assms(2)
    by (auto simp: xor_chunk_def nth_append nth_mask_upto nth_concat_replicate min_def)
qed

lemma scalar_chunks_upto:
  assumes "4 dvd i" and "i \<le> length buf"
  shows "\<exists>j. scalar_chunks (mask_upto buf key i) key i = (mask_upto buf key j, j) \<and> 4 dvd j \<and> j \<le> length buf"
  using assms
proof (induction "length buf - i" arbitrary: i rule: less_induct)
  case less
  show ?case
  proof (cases "i + 8 \<le> length buf")
    case True
    then have "scalar_chunks (mask_upto buf key i) key i = scalar_chunks (mask_upto buf key (i + 8)) key (i + 8)"
      using xor_chunk_mask_upto [of i 2 buf key] less.prems
      by (subst scalar_chunks.simps) (simp add: numeral_2_eq_2)
    then show ?thesis using less.hyps [of "i + 8"] True less.prems by simp
  qed (use less.prems in \<open>auto simp: scalar_chunks.simps\<close>)
qed

lemma scalar_tail_upto:
  "i \<le> length buf \<Longrightarrow> k = i mod 4 \<Longrightarrow> scalar_tail (mask_upto buf key i) key i k = mask_ref buf key"
proof (induction "length buf - i" arbitrary: i k)
  case 0
  then show ?case by (subst scalar_tail.simps) (simp add: mask_upto_all)
next
  case (Suc n)
  then have "i < length buf" by simp
  then show ?case
    using Suc by (subst scalar_tail.simps) (simp add: mask_upto_step and_3_eq_mod mod_Suc_eq)
qed

lemma avx2_chunks_upto:
  assumes "4 dvd i" and "i \<le> length buf"
  shows "\<exists>j. avx2_chunks (mask_upto buf key i) key i = (mask_upto buf key j, j) \<and> 4 dvd j \<and> j \<le> length buf"
  using assms
proof (induction "length buf - i" arbitrary: i rule: less_induct)
  case less
  show ?case
  proof (cases "i + 32 \<le> length buf")
    case True
    then have "avx2_chunks (mask_upto buf key i) key i = avx2_chunks (mask_upto buf key (i + 32)) key (i + 32)"
      using xor_chunk_mask_upto [of i 8 buf key] less.prems
      by (subst avx2_chunks.simps) (simp add: Let_def)
    then show ?thesis using less.hyps [of "i + 32"] True less.prems by simp
  qed (use less.prems in \<open>auto simp: avx2_chunks.simps\<close>)
qed

lemma avx2_tail_upto: "i \<le> length buf \<Longrightarrow> avx2_tail (mask_upto buf key i) key i = mask_ref buf key"
proof (induction "length buf - i" arbitrary: i)
  case 0
  then show ?case by (subst avx2_tail.simps) (simp add: mask_upto_all)
next
  case (Suc n)
  then have "i < length buf" by simp
  then show ?case using Suc by (subst avx2_tail.simps) (simp add: mask_upto_step and_3_eq_mod)
qed

lemma mask_scalar_eq_ref: "mask_scalar buf key = mask_ref buf key"
  using scalar_chunks_upto [of 0 buf key] scalar_tail_upto [of _ buf 0 key]
  by (auto simp: mask_scalar_def mask_upto_0)

lemma mask_avx2_eq_ref: "mask_avx2 buf key = mask_ref buf key"
  using avx2_chunks_upto [of 0 buf key] avx2_tail_upto [of _ buf key]
  by (auto simp: mask_avx2_def mask_upto_0)

lemma mask_inplace_eq_ref: "mask_inplace avx2 buf key = mask_ref buf key"
  by (simp add: mask_inplace_def mask_scalar_eq_ref mask_avx2_eq_ref)

subsection \<open>Properties\<close>

text \<open>C12. The optimised masking routines are RFC 6455 masking: whichever implementation the CPU
  detection selects, \<^verbatim>\<open>mask_inplace\<close> XORs byte \<open>i\<close> with key byte \<open>i mod 4\<close> (the 8-byte scalar and
  the 32-byte AVX2 loops included, for every length), and applying it twice, with either
  implementation each time, restores the buffer.\<close>

theorem mask_inplace_correct:
  "mask_inplace avx2 buf key = mask_ref buf key \<and>
   mask_inplace avx2' (mask_inplace avx2 buf key) key = buf"
  by (simp add: mask_inplace_eq_ref)

end
