(* ===== verification/Utf8.thy ===== *)
theory Utf8
  imports Prelude
begin

text \<open>
  Well-formed UTF-8, as \<^verbatim>\<open>core::str::from_utf8\<close> decides it (the standard library follows Table 3-7
  of the Unicode standard: no overlong forms, no surrogates, nothing above U+10FFFF).  A Rust
  \<^verbatim>\<open>&str\<close> is modelled by its bytes.
\<close>

definition in_range :: "u8 \<Rightarrow> u8 \<Rightarrow> u8 \<Rightarrow> bool" where
  "in_range lo hi b \<longleftrightarrow> lo \<le> b \<and> b \<le> hi"

text \<open>Bounds of the second byte, which exclude overlong forms, surrogates and values above U+10FFFF.\<close>

definition second_lo :: "u8 \<Rightarrow> u8" where
  "second_lo b1 = (if b1 = 0xE0 then 0xA0 else if b1 = 0xF0 then 0x90 else 0x80)"

definition second_hi :: "u8 \<Rightarrow> u8" where
  "second_hi b1 = (if b1 = 0xED then 0x9F else if b1 = 0xF4 then 0x8F else 0xBF)"

text \<open>Length of the well-formed sequence at the front, 0 when there is none.\<close>

fun utf8_first :: "bytes \<Rightarrow> nat" where
  "utf8_first [] = 0"
| "utf8_first (b1 # r) =
     (if b1 \<le> 0x7F then 1
      else if in_range 0xC2 0xDF b1 then
        (case r of b2 # _ \<Rightarrow> if in_range 0x80 0xBF b2 then 2 else 0 | _ \<Rightarrow> 0)
      else if in_range 0xE0 0xEF b1 then
        (case r of
           b2 # b3 # _ \<Rightarrow>
             if in_range (second_lo b1) (second_hi b1) b2 \<and>
                in_range 0x80 0xBF b3 then 3 else 0
         | _ \<Rightarrow> 0)
      else if in_range 0xF0 0xF4 b1 then
        (case r of
           b2 # b3 # b4 # _ \<Rightarrow>
             if in_range (second_lo b1) (second_hi b1) b2 \<and>
                in_range 0x80 0xBF b3 \<and> in_range 0x80 0xBF b4 then 4 else 0
         | _ \<Rightarrow> 0)
      else 0)"

function utf8_valid :: "bytes \<Rightarrow> bool" where
  "utf8_valid bs =
     (if bs = [] then True
      else if utf8_first bs = 0 then False
      else utf8_valid (drop (utf8_first bs) bs))"
  by pat_completeness auto

termination utf8_valid
  by (relation "measure length") auto

declare utf8_valid.simps [simp del]

lemma utf8_valid_Nil [simp]: "utf8_valid []"
  by (simp add: utf8_valid.simps)

lemma utf8_valid_ascii: "list_all (\<lambda>b. b \<le> 0x7F) bs \<Longrightarrow> utf8_valid bs"
  by (induction bs) (auto simp: utf8_valid.simps [of "_ # _"])

lemma utf8_first_append: "utf8_first bs \<noteq> 0 \<Longrightarrow> utf8_first (bs @ cs) = utf8_first bs"
  by (cases bs; cases "tl bs"; cases "tl (tl bs)"; cases "tl (tl (tl bs))") (simp_all split: if_split_asm)

lemma utf8_first_le: "utf8_first bs \<le> length bs"
  by (cases bs; cases "tl bs"; cases "tl (tl bs)"; cases "tl (tl (tl bs))") simp_all

lemma utf8_valid_append: "utf8_valid bs \<Longrightarrow> utf8_valid cs \<Longrightarrow> utf8_valid (bs @ cs)"
proof (induction bs rule: utf8_valid.induct)
  case (1 bs)
  show ?case
  proof (cases "bs = []")
    case False
    then have n: "utf8_first bs \<noteq> 0" "utf8_valid (drop (utf8_first bs) bs)"
      using "1.prems"(1) by (simp_all add: utf8_valid.simps [of bs] split: if_split_asm)
    then have "utf8_valid (drop (utf8_first bs) bs @ cs)"
      using "1.IH" False "1.prems"(2) by simp
    then show ?thesis
      using n utf8_first_append [of bs cs] utf8_first_le [of bs]
      by (subst utf8_valid.simps) (simp add:)
  qed (use 1 in simp)
qed

end
