(* ===== verification/Ws_Close.thy ===== *)
theory Ws_Close
  imports Utf8
begin

text \<open>Close codes and close payloads, \<^verbatim>\<open>ws/close.rs\<close>.\<close>

datatype CloseCode =
    Normal | GoingAway | ProtocolError | UnsupportedData | InvalidPayload
  | PolicyViolation | MessageTooBig | MandatoryExt | InternalError

fun as_u16 :: "CloseCode \<Rightarrow> u16" where
  "as_u16 Normal = 1000"
| "as_u16 GoingAway = 1001"
| "as_u16 ProtocolError = 1002"
| "as_u16 UnsupportedData = 1003"
| "as_u16 InvalidPayload = 1007"
| "as_u16 PolicyViolation = 1008"
| "as_u16 MessageTooBig = 1009"
| "as_u16 MandatoryExt = 1010"
| "as_u16 InternalError = 1011"

datatype CloseError = OneByte | InvalidUtf8 | InvalidCode u16

definition is_valid_endpoint_sent :: "u16 \<Rightarrow> bool" where
  "is_valid_endpoint_sent code \<longleftrightarrow>
     (1000 \<le> code \<and> code \<le> 1003) \<or> (1007 \<le> code \<and> code \<le> 1011) \<or> (3000 \<le> code \<and> code \<le> 4999)"

definition is_valid_received :: "u16 \<Rightarrow> bool" where
  "is_valid_received code \<longleftrightarrow>
     (1000 \<le> code \<and> code \<le> 1003) \<or> (1007 \<le> code \<and> code \<le> 1011) \<or> (3000 \<le> code \<and> code \<le> 4999)"

definition parse_close_payload :: "bytes \<Rightarrow> (CloseError, (u16 \<times> bytes) option) result" where
  "parse_close_payload payload =
     (if length payload = 0 then Ok None
      else if length payload = 1 then Err OneByte
      else
        let code = u16_from_be (payload ! 0) (payload ! 1)
        in if \<not> is_valid_received code then Err (InvalidCode code)
           else
             let reason_bytes = drop 2 payload
             in if utf8_valid reason_bytes then Ok (Some (code, reason_bytes)) else Err InvalidUtf8)"

definition encode_close_payload :: "bytes \<Rightarrow> u16 \<Rightarrow> bytes \<Rightarrow> ('e, bytes \<times> nat) result" where
  "encode_close_payload dst code reason =
     (let code_bytes = u16_to_be code
      in and_then (write_at dst 0 [code_bytes ! 0]) (\<lambda>dst.
         and_then (write_at dst 1 [code_bytes ! 1]) (\<lambda>dst.
         and_then (write_at dst 2 reason) (\<lambda>dst. Ok (dst, 2 + length reason)))))"

lemma as_u16_valid: "is_valid_endpoint_sent (as_u16 c)"
  by (cases c) (simp_all add: is_valid_endpoint_sent_def)

lemma encode_close_payload_correct:
  assumes "2 + length reason \<le> length dst"
  shows "encode_close_payload dst code reason =
    Ok (u16_to_be code @ reason @ drop (2 + length reason) dst, 2 + length reason)"
proof -
  obtain a b where "u16_to_be code = [a, b]" using list_of_length_2 [of "u16_to_be code"] by auto
  then show ?thesis using assms by (simp add: encode_close_payload_def numeral_2_eq_2)
qed

lemma parse_close_payload_Some_iff:
  "parse_close_payload p = Ok (Some (code, reason)) \<longleftrightarrow>
     p = u16_to_be code @ reason \<and> is_valid_received code \<and> utf8_valid reason"
proof
  assume "parse_close_payload p = Ok (Some (code, reason))"
  moreover from this obtain a b where "p = a # b # reason"
    by (cases p; cases "tl p") (auto simp: parse_close_payload_def Let_def split: if_splits)
  ultimately show "p = u16_to_be code @ reason \<and> is_valid_received code \<and> utf8_valid reason"
    by (auto simp: parse_close_payload_def Let_def u16_to_be_from_be split: if_splits)
next
  obtain a b where ab: "u16_to_be code = [a, b]" using list_of_length_2 [of "u16_to_be code"] by auto
  assume "p = u16_to_be code @ reason \<and> is_valid_received code \<and> utf8_valid reason"
  then show "parse_close_payload p = Ok (Some (code, reason))"
    by (simp add: parse_close_payload_def ab u16_from_be_to_be [OF ab])
qed

lemma parse_close_payload_not_Panic: "parse_close_payload p \<noteq> Panic"
  by (simp add: parse_close_payload_def Let_def)

subsection \<open>Properties\<close>

text \<open>C32. Close payloads are decoded exactly: \<^verbatim>\<open>parse_close_payload\<close> returns \<^verbatim>\<open>Some((code, reason))\<close> if
  and only if the payload is the big-endian code followed by the reason, the code is one that may
  appear on the wire and the reason is well-formed UTF-8; it returns \<^verbatim>\<open>None\<close> exactly on the empty
  payload and never panics.\<close>

theorem parse_close_payload_exact:
  "(parse_close_payload p = Ok (Some (code, reason)) \<longleftrightarrow>
      p = u16_to_be code @ reason \<and> is_valid_received code \<and> utf8_valid reason) \<and>
   (parse_close_payload p = Ok None \<longleftrightarrow> p = []) \<and> parse_close_payload p \<noteq> Panic"
  using parse_close_payload_Some_iff parse_close_payload_not_Panic
  by (auto simp: parse_close_payload_def Let_def split: if_splits)

text \<open>C33. Close payload round trip: for a code an endpoint may send and a UTF-8 reason that fits,
  what \<^verbatim>\<open>encode_close_payload\<close> writes is decoded by \<^verbatim>\<open>parse_close_payload\<close> to the same code and
  reason.\<close>

theorem close_payload_roundtrip:
  assumes "is_valid_endpoint_sent code" and "utf8_valid reason" and "2 + length reason \<le> length dst"
  shows "\<exists>dst'. encode_close_payload dst code reason = Ok (dst', 2 + length reason) \<and>
    parse_close_payload (take (2 + length reason) dst') = Ok (Some (code, reason))"
  using assms
  by (simp add: encode_close_payload_correct parse_close_payload_Some_iff is_valid_endpoint_sent_def is_valid_received_def)

theorem close_payload_roundtrip_witness:
  "\<exists>dst'. encode_close_payload (replicate 125 0) 1002 [0x62, 0x79, 0x65] = Ok (dst', 5) \<and>
    parse_close_payload (take 5 dst') = Ok (Some (1002, [0x62, 0x79, 0x65]))"
  using close_payload_roundtrip [of 1002 "[0x62, 0x79, 0x65]" "replicate 125 0"]
  by (simp add: is_valid_endpoint_sent_def utf8_valid_ascii)

end
