(* ===== verification/Http.thy ===== *)
theory Http
  imports Utf8
begin

text \<open>
  The HTTP/1.1 codec of \<^verbatim>\<open>http.rs\<close>.  Strings are their UTF-8 bytes; the functions of \<^verbatim>\<open>core::str\<close>
  the code uses (\<^verbatim>\<open>split\<close>, \<^verbatim>\<open>splitn\<close>, \<^verbatim>\<open>split_once\<close>, \<^verbatim>\<open>trim\<close> with Unicode white space,
  \<^verbatim>\<open>eq_ignore_ascii_case\<close>, \<^verbatim>\<open>u16::from_str\<close>) are written out on bytes.
\<close>

definition str :: "string \<Rightarrow> bytes" where
  "str s = map of_char s"

subsection \<open>\<^verbatim>\<open>core::str\<close>\<close>

definition to_ascii_lower :: "u8 \<Rightarrow> u8" where
  "to_ascii_lower b = (if 0x41 \<le> b \<and> b \<le> 0x5A then b + 0x20 else b)"

definition eq_ignore_ascii_case :: "bytes \<Rightarrow> bytes \<Rightarrow> bool" where
  "eq_ignore_ascii_case a b \<longleftrightarrow> map to_ascii_lower a = map to_ascii_lower b"

text \<open>The UTF-8 encodings of the characters with the Unicode property White\_Space.\<close>

definition white_space :: "bytes list" where
  "white_space =
     [[0x09], [0x0A], [0x0B], [0x0C], [0x0D], [0x20], [0xC2, 0x85], [0xC2, 0xA0], [0xE1, 0x9A, 0x80],
      [0xE2, 0x80, 0x80], [0xE2, 0x80, 0x81], [0xE2, 0x80, 0x82], [0xE2, 0x80, 0x83], [0xE2, 0x80, 0x84],
      [0xE2, 0x80, 0x85], [0xE2, 0x80, 0x86], [0xE2, 0x80, 0x87], [0xE2, 0x80, 0x88], [0xE2, 0x80, 0x89],
      [0xE2, 0x80, 0x8A], [0xE2, 0x80, 0xA8], [0xE2, 0x80, 0xA9], [0xE2, 0x80, 0xAF], [0xE2, 0x81, 0x9F],
      [0xE3, 0x80, 0x80]]"

function trim_front :: "bytes list \<Rightarrow> bytes \<Rightarrow> bytes" where
  "trim_front ws bs =
     (case find (\<lambda>w. w \<noteq> [] \<and> take (length w) bs = w) ws of
        None \<Rightarrow> bs
      | Some w \<Rightarrow> trim_front ws (drop (length w) bs))"
  by pat_completeness auto

termination trim_front
proof (relation "measure (\<lambda>(ws, bs). length bs)")
  fix ws bs and w :: bytes
  assume "find (\<lambda>w. w \<noteq> [] \<and> take (length w) bs = w) ws = Some w"
  then have "w \<noteq> []" "take (length w) bs = w" by (auto simp: find_Some_iff)
  then have "bs \<noteq> []" by auto
  then show "((ws, drop (length w) bs), (ws, bs)) \<in> measure (\<lambda>(ws, bs). length bs)"
    using \<open>w \<noteq> []\<close> by simp
qed simp

declare trim_front.simps [simp del]

definition trim :: "bytes \<Rightarrow> bytes" where
  "trim bs = rev (trim_front (map rev white_space) (rev (trim_front white_space bs)))"

fun split_crlf :: "bytes \<Rightarrow> bytes list" where
  "split_crlf [] = [[]]"
| "split_crlf (b # r) =
     (if b = 0x0D \<and> r \<noteq> [] \<and> hd r = 0x0A then [] # split_crlf (tl r)
      else (case split_crlf r of [] \<Rightarrow> [[b]] | x # xs \<Rightarrow> (b # x) # xs))"

fun split_on :: "u8 \<Rightarrow> bytes \<Rightarrow> bytes list" where
  "split_on c [] = [[]]"
| "split_on c (b # r) =
     (if b = c then [] # split_on c r
      else (case split_on c r of [] \<Rightarrow> [[b]] | x # xs \<Rightarrow> (b # x) # xs))"

fun split_once :: "u8 \<Rightarrow> bytes \<Rightarrow> (bytes \<times> bytes) option" where
  "split_once c [] = None"
| "split_once c (b # r) =
     (if b = c then Some ([], r)
      else (case split_once c r of None \<Rightarrow> None | Some (x, y) \<Rightarrow> Some (b # x, y)))"

fun parse_digits :: "bytes \<Rightarrow> nat \<Rightarrow> nat option" where
  "parse_digits [] acc = Some acc"
| "parse_digits (d # ds) acc =
     (if 0x30 \<le> d \<and> d \<le> 0x39 then
        (let v = acc * 10 + (unat d - 0x30) in if v > 65535 then None else parse_digits ds v)
      else None)"

definition parse_u16 :: "bytes \<Rightarrow> u16 option" where
  "parse_u16 bs =
     (let ds = (case bs of b # d # r \<Rightarrow> if b = 0x2B then d # r else bs | _ \<Rightarrow> bs)
      in if ds = [] then None else map_option word_of_nat (parse_digits ds 0))"

subsection \<open>Requests and responses\<close>

definition MAX_RESPONSE_HEADER_BYTES :: nat where
  "MAX_RESPONSE_HEADER_BYTES = 16 * 1024"

definition MAX_RESPONSE_HEADER_COUNT :: nat where
  "MAX_RESPONSE_HEADER_COUNT = 64"

datatype HttpError =
    BadStatusLine | UnsupportedVersion | BadHeader | NotUtf8
  | HeadersTooLarge nat | TooManyHeaders nat | UnsupportedTransferEncoding

record Http1Builder =
  rb_method :: bytes
  rb_path :: bytes
  rb_host :: bytes
  rb_headers :: "(bytes \<times> bytes) list"

record Http1Response =
  rs_version :: bytes
  rs_status :: u16
  rs_reason :: bytes
  rs_headers :: "(bytes \<times> bytes) list"
  rs_header_end :: nat

definition header_values :: "Http1Response \<Rightarrow> bytes \<Rightarrow> bytes list" where
  "header_values r name = map snd (filter (\<lambda>(n, _). eq_ignore_ascii_case n name) (rs_headers r))"

definition header :: "Http1Response \<Rightarrow> bytes \<Rightarrow> bytes option" where
  "header r name = (case header_values r name of [] \<Rightarrow> None | v # _ \<Rightarrow> Some v)"

definition crlf :: bytes where
  "crlf = [0x0D, 0x0A]"

definition encode_request :: "bytes \<Rightarrow> Http1Builder \<Rightarrow> bytes" where
  "encode_request buf b =
     buf @ rb_method b @ str '' '' @ rb_path b @ str '' HTTP/1.1'' @ crlf @
     str ''Host: '' @ rb_host b @ crlf @
     concat (map (\<lambda>(n, v). n @ str '': '' @ v @ crlf) (rb_headers b)) @ crlf"

fun find_double_crlf :: "bytes \<Rightarrow> nat option" where
  "find_double_crlf [] = None"
| "find_double_crlf (b # r) =
     (if take 4 (b # r) = [0x0D, 0x0A, 0x0D, 0x0A] then Some 0 else map_option Suc (find_double_crlf r))"

definition parse_status_line :: "bytes \<Rightarrow> (HttpError, bytes \<times> u16 \<times> bytes) result" where
  "parse_status_line line =
     (case split_once 0x20 line of
        None \<Rightarrow> if line \<noteq> str ''HTTP/1.1'' then Err UnsupportedVersion else Err BadStatusLine
      | Some (version, rest) \<Rightarrow>
          if version \<noteq> str ''HTTP/1.1'' then Err UnsupportedVersion
          else
            let (code_str, reason) = (case split_once 0x20 rest of None \<Rightarrow> (rest, []) | Some p \<Rightarrow> p)
            in case parse_u16 code_str of None \<Rightarrow> Err BadStatusLine | Some code \<Rightarrow> Ok (version, code, reason))"

fun parse_header_lines :: "bytes list \<Rightarrow> (bytes \<times> bytes) list \<Rightarrow> (HttpError, (bytes \<times> bytes) list) result" where
  "parse_header_lines [] headers = Ok headers"
| "parse_header_lines (line # lines) headers =
     (if line = [] then Ok headers
      else if length headers \<ge> MAX_RESPONSE_HEADER_COUNT then Err (TooManyHeaders MAX_RESPONSE_HEADER_COUNT)
      else
        (case split_once 0x3A line of
           None \<Rightarrow> Err BadHeader
         | Some (name, value) \<Rightarrow>
             if name = [] \<or> list_ex (\<lambda>b. b = 0x20 \<or> b = 0x09) name then Err BadHeader
             else
               let trimmed_value = trim value
               in if eq_ignore_ascii_case name (str ''Transfer-Encoding'') \<and>
                     \<not> eq_ignore_ascii_case trimmed_value (str ''identity'')
                  then Err UnsupportedTransferEncoding
                  else parse_header_lines lines (headers @ [(name, trimmed_value)])))"

definition parse_response :: "bytes \<Rightarrow> (HttpError, (Http1Response \<times> nat) option) result" where
  "parse_response input =
     (let search_window = min (length input) MAX_RESPONSE_HEADER_BYTES
      in case find_double_crlf (take search_window input) of
           None \<Rightarrow>
             if length input > MAX_RESPONSE_HEADER_BYTES then Err (HeadersTooLarge MAX_RESPONSE_HEADER_BYTES)
             else Ok None
         | Some header_end \<Rightarrow>
             let header_bytes = take header_end input
             in if \<not> utf8_valid header_bytes then Err NotUtf8
                else
                  (case split_crlf header_bytes of
                     [] \<Rightarrow> Err BadStatusLine
                   | status_line # lines \<Rightarrow>
                       and_then (parse_status_line status_line) (\<lambda>(version, status, reason).
                       and_then (parse_header_lines lines []) (\<lambda>headers.
                         let body_start = header_end + 4
                         in Ok (Some (\<lparr>rs_version = version, rs_status = status, rs_reason = reason,
                                       rs_headers = headers, rs_header_end = body_start\<rparr>, body_start))))))"

subsection \<open>Facts\<close>

lemma find_double_crlf_Some:
  "find_double_crlf bs = Some n \<Longrightarrow> n + 4 \<le> length bs \<and> take 4 (drop n bs) = [0x0D, 0x0A, 0x0D, 0x0A]"
proof (induction bs arbitrary: n)
  case (Cons b bs)
  show ?case
  proof (cases "take 4 (b # bs) = [0x0D, 0x0A, 0x0D, 0x0A]")
    case True
    then have "length (take 4 (b # bs)) = 4" by simp
    then have "4 \<le> length (b # bs)" by (simp del: length_Cons)
    then show ?thesis using Cons.prems True by simp
  next
    case False
    then obtain m where "find_double_crlf bs = Some m" "n = Suc m" using Cons.prems by (auto simp del: take_Suc_Cons)
    then show ?thesis using Cons.IH by auto
  qed
qed simp

lemma take_4_append: "take 4 xs = [a, b, c, d] \<Longrightarrow> take 4 (xs @ ys) = [a, b, c, d]"
proof -
  assume a: "take 4 xs = [a, b, c, d]"
  then have "length (take 4 xs) = 4" by simp
  then have "4 \<le> length xs" by simp
  then show ?thesis using a by simp
qed

lemma find_double_crlf_append: "find_double_crlf bs = Some n \<Longrightarrow> find_double_crlf (bs @ cs) = Some n"
proof (induction bs arbitrary: n)
  case (Cons b bs)
  show ?case
  proof (cases "take 4 (b # bs) = [0x0D, 0x0A, 0x0D, 0x0A]")
    case True
    then show ?thesis using Cons.prems take_4_append [OF True, of cs] by simp
  next
    case False
    then obtain m where m: "find_double_crlf bs = Some m" "n = Suc m" using Cons.prems by (auto simp del: take_Suc_Cons)
    have "3 \<le> length bs" using find_double_crlf_Some [OF m(1)] by simp
    then show ?thesis using False m Cons.IH by simp
  qed
qed simp

lemma split_crlf_not_Nil: "split_crlf bs \<noteq> []"
  by (cases bs) (auto split: list.split)

lemma parse_header_lines_bound:
  "parse_header_lines lines hs = Ok hs' \<Longrightarrow> length hs \<le> MAX_RESPONSE_HEADER_COUNT \<Longrightarrow>
     length hs' \<le> MAX_RESPONSE_HEADER_COUNT"
  by (induction lines hs rule: parse_header_lines.induct)
    (auto simp: Let_def split: if_split_asm option.split_asm)

definition legal_header :: "bytes \<times> bytes \<Rightarrow> bool" where
  "legal_header h \<longleftrightarrow> fst h \<noteq> [] \<and> \<not> list_ex (\<lambda>b. b = 0x20 \<or> b = 0x09) (fst h) \<and>
     (eq_ignore_ascii_case (fst h) (str ''Transfer-Encoding'') \<longrightarrow> eq_ignore_ascii_case (snd h) (str ''identity''))"

lemma parse_header_lines_legal:
  "parse_header_lines lines hs = Ok hs' \<Longrightarrow> list_all legal_header hs \<Longrightarrow> list_all legal_header hs'"
  by (induction lines hs rule: parse_header_lines.induct)
    (auto simp: Let_def legal_header_def split: if_split_asm option.split_asm)

lemma parse_header_lines_not_Panic: "parse_header_lines lines hs \<noteq> Panic"
  by (induction lines hs rule: parse_header_lines.induct) (auto simp: Let_def split: option.split)

lemma parse_status_line_not_Panic: "parse_status_line l \<noteq> Panic"
  by (auto simp: parse_status_line_def split: option.split)

lemma parse_response_not_Panic: "parse_response input \<noteq> Panic"
  by (auto simp: parse_response_def Let_def and_then_iffs parse_status_line_not_Panic
      parse_header_lines_not_Panic split: option.split list.split)


lemma parse_response_SomeE:
  assumes "parse_response input = Ok (Some (r, n))"
  obtains m status_line lines version status reason headers where
    "find_double_crlf (take MAX_RESPONSE_HEADER_BYTES input) = Some m" "n = m + 4"
    "utf8_valid (take m input)" "split_crlf (take m input) = status_line # lines"
    "parse_status_line status_line = Ok (version, status, reason)" "parse_header_lines lines [] = Ok headers"
    "r = \<lparr>rs_version = version, rs_status = status, rs_reason = reason, rs_headers = headers, rs_header_end = n\<rparr>"
  using assms that unfolding parse_response_def Let_def
  by (auto simp: and_then_eq_Ok_iff min_def split: option.split_asm if_split_asm list.split_asm)

lemma parse_response_end_le: "parse_response input = Ok (Some (r, n)) \<Longrightarrow> n \<le> length input"
  by (erule parse_response_SomeE) (auto dest: find_double_crlf_Some)

subsection \<open>Properties\<close>

text \<open>C31. Response parsing is bounded and exact about where the head ends: a parsed head ends with the
  first blank line, lies within the first 16 KiB of the input, has at most 64 headers, every header
  name is non-empty and free of white space, and a Transfer-Encoding other than \<open>identity\<close> is never
  accepted; bytes after the head never change the parse, and the parser never panics.\<close>

theorem parse_response_bounds:
  assumes "parse_response input = Ok (Some (r, n))"
  shows "4 \<le> n \<and> n \<le> length input \<and> n \<le> MAX_RESPONSE_HEADER_BYTES \<and> rs_header_end r = n \<and>
    take 4 (drop (n - 4) input) = [0x0D, 0x0A, 0x0D, 0x0A] \<and>
    length (rs_headers r) \<le> MAX_RESPONSE_HEADER_COUNT \<and> list_all legal_header (rs_headers r) \<and>
    parse_response (input @ body) = Ok (Some (r, n))"
  using assms
proof (cases rule: parse_response_SomeE)
  case p: (1 m status_line lines version status reason headers)
  note pos = find_double_crlf_Some [OF p(1)]
  then have m: "m + 4 \<le> length input" "m + 4 \<le> MAX_RESPONSE_HEADER_BYTES"
    "take 4 (drop m input) = [0x0D, 0x0A, 0x0D, 0x0A]"
    by (auto simp: drop_take min_def split: if_split_asm)
  have "find_double_crlf (take (min (length (input @ body)) MAX_RESPONSE_HEADER_BYTES) (input @ body)) = Some m"
  proof (cases "length input \<le> MAX_RESPONSE_HEADER_BYTES")
    case True
    then show ?thesis using p(1) find_double_crlf_append [of input m] by (simp add: min_def)
  qed (use p(1) in \<open>simp add: min_def\<close>)
  then have "parse_response (input @ body) = Ok (Some (r, n))"
    using p m by (simp add: parse_response_def Let_def)
  then show ?thesis
    using p m parse_header_lines_bound [OF p(6)] parse_header_lines_legal [OF p(6)] by simp
qed

definition sample_response :: bytes where
  "sample_response = str ''HTTP/1.1 101 OK'' @ crlf @ str ''A: b '' @ crlf @ crlf @ str ''body''"

theorem parse_response_bounds_witness:
  "\<exists>r. parse_response sample_response = Ok (Some (r, 26)) \<and> rs_status r = 101 \<and>
    length (rs_headers r) \<le> MAX_RESPONSE_HEADER_COUNT \<and> parse_response (sample_response @ [1, 2]) = Ok (Some (r, 26))"
proof -
  have t: "trim [0x20, 0x62, 0x20] = [0x62]" by code_simp
  have "parse_response sample_response = Ok (Some (\<lparr>rs_version = str ''HTTP/1.1'', rs_status = 101, rs_reason = str ''OK'',
      rs_headers = [(str ''A'', str ''b'')], rs_header_end = 26\<rparr>, 26))"
    by (simp add: parse_response_def sample_response_def str_def crlf_def MAX_RESPONSE_HEADER_BYTES_def
        parse_status_line_def parse_u16_def MAX_RESPONSE_HEADER_COUNT_def t eq_ignore_ascii_case_def utf8_valid_ascii)
  from parse_response_bounds [OF this, of "[1, 2]"] this show ?thesis by simp
qed

end
