(* ===== verification/Ws_Handshake.thy ===== *)
theory Ws_Handshake
  imports Http
begin

text \<open>
  The opening handshake, \<^verbatim>\<open>ws/handshake.rs\<close>.

  \<open>Env\<close> holds what the client takes from other crates and from the machine: SHA-1 (crate \<^verbatim>\<open>sha1\<close>),
  standard base64 (crate \<^verbatim>\<open>base64\<close>), the outcome of each call of \<^verbatim>\<open>SystemRandom::fill\<close> (crate
  \<^verbatim>\<open>ring\<close>; \<open>None\<close> is a failure, call numbers count up), and whether the CPU has AVX2.  Nothing is
  assumed about them in the definitions.
\<close>

record Env =
  env_sha1 :: "bytes \<Rightarrow> bytes"
  env_base64 :: "bytes \<Rightarrow> bytes"
  env_rand :: "nat \<Rightarrow> (nat \<Rightarrow> u8) option"
  env_avx2 :: bool

definition rng_fill :: "Env \<Rightarrow> nat \<Rightarrow> nat \<Rightarrow> bytes option" where
  "rng_fill env k n = map_option (\<lambda>f. map f [0..<n]) (env_rand env k)"

lemma length_rng_fill: "rng_fill env k n = Some bs \<Longrightarrow> length bs = n"
  by (auto simp: rng_fill_def)

definition WS_GUID :: bytes where
  "WS_GUID = str ''258EAFA5-E914-47DA-95CA-C5AB0DC85B11''"

datatype HandshakeError =
    RngFailure
  | BadStatus u16
  | MissingHeader string
  | BadUpgrade
  | BadConnection
  | BadAccept
  | BadSubprotocol bytes
  | BadExtension bytes

definition generate_key :: "Env \<Rightarrow> nat \<Rightarrow> (HandshakeError, bytes) result" where
  "generate_key env k =
     (case rng_fill env k 16 of None \<Rightarrow> Err RngFailure | Some raw \<Rightarrow> Ok (env_base64 env raw))"

definition compute_accept :: "Env \<Rightarrow> bytes \<Rightarrow> bytes" where
  "compute_accept env client_key = env_base64 env (env_sha1 env (client_key @ WS_GUID))"

definition verify_accept :: "Env \<Rightarrow> bytes \<Rightarrow> bytes \<Rightarrow> bool" where
  "verify_accept env client_key server_accept \<longleftrightarrow> compute_accept env client_key = server_accept"

record UpgradeRequest =
  ur_host :: bytes
  ur_path :: bytes
  ur_key :: bytes
  ur_subprotocols :: "bytes list"
  ur_origin :: "bytes option"

fun join :: "bytes \<Rightarrow> bytes list \<Rightarrow> bytes" where
  "join sep [] = []"
| "join sep [x] = x"
| "join sep (x # y # r) = x @ sep @ join sep (y # r)"

definition upgrade_headers :: "UpgradeRequest \<Rightarrow> (bytes \<times> bytes) list" where
  "upgrade_headers req =
     [(str ''Upgrade'', str ''websocket''), (str ''Connection'', str ''Upgrade''),
      (str ''Sec-WebSocket-Key'', ur_key req), (str ''Sec-WebSocket-Version'', str ''13'')] @
     (if ur_subprotocols req \<noteq> []
      then [(str ''Sec-WebSocket-Protocol'', join (str '', '') (ur_subprotocols req))] else []) @
     (case ur_origin req of None \<Rightarrow> [] | Some o' \<Rightarrow> [(str ''Origin'', o')])"

definition encode_upgrade_request :: "bytes \<Rightarrow> UpgradeRequest \<Rightarrow> bytes" where
  "encode_upgrade_request buf req =
     encode_request buf \<lparr>rb_method = str ''GET'', rb_path = ur_path req, rb_host = ur_host req,
                         rb_headers = upgrade_headers req\<rparr>"

definition has_token :: "Http1Response \<Rightarrow> bytes \<Rightarrow> bytes \<Rightarrow> bool" where
  "has_token r name token \<longleftrightarrow>
     list_ex (\<lambda>value. list_ex (\<lambda>s. eq_ignore_ascii_case (trim s) token) (split_on 0x2C value)) (header_values r name)"

definition verify_upgrade_response ::
  "Env \<Rightarrow> Http1Response \<Rightarrow> bytes \<Rightarrow> bytes list \<Rightarrow> (HandshakeError, unit) result" where
  "verify_upgrade_response env response client_key offered =
     (if rs_status response \<noteq> 101 then Err (BadStatus (rs_status response))
      else if \<not> has_token response (str ''Upgrade'') (str ''websocket'') then
        (if header response (str ''Upgrade'') = None then Err (MissingHeader ''Upgrade'') else Err BadUpgrade)
      else if \<not> has_token response (str ''Connection'') (str ''Upgrade'') then
        (if header response (str ''Connection'') = None then Err (MissingHeader ''Connection'') else Err BadConnection)
      else
        (case header response (str ''Sec-WebSocket-Accept'') of
           None \<Rightarrow> Err (MissingHeader ''Sec-WebSocket-Accept'')
         | Some accept \<Rightarrow>
             if \<not> verify_accept env client_key accept then Err BadAccept
             else
               (case header response (str ''Sec-WebSocket-Extensions'') of
                  Some ext \<Rightarrow> Err (BadExtension ext)
                | None \<Rightarrow>
                    (case header response (str ''Sec-WebSocket-Protocol'') of
                       None \<Rightarrow> Ok ()
                     | Some p \<Rightarrow>
                         let server_proto = trim p
                         in if offered = [] then Err (BadSubprotocol server_proto)
                            else if \<not> list_ex (\<lambda>o'. eq_ignore_ascii_case o' server_proto) offered
                            then Err (BadSubprotocol server_proto)
                            else Ok ()))))"

lemma verify_upgrade_response_not_Panic: "verify_upgrade_response env r k offered \<noteq> Panic"
  by (auto simp: verify_upgrade_response_def Let_def split: option.split)

subsection \<open>The lines of the request\<close>

lemma split_crlf_line: "0x0D \<notin> set l \<Longrightarrow> split_crlf (l @ crlf @ r) = l # split_crlf r"
  by (induction l) (auto simp: crlf_def)

lemma split_crlf_lines:
  "list_all (\<lambda>l. 0x0D \<notin> set l) ls \<Longrightarrow> split_crlf (concat (map (\<lambda>l. l @ crlf) ls) @ r) = ls @ split_crlf r"
  by (induction ls) (auto simp: split_crlf_line)

text \<open>The lines RFC 6455 asks for, written out.\<close>

definition upgrade_lines :: "UpgradeRequest \<Rightarrow> bytes list" where
  "upgrade_lines req =
     [str ''GET '' @ ur_path req @ str '' HTTP/1.1'',
      str ''Host: '' @ ur_host req,
      str ''Upgrade: websocket'',
      str ''Connection: Upgrade'',
      str ''Sec-WebSocket-Key: '' @ ur_key req,
      str ''Sec-WebSocket-Version: 13''] @
     (case ur_subprotocols req of
        [] \<Rightarrow> []
      | p # ps \<Rightarrow> [str ''Sec-WebSocket-Protocol: '' @ p @ concat (map (\<lambda>q. str '', '' @ q) ps)]) @
     (case ur_origin req of None \<Rightarrow> [] | Some o' \<Rightarrow> [str ''Origin: '' @ o'])"

lemma join_Cons: "join sep (p # ps) = p @ concat (map (\<lambda>q. sep @ q) ps)"
  by (induction ps arbitrary: p) simp_all

lemma encode_upgrade_request_lines:
  "encode_upgrade_request buf req = buf @ concat (map (\<lambda>l. l @ crlf) (upgrade_lines req)) @ crlf"
  unfolding encode_upgrade_request_def encode_request_def upgrade_lines_def upgrade_headers_def
  by (cases "ur_subprotocols req"; cases "ur_origin req") (simp_all add: join_Cons, simp_all add: str_def)

text \<open>Strings that stay on one line: neither a carriage return nor a line feed.\<close>

definition one_line :: "bytes \<Rightarrow> bool" where
  "one_line bs \<longleftrightarrow> 0x0D \<notin> set bs \<and> 0x0A \<notin> set bs"

definition single_line :: "UpgradeRequest \<Rightarrow> bool" where
  "single_line req \<longleftrightarrow> one_line (ur_host req) \<and> one_line (ur_path req) \<and> one_line (ur_key req) \<and>
     list_all one_line (ur_subprotocols req) \<and> (case ur_origin req of None \<Rightarrow> True | Some o' \<Rightarrow> one_line o')"

lemma one_line_append [simp]: "one_line (xs @ ys) \<longleftrightarrow> one_line xs \<and> one_line ys"
  by (auto simp: one_line_def)

lemma one_line_joined: "list_all one_line ps \<Longrightarrow> one_line (concat (map (\<lambda>q. str '', '' @ q) ps))"
  by (induction ps) (simp_all add: one_line_def str_def)

lemma upgrade_lines_one_line: "single_line req \<Longrightarrow> list_all one_line (upgrade_lines req)"
  unfolding single_line_def upgrade_lines_def
  by (cases "ur_subprotocols req"; cases "ur_origin req") (simp_all add: one_line_joined, simp_all add: one_line_def str_def)

subsection \<open>Properties\<close>

text \<open>C29. The server's answer is accepted exactly when it completes the handshake: status 101, an
  \<^verbatim>\<open>Upgrade\<close> header with the token \<open>websocket\<close>, a \<^verbatim>\<open>Connection\<close> header with the token \<open>upgrade\<close>, a
  \<^verbatim>\<open>Sec-WebSocket-Accept\<close> equal to \<open>base64(sha1(key + GUID))\<close>, no extension, and either no
  subprotocol or one of those offered; in every other case one of the handshake errors is returned.\<close>

theorem verify_upgrade_response_iff:
  "(verify_upgrade_response env r key offered = Ok () \<longleftrightarrow>
      rs_status r = 101 \<and> has_token r (str ''Upgrade'') (str ''websocket'') \<and>
      has_token r (str ''Connection'') (str ''Upgrade'') \<and>
      header r (str ''Sec-WebSocket-Accept'') = Some (env_base64 env (env_sha1 env (key @ WS_GUID))) \<and>
      header r (str ''Sec-WebSocket-Extensions'') = None \<and>
      (header r (str ''Sec-WebSocket-Protocol'') = None \<or>
       (\<exists>p o'. header r (str ''Sec-WebSocket-Protocol'') = Some p \<and> o' \<in> set offered \<and>
          eq_ignore_ascii_case o' (trim p)))) \<and>
   verify_upgrade_response env r key offered \<noteq> Panic"
  using verify_upgrade_response_not_Panic
  by (auto simp: verify_upgrade_response_def verify_accept_def compute_accept_def Let_def list_ex_iff
      split: option.splits)

text \<open>C30. The upgrade request is what RFC 6455 asks for and nothing else: if no configured string contains a
  carriage return or a line feed, the bytes appended are exactly the request line, \<^verbatim>\<open>Host\<close>,
  \<^verbatim>\<open>Upgrade: websocket\<close>, \<^verbatim>\<open>Connection: Upgrade\<close>, the key, \<^verbatim>\<open>Sec-WebSocket-Version: 13\<close> and, when
  configured, the subprotocols joined by commas and the origin, in this order, each ended by CRLF, then one
  empty line.  No line holds a carriage return or a line feed of its own, so nothing in the configuration
  adds a header line, also for a server that ends lines at a bare line feed.\<close>

theorem encode_upgrade_request_framing:
  assumes "single_line req"
  shows "\<exists>out. encode_upgrade_request buf req = buf @ out \<and> split_crlf out = upgrade_lines req @ [[], []] \<and>
    (\<forall>l \<in> set (upgrade_lines req). 0x0D \<notin> set l \<and> 0x0A \<notin> set l)"
proof -
  have one: "list_all one_line (upgrade_lines req)" by (rule upgrade_lines_one_line [OF assms])
  then have "list_all (\<lambda>l. 0x0D \<notin> set l) (upgrade_lines req)" by (simp add: list_all_iff one_line_def)
  from split_crlf_lines [OF this, of crlf]
  have "split_crlf (concat (map (\<lambda>l. l @ crlf) (upgrade_lines req)) @ crlf) = upgrade_lines req @ [[], []]"
    by (simp add: crlf_def)
  then show ?thesis using encode_upgrade_request_lines one unfolding list_all_iff one_line_def by blast
qed

definition sample_request :: UpgradeRequest where
  "sample_request = \<lparr>ur_host = str ''h'', ur_path = str ''/p'', ur_key = str ''k'',
     ur_subprotocols = [str ''a'', str ''b''], ur_origin = Some (str ''o'')\<rparr>"

theorem encode_upgrade_request_framing_witness:
  "split_crlf (encode_upgrade_request [] sample_request) =
     [str ''GET /p HTTP/1.1'', str ''Host: h'', str ''Upgrade: websocket'', str ''Connection: Upgrade'', str ''Sec-WebSocket-Key: k'',
      str ''Sec-WebSocket-Version: 13'', str ''Sec-WebSocket-Protocol: a, b'', str ''Origin: o'', [], []]"
proof -
  have "single_line sample_request" by (simp add: single_line_def one_line_def sample_request_def str_def)
  then have "split_crlf (encode_upgrade_request [] sample_request) = upgrade_lines sample_request @ [[], []]"
    using encode_upgrade_request_framing [of sample_request "[]"] by auto
  then show ?thesis by (simp add: upgrade_lines_def sample_request_def str_def)
qed

end
