(* ===== verification/Ws_Client.thy ===== *)
theory Ws_Client
  imports Cursor_Buf Ws_Parser Ws_Mask Ws_Close Ws_Handshake
begin

text \<open>
  The WebSocket client of \<^verbatim>\<open>ws/client.rs\<close>: configuration, state, construction, and the transmit side
  (frames, close, handshake request).  The receive side is in the theory \<open>Ws_Recv\<close>, the
  data-only drains in \<open>Ws_Drain\<close> and \<open>Ws_Marked\<close>.

  \<open>WsClient\<close> has the fields of the Rust struct.  The random generator handle is replaced by the number
  of \<^verbatim>\<open>fill\<close> calls made so far, which selects the outcome of the next one in \<open>Env\<close>.  \<^verbatim>\<open>msg_buf\<close> is
  a \<^verbatim>\<open>Vec\<close> whose capacity nothing depends on; the capacity of \<^verbatim>\<open>tx_buf\<close> decides when it is compacted
  and is kept.  Every method returns the client and its result.
\<close>

subsection \<open>Configuration\<close>

record WsConfig =
  cf_host :: bytes
  cf_path :: bytes
  cf_subprotocols :: "bytes list"
  cf_origin :: "bytes option"
  cf_max_message_size :: nat
  cf_max_frame_payload :: u64
  cf_initial_recv_buffer_capacity :: "nat option"
  cf_initial_message_buffer_capacity :: "nat option"
  cf_initial_tx_buffer_capacity :: "nat option"
  cf_auto_pong :: bool
  cf_assume_text_utf8 :: bool

definition DEFAULT_MAX_MESSAGE_SIZE :: nat where
  "DEFAULT_MAX_MESSAGE_SIZE = 8 * 1024 * 1024"

definition DEFAULT_MAX_FRAME_PAYLOAD :: u64 where
  "DEFAULT_MAX_FRAME_PAYLOAD = 16 * 1024 * 1024"

definition MASK_POOL_BYTES :: nat where
  "MASK_POOL_BYTES = 256"

definition ws_config_new :: "bytes \<Rightarrow> bytes \<Rightarrow> WsConfig" where
  "ws_config_new host path =
     \<lparr>cf_host = host, cf_path = path, cf_subprotocols = [], cf_origin = None,
      cf_max_message_size = DEFAULT_MAX_MESSAGE_SIZE, cf_max_frame_payload = DEFAULT_MAX_FRAME_PAYLOAD,
      cf_initial_recv_buffer_capacity = None, cf_initial_message_buffer_capacity = None,
      cf_initial_tx_buffer_capacity = None, cf_auto_pong = True, cf_assume_text_utf8 = False\<rparr>"

definition with_max_message_size :: "nat \<Rightarrow> WsConfig \<Rightarrow> WsConfig" where
  "with_max_message_size n c = c\<lparr>cf_max_message_size := n\<rparr>"

definition with_max_frame_payload :: "u64 \<Rightarrow> WsConfig \<Rightarrow> WsConfig" where
  "with_max_frame_payload n c = c\<lparr>cf_max_frame_payload := n\<rparr>"

definition with_initial_recv_buffer_capacity :: "nat \<Rightarrow> WsConfig \<Rightarrow> WsConfig" where
  "with_initial_recv_buffer_capacity n c = c\<lparr>cf_initial_recv_buffer_capacity := Some n\<rparr>"

definition with_initial_message_buffer_capacity :: "nat \<Rightarrow> WsConfig \<Rightarrow> WsConfig" where
  "with_initial_message_buffer_capacity n c = c\<lparr>cf_initial_message_buffer_capacity := Some n\<rparr>"

definition with_initial_tx_buffer_capacity :: "nat \<Rightarrow> WsConfig \<Rightarrow> WsConfig" where
  "with_initial_tx_buffer_capacity n c = c\<lparr>cf_initial_tx_buffer_capacity := Some n\<rparr>"

definition with_initial_buffer_capacities :: "nat \<Rightarrow> nat \<Rightarrow> nat \<Rightarrow> WsConfig \<Rightarrow> WsConfig" where
  "with_initial_buffer_capacities recv_bytes message_bytes tx_bytes c =
     c\<lparr>cf_initial_recv_buffer_capacity := Some recv_bytes, cf_initial_message_buffer_capacity := Some message_bytes,
       cf_initial_tx_buffer_capacity := Some tx_bytes\<rparr>"

definition with_auto_pong :: "bool \<Rightarrow> WsConfig \<Rightarrow> WsConfig" where
  "with_auto_pong on c = c\<lparr>cf_auto_pong := on\<rparr>"

definition with_assume_text_utf8_unchecked :: "bool \<Rightarrow> WsConfig \<Rightarrow> WsConfig" where
  "with_assume_text_utf8_unchecked on c = c\<lparr>cf_assume_text_utf8 := on\<rparr>"

subsection \<open>States, events and errors\<close>

datatype ConnState = Connecting | Open | Closing | Closed

datatype WsEvent =
    HandshakeComplete
  | EvText bytes
  | EvBinary bytes
  | EvPing bytes
  | EvPong bytes
  | EvClose u16 bytes

datatype DataEvent = DText bytes | DBinary bytes

datatype WsError =
    WsFrame FrameError
  | WsHandshake HandshakeError
  | WsHttp HttpError
  | WsClose CloseError
  | WsProtocol string
  | WsInvalidState ConnState
  | WsUtf8Invalid
  | WsMessageTooLarge
  | WsInternal string

datatype EmitKind =
    EkHandshakeComplete | EkText | EkBinary | EkBorrowedText | EkBorrowedBinary | EkPing | EkPong | EkClose

record BorrowedPayload =
  bp_payload_start :: nat
  bp_payload_end :: nat
  bp_frame_len :: nat

record WsClient =
  ws_state :: ConnState
  ws_parser :: ParserState
  ws_recv_buf :: CursorBuf
  ws_msg_buf :: bytes
  ws_borrowed_payload :: "BorrowedPayload option"
  ws_msg_opcode :: "OpCode option"
  ws_ctl_buf :: bytes
  ws_ctl_len :: nat
  ws_cur_opcode :: "OpCode option"
  ws_cur_fin :: bool
  ws_tx_buf :: bytes
  ws_tx_cap :: nat
  ws_tx_head :: nat
  ws_config :: WsConfig
  ws_client_key :: bytes
  ws_handshake_started :: bool
  ws_last_emitted :: "EmitKind option"
  ws_mask_pool :: bytes
  ws_mask_pool_cursor :: nat
  ws_rng_calls :: nat

subsection \<open>Construction\<close>

definition USIZE_MAX :: nat where
  "USIZE_MAX = 2 ^ 64 - 1"

text \<open>\<^verbatim>\<open>Vec::with_capacity\<close> panics above \<^verbatim>\<open>isize::MAX\<close> bytes.\<close>

definition vec_with_capacity :: "nat \<Rightarrow> ('e, nat) result" where
  "vec_with_capacity cap = (if cap \<le> 2 ^ 63 - 1 then Ok cap else Panic)"

definition new_client :: "Env \<Rightarrow> nat \<Rightarrow> WsConfig \<Rightarrow> (WsError, WsClient) result" where
  "new_client env k config =
     and_then (map_err WsHandshake (generate_key env k)) (\<lambda>key.
       let default_msg_cap = cf_max_message_size config
       in if default_msg_cap + MAX_HEADER_LEN > USIZE_MAX then Err (WsProtocol ''max_message_size overflow'')
          else
            let default_io_cap = default_msg_cap + MAX_HEADER_LEN;
                recv_cap = (case cf_initial_recv_buffer_capacity config of None \<Rightarrow> default_io_cap | Some n \<Rightarrow> n);
                msg_cap = (case cf_initial_message_buffer_capacity config of None \<Rightarrow> default_msg_cap | Some n \<Rightarrow> n);
                tx_cap = (case cf_initial_tx_buffer_capacity config of None \<Rightarrow> default_io_cap | Some n \<Rightarrow> n)
            in (case rng_fill env (k + 1) MASK_POOL_BYTES of
                  None \<Rightarrow> Err (WsHandshake RngFailure)
                | Some pool \<Rightarrow>
                    and_then (vec_with_capacity recv_cap) (\<lambda>recv_cap.
                    and_then (vec_with_capacity msg_cap) (\<lambda>msg_cap.
                    and_then (vec_with_capacity tx_cap) (\<lambda>tx_cap.
                      Ok \<lparr>ws_state = Connecting, ws_parser = parser_new, ws_recv_buf = with_capacity recv_cap,
                          ws_msg_buf = [], ws_borrowed_payload = None, ws_msg_opcode = None,
                          ws_ctl_buf = replicate 125 0, ws_ctl_len = 0, ws_cur_opcode = None, ws_cur_fin = False,
                          ws_tx_buf = [], ws_tx_cap = tx_cap, ws_tx_head = 0, ws_config = config, ws_client_key = key,
                          ws_handshake_started = False, ws_last_emitted = None, ws_mask_pool = pool,
                          ws_mask_pool_cursor = 0, ws_rng_calls = k + 2\<rparr>)))))"

subsection \<open>Transmit buffer\<close>

definition pending_tx :: "WsClient \<Rightarrow> bytes" where
  "pending_tx c = drop (ws_tx_head c) (ws_tx_buf c)"

definition ack_tx :: "WsClient \<Rightarrow> nat \<Rightarrow> WsClient" where
  "ack_tx c n =
     (let h = ws_tx_head c + n
      in if h = length (ws_tx_buf c) then c\<lparr>ws_tx_buf := [], ws_tx_head := 0\<rparr> else c\<lparr>ws_tx_head := h\<rparr>)"

definition compact_tx_if_needed :: "WsClient \<Rightarrow> nat \<Rightarrow> WsClient" where
  "compact_tx_if_needed c extra =
     (if ws_tx_head c = 0 then c
      else if length (ws_tx_buf c) + extra > ws_tx_cap c
      then c\<lparr>ws_tx_buf := drop (ws_tx_head c) (ws_tx_buf c), ws_tx_head := 0\<rparr>
      else c)"

definition tx_extend :: "WsClient \<Rightarrow> bytes \<Rightarrow> WsClient" where
  "tx_extend c bs =
     c\<lparr>ws_tx_buf := ws_tx_buf c @ bs, ws_tx_cap := vec_grow (ws_tx_cap c) (length (ws_tx_buf c) + length bs)\<rparr>"

definition next_mask :: "Env \<Rightarrow> WsClient \<Rightarrow> WsClient \<times> (WsError, key4) result" where
  "next_mask env c =
     try_st
       (if ws_mask_pool_cursor c + 4 > MASK_POOL_BYTES then
          (case rng_fill env (ws_rng_calls c) MASK_POOL_BYTES of
             None \<Rightarrow> (c\<lparr>ws_rng_calls := ws_rng_calls c + 1\<rparr>, Panic)
           | Some pool \<Rightarrow>
               (c\<lparr>ws_mask_pool := pool, ws_mask_pool_cursor := 0, ws_rng_calls := ws_rng_calls c + 1\<rparr>, Ok ()))
        else (c, Ok ()))
       (\<lambda>c _.
          let i = ws_mask_pool_cursor c
          in (c\<lparr>ws_mask_pool_cursor := i + 4\<rparr>, Ok (key_at (ws_mask_pool c) i)))"

definition write_frame :: "Env \<Rightarrow> WsClient \<Rightarrow> bool \<Rightarrow> OpCode \<Rightarrow> bytes \<Rightarrow> WsClient \<times> (WsError, unit) result" where
  "write_frame env c fin opcode payload =
     try_st (next_mask env c) (\<lambda>c mkey.
       (case encode_header (replicate MAX_HEADER_LEN 0) fin opcode (Some mkey) (word_of_nat (length payload)) of
          Ok (hdr, n) \<Rightarrow>
            let c = compact_tx_if_needed c (n + length payload);
                c = tx_extend c (take n hdr);
                payload_start = length (ws_tx_buf c);
                c = tx_extend c payload
            in (c\<lparr>ws_tx_buf := take payload_start (ws_tx_buf c) @
                     mask_inplace (env_avx2 env) (drop payload_start (ws_tx_buf c)) mkey\<rparr>, Ok ())
        | Err e \<Rightarrow> (c, Err e)
        | Panic \<Rightarrow> (c, Panic)))"

subsection \<open>Sending\<close>

definition begin_handshake :: "WsClient \<Rightarrow> WsClient \<times> (WsError, unit) result" where
  "begin_handshake c =
     (if ws_state c \<noteq> Connecting then (c, Err (WsInvalidState (ws_state c)))
      else if ws_handshake_started c then (c, Err (WsProtocol ''handshake already begun''))
      else
        let c = compact_tx_if_needed c 256;
            req = \<lparr>ur_host = cf_host (ws_config c), ur_path = cf_path (ws_config c), ur_key = ws_client_key c,
                   ur_subprotocols = cf_subprotocols (ws_config c), ur_origin = cf_origin (ws_config c)\<rparr>;
            c = tx_extend c (encode_upgrade_request [] req)
        in (c\<lparr>ws_handshake_started := True\<rparr>, Ok ()))"

definition assert_can_send_data :: "WsClient \<Rightarrow> (WsError, unit) result" where
  "assert_can_send_data c = (if ws_state c = Open then Ok () else Err (WsInvalidState (ws_state c)))"

definition send_text :: "Env \<Rightarrow> WsClient \<Rightarrow> bytes \<Rightarrow> WsClient \<times> (WsError, unit) result" where
  "send_text env c payload =
     (if \<not> utf8_valid payload then (c, Err WsUtf8Invalid)
      else try_st (c, assert_can_send_data c) (\<lambda>c _. write_frame env c True Text payload))"

definition send_binary :: "Env \<Rightarrow> WsClient \<Rightarrow> bytes \<Rightarrow> WsClient \<times> (WsError, unit) result" where
  "send_binary env c payload =
     try_st (c, assert_can_send_data c) (\<lambda>c _. write_frame env c True Binary payload)"

definition send_ping :: "Env \<Rightarrow> WsClient \<Rightarrow> bytes \<Rightarrow> WsClient \<times> (WsError, unit) result" where
  "send_ping env c payload =
     (if length payload > 125 then (c, Err (WsProtocol ''ping payload > 125 bytes''))
      else try_st (c, assert_can_send_data c) (\<lambda>c _. write_frame env c True Ping payload))"

definition send_pong :: "Env \<Rightarrow> WsClient \<Rightarrow> bytes \<Rightarrow> WsClient \<times> (WsError, unit) result" where
  "send_pong env c payload =
     (if length payload > 125 then (c, Err (WsProtocol ''pong payload > 125 bytes''))
      else try_st (c, assert_can_send_data c) (\<lambda>c _. write_frame env c True Pong payload))"

definition write_close_frame :: "Env \<Rightarrow> WsClient \<Rightarrow> u16 \<Rightarrow> bytes \<Rightarrow> WsClient \<times> (WsError, unit) result" where
  "write_close_frame env c code reason =
     (case encode_close_payload (replicate 125 0) code reason of
        Ok (payload, n) \<Rightarrow> write_frame env c True Close (take n payload)
      | Err e \<Rightarrow> (c, Err e)
      | Panic \<Rightarrow> (c, Panic))"

definition send_close :: "Env \<Rightarrow> WsClient \<Rightarrow> u16 \<Rightarrow> bytes \<Rightarrow> WsClient \<times> (WsError, unit) result" where
  "send_close env c code reason =
     (if ws_state c = Closing \<or> ws_state c = Closed then (c, Ok ())
      else if ws_state c \<noteq> Open then (c, Err (WsInvalidState (ws_state c)))
      else if \<not> is_valid_endpoint_sent code then (c, Err (WsClose (InvalidCode code)))
      else if length reason > 123 then (c, Err (WsProtocol ''close reason > 123 bytes''))
      else try_st (write_close_frame env c code reason) (\<lambda>c _. (c\<lparr>ws_state := Closing\<rparr>, Ok ())))"

definition queue_close :: "Env \<Rightarrow> WsClient \<Rightarrow> u16 \<Rightarrow> string \<Rightarrow> WsClient \<times> (WsError, unit) result" where
  "queue_close env c code reason =
     (if ws_state c = Closing \<or> ws_state c = Closed then (c, Ok ())
      else try_st (write_close_frame env c code (str reason)) (\<lambda>c _.
             (if ws_state c = Open then c\<lparr>ws_state := Closing\<rparr> else c, Ok ())))"

definition feed_recv :: "WsClient \<Rightarrow> bytes \<Rightarrow> WsClient" where
  "feed_recv c bs = c\<lparr>ws_recv_buf := extend_from_slice (ws_recv_buf c) bs\<rparr>"

subsection \<open>The transmit side: invariant, frame condition and the queue it implements\<close>

definition tx_wf :: "WsClient \<Rightarrow> bool" where
  "tx_wf c \<longleftrightarrow> ws_tx_head c \<le> length (ws_tx_buf c) \<and> length (ws_tx_buf c) \<le> ws_tx_cap c \<and>
     length (ws_mask_pool c) = MASK_POOL_BYTES \<and> ws_mask_pool_cursor c \<le> MASK_POOL_BYTES"

definition rng_total :: "Env \<Rightarrow> bool" where
  "rng_total env \<longleftrightarrow> (\<forall>k. env_rand env k \<noteq> None)"

text \<open>Two clients that agree outside the transmit side.\<close>

definition same_rx :: "WsClient \<Rightarrow> WsClient \<Rightarrow> bool" where
  "same_rx c d \<longleftrightarrow>
     d = c\<lparr>ws_tx_buf := ws_tx_buf d, ws_tx_cap := ws_tx_cap d, ws_tx_head := ws_tx_head d,
           ws_mask_pool := ws_mask_pool d, ws_mask_pool_cursor := ws_mask_pool_cursor d, ws_rng_calls := ws_rng_calls d\<rparr>"

lemma same_rx_fields:
  assumes "same_rx c d"
  shows "ws_state d = ws_state c" "ws_parser d = ws_parser c" "ws_recv_buf d = ws_recv_buf c"
    "ws_msg_buf d = ws_msg_buf c" "ws_borrowed_payload d = ws_borrowed_payload c" "ws_msg_opcode d = ws_msg_opcode c"
    "ws_ctl_buf d = ws_ctl_buf c" "ws_ctl_len d = ws_ctl_len c" "ws_cur_opcode d = ws_cur_opcode c"
    "ws_cur_fin d = ws_cur_fin c" "ws_config d = ws_config c" "ws_client_key d = ws_client_key c"
    "ws_handshake_started d = ws_handshake_started c" "ws_last_emitted d = ws_last_emitted c"
  using assms by (cases c; cases d; simp add: same_rx_def)+

lemma same_rx_refl [simp]: "same_rx c c"
  by (simp add: same_rx_def)

lemma same_rx_trans [trans]: "same_rx c d \<Longrightarrow> same_rx d e \<Longrightarrow> same_rx c e"
  by (cases c; cases d; cases e) (simp add: same_rx_def)

lemma same_rx_tx_updates [simp]:
  "same_rx c (tx_extend c bs)" "same_rx c (compact_tx_if_needed c n)" "same_rx c (c\<lparr>ws_tx_buf := b\<rparr>)"
  "same_rx c (ack_tx c n)"
  by (simp_all add: same_rx_def tx_extend_def compact_tx_if_needed_def ack_tx_def Let_def)

lemma tx_extend_view [simp]: "tx_wf c \<Longrightarrow> pending_tx (tx_extend c bs) = pending_tx c @ bs"
  by (simp add: pending_tx_def tx_extend_def tx_wf_def)

lemma tx_wf_extend [wf_intros, simp]: "tx_wf c \<Longrightarrow> tx_wf (tx_extend c bs)"
  using vec_grow_ge(1) [of "length (ws_tx_buf c) + length bs" "ws_tx_cap c"] by (simp add: tx_wf_def tx_extend_def)

lemma compact_tx_view [simp]: "pending_tx (compact_tx_if_needed c n) = pending_tx c"
  by (simp add: pending_tx_def compact_tx_if_needed_def)

lemma tx_wf_compact [wf_intros, simp]: "tx_wf c \<Longrightarrow> tx_wf (compact_tx_if_needed c n)"
  by (auto simp: tx_wf_def compact_tx_if_needed_def)

lemma ack_tx_view: "pending_tx (ack_tx c n) = drop n (pending_tx c)"
  by (auto simp: pending_tx_def ack_tx_def Let_def add.commute)

lemma tx_wf_ack [wf_intros]: "tx_wf c \<Longrightarrow> n \<le> length (pending_tx c) \<Longrightarrow> tx_wf (ack_tx c n)"
  by (auto simp: pending_tx_def ack_tx_def tx_wf_def Let_def)

definition tx_push :: "WsClient \<Rightarrow> bytes \<Rightarrow> WsClient" where
  "tx_push c bs = tx_extend (compact_tx_if_needed c (length bs)) bs"

interpretation tx_queue: byte_queue pending_tx tx_wf tx_push ack_tx
  by unfold_locales (auto simp: tx_push_def ack_tx_view intro: wf_intros)

definition masked_frame :: "bool \<Rightarrow> OpCode \<Rightarrow> key4 \<Rightarrow> bytes \<Rightarrow> bytes" where
  "masked_frame fin opcode key payload =
     wire_header \<lparr>h_fin = fin, h_opcode = opcode, h_mask = Some key, h_payload_len = word_of_nat (length payload)\<rparr> @
     mask_ref payload key"

lemma next_mask_cases:
  assumes "tx_wf c" and "next_mask env c = (c', r)"
  shows "same_rx c c' \<and> tx_wf c' \<and> pending_tx c' = pending_tx c \<and>
    ((\<exists>key. r = Ok key) \<or> r = Panic \<and> env_rand env (ws_rng_calls c) = None)"
  using assms
  by (auto simp: next_mask_def same_rx_def tx_wf_def pending_tx_def rng_fill_def MASK_POOL_BYTES_def Let_def
      key_at_def split: if_split_asm option.split_asm)

lemma write_frame_cases:
  assumes "tx_wf c" and "write_frame env c fin opcode payload = (c', r)"
  shows "same_rx c c'" "tx_wf c'"
    and "r = Panic \<and> env_rand env (ws_rng_calls c) = None \<and> pending_tx c' = pending_tx c \<or>
      (\<exists>key. r = Ok () \<and> pending_tx c' = pending_tx c @ masked_frame fin opcode key payload)"
proof -
  obtain c1 m where m: "next_mask env c = (c1, m)" by fastforce
  note nm = next_mask_cases [OF assms(1) m]
  have "same_rx c c' \<and> tx_wf c' \<and> (r = Panic \<and> env_rand env (ws_rng_calls c) = None \<and> pending_tx c' = pending_tx c \<or>
      (\<exists>key. r = Ok () \<and> pending_tx c' = pending_tx c @ masked_frame fin opcode key payload))"
  proof (cases m)
    case (Ok key)
    let ?h = "\<lparr>h_fin = fin, h_opcode = opcode, h_mask = Some key, h_payload_len = word_of_nat (length payload)\<rparr>"
    let ?c2 = "tx_extend (compact_tx_if_needed c1 (length (wire_header ?h) + length payload)) (wire_header ?h)"
    let ?c3 = "tx_extend ?c2 payload"
    have hdr: "encode_header (replicate MAX_HEADER_LEN 0) fin opcode (Some key) (word_of_nat (length payload)) =
        Ok (wire_header ?h @ drop (length (wire_header ?h)) (replicate MAX_HEADER_LEN 0), length (wire_header ?h))"
      by (rule encode_header_correct) simp
    have c': "c' = ?c3\<lparr>ws_tx_buf := take (length (ws_tx_buf ?c2)) (ws_tx_buf ?c3) @
        mask_ref (drop (length (ws_tx_buf ?c2)) (ws_tx_buf ?c3)) key\<rparr>" "r = Ok ()"
      using assms(2) by (auto simp: write_frame_def m Ok hdr Let_def mask_inplace_eq_ref)
    have buf: "ws_tx_buf ?c3 = ws_tx_buf ?c2 @ payload" by (simp add: tx_extend_def)
    have wf3: "tx_wf ?c3" "pending_tx ?c2 = pending_tx c @ wire_header ?h" "tx_wf ?c2" using nm by simp_all
    have "same_rx c c1" using nm by simp
    also have "same_rx c1 (compact_tx_if_needed c1 (length (wire_header ?h) + length payload))" by simp
    also have "same_rx \<dots> ?c2" by simp
    also have "same_rx \<dots> ?c3" by simp
    also have "same_rx ?c3 c'" by (simp add: c')
    finally have "same_rx c c'" .
    moreover have "tx_wf c'" using wf3 by (simp add: c' buf tx_wf_def)
    moreover have "pending_tx c' = pending_tx c @ masked_frame fin opcode key payload"
      using wf3 by (simp add: c' buf pending_tx_def masked_frame_def tx_wf_def) (simp add: tx_extend_def)
    ultimately show ?thesis using c'(2) by blast
  qed (use assms(2) nm m in \<open>auto simp: write_frame_def\<close>)
  then show "same_rx c c'" "tx_wf c'"
    and "r = Panic \<and> env_rand env (ws_rng_calls c) = None \<and> pending_tx c' = pending_tx c \<or>
      (\<exists>key. r = Ok () \<and> pending_tx c' = pending_tx c @ masked_frame fin opcode key payload)" by auto
qed

lemma write_frame_Ok:
  assumes "tx_wf c" and "rng_total env"
  obtains c' key where "write_frame env c fin opcode payload = (c', Ok ())" "same_rx c c'" "tx_wf c'"
    "pending_tx c' = pending_tx c @ masked_frame fin opcode key payload"
proof -
  obtain c' r where w: "write_frame env c fin opcode payload = (c', r)" by fastforce
  show thesis
    using that w write_frame_cases [OF assms(1) w] assms(2) by (auto simp: rng_total_def simp del: not_None_eq)
qed

lemma write_close_frame_eq:
  "length reason \<le> 123 \<Longrightarrow>
    write_close_frame env c code reason = write_frame env c True Close (u16_to_be code @ reason)"
  by (simp add: write_close_frame_def encode_close_payload_correct)

lemma queue_close_cases:
  assumes "tx_wf c" and "length reason \<le> 123" and "queue_close env c code reason = (c', r)"
  shows "tx_wf c'"
    and "(ws_state c = Closing \<or> ws_state c = Closed) \<and> c' = c \<and> r = Ok () \<or>
      (\<exists>key. ws_state c \<noteq> Closing \<and> ws_state c \<noteq> Closed \<and> r = Ok () \<and>
         same_rx (c\<lparr>ws_state := if ws_state c = Open then Closing else ws_state c\<rparr>) c' \<and>
         pending_tx c' = pending_tx c @ masked_frame True Close key (u16_to_be code @ str reason)) \<or>
      r = Panic \<and> env_rand env (ws_rng_calls c) = None \<and> same_rx c c' \<and> pending_tx c' = pending_tx c"
proof -
  have "tx_wf c' \<and> ((ws_state c = Closing \<or> ws_state c = Closed) \<and> c' = c \<and> r = Ok () \<or>
      (\<exists>key. ws_state c \<noteq> Closing \<and> ws_state c \<noteq> Closed \<and> r = Ok () \<and>
         same_rx (c\<lparr>ws_state := if ws_state c = Open then Closing else ws_state c\<rparr>) c' \<and>
         pending_tx c' = pending_tx c @ masked_frame True Close key (u16_to_be code @ str reason)) \<or>
      r = Panic \<and> env_rand env (ws_rng_calls c) = None \<and> same_rx c c' \<and> pending_tx c' = pending_tx c)"
  proof (cases "ws_state c = Closing \<or> ws_state c = Closed")
    case False
    obtain d w where w: "write_frame env c True Close (u16_to_be code @ str reason) = (d, w)" by fastforce
    note cases = write_frame_cases [OF assms(1) w]
    have eq: "(c', r) = try_st (d, w) (\<lambda>c _. (if ws_state c = Open then c\<lparr>ws_state := Closing\<rparr> else c, Ok ()))"
      using assms(2,3) False w by (simp add: queue_close_def write_close_frame_eq str_def)
    have st: "ws_state d = ws_state c" using cases(1) same_rx_fields(1) by blast
    have upd: "same_rx (c\<lparr>ws_state := s\<rparr>) (d\<lparr>ws_state := s\<rparr>)" for s
      using cases(1) by (cases c; cases d) (simp add: same_rx_def)
    have view: "pending_tx (d\<lparr>ws_state := s\<rparr>) = pending_tx d" "tx_wf (d\<lparr>ws_state := s\<rparr>) = tx_wf d" for s
      by (simp_all add: pending_tx_def tx_wf_def)
    show ?thesis
    proof (cases w)
      case (Ok u)
      then show ?thesis
        using eq cases upd [of Closing] view [of Closing] False st by (auto split: if_split_asm)
    qed (use eq cases in auto)
  qed (use assms in \<open>auto simp: queue_close_def\<close>)
  then show "tx_wf c'"
    and "(ws_state c = Closing \<or> ws_state c = Closed) \<and> c' = c \<and> r = Ok () \<or>
      (\<exists>key. ws_state c \<noteq> Closing \<and> ws_state c \<noteq> Closed \<and> r = Ok () \<and>
         same_rx (c\<lparr>ws_state := if ws_state c = Open then Closing else ws_state c\<rparr>) c' \<and>
         pending_tx c' = pending_tx c @ masked_frame True Close key (u16_to_be code @ str reason)) \<or>
      r = Panic \<and> env_rand env (ws_rng_calls c) = None \<and> same_rx c c' \<and> pending_tx c' = pending_tx c"
    by auto
qed

text \<open>What a server does with a masked frame: parse the header, unmask the payload.\<close>

definition server_read :: "bytes \<Rightarrow> (bool \<times> OpCode \<times> bytes \<times> bytes) option" where
  "server_read bs =
     (case parse_header bs of
        Ok (Some (h, n)) \<Rightarrow>
          (case h_mask h of
             Some key \<Rightarrow>
               if n + unat (h_payload_len h) \<le> length bs then
                 Some (h_fin h, h_opcode h, mask_ref (take (unat (h_payload_len h)) (drop n bs)) key,
                       drop (n + unat (h_payload_len h)) bs)
               else None
           | None \<Rightarrow> None)
      | _ \<Rightarrow> None)"

lemma server_read_masked_frame:
  assumes "length payload < 2 ^ 63" and "is_control opcode \<Longrightarrow> fin \<and> length payload \<le> 125"
  shows "server_read (masked_frame fin opcode key payload @ rest) = Some (fin, opcode, payload, rest)"
proof -
  let ?h = "\<lparr>h_fin = fin, h_opcode = opcode, h_mask = Some key, h_payload_len = word_of_nat (length payload)\<rparr>"
  have len: "unat (word_of_nat (length payload) :: u64) = length payload"
    using assms(1) by (simp add: unat_of_nat_mod)
  then have "valid_header ?h" using assms by (simp add: valid_header_def word_le_nat_alt)
  from parse_header_wire [OF this, of "mask_ref payload key @ rest"] show ?thesis
    using len by (simp add: server_read_def masked_frame_def)
qed

lemma can_send_Open [simp]: "ws_state c = Open \<Longrightarrow> assert_can_send_data c = Ok ()"
  by (simp add: assert_can_send_data_def)

lemma can_send_not_Open [simp]: "ws_state c \<noteq> Open \<Longrightarrow> assert_can_send_data c = Err (WsInvalidState (ws_state c))"
  by (simp add: assert_can_send_data_def)

definition delivers :: "WsClient \<Rightarrow> WsClient \<times> (WsError, unit) result \<Rightarrow> OpCode \<Rightarrow> bytes \<Rightarrow> bool" where
  "delivers c res opcode payload \<longleftrightarrow>
     (\<exists>c' frame. res = (c', Ok ()) \<and> same_rx c c' \<and> tx_wf c' \<and> pending_tx c' = pending_tx c @ frame \<and>
        (\<forall>rest. server_read (frame @ rest) = Some (True, opcode, payload, rest)))"

lemma write_frame_delivers:
  assumes "tx_wf c" "rng_total env" "length payload < 2 ^ 63" "is_control opcode \<Longrightarrow> length payload \<le> 125"
  shows "delivers c (write_frame env c True opcode payload) opcode payload"
  using assms write_frame_Ok [OF assms(1,2), of True opcode payload] server_read_masked_frame [of payload opcode True]
  unfolding delivers_def by metis

subsection \<open>Properties\<close>

text \<open>C17. What the application sends is what a server reads: in the state \<^verbatim>\<open>Open\<close> each send operation on
  an acceptable payload succeeds, appends exactly one frame to the bytes to transmit (keeping those
  already queued) and changes nothing else of the connection; a server that parses the header and
  unmasks the payload gets the opcode and the very payload, whatever follows on the wire.\<close>

theorem send_delivers:
  assumes "tx_wf c" and "rng_total env" and "ws_state c = Open" and "length payload < 2 ^ 63"
  shows "(utf8_valid payload \<longrightarrow> delivers c (send_text env c payload) Text payload) \<and>
    delivers c (send_binary env c payload) Binary payload \<and>
    (length payload \<le> 125 \<longrightarrow> delivers c (send_ping env c payload) Ping payload \<and>
       delivers c (send_pong env c payload) Pong payload)"
  using assms(3) write_frame_delivers [OF assms(1,2,4), of Text] write_frame_delivers [OF assms(1,2,4), of Binary]
    write_frame_delivers [OF assms(1,2,4), of Ping] write_frame_delivers [OF assms(1,2,4), of Pong]
  by (simp add: send_text_def send_binary_def send_ping_def send_pong_def)

definition sample_env :: Env where
  "sample_env = \<lparr>env_sha1 = (\<lambda>bs. bs), env_base64 = (\<lambda>bs. bs), env_rand = (\<lambda>k. Some (\<lambda>i. word_of_nat (i + 7 * k))),
     env_avx2 = True\<rparr>"

definition sample_client :: WsClient where
  "sample_client =
     \<lparr>ws_state = Open, ws_parser = Idle, ws_recv_buf = with_capacity 64, ws_msg_buf = [], ws_borrowed_payload = None,
      ws_msg_opcode = None, ws_ctl_buf = replicate 125 0, ws_ctl_len = 0, ws_cur_opcode = None, ws_cur_fin = False,
      ws_tx_buf = [], ws_tx_cap = 64, ws_tx_head = 0, ws_config = ws_config_new (str ''h'') (str ''/''),
      ws_client_key = [], ws_handshake_started = True, ws_last_emitted = None,
      ws_mask_pool = replicate MASK_POOL_BYTES 3, ws_mask_pool_cursor = 0, ws_rng_calls = 2\<rparr>"

lemma sample_client_facts:
  "tx_wf sample_client" "rng_total sample_env" "ws_state sample_client = Open"
  by (simp_all add: tx_wf_def sample_client_def rng_total_def sample_env_def)

theorem send_delivers_witness:
  "delivers sample_client (send_text sample_env sample_client [0x68, 0x69]) Text [0x68, 0x69] \<and>
   delivers sample_client (send_ping sample_env sample_client []) Ping []"
  using send_delivers [OF sample_client_facts, of "[0x68, 0x69]"] send_delivers [OF sample_client_facts, of "[]"]
  by (simp add: utf8_valid_ascii)

text \<open>C28. Sends are refused without effect: in any state other than \<^verbatim>\<open>Open\<close> (in particular while the
  upgrade request is outstanding and after a close) every data, ping and pong send returns an error
  and leaves the client untouched, and so does a text that is not UTF-8 or a control payload over
  125 bytes in any state.\<close>

theorem send_refused:
  assumes "ws_state c \<noteq> Open"
  shows "(\<exists>e. send_text env c p = (c, Err e)) \<and> (\<exists>e. send_binary env c p = (c, Err e)) \<and>
    (\<exists>e. send_ping env c p = (c, Err e)) \<and> (\<exists>e. send_pong env c p = (c, Err e)) \<and>
    (\<not> utf8_valid q \<longrightarrow> send_text env d q = (d, Err WsUtf8Invalid)) \<and>
    (length q > 125 \<longrightarrow> (\<exists>e. send_ping env d q = (d, Err e)) \<and> (\<exists>e. send_pong env d q = (d, Err e)))"
  using assms by (simp add: send_text_def send_binary_def send_ping_def send_pong_def)

theorem send_refused_witness:
  "\<exists>e. send_binary sample_env (sample_client\<lparr>ws_state := Closing\<rparr>) [1] = (sample_client\<lparr>ws_state := Closing\<rparr>, Err e)"
  using send_refused [of "sample_client\<lparr>ws_state := Closing\<rparr>" sample_env "[1]"] by simp

end
