(* ===== verification/Ws_Recv.thy ===== *)
theory Ws_Recv
  imports Ws_Client
begin

text \<open>
  The receive side of \<^verbatim>\<open>ws/client.rs\<close>: the handshake step, the frame state machine, the borrowed
  fast path of \<^verbatim>\<open>poll_event\<close>, and \<^verbatim>\<open>poll_event\<close> itself.

  \<^verbatim>\<open>poll_event\<close> returns \<^verbatim>\<open>Option<Result<Event, WsError>>\<close>; here \<open>Ok None\<close> is \<^verbatim>\<open>None\<close>, \<open>Ok (Some e)\<close>
  is \<^verbatim>\<open>Some(Ok(e))\<close> and \<open>Err e\<close> is \<^verbatim>\<open>Some(Err(e))\<close>.  On the 64-bit targets of the program
  \<^verbatim>\<open>usize::try_from(u64)\<close> does not fail, so that arm has no counterpart.
\<close>

datatype AdvanceResult = AdvEmit EmitKind | Progressed | AdvNeedMore

datatype BorrowedResult = BorrowedEmit EmitKind | WaitForMore | Fallback

datatype Action = ActNeedMore | ActFrameStart FrameHeader | ActPayloadChunk | ActFrameEnd

subsection \<open>Frames\<close>

definition open_message :: "Env \<Rightarrow> WsClient \<Rightarrow> OpCode \<Rightarrow> WsClient \<times> (WsError, unit) result" where
  "open_message env c opcode =
     (if opcode = Continuation then
        (if ws_msg_opcode c = None then
           try_st (queue_close env c (as_u16 ProtocolError) ''continuation without start'')
             (\<lambda>c _. (c, Err (WsProtocol ''continuation without start'')))
         else (c, Ok ()))
      else if opcode = Text \<or> opcode = Binary then
        (if ws_msg_opcode c \<noteq> None then
           try_st (queue_close env c (as_u16 ProtocolError) ''new data frame mid-fragmentation'')
             (\<lambda>c _. (c, Err (WsProtocol ''nested data frame'')))
         else (c\<lparr>ws_msg_opcode := Some opcode, ws_msg_buf := []\<rparr>, Ok ()))
      else (c, Err (WsInternal ''non-data non-control opcode'')))"

definition admit_frame :: "Env \<Rightarrow> WsClient \<Rightarrow> FrameHeader \<Rightarrow> WsClient \<times> (WsError, unit) result" where
  "admit_frame env c h =
     (let prospective = min (length (ws_msg_buf c) + unat (h_payload_len h)) USIZE_MAX
      in if prospective > cf_max_message_size (ws_config c) then
           try_st (queue_close env c (as_u16 MessageTooBig) ''message exceeds max_message_size'')
             (\<lambda>c _. (c, Err WsMessageTooLarge))
         else (c\<lparr>ws_cur_opcode := Some (h_opcode h), ws_cur_fin := h_fin h\<rparr>, Ok ()))"

definition on_frame_start :: "Env \<Rightarrow> WsClient \<Rightarrow> FrameHeader \<Rightarrow> WsClient \<times> (WsError, unit) result" where
  "on_frame_start env c h =
     (if h_payload_len h > cf_max_frame_payload (ws_config c) then
        try_st (queue_close env c (as_u16 MessageTooBig) ''frame too large'') (\<lambda>c _. (c, Err WsMessageTooLarge))
      else if is_control (h_opcode h) then
        (c\<lparr>ws_ctl_len := 0, ws_cur_opcode := Some (h_opcode h), ws_cur_fin := h_fin h\<rparr>, Ok ())
      else try_st (open_message env c (h_opcode h)) (\<lambda>c _. admit_frame env c h))"

definition on_received_close :: "Env \<Rightarrow> WsClient \<Rightarrow> WsClient \<times> (WsError, unit) result" where
  "on_received_close env c =
     (let payload = take (ws_ctl_len c) (ws_ctl_buf c)
      in case parse_close_payload payload of
           Err e \<Rightarrow>
             try_st (queue_close env c (as_u16 ProtocolError) ''bad close payload'')
               (\<lambda>c _. (c\<lparr>ws_state := Closing\<rparr>, Err (WsClose e)))
         | Panic \<Rightarrow> (c, Panic)
         | Ok parsed \<Rightarrow>
             let echo_code = (case parsed of Some (code, _) \<Rightarrow> code | None \<Rightarrow> as_u16 Normal)
             in try_st (if ws_state c = Open then queue_close env c echo_code '''' else (c, Ok ()))
                  (\<lambda>c _. (c\<lparr>ws_state := Closed\<rparr>, Ok ())))"

definition on_control_end :: "Env \<Rightarrow> WsClient \<Rightarrow> OpCode \<Rightarrow> WsClient \<times> (WsError, EmitKind option) result" where
  "on_control_end env c opcode =
     (case opcode of
        Ping \<Rightarrow>
          try_st
            (if cf_auto_pong (ws_config c) then
               (case write_at (replicate 125 0) 0 (take (ws_ctl_len c) (ws_ctl_buf c)) of
                  Ok payload \<Rightarrow> write_frame env c True Pong (take (ws_ctl_len c) payload)
                | Err e \<Rightarrow> (c, Err e)
                | Panic \<Rightarrow> (c, Panic))
             else (c, Ok ()))
            (\<lambda>c _. (c, Ok (Some EkPing)))
      | Pong \<Rightarrow> (c, Ok (Some EkPong))
      | Close \<Rightarrow> try_st (on_received_close env c) (\<lambda>c _. (c, Ok (Some EkClose)))
      | _ \<Rightarrow> (c, Err (WsInternal ''bad control opcode'')))"

definition on_frame_end :: "Env \<Rightarrow> WsClient \<Rightarrow> WsClient \<times> (WsError, EmitKind option) result" where
  "on_frame_end env c =
     (case ws_cur_opcode c of
        None \<Rightarrow> (c, Err (WsInternal ''FrameEnd without FrameStart''))
      | Some opcode \<Rightarrow>
          let c = c\<lparr>ws_cur_opcode := None\<rparr>; fin = ws_cur_fin c
          in if is_control opcode then on_control_end env c opcode
             else if \<not> fin then (c, Ok None)
             else
               (case ws_msg_opcode c of
                  None \<Rightarrow> (c, Err (WsInternal ''FrameEnd FIN without active message''))
                | Some msg_opcode \<Rightarrow>
                    let c = c\<lparr>ws_msg_opcode := None\<rparr>
                    in (case msg_opcode of
                          Text \<Rightarrow>
                            if \<not> cf_assume_text_utf8 (ws_config c) \<and> \<not> utf8_valid (ws_msg_buf c) then
                              try_st (queue_close env c (as_u16 InvalidPayload) ''invalid utf-8'')
                                (\<lambda>c _. (c, Err WsUtf8Invalid))
                            else (c, Ok (Some EkText))
                        | Binary \<Rightarrow> (c, Ok (Some EkBinary))
                        | _ \<Rightarrow> (c, Err (WsInternal ''non-data msg_opcode'')))))"

definition take_chunk :: "WsClient \<Rightarrow> bytes \<Rightarrow> WsClient \<times> (WsError, unit) result" where
  "take_chunk c chunk =
     (case ws_cur_opcode c of
        None \<Rightarrow> (c, Ok ())
      | Some op \<Rightarrow>
          if is_control op then
            (case write_at (ws_ctl_buf c) (ws_ctl_len c) chunk of
               Ok buf \<Rightarrow> (c\<lparr>ws_ctl_buf := buf, ws_ctl_len := ws_ctl_len c + length chunk\<rparr>, Ok ())
             | Err e \<Rightarrow> (c, Err e)
             | Panic \<Rightarrow> (c, Panic))
          else (c\<lparr>ws_msg_buf := ws_msg_buf c @ chunk\<rparr>, Ok ()))"

definition run_action :: "Env \<Rightarrow> WsClient \<Rightarrow> Action \<Rightarrow> WsClient \<times> (WsError, AdvanceResult) result" where
  "run_action env c action =
     (case action of
        ActNeedMore \<Rightarrow> (c, Ok AdvNeedMore)
      | ActFrameStart h \<Rightarrow> try_st (on_frame_start env c h) (\<lambda>c _. (c, Ok Progressed))
      | ActPayloadChunk \<Rightarrow> (c, Ok Progressed)
      | ActFrameEnd \<Rightarrow>
          try_st (on_frame_end env c)
            (\<lambda>c kind. (c, Ok (case kind of Some k \<Rightarrow> AdvEmit k | None \<Rightarrow> Progressed))))"

definition consume_recv :: "WsClient \<Rightarrow> nat \<Rightarrow> WsClient" where
  "consume_recv c n = c\<lparr>ws_recv_buf := cb_consume (ws_recv_buf c) n\<rparr>"

definition advance_frame :: "Env \<Rightarrow> WsClient \<Rightarrow> WsClient \<times> (WsError, AdvanceResult) result" where
  "advance_frame env c =
     (case feed_one (ws_parser c) (as_slice (ws_recv_buf c)) of
        (p, Err e) \<Rightarrow>
          try_st (queue_close env (c\<lparr>ws_parser := p\<rparr>) (as_u16 ProtocolError) ''frame parse error'')
            (\<lambda>c _. (c, Err (WsFrame e)))
      | (p, Panic) \<Rightarrow> (c\<lparr>ws_parser := p\<rparr>, Panic)
      | (p, Ok (NeedMore consumed)) \<Rightarrow> run_action env (consume_recv (c\<lparr>ws_parser := p\<rparr>) consumed) ActNeedMore
      | (p, Ok (Event consumed (FrameStart h))) \<Rightarrow>
          run_action env (consume_recv (c\<lparr>ws_parser := p\<rparr>) consumed) (ActFrameStart h)
      | (p, Ok (Event consumed (PayloadChunk chunk))) \<Rightarrow>
          try_st (take_chunk (c\<lparr>ws_parser := p\<rparr>) chunk)
            (\<lambda>c _. run_action env (consume_recv c consumed) ActPayloadChunk)
      | (p, Ok (Event consumed FrameEnd)) \<Rightarrow>
          run_action env (consume_recv (c\<lparr>ws_parser := p\<rparr>) consumed) ActFrameEnd)"

definition advance_handshake :: "Env \<Rightarrow> WsClient \<Rightarrow> WsClient \<times> (WsError, AdvanceResult) result" where
  "advance_handshake env c =
     try_st (c, map_err WsHttp (parse_response (as_slice (ws_recv_buf c)))) (\<lambda>c parsed.
       (case parsed of
          None \<Rightarrow> (c, Ok AdvNeedMore)
        | Some (r, end') \<Rightarrow>
            try_st
              (c, map_err WsHandshake
                    (verify_upgrade_response env r (ws_client_key c) (cf_subprotocols (ws_config c))))
              (\<lambda>c _. ((consume_recv c end')\<lparr>ws_state := Open\<rparr>, Ok (AdvEmit EkHandshakeComplete)))))"

definition advance :: "Env \<Rightarrow> WsClient \<Rightarrow> WsClient \<times> (WsError, AdvanceResult) result" where
  "advance env c =
     (case ws_state c of
        Connecting \<Rightarrow> advance_handshake env c
      | Open \<Rightarrow> advance_frame env c
      | Closing \<Rightarrow> advance_frame env c
      | Closed \<Rightarrow> (c, Ok AdvNeedMore))"

subsection \<open>The borrowed fast path\<close>

definition fast_blocked :: "WsClient \<Rightarrow> bool" where
  "fast_blocked c \<longleftrightarrow>
     ws_state c \<noteq> Open \<or> \<not> is_idle (ws_parser c) \<or> ws_msg_opcode c \<noteq> None \<or> cb_is_empty (ws_recv_buf c)"

definition borrowed_kind :: "Env \<Rightarrow> WsClient \<Rightarrow> OpCode \<Rightarrow> bytes \<Rightarrow> WsClient \<times> (WsError, EmitKind) result" where
  "borrowed_kind env c opcode payload =
     (if opcode = Text then
        (if \<not> cf_assume_text_utf8 (ws_config c) \<and> \<not> utf8_valid payload then
           try_st (queue_close env c (as_u16 InvalidPayload) ''invalid utf-8'') (\<lambda>c _. (c, Err WsUtf8Invalid))
         else (c, Ok EkBorrowedText))
      else if opcode = Binary then (c, Ok EkBorrowedBinary)
      else (c, Panic))"

definition borrow_frame :: "Env \<Rightarrow> WsClient \<Rightarrow> FrameHeader \<Rightarrow> nat \<Rightarrow> WsClient \<times> (WsError, BorrowedResult) result" where
  "borrow_frame env c h header_len =
     (if h_mask h \<noteq> None then
        try_st (queue_close env c (as_u16 ProtocolError) ''server sent masked frame'')
          (\<lambda>c _. (c, Err (WsFrame ServerSentMaskedFrame)))
      else if \<not> h_fin h \<or> \<not> (h_opcode h = Text \<or> h_opcode h = Binary) then (c, Ok Fallback)
      else if h_payload_len h > cf_max_frame_payload (ws_config c) then
        try_st (queue_close env c (as_u16 MessageTooBig) ''frame too large'') (\<lambda>c _. (c, Err WsMessageTooLarge))
      else
        let payload_len = unat (h_payload_len h)
        in if payload_len > cf_max_message_size (ws_config c) then
             try_st (queue_close env c (as_u16 MessageTooBig) ''message exceeds max_message_size'')
               (\<lambda>c _. (c, Err WsMessageTooLarge))
           else if header_len + payload_len > USIZE_MAX then
             try_st (queue_close env c (as_u16 MessageTooBig) ''frame too large'') (\<lambda>c _. (c, Err WsMessageTooLarge))
           else
             let frame_len = header_len + payload_len
             in if cb_len (ws_recv_buf c) < frame_len then (c, Ok WaitForMore)
                else
                  try_st
                    (borrowed_kind env c (h_opcode h) (drop header_len (take frame_len (as_slice (ws_recv_buf c)))))
                    (\<lambda>c kind.
                       (c\<lparr>ws_borrowed_payload := Some \<lparr>bp_payload_start = header_len, bp_payload_end = frame_len,
                                                  bp_frame_len = frame_len\<rparr>\<rparr>, Ok (BorrowedEmit kind))))"

definition try_emit_borrowed_data :: "Env \<Rightarrow> WsClient \<Rightarrow> WsClient \<times> (WsError, BorrowedResult) result" where
  "try_emit_borrowed_data env c =
     (if fast_blocked c then (c, Ok Fallback)
      else
        (case parse_header (as_slice (ws_recv_buf c)) of
           Err e \<Rightarrow>
             try_st (queue_close env c (as_u16 ProtocolError) ''frame parse error'') (\<lambda>c _. (c, Err (WsFrame e)))
         | Panic \<Rightarrow> (c, Panic)
         | Ok None \<Rightarrow> (c, Ok WaitForMore)
         | Ok (Some (h, header_len)) \<Rightarrow> borrow_frame env c h header_len))"

subsection \<open>Events\<close>

definition borrowed_payload :: "WsClient \<Rightarrow> (WsError, bytes) result" where
  "borrowed_payload c =
     (case ws_borrowed_payload c of
        None \<Rightarrow> Panic
      | Some b \<Rightarrow>
          if bp_payload_start b \<le> bp_payload_end b \<and> bp_payload_end b \<le> length (as_slice (ws_recv_buf c))
          then Ok (drop (bp_payload_start b) (take (bp_payload_end b) (as_slice (ws_recv_buf c))))
          else Panic)"

definition build_event :: "WsClient \<Rightarrow> EmitKind \<Rightarrow> (WsError, WsEvent) result" where
  "build_event c kind =
     (case kind of
        EkHandshakeComplete \<Rightarrow> Ok HandshakeComplete
      | EkText \<Rightarrow>
          Ok (EvText (if cf_assume_text_utf8 (ws_config c) then ws_msg_buf c
                      else if utf8_valid (ws_msg_buf c) then ws_msg_buf c else []))
      | EkBinary \<Rightarrow> Ok (EvBinary (ws_msg_buf c))
      | EkBorrowedText \<Rightarrow>
          and_then (borrowed_payload c) (\<lambda>payload.
            if cf_assume_text_utf8 (ws_config c) then Ok (EvText payload)
            else if utf8_valid payload then Ok (EvText payload) else Panic)
      | EkBorrowedBinary \<Rightarrow> and_then (borrowed_payload c) (\<lambda>payload. Ok (EvBinary payload))
      | EkPing \<Rightarrow> Ok (EvPing (take (ws_ctl_len c) (ws_ctl_buf c)))
      | EkPong \<Rightarrow> Ok (EvPong (take (ws_ctl_len c) (ws_ctl_buf c)))
      | EkClose \<Rightarrow>
          (case parse_close_payload (take (ws_ctl_len c) (ws_ctl_buf c)) of
             Ok (Some (code, reason)) \<Rightarrow> Ok (EvClose code reason)
           | Ok None \<Rightarrow> Ok (EvClose 1005 [])
           | _ \<Rightarrow> Panic))"

definition clear_after_emit :: "WsClient \<Rightarrow> WsClient \<times> (WsError, unit) result" where
  "clear_after_emit c =
     (let last = ws_last_emitted c; c = c\<lparr>ws_last_emitted := None\<rparr>
      in case last of
           None \<Rightarrow> (c, Ok ())
         | Some EkHandshakeComplete \<Rightarrow> (c, Ok ())
         | Some EkText \<Rightarrow> (c\<lparr>ws_msg_buf := []\<rparr>, Ok ())
         | Some EkBinary \<Rightarrow> (c\<lparr>ws_msg_buf := []\<rparr>, Ok ())
         | Some EkPing \<Rightarrow> (c\<lparr>ws_ctl_len := 0\<rparr>, Ok ())
         | Some EkPong \<Rightarrow> (c\<lparr>ws_ctl_len := 0\<rparr>, Ok ())
         | Some EkClose \<Rightarrow> (c\<lparr>ws_ctl_len := 0\<rparr>, Ok ())
         | Some _ \<Rightarrow>
             (case ws_borrowed_payload c of
                None \<Rightarrow> (c, Panic)
              | Some b \<Rightarrow> (consume_recv (c\<lparr>ws_borrowed_payload := None\<rparr>) (bp_frame_len b), Ok ())))"

definition emit :: "WsClient \<Rightarrow> EmitKind \<Rightarrow> WsClient \<times> (WsError, WsEvent option) result" where
  "emit c kind =
     (let c = c\<lparr>ws_last_emitted := Some kind\<rparr> in (c, and_then (build_event c kind) (\<lambda>e. Ok (Some e))))"

definition fail_poll :: "WsClient \<Rightarrow> WsClient" where
  "fail_poll c = (if ws_state c \<noteq> Closing then c\<lparr>ws_state := Closed\<rparr> else c)"

subsection \<open>What the steps leave of the input\<close>

text \<open>The parser and the unread bytes decide the termination of the polling loop.\<close>

definition rx_measure :: "WsClient \<Rightarrow> nat" where
  "rx_measure c = feed_measure (ws_parser c) (as_slice (ws_recv_buf c))"

definition same_input :: "WsClient \<Rightarrow> WsClient \<Rightarrow> bool" where
  "same_input c d \<longleftrightarrow> ws_parser d = ws_parser c \<and> ws_recv_buf d = ws_recv_buf c \<and> ws_config d = ws_config c \<and>
     ws_client_key d = ws_client_key c \<and> ws_handshake_started d = ws_handshake_started c"

text \<open>What no receive operation touches.\<close>

definition same_setup :: "WsClient \<Rightarrow> WsClient \<Rightarrow> bool" where
  "same_setup c d \<longleftrightarrow> ws_config d = ws_config c \<and> ws_client_key d = ws_client_key c \<and>
     ws_handshake_started d = ws_handshake_started c"

lemma same_input_refl [simp]: "same_input c c"
  by (simp add: same_input_def)

lemma same_input_trans: "same_input c d \<Longrightarrow> same_input d e \<Longrightarrow> same_input c e"
  by (simp add: same_input_def)

lemma same_input_updates [simp]:
  "same_input c (d\<lparr>ws_state := s\<rparr>) = same_input c d" "same_input c (d\<lparr>ws_msg_opcode := mo\<rparr>) = same_input c d"
  "same_input c (d\<lparr>ws_msg_buf := mb\<rparr>) = same_input c d" "same_input c (d\<lparr>ws_cur_opcode := co\<rparr>) = same_input c d"
  "same_input c (d\<lparr>ws_cur_fin := cf\<rparr>) = same_input c d" "same_input c (d\<lparr>ws_ctl_len := l\<rparr>) = same_input c d"
  "same_input c (d\<lparr>ws_ctl_buf := cb\<rparr>) = same_input c d" "same_input c (d\<lparr>ws_tx_buf := tb\<rparr>) = same_input c d"
  "same_input (c\<lparr>ws_msg_opcode := mo\<rparr>) d = same_input c d" "same_input (c\<lparr>ws_cur_opcode := co\<rparr>) d = same_input c d"
  "same_input (c\<lparr>ws_msg_buf := mb\<rparr>) d = same_input c d"
  by (simp_all add: same_input_def)

lemma same_input_tx [simp]:
  "same_input c (tx_extend c bs)" "same_input c (compact_tx_if_needed c n)"
  by (simp_all add: same_input_def tx_extend_def compact_tx_if_needed_def)

lemma same_input_next_mask: "next_mask env c = (c', r) \<Longrightarrow> same_input c c'"
  by (auto simp: next_mask_def same_input_def Let_def split: if_split_asm option.split_asm)

lemma same_input_write_frame: "write_frame env c fin op payload = (c', r) \<Longrightarrow> same_input c c'"
  unfolding write_frame_def
  by (erule try_st_cases)
    (auto dest!: same_input_next_mask simp: Let_def same_input_def tx_extend_def compact_tx_if_needed_def
      split: result.split_asm prod.split_asm if_split_asm)

lemma same_input_queue_close: "queue_close env c code reason = (c', r) \<Longrightarrow> same_input c c'"
  unfolding queue_close_def write_close_frame_def
  by (auto elim!: try_st_cases dest!: same_input_write_frame split: if_split_asm result.split_asm)

lemma same_input_open_message: "open_message env c op = (c', r) \<Longrightarrow> same_input c c'"
  unfolding open_message_def
  by (auto elim!: try_st_cases dest!: same_input_queue_close split: if_split_asm)

lemma same_input_admit_frame: "admit_frame env c h = (c', r) \<Longrightarrow> same_input c c'"
  unfolding admit_frame_def
  by (auto elim!: try_st_cases dest!: same_input_queue_close simp: Let_def split: if_split_asm)

lemma same_input_on_frame_start: "on_frame_start env c h = (c', r) \<Longrightarrow> same_input c c'"
  unfolding on_frame_start_def
  by (auto elim!: try_st_cases dest!: same_input_queue_close same_input_open_message same_input_admit_frame
      intro: same_input_trans split: if_split_asm)

lemma same_input_on_received_close: "on_received_close env c = (c', r) \<Longrightarrow> same_input c c'"
  unfolding on_received_close_def
  by (auto elim!: try_st_cases dest!: same_input_queue_close simp: Let_def split: if_split_asm result.split_asm)

lemma same_input_on_control_end: "on_control_end env c op = (c', r) \<Longrightarrow> same_input c c'"
  unfolding on_control_end_def
  by (auto elim!: try_st_cases dest!: same_input_on_received_close same_input_write_frame
      split: if_split_asm result.split_asm OpCode.split_asm)

lemma same_input_on_frame_end: "on_frame_end env c = (c', r) \<Longrightarrow> same_input c c'"
  unfolding on_frame_end_def
  by (auto elim!: try_st_cases dest!: same_input_on_control_end same_input_queue_close
      simp: Let_def split: if_split_asm option.split_asm OpCode.split_asm)

lemma same_input_take_chunk: "take_chunk c bs = (c', r) \<Longrightarrow> same_input c c'"
  unfolding take_chunk_def by (auto split: if_split_asm option.split_asm result.split_asm)

lemma same_input_run_action: "run_action env c a = (c', r) \<Longrightarrow> same_input c c'"
  unfolding run_action_def
  by (auto elim!: try_st_cases dest!: same_input_on_frame_start same_input_on_frame_end split: Action.split_asm)

lemma rx_measure_same_input: "same_input c d \<Longrightarrow> rx_measure d = rx_measure c"
  by (simp add: same_input_def rx_measure_def)

lemma rx_measure_consume: "rx_measure (consume_recv c n) = feed_measure (ws_parser c) (drop n (as_slice (ws_recv_buf c)))"
  by (simp add: rx_measure_def consume_recv_def)

text \<open>A step either asks for more input or uses some up.\<close>

lemma advance_frame_Progressed:
  assumes "advance_frame env c = (c', Ok a)" and "a \<noteq> AdvNeedMore"
  shows "rx_measure c' < rx_measure c"
proof -
  obtain p o1 where one: "feed_one (ws_parser c) (as_slice (ws_recv_buf c)) = (p, o1)" by fastforce
  obtain cons e where o1: "o1 = Ok (Event cons e)"
  proof (cases o1)
    case (Ok oc)
    then show ?thesis using assms one that by (cases oc) (auto simp: advance_frame_def run_action_def)
  qed (use assms one in \<open>auto simp: advance_frame_def elim!: try_st_cases\<close>)
  have "rx_measure c' = feed_measure p (drop cons (as_slice (ws_recv_buf c)))"
  proof (cases e)
    case (FrameStart h)
    then show ?thesis
      using assms one o1 rx_measure_same_input [OF same_input_run_action, of env _ "ActFrameStart h" c']
      by (auto simp: advance_frame_def rx_measure_consume)
  next
    case (PayloadChunk chunk)
    then obtain d where "take_chunk (c\<lparr>ws_parser := p\<rparr>) chunk = (d, Ok ())"
      "run_action env (consume_recv d cons) ActPayloadChunk = (c', Ok a)"
      using assms one o1 by (auto simp: advance_frame_def elim!: try_st_cases)
    then show ?thesis
      using rx_measure_same_input [OF same_input_run_action, of env "consume_recv d cons" ActPayloadChunk c']
        same_input_take_chunk [of "c\<lparr>ws_parser := p\<rparr>" chunk d]
      by (simp add: rx_measure_consume same_input_def)
  next
    case FrameEnd
    then show ?thesis
      using assms one o1 rx_measure_same_input [OF same_input_run_action, of env _ ActFrameEnd c']
      by (auto simp: advance_frame_def rx_measure_consume)
  qed
  also have "\<dots> < rx_measure c"
    using feed_one_Event_decreases(2) [OF one [unfolded o1]] by (simp add: rx_measure_def)
  finally show ?thesis .
qed

lemma advance_Progressed: "advance env c = (c', Ok Progressed) \<Longrightarrow> rx_measure c' < rx_measure c"
  by (auto simp: advance_def advance_handshake_def elim!: try_st_cases dest: advance_frame_Progressed
      split: ConnState.split_asm option.split_asm)

lemma try_emit_Fallback: "try_emit_borrowed_data env c = (c', Ok Fallback) \<Longrightarrow> c' = c"
  unfolding try_emit_borrowed_data_def borrow_frame_def
  by (auto elim!: try_st_cases simp: Let_def split: if_split_asm result.split_asm option.split_asm)

lemma advance_setup: "advance env c = (d, r) \<Longrightarrow> same_setup c d"
  unfolding advance_def advance_handshake_def advance_frame_def
  by (auto elim!: try_st_cases dest!: same_input_queue_close same_input_run_action same_input_take_chunk
      simp: same_input_def same_setup_def consume_recv_def
      split: ConnState.split_asm option.split_asm prod.split_asm result.split_asm FeedOutcome.split_asm
        FrameEvent.split_asm)

lemma try_emit_setup: "try_emit_borrowed_data env c = (d, r) \<Longrightarrow> same_setup c d"
  unfolding try_emit_borrowed_data_def borrow_frame_def borrowed_kind_def
  by (auto elim!: try_st_cases dest!: same_input_queue_close simp: same_input_def same_setup_def Let_def
      split: if_split_asm result.split_asm option.split_asm)

subsection \<open>\<^verbatim>\<open>poll_event\<close>\<close>

function poll_loop :: "Env \<Rightarrow> WsClient \<Rightarrow> WsClient \<times> (WsError, WsEvent option) result" where
  "poll_loop env c =
     (if ws_state c = Closed then (c, Ok None)
      else
        (case try_emit_borrowed_data env c of
           (c, Ok (BorrowedEmit kind)) \<Rightarrow> emit c kind
         | (c, Ok WaitForMore) \<Rightarrow> (c, Ok None)
         | (c, Err e) \<Rightarrow> (fail_poll c, Err e)
         | (c, Panic) \<Rightarrow> (c, Panic)
         | (c, Ok Fallback) \<Rightarrow>
             (case advance env c of
                (c, Ok (AdvEmit kind)) \<Rightarrow> emit c kind
              | (c, Ok Progressed) \<Rightarrow> poll_loop env c
              | (c, Ok AdvNeedMore) \<Rightarrow> (c, Ok None)
              | (c, Err e) \<Rightarrow> (fail_poll c, Err e)
              | (c, Panic) \<Rightarrow> (c, Panic))))"
  by pat_completeness auto

termination poll_loop
proof (relation "measure (\<lambda>(env, c). rx_measure c)")
  fix env c x y d x2 y2 a
  assume "(d, y) = try_emit_borrowed_data env c" "y = Ok x" "x = Fallback"
    "(x2, y2) = advance env d" "y2 = Ok a" "a = Progressed"
  then have "d = c" "advance env d = (x2, Ok Progressed)" using try_emit_Fallback [of env c d] by auto
  then show "((env, x2), (env, c)) \<in> measure (\<lambda>(env, c). rx_measure c)" using advance_Progressed by auto
qed simp

declare poll_loop.simps [simp del]

definition poll_event :: "Env \<Rightarrow> WsClient \<Rightarrow> WsClient \<times> (WsError, WsEvent option) result" where
  "poll_event env c = try_st (clear_after_emit c) (\<lambda>c _. poll_loop env c)"

lemma emit_setup: "same_setup c (fst (emit c kind))"
  by (simp add: emit_def Let_def same_setup_def)

lemma same_setup_trans: "same_setup c d \<Longrightarrow> same_setup d e \<Longrightarrow> same_setup c e"
  by (simp add: same_setup_def)

lemma same_setup_simps [simp]: "same_setup c c" "same_setup c (fail_poll d) = same_setup c d"
  by (simp_all add: fail_poll_def same_setup_def)

lemma poll_loop_setup: "poll_loop env c = (d, r) \<Longrightarrow> same_setup c d"
proof (induction env c rule: poll_loop.induct)
  case (1 env c)
  obtain c1 b where b: "try_emit_borrowed_data env c = (c1, b)" by fastforce
  obtain c2 a where a: "advance env c1 = (c2, a)" by fastforce
  note conf = try_emit_setup [OF b] same_setup_trans [OF try_emit_setup [OF b] advance_setup [OF a]]
  have "same_setup c d"
    if "b = Ok Fallback" "a = Ok Progressed" "ws_state c \<noteq> Closed"
    using "1.IH" [OF that(3) b [symmetric] that(1) refl a [symmetric] that(2) refl] "1.prems" that a b
      same_setup_trans [OF conf(2)]
    by (simp add: poll_loop.simps [of env c])
  then show ?case
    using "1.prems" a b conf same_setup_trans [OF conf(1) emit_setup] same_setup_trans [OF conf(2) emit_setup]
    by (auto simp: poll_loop.simps [of env c] split: if_split_asm result.split_asm BorrowedResult.split_asm
        AdvanceResult.split_asm) (metis fst_conv)+
qed

fun is_borrowed :: "EmitKind \<Rightarrow> bool" where
  "is_borrowed EkBorrowedText = True"
| "is_borrowed EkBorrowedBinary = True"
| "is_borrowed _ = False"

lemma advance_frame_kind: "advance_frame env c = (d, Ok (AdvEmit kind)) \<Longrightarrow> \<not> is_borrowed kind"
  by (auto simp: advance_frame_def run_action_def on_frame_end_def on_control_end_def Let_def elim!: try_st_cases
      split: prod.split_asm result.split_asm FeedOutcome.split_asm FrameEvent.split_asm option.split_asm if_split_asm
        OpCode.split_asm)

text \<open>Progress of \<^verbatim>\<open>poll_event\<close>: a call that yields an event has used up input, counting a borrowed
  frame as used (it is consumed when the next call clears it).\<close>

definition cleared :: "WsClient \<Rightarrow> WsClient" where
  "cleared c = fst (clear_after_emit c)"

lemma cleared_None: "ws_last_emitted c = None \<Longrightarrow> cleared c = c"
  by (cases c) (simp add: cleared_def clear_after_emit_def)

lemma cleared_emit:
  "\<not> is_borrowed kind \<Longrightarrow> rx_measure (cleared (fst (emit c kind))) = rx_measure c"
  "is_borrowed kind \<Longrightarrow> ws_borrowed_payload c = Some b \<Longrightarrow>
     rx_measure (cleared (fst (emit c kind))) = feed_measure (ws_parser c) (drop (bp_frame_len b) (as_slice (ws_recv_buf c)))"
  by (cases kind; simp add: emit_def cleared_def clear_after_emit_def Let_def rx_measure_def consume_recv_def)+

lemma borrow_frame_emits:
  assumes "borrow_frame env c h n = (d, Ok (BorrowedEmit kind))"
  shows "is_borrowed kind \<and> (\<exists>b. d = c\<lparr>ws_borrowed_payload := Some b\<rparr> \<and> bp_frame_len b \<ge> n \<and>
    bp_frame_len b \<le> length (as_slice (ws_recv_buf c)))"
  using assms
  by (auto simp: borrow_frame_def borrowed_kind_def Let_def length_as_slice elim!: try_st_cases split: if_split_asm)

lemma try_emit_decreases:
  assumes "try_emit_borrowed_data env c = (d, Ok (BorrowedEmit kind))"
  shows "rx_measure (cleared (fst (emit d kind))) < rx_measure c"
proof -
  obtain h n where hn: "parse_header (as_slice (ws_recv_buf c)) = Ok (Some (h, n))"
    "borrow_frame env c h n = (d, Ok (BorrowedEmit kind))"
    using assms by (auto simp: try_emit_borrowed_data_def elim!: try_st_cases
        split: if_split_asm result.split_asm option.split_asm)
  obtain b where b: "is_borrowed kind" "d = c\<lparr>ws_borrowed_payload := Some b\<rparr>" "n \<le> bp_frame_len b"
    "bp_frame_len b \<le> length (as_slice (ws_recv_buf c))"
    using borrow_frame_emits [OF hn(2)] by blast
  have "2 \<le> n" using parse_header_sound [OF hn(1)] length_wire_header_bounds(1) by auto
  then show ?thesis
    using b cleared_emit(2) [of kind d b] by (simp add: rx_measure_def feed_measure_def)
qed

lemma advance_emit_decreases:
  assumes "advance env c = (d, Ok (AdvEmit kind))"
  shows "rx_measure (cleared (fst (emit d kind))) < rx_measure c"
proof (cases "ws_state c = Connecting")
  case True
  then obtain r n where "parse_response (as_slice (ws_recv_buf c)) = Ok (Some (r, n))" "kind = EkHandshakeComplete"
    "d = (consume_recv c n)\<lparr>ws_state := Open\<rparr>"
    using assms by (auto simp: advance_def advance_handshake_def elim!: try_st_cases split: option.split_asm)
  moreover from this have "4 \<le> n" "n \<le> length (as_slice (ws_recv_buf c))"
    using parse_response_end_le by (auto elim!: parse_response_SomeE)
  ultimately show ?thesis
    using cleared_emit(1) [of kind d] by (simp add: rx_measure_def feed_measure_def consume_recv_def)
next
  case False
  then have "advance_frame env c = (d, Ok (AdvEmit kind))"
    using assms by (simp add: advance_def split: ConnState.split_asm)
  then show ?thesis
    using cleared_emit(1) [OF advance_frame_kind, of env c d kind] advance_frame_Progressed [of env c d] by simp
qed

lemma poll_loop_decreases:
  "poll_loop env c = (d, Ok (Some e)) \<Longrightarrow> rx_measure (cleared d) < rx_measure c"
proof (induction env c rule: poll_loop.induct)
  case (1 env c)
  obtain c1 b where b: "try_emit_borrowed_data env c = (c1, b)" by fastforce
  obtain c2 a where a: "advance env c1 = (c2, a)" by fastforce
  have nc: "ws_state c \<noteq> Closed" using "1.prems" by (auto simp: poll_loop.simps [of env c])
  note step = "1.prems" [unfolded poll_loop.simps [of env c] if_not_P [OF nc] b, simplified]
  show ?case
  proof (cases "b = Ok Fallback")
    case False
    then obtain kind where "b = Ok (BorrowedEmit kind)" "emit c1 kind = (d, Ok (Some e))"
      using step by (auto split: result.split_asm BorrowedResult.split_asm)
    then show ?thesis using try_emit_decreases [of env c c1 kind] b by simp
  next
    case fb: True
    then have c1: "c1 = c" using try_emit_Fallback b by blast
    show ?thesis
    proof (cases "a = Ok Progressed")
      case True
      then show ?thesis
        using "1.IH" [OF nc b [symmetric] fb refl a [symmetric] True refl] step fb a advance_Progressed [of env c c2] c1
        by simp
    next
      case False
      then obtain kind where "a = Ok (AdvEmit kind)" "emit c2 kind = (d, Ok (Some e))"
        using step fb a by (auto split: result.split_asm AdvanceResult.split_asm)
      then show ?thesis using advance_emit_decreases [of env c c2 kind] a c1 by simp
    qed
  qed
qed

lemma poll_event_decreases:
  "poll_event env c = (d, Ok (Some e)) \<Longrightarrow> rx_measure (cleared d) < rx_measure (cleared c)"
  by (auto simp: poll_event_def cleared_def elim!: try_st_cases dest: poll_loop_decreases)

end
