(* ===== verification/Ws_Inv.thy ===== *)
theory Ws_Inv
  imports Ws_Recv
begin

text \<open>
  The invariant of the WebSocket client and its preservation by every receive operation: buffers stay
  within their bounds, the parser and the message being assembled agree, and what was last handed out
  is still backed by the buffers.  Under the invariant, and if the system random generator does not
  fail, no operation panics.
\<close>

definition frame_progress :: "WsClient \<Rightarrow> OpCode \<Rightarrow> nat \<Rightarrow> bool" where
  "frame_progress c op r \<longleftrightarrow>
     (if is_control op then ws_ctl_len c + r \<le> 125
      else ws_msg_opcode c \<noteq> None \<and> length (ws_msg_buf c) + r \<le> cf_max_message_size (ws_config c))"

definition rx_wf :: "WsClient \<Rightarrow> bool" where
  "rx_wf c \<longleftrightarrow>
     cb_wf (ws_recv_buf c) \<and> parser_wf (ws_parser c) \<and> length (ws_ctl_buf c) = 125 \<and> ws_ctl_len c \<le> 125 \<and>
     cf_max_message_size (ws_config c) < USIZE_MAX \<and> length (ws_msg_buf c) \<le> cf_max_message_size (ws_config c) \<and>
     ws_msg_opcode c \<in> {None, Some Text, Some Binary} \<and>
     (\<forall>op. ws_cur_opcode c = Some op \<longrightarrow> (\<exists>r. ws_parser c = Payload r \<and> frame_progress c op r))"

definition text_ok :: "WsClient \<Rightarrow> bytes \<Rightarrow> bool" where
  "text_ok c t \<longleftrightarrow> cf_assume_text_utf8 (ws_config c) \<or> utf8_valid t"

definition borrow_wf :: "WsClient \<Rightarrow> bool \<Rightarrow> bool" where
  "borrow_wf c text \<longleftrightarrow>
     (case ws_borrowed_payload c of
        None \<Rightarrow> False
      | Some b \<Rightarrow>
          bp_payload_start b \<le> bp_payload_end b \<and> bp_payload_end b = bp_frame_len b \<and>
          bp_frame_len b \<le> length (as_slice (ws_recv_buf c)) \<and>
          bp_payload_end b - bp_payload_start b \<le> cf_max_message_size (ws_config c) \<and>
          (text \<longrightarrow> text_ok c (drop (bp_payload_start b) (take (bp_payload_end b) (as_slice (ws_recv_buf c))))))"

definition emit_wf :: "WsClient \<Rightarrow> bool" where
  "emit_wf c \<longleftrightarrow>
     (case ws_last_emitted c of
        Some EkBorrowedText \<Rightarrow> borrow_wf c True
      | Some EkBorrowedBinary \<Rightarrow> borrow_wf c False
      | Some EkClose \<Rightarrow> (\<exists>p. parse_close_payload (take (ws_ctl_len c) (ws_ctl_buf c)) = Ok p) \<and> ws_borrowed_payload c = None
      | _ \<Rightarrow> ws_borrowed_payload c = None)"

definition ws_wf :: "WsClient \<Rightarrow> bool" where
  "ws_wf c \<longleftrightarrow> tx_wf c \<and> rx_wf c \<and> emit_wf c"

text \<open>Clients that differ at most in the transmit side and the connection state.\<close>

definition keeps :: "WsClient \<Rightarrow> WsClient \<Rightarrow> bool" where
  "keeps c d \<longleftrightarrow> tx_wf d \<and> same_rx (c\<lparr>ws_state := ws_state d\<rparr>) d"

lemma keeps_fields:
  assumes "keeps c d"
  shows "ws_parser d = ws_parser c" "ws_recv_buf d = ws_recv_buf c"
    "ws_msg_buf d = ws_msg_buf c" "ws_borrowed_payload d = ws_borrowed_payload c" "ws_msg_opcode d = ws_msg_opcode c"
    "ws_ctl_buf d = ws_ctl_buf c" "ws_ctl_len d = ws_ctl_len c" "ws_cur_opcode d = ws_cur_opcode c"
    "ws_cur_fin d = ws_cur_fin c" "ws_config d = ws_config c" "ws_client_key d = ws_client_key c"
    "ws_handshake_started d = ws_handshake_started c" "ws_last_emitted d = ws_last_emitted c" "tx_wf d"
  using assms same_rx_fields [of "c\<lparr>ws_state := ws_state d\<rparr>" d] by (simp_all add: keeps_def)

lemma keeps_trans: "keeps c d \<Longrightarrow> keeps d e \<Longrightarrow> keeps c e"
  by (cases c; cases d; cases e) (simp add: keeps_def same_rx_def)

lemma keeps_state [simp]: "keeps c (d\<lparr>ws_state := s\<rparr>) = keeps c d"
  by (cases c; cases d) (simp add: keeps_def same_rx_def tx_wf_def)

lemma keeps_refl: "tx_wf c \<Longrightarrow> keeps c c"
  by (simp add: keeps_def)

lemma keepsI: "same_rx c d \<Longrightarrow> tx_wf d \<Longrightarrow> keeps c d" "same_rx (c\<lparr>ws_state := s\<rparr>) d \<Longrightarrow> tx_wf d \<Longrightarrow> keeps c d"
  by (cases c; cases d; simp add: keeps_def same_rx_def)+

lemma rx_wf_keeps: "keeps c d \<Longrightarrow> rx_wf d = rx_wf c"
  by (simp add: rx_wf_def frame_progress_def keeps_fields)

lemma keeps_queue_close:
  assumes "tx_wf c" "length reason \<le> 123" "queue_close env c code reason = (c', r)"
  shows "keeps c c'" "rng_total env \<Longrightarrow> r = Ok ()" "r \<noteq> Panic \<Longrightarrow> ws_state c' \<noteq> Open"
    "r = Ok () \<or> r = Panic"
proof -
  note q = queue_close_cases [OF assms]
  show "keeps c c'" using q(2) keepsI(1) [OF _ q(1)] keepsI(2) [OF _ q(1)] keeps_refl [OF assms(1)] by blast
  show "rng_total env \<Longrightarrow> r = Ok ()" "r \<noteq> Panic \<Longrightarrow> ws_state c' \<noteq> Open" "r = Ok () \<or> r = Panic"
    using q(2) by (auto simp: rng_total_def simp del: not_None_eq dest: same_rx_fields(1) split: if_split_asm)
qed

lemma keeps_write_frame:
  assumes "tx_wf c" "write_frame env c fin op payload = (c', r)"
  shows "keeps c c'" "rng_total env \<Longrightarrow> r = Ok ()" "ws_state c' = ws_state c" "r = Ok () \<or> r = Panic"
proof -
  note w = write_frame_cases [OF assms]
  show "keeps c c'" using keepsI(1) [OF w(1,2)] .
  show "ws_state c' = ws_state c" using same_rx_fields(1) [OF w(1)] .
  show "rng_total env \<Longrightarrow> r = Ok ()" "r = Ok () \<or> r = Panic"
    using w(3) by (auto simp: rng_total_def simp del: not_None_eq)
qed

lemma rx_wf_tx_updates [simp]:
  "rx_wf (c\<lparr>ws_state := s\<rparr>) = rx_wf c" "rx_wf (c\<lparr>ws_last_emitted := le\<rparr>) = rx_wf c"
  "rx_wf (c\<lparr>ws_borrowed_payload := bp\<rparr>) = rx_wf c"
  by (simp_all add: rx_wf_def frame_progress_def)

lemma tx_wf_rx_updates [simp]:
  "tx_wf (c\<lparr>ws_state := s\<rparr>) = tx_wf c" "tx_wf (c\<lparr>ws_last_emitted := le\<rparr>) = tx_wf c"
  "tx_wf (c\<lparr>ws_borrowed_payload := bp\<rparr>) = tx_wf c" "tx_wf (c\<lparr>ws_parser := p\<rparr>) = tx_wf c"
  "tx_wf (c\<lparr>ws_recv_buf := rb\<rparr>) = tx_wf c" "tx_wf (c\<lparr>ws_msg_buf := mb\<rparr>) = tx_wf c"
  "tx_wf (c\<lparr>ws_msg_opcode := mo\<rparr>) = tx_wf c" "tx_wf (c\<lparr>ws_ctl_buf := cb\<rparr>) = tx_wf c"
  "tx_wf (c\<lparr>ws_ctl_len := cl\<rparr>) = tx_wf c" "tx_wf (c\<lparr>ws_cur_opcode := co\<rparr>) = tx_wf c"
  "tx_wf (c\<lparr>ws_cur_fin := cf\<rparr>) = tx_wf c"
  by (simp_all add: tx_wf_def)

lemma frame_progress_updates [simp]:
  "frame_progress (c\<lparr>ws_recv_buf := rb\<rparr>) op r = frame_progress c op r"
  "frame_progress (c\<lparr>ws_parser := p\<rparr>) op r = frame_progress c op r"
  "frame_progress (c\<lparr>ws_state := s\<rparr>) op r = frame_progress c op r"
  by (simp_all add: frame_progress_def)

text \<open>The contract of a receive step: it ends well formed, with nothing handed out, and it panics only
  if the random generator fails.\<close>

definition quiet :: "WsClient \<Rightarrow> bool" where
  "quiet c \<longleftrightarrow> tx_wf c \<and> rx_wf c \<and> ws_last_emitted c = None \<and> ws_borrowed_payload c = None"

definition safe_step :: "Env \<Rightarrow> WsClient \<times> ('e, 'a) result \<Rightarrow> bool" where
  "safe_step env res \<longleftrightarrow> quiet (fst res) \<and> (rng_total env \<longrightarrow> snd res \<noteq> Panic)"

lemma quiet_keeps: "keeps c d \<Longrightarrow> quiet c \<Longrightarrow> quiet d"
  by (simp add: quiet_def keeps_fields rx_wf_keeps)

lemma safe_step_try:
  assumes "safe_step env m" "\<And>c x. m = (c, Ok x) \<Longrightarrow> quiet c \<Longrightarrow> safe_step env (f c x)"
  shows "safe_step env (try_st m f)"
  using assms by (cases "(m, f)" rule: try_st.cases) (auto simp: safe_step_def)

lemma safe_queue_close:
  assumes "quiet c" "length reason \<le> 123"
  shows "safe_step env (queue_close env c code reason)"
proof -
  obtain c' r where q: "queue_close env c code reason = (c', r)" by fastforce
  then show ?thesis
    using keeps_queue_close [OF _ assms(2) q] assms(1) quiet_keeps [of c c'] by (auto simp: safe_step_def quiet_def)
qed

lemma safe_write_frame:
  assumes "quiet c"
  shows "safe_step env (write_frame env c fin op payload)"
proof -
  obtain c' r where w: "write_frame env c fin op payload = (c', r)" by fastforce
  have "tx_wf c" using assms by (simp add: quiet_def)
  then show ?thesis
    using keeps_write_frame [OF _ w] assms quiet_keeps [of c c'] by (auto simp: safe_step_def w)
qed

lemma safe_return [simp]: "safe_step env (c, r) \<longleftrightarrow> quiet c \<and> (rng_total env \<longrightarrow> r \<noteq> Panic)"
  by (simp add: safe_step_def)

lemma quiet_updates [simp]:
  "quiet (c\<lparr>ws_state := s\<rparr>) = quiet c"
  by (simp add: quiet_def)

lemma quiet_queue_close:
  "quiet c \<Longrightarrow> length reason \<le> 123 \<Longrightarrow> queue_close env c code reason = (c', r) \<Longrightarrow> quiet c'"
  using safe_queue_close [of c reason env code] by (simp add: safe_step_def)

lemma safe_fail:
  assumes "quiet c" "length reason \<le> 123"
  shows "safe_step env (try_st (queue_close env c code reason) (\<lambda>c _. (c, Err e)))"
    and "r \<noteq> Panic \<Longrightarrow> safe_step env (try_st (queue_close env c code reason) (\<lambda>c _. (c\<lparr>ws_state := s\<rparr>, r)))"
  using assms quiet_queue_close [OF assms] by (auto intro!: safe_step_try safe_queue_close)

subsection \<open>The frame machine is safe\<close>

lemma open_message_Ok:
  "open_message env c op = (d, Ok ()) \<Longrightarrow>
     op = Continuation \<and> d = c \<and> ws_msg_opcode c \<noteq> None \<or>
     (op = Text \<or> op = Binary) \<and> ws_msg_opcode c = None \<and> d = c\<lparr>ws_msg_opcode := Some op, ws_msg_buf := []\<rparr>"
  by (auto simp: open_message_def elim!: try_st_cases split: if_split_asm)

lemma safe_open_message: "quiet c \<Longrightarrow> ws_cur_opcode c = None \<Longrightarrow> safe_step env (open_message env c op)"
  by (auto simp: open_message_def intro!: safe_fail) (auto simp: quiet_def rx_wf_def)

lemma safe_admit_frame:
  assumes "quiet c" "ws_cur_opcode c = None" "ws_parser c = Payload (unat (h_payload_len h))"
    and "ws_msg_opcode c \<noteq> None" "\<not> is_control (h_opcode h)"
  shows "safe_step env (admit_frame env c h)"
  using assms
  by (auto simp: admit_frame_def Let_def intro!: safe_fail)
    (auto simp: quiet_def rx_wf_def frame_progress_def min_def split: if_split_asm)

lemma safe_on_frame_start:
  assumes "quiet c" "ws_cur_opcode c = None" "ws_parser c = Payload (unat (h_payload_len h))" "valid_header h"
  shows "safe_step env (on_frame_start env c h)"
proof -
  have ctl: "quiet (c\<lparr>ws_ctl_len := 0, ws_cur_opcode := Some (h_opcode h), ws_cur_fin := h_fin h\<rparr>)"
    if "is_control (h_opcode h)"
    using that assms by (auto simp: quiet_def rx_wf_def frame_progress_def valid_header_def word_le_nat_alt)
  have data: "safe_step env (admit_frame env d h)"
    if "open_message env c (h_opcode h) = (d, Ok ())" "quiet d" "\<not> is_control (h_opcode h)" for d
    using open_message_Ok [OF that(1)] that(2,3) assms(2,3) by (auto intro!: safe_admit_frame)
  show ?thesis
    using assms(1) ctl safe_step_try [OF safe_open_message [OF assms(1,2)] data] unfolding on_frame_start_def
    by (auto intro!: safe_fail)
qed

lemma safe_on_received_close:
  assumes "quiet c"
  shows "safe_step env (on_received_close env c)"
  using assms parse_close_payload_not_Panic
  by (auto simp: on_received_close_def Let_def intro!: safe_fail split: result.split)

lemma safe_on_control_end:
  assumes "quiet c"
  shows "safe_step env (on_control_end env c op)"
proof -
  have len: "ws_ctl_len c \<le> 125" "length (ws_ctl_buf c) = 125" using assms by (auto simp: quiet_def rx_wf_def)
  show ?thesis
    using assms len safe_write_frame [OF assms] safe_on_received_close [OF assms]
    by (cases op) (auto simp: on_control_end_def intro!: safe_step_try)
qed

lemma safe_on_frame_end:
  assumes "quiet (c\<lparr>ws_cur_opcode := None\<rparr>)"
    and "\<And>op. ws_cur_opcode c = Some op \<Longrightarrow> \<not> is_control op \<Longrightarrow> ws_msg_opcode c \<noteq> None"
  shows "safe_step env (on_frame_end env c)"
proof -
  have q: "quiet (c\<lparr>ws_cur_opcode := None, ws_msg_opcode := None\<rparr>)"
    using assms(1) by (auto simp: quiet_def rx_wf_def)
  have "ws_cur_opcode c = None \<Longrightarrow> c\<lparr>ws_cur_opcode := None\<rparr> = c" by (cases c) simp
  then have none: "ws_cur_opcode c = None \<Longrightarrow> quiet c" using assms(1) by metis
  show ?thesis
    using assms none safe_on_control_end [OF assms(1)] q
    by (auto simp: on_frame_end_def Let_def intro!: safe_fail split: option.split OpCode.split)
qed

lemma safe_run_action_end:
  "quiet (c\<lparr>ws_cur_opcode := None\<rparr>) \<Longrightarrow>
   (\<And>op. ws_cur_opcode c = Some op \<Longrightarrow> \<not> is_control op \<Longrightarrow> ws_msg_opcode c \<noteq> None) \<Longrightarrow>
   safe_step env (run_action env c ActFrameEnd)"
  using safe_on_frame_end [of c env] by (auto simp: run_action_def intro!: safe_step_try)

lemma quiet_recv: "quiet c \<Longrightarrow> cb_wf rb \<Longrightarrow> quiet (c\<lparr>ws_recv_buf := rb\<rparr>)"
  by (simp add: quiet_def rx_wf_def)

lemma safe_take_chunk:
  assumes "quiet c" "ws_parser c = Payload k" "length chunk \<le> k"
  shows "safe_step env (take_chunk (c\<lparr>ws_parser := Payload (k - length chunk)\<rparr>) chunk)"
  using assms
  by (auto simp: take_chunk_def quiet_def rx_wf_def frame_progress_def split: option.split)

lemma safe_advance_frame:
  assumes "quiet c"
  shows "safe_step env (advance_frame env c)"
proof -
  let ?bs = "as_slice (ws_recv_buf c)"
  obtain p r where one: "feed_one (ws_parser c) ?bs = (p, r)" by fastforce
  have wf: "parser_wf (ws_parser c)" "cb_wf (ws_recv_buf c)" using assms by (auto simp: quiet_def rx_wf_def)
  note fw = feed_one_wf [OF wf(1) one]
  have rx: "rx_wf c" "tx_wf c" "ws_last_emitted c = None" "ws_borrowed_payload c = None"
    using assms by (auto simp: quiet_def)
  have step: "quiet (c\<lparr>ws_parser := p, ws_recv_buf := rb\<rparr>)" if "cb_wf rb" "ws_cur_opcode c = None" for rb
    using rx fw(1) that by (auto simp: quiet_def rx_wf_def)
  have cons: "cb_wf (cb_consume (ws_recv_buf c) n)" if "n \<le> length ?bs" for n
    using that wf(2) by (intro wf_intros)
  have header: "ws_cur_opcode c = None" if "\<And>k. ws_parser c \<noteq> Payload k"
    using rx that by (auto simp: rx_wf_def)
  show ?thesis
  proof (cases r)
    case (Err e)
    then have "\<And>k. ws_parser c \<noteq> Payload k" using one by (auto simp: feed_one_Payload split: if_split_asm)
    then have "quiet (c\<lparr>ws_parser := p\<rparr>)" using step [OF wf(2)] header by simp
    then show ?thesis using one Err by (auto simp: advance_frame_def intro!: safe_fail)
  next
    case (Ok out)
    show ?thesis
    proof (cases out)
      case (NeedMore n)
      then have n: "n = length ?bs" using fw(3) Ok by simp
      have "quiet (consume_recv (c\<lparr>ws_parser := p\<rparr>) n)"
      proof (cases "\<exists>k. ws_parser c = Payload k")
        case True
        then have "p = ws_parser c" using one Ok NeedMore by (auto simp: feed_one_Payload split: if_split_asm)
        then show ?thesis using quiet_recv [OF assms cons] n by (simp add: consume_recv_def)
      qed (use step [OF cons] header n in \<open>simp add: consume_recv_def\<close>)
      then show ?thesis using one Ok NeedMore by (simp add: advance_frame_def run_action_def)
    next
      case (Event n e)
      then have n: "n \<le> length ?bs" using feed_one_Event_decreases(1) one Ok by blast
      show ?thesis
      proof (cases e)
        case (FrameStart h)
        then have "\<And>k. ws_parser c \<noteq> Payload k"
          using one Ok Event by (auto simp: feed_one_Payload split: if_split_asm)
        then have "safe_step env (on_frame_start env (consume_recv (c\<lparr>ws_parser := p\<rparr>) n) h)"
          using fw(4) Ok Event FrameStart step [OF cons [OF n]] header
          by (intro safe_on_frame_start) (simp_all add: consume_recv_def)
        then show ?thesis
          using one Ok Event FrameStart by (auto simp: advance_frame_def run_action_def intro!: safe_step_try)
      next
        case (PayloadChunk chunk)
        from wf(1) obtain k where k: "ws_parser c = Payload k" "length chunk \<le> k" "p = Payload (k - length chunk)"
          using one Ok Event PayloadChunk feed_one_header
          by (cases rule: parser_wf_header_cases)
            (auto simp: feed_one_Payload split: if_split_asm option.split_asm elim!: header_verdict_cases)
        have "safe_step env (try_st (take_chunk (c\<lparr>ws_parser := p\<rparr>) chunk)
            (\<lambda>c _. run_action env (consume_recv c n) ActPayloadChunk))"
          using safe_take_chunk [OF assms k(1,2), of env] same_input_take_chunk [of "c\<lparr>ws_parser := p\<rparr>" chunk] cons [OF n]
          by (intro safe_step_try)
            (auto simp: k run_action_def consume_recv_def same_input_def intro!: quiet_recv)
        then show ?thesis using one Ok Event PayloadChunk by (simp add: advance_frame_def)
      next
        case FrameEnd
        from wf(1) have p: "p = Idle \<and> ws_parser c = Payload 0 \<and> n = 0"
          using one Ok Event FrameEnd feed_one_header
          by (cases rule: parser_wf_header_cases)
            (auto simp: feed_one_Payload split: if_split_asm option.split_asm elim!: header_verdict_cases)
        have "quiet ((consume_recv (c\<lparr>ws_parser := p\<rparr>) n)\<lparr>ws_cur_opcode := None\<rparr>)"
          using rx cons [OF n] by (simp add: quiet_def rx_wf_def consume_recv_def p)
        then show ?thesis
          using one Ok Event FrameEnd rx p
          by (auto simp: advance_frame_def rx_wf_def frame_progress_def consume_recv_def intro!: safe_run_action_end)
      qed
    qed
  qed (use fw in simp)
qed

lemma safe_advance_handshake:
  assumes "quiet c"
  shows "safe_step env (advance_handshake env c)"
proof -
  have "quiet (consume_recv c n)" if "n \<le> length (as_slice (ws_recv_buf c))" for n
    using that assms quiet_recv [OF assms cb_wf_consume [of "ws_recv_buf c" n]]
    by (simp add: consume_recv_def quiet_def rx_wf_def)
  then show ?thesis
    using assms parse_response_not_Panic [of "as_slice (ws_recv_buf c)"]
      parse_response_end_le [of "as_slice (ws_recv_buf c)"] verify_upgrade_response_not_Panic
    unfolding advance_handshake_def
    by (cases "parse_response (as_slice (ws_recv_buf c))")
      (auto intro!: safe_step_try split: option.split)
qed

lemma safe_advance: "quiet c \<Longrightarrow> safe_step env (advance env c)"
  using safe_advance_frame safe_advance_handshake by (simp add: advance_def split: ConnState.split)

subsection \<open>What is handed out\<close>

text \<open>The state of the buffers that backs an event of each kind.\<close>

fun backs :: "WsClient \<Rightarrow> EmitKind \<Rightarrow> bool" where
  "backs c EkText \<longleftrightarrow> text_ok c (ws_msg_buf c)"
| "backs c EkBorrowedText \<longleftrightarrow> borrow_wf c True"
| "backs c EkBorrowedBinary \<longleftrightarrow> borrow_wf c False"
| "backs c EkClose \<longleftrightarrow> (\<exists>p. parse_close_payload (take (ws_ctl_len c) (ws_ctl_buf c)) = Ok p)"
| "backs c _ \<longleftrightarrow> True"

lemma borrow_wf_updates [simp]: "borrow_wf (c\<lparr>ws_last_emitted := le\<rparr>) text = borrow_wf c text"
  by (simp add: borrow_wf_def text_ok_def split: option.split)

lemma emit_wf_emit:
  assumes "backs c kind" and "is_borrowed kind \<or> ws_borrowed_payload c = None"
  shows "emit_wf (c\<lparr>ws_last_emitted := Some kind\<rparr>)"
  using assms by (cases kind) (auto simp: emit_wf_def)

lemma borrow_wf_payload:
  "borrow_wf c text \<Longrightarrow> \<exists>p. borrowed_payload c = Ok p \<and> (text \<longrightarrow> text_ok c p)"
  by (auto simp: borrow_wf_def borrowed_payload_def split: option.split_asm)

lemma borrowed_payload_last [simp]: "borrowed_payload (c\<lparr>ws_last_emitted := le\<rparr>) = borrowed_payload c"
  by (simp add: borrowed_payload_def split: option.split)

lemma build_event_backed: "backs c kind \<Longrightarrow> \<exists>e. build_event (c\<lparr>ws_last_emitted := le\<rparr>) kind = Ok e"
proof (cases kind)
  case EkBorrowedText
  assume "backs c kind"
  then obtain p where "borrowed_payload c = Ok p" "text_ok c p"
    using EkBorrowedText borrow_wf_payload [of c True] by auto
  then show ?thesis using EkBorrowedText by (auto simp: build_event_def text_ok_def)
next
  case EkBorrowedBinary
  assume "backs c kind"
  then obtain p where "borrowed_payload c = Ok p"
    using EkBorrowedBinary borrow_wf_payload [of c False] by auto
  then show ?thesis using EkBorrowedBinary by (simp add: build_event_def)
qed (auto simp: build_event_def split: option.split)

lemma on_received_close_Ok:
  assumes "on_received_close env c = (d, Ok ())" "tx_wf c"
  shows "keeps c d \<and> ws_state d = Closed \<and> (\<exists>p. parse_close_payload (take (ws_ctl_len d) (ws_ctl_buf d)) = Ok p)"
proof -
  have "keeps c d \<and> ws_state d = Closed \<and> (\<exists>p. parse_close_payload (take (ws_ctl_len c) (ws_ctl_buf c)) = Ok p)"
    using assms
    by (auto simp: on_received_close_def Let_def keeps_refl elim!: try_st_cases dest: keeps_queue_close(1) [rotated 2]
        split: result.split_asm if_split_asm)
  then show ?thesis using keeps_fields(6,7) [of c d] by auto
qed

lemma on_frame_end_emits:
  assumes "on_frame_end env c = (d, Ok (Some kind))" "tx_wf c"
  shows "backs d kind \<and> \<not> is_borrowed kind"
  using assms
  by (auto simp: on_frame_end_def on_control_end_def Let_def text_ok_def elim!: try_st_cases
      dest!: on_received_close_Ok split: option.split_asm if_split_asm OpCode.split_asm)

lemma advance_frame_emits:
  assumes "advance_frame env c = (d, Ok (AdvEmit kind))" "tx_wf c"
  shows "backs d kind \<and> \<not> is_borrowed kind"
proof -
  have "\<exists>c'. on_frame_end env c' = (d, Ok (Some kind)) \<and> tx_wf c'"
    using assms
    by (auto simp: advance_frame_def run_action_def consume_recv_def elim!: try_st_cases
        split: prod.split_asm result.split_asm FeedOutcome.split_asm FrameEvent.split_asm option.split_asm)
  then show ?thesis using on_frame_end_emits by blast
qed

lemma advance_emits:
  assumes "advance env c = (d, Ok (AdvEmit kind))" "tx_wf c"
  shows "backs d kind \<and> \<not> is_borrowed kind"
  using assms advance_frame_emits
  by (auto simp: advance_def advance_handshake_def elim!: try_st_cases split: ConnState.split_asm option.split_asm)

lemma fail_cases:
  assumes "try_st (queue_close env c code reason) (\<lambda>c _. (c, Err e)) = (d, r)" "quiet c" "length reason \<le> 123"
  shows "quiet d \<and> (r = Err e \<and> ws_state d \<noteq> Open \<or> r = Panic \<and> \<not> rng_total env)"
proof -
  have tx: "tx_wf c" using assms(2) by (simp add: quiet_def)
  from assms(1) show ?thesis
  proof (cases rule: try_st_cases)
    case (ok s x)
    then show ?thesis
      using keeps_queue_close(3) [OF tx assms(3) ok(1)] quiet_queue_close [OF assms(2,3) ok(1)] by auto
  next
    case (err e')
    then show ?thesis using keeps_queue_close(4) [OF tx assms(3) err(1)] by simp
  next
    case panic
    then show ?thesis
      using keeps_queue_close(2) [OF tx assms(3) panic(1)] quiet_queue_close [OF assms(2,3) panic(1)] by auto
  qed
qed

text \<open>How the borrowed path ends: nothing borrowed and a well-formed client, or a borrowed payload.\<close>

definition borrow_outcome :: "Env \<Rightarrow> WsClient \<Rightarrow> WsClient \<Rightarrow> (WsError, BorrowedResult) result \<Rightarrow> bool" where
  "borrow_outcome env c d r \<longleftrightarrow>
     quiet d \<and> (r = Ok Fallback \<and> d = c \<or> r = Ok WaitForMore \<and> d = c \<and> \<not> cb_is_empty (ws_recv_buf c) \<or>
      (\<exists>e. r = Err e \<and> ws_state d \<noteq> Open) \<or> r = Panic \<and> \<not> rng_total env) \<or>
     (\<exists>kind b. r = Ok (BorrowedEmit kind) \<and> d = c\<lparr>ws_borrowed_payload := Some b\<rparr> \<and> is_borrowed kind \<and> backs d kind)"

lemma borrow_outcome_simple:
  "quiet c \<Longrightarrow> borrow_outcome env c c (Ok Fallback)"
  "quiet c \<Longrightarrow> \<not> cb_is_empty (ws_recv_buf c) \<Longrightarrow> borrow_outcome env c c (Ok WaitForMore)"
  by (simp_all add: borrow_outcome_def)

lemma borrow_outcome_fail:
  "quiet c \<Longrightarrow> length reason \<le> 123 \<Longrightarrow> try_st (queue_close env c code reason) (\<lambda>c _. (c, Err e)) = (d, r) \<Longrightarrow>
     borrow_outcome env c d r"
  using fail_cases [of env c code reason e d r] by (auto simp: borrow_outcome_def)

lemma borrow_outcome_complete:
  assumes "quiet c" "header_len \<le> frame_len" "frame_len \<le> length (as_slice (ws_recv_buf c))" "op = Text \<or> op = Binary"
    and "frame_len - header_len \<le> cf_max_message_size (ws_config c)"
    and "try_st (borrowed_kind env c op (drop header_len (take frame_len (as_slice (ws_recv_buf c)))))
      (\<lambda>c kind. (c\<lparr>ws_borrowed_payload := Some \<lparr>bp_payload_start = header_len, bp_payload_end = frame_len,
         bp_frame_len = frame_len\<rparr>\<rparr>, Ok (BorrowedEmit kind))) = (d, r)"
  shows "borrow_outcome env c d r"
proof -
  let ?p = "drop header_len (take frame_len (as_slice (ws_recv_buf c)))"
  show ?thesis
  proof (cases "op = Text \<and> \<not> text_ok c ?p")
    case True
    then have "borrowed_kind env c op ?p =
        try_st (queue_close env c (as_u16 InvalidPayload) ''invalid utf-8'') (\<lambda>c _. (c, Err WsUtf8Invalid))"
      by (simp add: borrowed_kind_def text_ok_def)
    moreover obtain d' r' where k: "borrowed_kind env c op ?p = (d', r')" by fastforce
    ultimately have "quiet d' \<and> (r' = Err WsUtf8Invalid \<and> ws_state d' \<noteq> Open \<or> r' = Panic \<and> \<not> rng_total env)"
      using fail_cases [of env c "as_u16 InvalidPayload" "''invalid utf-8''" WsUtf8Invalid d' r'] assms(1) by simp
    then show ?thesis using assms(6) by (auto simp: k borrow_outcome_def)
  next
    case False
    define kind where "kind = (if op = Text then EkBorrowedText else EkBorrowedBinary)"
    define b where "b = \<lparr>bp_payload_start = header_len, bp_payload_end = frame_len, bp_frame_len = frame_len\<rparr>"
    have "borrowed_kind env c op ?p = (c, Ok kind)"
      using assms(4) False by (auto simp: borrowed_kind_def text_ok_def kind_def)
    then have "d = c\<lparr>ws_borrowed_payload := Some b\<rparr>" "r = Ok (BorrowedEmit kind)"
      using assms(6) by (simp_all add: b_def)
    moreover have "is_borrowed kind" by (simp add: kind_def)
    moreover have "backs (c\<lparr>ws_borrowed_payload := Some b\<rparr>) kind"
      using assms(2,3,5) False by (simp add: kind_def b_def borrow_wf_def text_ok_def)
    ultimately show ?thesis unfolding borrow_outcome_def by blast
  qed
qed

lemma borrow_frame_outcome:
  assumes "quiet c" "\<not> cb_is_empty (ws_recv_buf c)" "borrow_frame env c h n = (d, r)"
  shows "borrow_outcome env c d r"
proof -
  let ?f = "n + unat (h_payload_len h)"
  note fail = borrow_outcome_fail [OF assms(1)] and def = assms(3) [unfolded borrow_frame_def Let_def]
  consider "h_mask h \<noteq> None" | "h_mask h = None" "\<not> h_fin h \<or> \<not> (h_opcode h = Text \<or> h_opcode h = Binary)"
    | "h_mask h = None" "h_fin h" "h_opcode h = Text \<or> h_opcode h = Binary" by blast
  then show ?thesis
  proof cases
    case 1
    then show ?thesis using def fail [of "''server sent masked frame''"] by simp
  next
    case 2
    then show ?thesis using def borrow_outcome_simple(1) [OF assms(1)] by auto
  next
    case 3
    consider "h_payload_len h > cf_max_frame_payload (ws_config c)"
      | "\<not> h_payload_len h > cf_max_frame_payload (ws_config c)" "unat (h_payload_len h) > cf_max_message_size (ws_config c)"
      | "\<not> h_payload_len h > cf_max_frame_payload (ws_config c)" "\<not> unat (h_payload_len h) > cf_max_message_size (ws_config c)"
      by blast
    then show ?thesis
    proof cases
      case 1
      then show ?thesis using def 3 fail [of "''frame too large''"] by simp
    next
      case 2
      then show ?thesis using def 3 fail [of "''message exceeds max_message_size''"] by simp
    next
      case sz: 3
      show ?thesis
      proof (cases "?f > USIZE_MAX")
        case True
        then show ?thesis using def 3 sz fail [of "''frame too large''"] by simp
      next
        case False
        then show ?thesis
          using def 3 sz borrow_outcome_simple(2) [OF assms(1,2)]
            borrow_outcome_complete [OF assms(1), of n ?f "h_opcode h" env d r]
          by (cases "cb_len (ws_recv_buf c) < ?f") (auto simp: length_as_slice)
      qed
    qed
  qed
qed

lemma try_emit_cases:
  assumes "quiet c" "try_emit_borrowed_data env c = (d, r)"
  shows "borrow_outcome env c d r"
proof (cases "fast_blocked c")
  case True
  then show ?thesis using assms by (auto simp: try_emit_borrowed_data_def borrow_outcome_simple)
next
  case False
  then have ne: "\<not> cb_is_empty (ws_recv_buf c)" by (simp add: fast_blocked_def)
  note def = assms(2) [unfolded try_emit_borrowed_data_def if_not_P [OF False]]
  show ?thesis
  proof (cases "as_slice (ws_recv_buf c)" rule: parse_header_cases)
    case (err e)
    then show ?thesis
      using def borrow_outcome_fail [OF assms(1), of "''frame parse error''"] by simp
  next
    case more
    then show ?thesis using def borrow_outcome_simple assms(1) ne by auto
  next
    case (complete h n)
    then show ?thesis using def borrow_frame_outcome [OF assms(1) ne] by simp
  qed
qed

subsection \<open>\<^verbatim>\<open>poll_event\<close> keeps the invariant and does not panic\<close>

definition event_ok :: "WsConfig \<Rightarrow> WsEvent \<Rightarrow> bool" where
  "event_ok cfg e \<longleftrightarrow>
     (case e of
        HandshakeComplete \<Rightarrow> True
      | EvText t \<Rightarrow> (cf_assume_text_utf8 cfg \<or> utf8_valid t) \<and> length t \<le> cf_max_message_size cfg
      | EvBinary b \<Rightarrow> length b \<le> cf_max_message_size cfg
      | EvPing p \<Rightarrow> length p \<le> 125
      | EvPong p \<Rightarrow> length p \<le> 125
      | EvClose code reason \<Rightarrow> (is_valid_received code \<or> code = 1005) \<and> utf8_valid reason)"

lemma quiet_ws_wf: "quiet c \<Longrightarrow> ws_wf c"
  by (auto simp: quiet_def ws_wf_def emit_wf_def)

lemma ws_wf_emit:
  assumes "tx_wf c" "rx_wf c" "backs c kind" "is_borrowed kind \<or> ws_borrowed_payload c = None"
  shows "ws_wf (fst (emit c kind))" "\<exists>e. snd (emit c kind) = Ok (Some e)"
  using assms build_event_backed [OF assms(3), of "Some kind"]
  by (auto simp: emit_def Let_def ws_wf_def emit_wf_emit)

lemma frame_progress_shrink:
  "frame_progress c op r \<Longrightarrow> frame_progress (c\<lparr>ws_last_emitted := None, ws_ctl_len := 0\<rparr>) op r"
  "frame_progress c op r \<Longrightarrow> frame_progress (c\<lparr>ws_last_emitted := None, ws_msg_buf := []\<rparr>) op r"
  by (auto simp: frame_progress_def split: if_split_asm)

lemma clear_after_emit_wf:
  assumes "ws_wf c"
  shows "\<exists>d. clear_after_emit c = (d, Ok ()) \<and> quiet d"
proof -
  have wf: "tx_wf c" "rx_wf c" "emit_wf c" using assms by (auto simp: ws_wf_def)
  have len: "quiet (c\<lparr>ws_last_emitted := None, ws_ctl_len := 0\<rparr>)" if "ws_borrowed_payload c = None"
    using wf that frame_progress_shrink(1) [of c] by (auto simp: quiet_def rx_wf_def)
  have msg: "quiet (c\<lparr>ws_last_emitted := None, ws_msg_buf := []\<rparr>)" if "ws_borrowed_payload c = None"
    using wf that frame_progress_shrink(2) [of c] by (auto simp: quiet_def rx_wf_def)
  have bor: "quiet (consume_recv (c\<lparr>ws_last_emitted := None, ws_borrowed_payload := None\<rparr>) (bp_frame_len b))"
    if "borrow_wf c t" "ws_borrowed_payload c = Some b" for t b
  proof -
    have "quiet (c\<lparr>ws_last_emitted := None, ws_borrowed_payload := None\<rparr>)" using wf by (simp add: quiet_def)
    moreover have "cb_wf (cb_consume (ws_recv_buf c) (bp_frame_len b))"
      using wf that by (intro wf_intros) (auto simp: borrow_wf_def rx_wf_def)
    ultimately show ?thesis using quiet_recv by (simp add: consume_recv_def)
  qed
  show ?thesis
    using wf(3) len msg bor wf(1,2)
    by (cases "ws_last_emitted c")
      (auto simp: clear_after_emit_def emit_wf_def quiet_def Let_def borrow_wf_def split: EmitKind.split_asm EmitKind.split option.split_asm)
qed

lemma build_event_ok:
  assumes "rx_wf c" "backs c kind" "build_event (c\<lparr>ws_last_emitted := le\<rparr>) kind = Ok e"
  shows "event_ok (ws_config c) e"
proof (cases kind)
  case EkBorrowedText
  then show ?thesis
    using assms by (auto simp: build_event_def borrow_wf_def borrowed_payload_def event_ok_def text_ok_def
        split: option.split_asm if_split_asm)
next
  case EkBorrowedBinary
  then show ?thesis
    using assms by (auto simp: build_event_def borrow_wf_def borrowed_payload_def event_ok_def split: option.split_asm)
next
  case EkClose
  then show ?thesis
    using assms parse_close_payload_Some_iff
    by (auto simp: build_event_def event_ok_def split: option.split_asm)
qed (use assms in \<open>auto simp: build_event_def event_ok_def rx_wf_def text_ok_def\<close>)

lemma emit_event_ok:
  assumes "rx_wf c" "backs c kind" "emit c kind = (d, Ok (Some e))"
  shows "event_ok (ws_config d) e"
  using assms build_event_ok [OF assms(1,2), of "Some kind" e]
  by (auto simp: emit_def Let_def and_then_eq_Ok_iff)

lemma quiet_fail_poll [simp]: "quiet (fail_poll c) = quiet c"
  by (simp add: fail_poll_def)

lemma poll_loop_wf:
  "quiet c \<Longrightarrow> poll_loop env c = (d, r) \<Longrightarrow>
     ws_wf d \<and> (rng_total env \<longrightarrow> r \<noteq> Panic) \<and> (\<forall>e. r = Ok (Some e) \<longrightarrow> event_ok (ws_config d) e)"
proof (induction env c rule: poll_loop.induct)
  case (1 env c)
  obtain c1 b where b: "try_emit_borrowed_data env c = (c1, b)" by fastforce
  obtain c2 a where a: "advance env c1 = (c2, a)" by fastforce
  note bo = try_emit_cases [OF "1.prems"(1) b]
  show ?case
  proof (cases "ws_state c = Closed")
    case True
    then show ?thesis using "1.prems" quiet_ws_wf by (auto simp: poll_loop.simps [of env c])
  next
    case nc: False
    note step = "1.prems"(2) [unfolded poll_loop.simps [of env c] if_not_P [OF nc] b, simplified]
    have out: ?thesis
      if "emit e kind = (d, r)" "tx_wf e" "rx_wf e" "backs e kind" "is_borrowed kind \<or> ws_borrowed_payload e = None"
      for e kind
      using that ws_wf_emit [OF that(2-5)] emit_event_ok [OF that(3,4)] by auto
    show ?thesis
    proof (cases "b = Ok Fallback")
      case False
      with bo consider "b = Ok WaitForMore" "c1 = c" | e where "b = Err e" "quiet c1" | "b = Panic" "\<not> rng_total env" "quiet c1"
        | kind bp where "b = Ok (BorrowedEmit kind)" "c1 = c\<lparr>ws_borrowed_payload := Some bp\<rparr>" "is_borrowed kind" "backs c1 kind"
        unfolding borrow_outcome_def by blast
      then show ?thesis
      proof cases
        case 4
        then show ?thesis using step out [of c1 kind] "1.prems"(1) by (simp add: quiet_def)
      qed (use step "1.prems"(1) quiet_ws_wf in auto)
    next
      case fb: True
      then have c1: "c1 = c" using try_emit_Fallback b by blast
      note sa = safe_advance [OF "1.prems"(1), of env, unfolded a [unfolded c1]]
      show ?thesis
      proof (cases a)
        case (Ok ar)
        show ?thesis
        proof (cases ar)
          case (AdvEmit kind)
          then have "emit c2 kind = (d, r)" using step fb a Ok by simp
          then show ?thesis
            using out [of c2 kind] sa advance_emits [of env c c2 kind] a c1 Ok AdvEmit "1.prems"(1) by (auto simp: quiet_def)
        next
          case Progressed
          then show ?thesis
            using "1.IH" [OF nc b [symmetric] fb refl a [symmetric] Ok Progressed] step fb a Ok sa by simp
        next
          case AdvNeedMore
          then show ?thesis using step fb a Ok sa quiet_ws_wf by auto
        qed
      qed (use step fb a sa quiet_ws_wf in auto)
    qed
  qed
qed

end
