(* ===== verification/Ws_Drain.thy ===== *)
theory Ws_Drain
  imports Ws_Inv
begin

text \<open>
  The data-only receive paths of \<^verbatim>\<open>ws/client.rs\<close>.  The source has four copies of the same loops that
  differ in what they do with a data event: hand it to the sink, collect it in a batch, mark it with
  metadata, or both.  A \<open>Sink\<close> says what a copy does with an event of the fast path, with an event
  that came out of \<^verbatim>\<open>poll_event\<close>, and when it leaves the fast path; the loops are written once over
  a \<open>Sink\<close>, and each public function of the source is the instance for its sink.  What a closure was
  called with is the state of the sink, in order.
\<close>

subsection \<open>Complete data frames\<close>

record FastDataHeader =
  fh_opcode :: OpCode
  fh_header_len :: nat
  fh_payload_len :: nat
  fh_payload_len_u64 :: u64

datatype FastDataHeaderResult = FhParsed FastDataHeader | FhNeedMore | FhFallback

datatype FastDataFrameResult = FfParsed DataEvent nat | FfNeedMore | FfFallback

datatype FastDataFrameError = FdFrame FrameError | FdFrameTooLarge | FdMessageTooLarge | FdUtf8Invalid

datatype DirectDataResult = Drained | DrWaitForMore | DrFallback

definition fast_len :: "bytes \<Rightarrow> OpCode \<Rightarrow> u8 \<Rightarrow> (FrameError, FastDataHeaderResult) result" where
  "fast_len buf opcode len7 =
     (if len7 \<le> 125 then
        Ok (FhParsed \<lparr>fh_opcode = opcode, fh_header_len = 2, fh_payload_len = unat len7, fh_payload_len_u64 = ucast len7\<rparr>)
      else if len7 = 126 then
        (if length buf < 4 then Ok FhNeedMore
         else
           let val = u16_from_be (buf ! 2) (buf ! 3)
           in if val < 126 then Err NonMinimalPayloadLength
              else Ok (FhParsed \<lparr>fh_opcode = opcode, fh_header_len = 4, fh_payload_len = unat val,
                                fh_payload_len_u64 = ucast val\<rparr>))
      else if len7 = 127 then Ok FhFallback
      else Panic)"

definition parse_server_data_header_fast :: "bytes \<Rightarrow> (FrameError, FastDataHeaderResult) result" where
  "parse_server_data_header_fast buf =
     (if length buf < 2 then Ok FhNeedMore
      else
        let b0 = buf ! 0; b1 = buf ! 1
        in if b0 AND 0x70 \<noteq> 0 then Err RsvBitsSet
           else if b1 AND 0x80 \<noteq> 0 then Err ServerSentMaskedFrame
           else if b0 AND 0x80 = 0 then Ok FhFallback
           else
             let op = b0 AND 0x0F; len7 = b1 AND 0x7F
             in if op = 0x1 then fast_len buf Text len7
                else if op = 0x2 then fast_len buf Binary len7
                else if op = 0x0 \<or> op = 0x8 \<or> op = 0x9 \<or> op = 0xA then Ok FhFallback
                else Err (InvalidOpCode op))"

definition parse_complete_server_data_frame ::
  "bytes \<Rightarrow> u64 \<Rightarrow> nat \<Rightarrow> bool \<Rightarrow> (FastDataFrameError, FastDataFrameResult) result" where
  "parse_complete_server_data_frame bs max_frame_payload max_message_size assume_text_utf8 =
     and_then (map_err FdFrame (parse_server_data_header_fast bs)) (\<lambda>res.
       (case res of
          FhNeedMore \<Rightarrow> Ok FfNeedMore
        | FhFallback \<Rightarrow> Ok FfFallback
        | FhParsed h \<Rightarrow>
            if fh_payload_len_u64 h > max_frame_payload then Err FdFrameTooLarge
            else if fh_payload_len h > max_message_size then Err FdMessageTooLarge
            else if fh_header_len h + fh_payload_len h > USIZE_MAX then Err FdFrameTooLarge
            else
              let frame_len = fh_header_len h + fh_payload_len h
              in if length bs < frame_len then Ok FfNeedMore
                 else
                   let payload = drop (fh_header_len h) (take frame_len bs)
                   in if fh_opcode h = Text then
                        (if assume_text_utf8 \<or> utf8_valid payload then Ok (FfParsed (DText payload) frame_len)
                         else Err FdUtf8Invalid)
                      else if fh_opcode h = Binary then Ok (FfParsed (DBinary payload) frame_len)
                      else Panic))"

lemma parse_complete_frame_len:
  "parse_complete_server_data_frame bs mfp mms utf8 = Ok (FfParsed ev n) \<Longrightarrow> 2 \<le> n \<and> n \<le> length bs"
  by (auto simp: parse_complete_server_data_frame_def parse_server_data_header_fast_def fast_len_def Let_def
      and_then_eq_Ok_iff split: if_split_asm FastDataHeaderResult.split_asm)

subsection \<open>Sinks\<close>

record 's Sink =
  sk_begin :: "'s \<Rightarrow> 's"
  sk_fast :: "DataEvent \<Rightarrow> 's \<Rightarrow> 's"
  sk_flush :: "bool \<Rightarrow> 's \<Rightarrow> 's"
  sk_slow :: "DataEvent \<Rightarrow> 's \<Rightarrow> 's"

definition plain_sink :: "DataEvent list Sink" where
  "plain_sink = \<lparr>sk_begin = (\<lambda>s. s), sk_fast = (\<lambda>ev s. s @ [ev]), sk_flush = (\<lambda>_ s. s), sk_slow = (\<lambda>ev s. s @ [ev])\<rparr>"

definition DATA_EVENT_BATCH_CAPACITY :: nat where
  "DATA_EVENT_BATCH_CAPACITY = 32"

text \<open>A batch holds at most 32 events; the array of options with its length is the list of the
  initialised slots.\<close>

record DataEventBatch =
  ba_events :: "DataEvent list"
  ba_chunk_end :: bool

definition batch_new :: DataEventBatch where
  "batch_new = \<lparr>ba_events = [], ba_chunk_end = False\<rparr>"

definition batch_is_full :: "DataEventBatch \<Rightarrow> bool" where
  "batch_is_full b \<longleftrightarrow> length (ba_events b) = DATA_EVENT_BATCH_CAPACITY"

definition batch_is_empty :: "DataEventBatch \<Rightarrow> bool" where
  "batch_is_empty b \<longleftrightarrow> ba_events b = []"

definition batch_push :: "DataEventBatch \<Rightarrow> DataEvent \<Rightarrow> DataEventBatch \<times> bool" where
  "batch_push b ev = (if batch_is_full b then (b, False) else (b\<lparr>ba_events := ba_events b @ [ev]\<rparr>, True))"

definition batch_single :: "DataEvent \<Rightarrow> DataEventBatch" where
  "batch_single ev = (fst (batch_push batch_new ev))\<lparr>ba_chunk_end := True\<rparr>"

definition batch_text_count :: "DataEventBatch \<Rightarrow> nat" where
  "batch_text_count b = length (filter (\<lambda>e. case e of DText _ \<Rightarrow> True | DBinary _ \<Rightarrow> False) (ba_events b))"

definition batch_binary_count :: "DataEventBatch \<Rightarrow> nat" where
  "batch_binary_count b = length (ba_events b) - batch_text_count b"

text \<open>The state of a batching sink: the batch being filled and the batches delivered.\<close>

definition flush_data_event_batch ::
  "bool \<Rightarrow> DataEventBatch \<times> DataEventBatch list \<Rightarrow> DataEventBatch \<times> DataEventBatch list" where
  "flush_data_event_batch chunk_end s =
     (case s of (batch, out) \<Rightarrow>
        if batch_is_empty batch then (batch, out)
        else (batch_new, out @ [batch\<lparr>ba_chunk_end := chunk_end\<rparr>]))"

definition batch_fast :: "DataEvent \<Rightarrow> DataEventBatch \<times> DataEventBatch list \<Rightarrow> DataEventBatch \<times> DataEventBatch list" where
  "batch_fast ev s =
     (let (batch, out) = (if batch_is_full (fst s) then flush_data_event_batch False s else s)
      in (fst (batch_push batch ev), out))"

definition batch_sink :: "(DataEventBatch \<times> DataEventBatch list) Sink" where
  "batch_sink =
     \<lparr>sk_begin = (\<lambda>(_, out). (batch_new, out)), sk_fast = batch_fast, sk_flush = flush_data_event_batch,
      sk_slow = (\<lambda>ev (batch, out). (batch, out @ [batch_single ev]))\<rparr>"

subsection \<open>The fast loop\<close>

datatype ScanEnd = ScanDrained | ScanWait | ScanFallback | ScanErr FastDataFrameError | ScanPanic

function scan :: "(DataEvent \<Rightarrow> 's \<Rightarrow> 's) \<Rightarrow> WsConfig \<Rightarrow> bytes \<Rightarrow> nat \<Rightarrow> nat \<Rightarrow> 's \<Rightarrow> 's \<times> nat \<times> nat \<times> ScanEnd" where
  "scan fast cfg bs consumed events s =
     (let rest = drop consumed bs
      in if rest = [] then (s, consumed, events, ScanDrained)
         else
           (case parse_complete_server_data_frame rest (cf_max_frame_payload cfg) (cf_max_message_size cfg)
                   (cf_assume_text_utf8 cfg) of
              Ok (FfParsed ev frame_len) \<Rightarrow> scan fast cfg bs (consumed + frame_len) (events + 1) (fast ev s)
            | Ok FfNeedMore \<Rightarrow> (s, consumed, events, ScanWait)
            | Ok FfFallback \<Rightarrow> (s, consumed, events, ScanFallback)
            | Err e \<Rightarrow> (s, consumed, events, ScanErr e)
            | Panic \<Rightarrow> (s, consumed, events, ScanPanic)))"
  by pat_completeness auto

termination scan
  by (relation "measure (\<lambda>(fast, cfg, bs, consumed, events, s). length bs - consumed)")
    (auto dest!: parse_complete_frame_len)

declare scan.simps [simp del]

definition queue_fast_data_frame_error :: "Env \<Rightarrow> WsClient \<Rightarrow> FastDataFrameError \<Rightarrow> WsClient \<times> (WsError, WsError) result" where
  "queue_fast_data_frame_error env c err =
     (case err of
        FdFrame e \<Rightarrow>
          try_st (queue_close env c (as_u16 ProtocolError) ''frame parse error'') (\<lambda>c _. (c, Ok (WsFrame e)))
      | FdFrameTooLarge \<Rightarrow>
          try_st (queue_close env c (as_u16 MessageTooBig) ''frame too large'') (\<lambda>c _. (c, Ok WsMessageTooLarge))
      | FdMessageTooLarge \<Rightarrow>
          try_st (queue_close env c (as_u16 MessageTooBig) ''message exceeds max_message_size'')
            (\<lambda>c _. (c, Ok WsMessageTooLarge))
      | FdUtf8Invalid \<Rightarrow>
          try_st (queue_close env c (as_u16 InvalidPayload) ''invalid utf-8'') (\<lambda>c _. (c, Ok WsUtf8Invalid)))"

definition fail_fast :: "Env \<Rightarrow> WsClient \<Rightarrow> FastDataFrameError \<Rightarrow> WsClient \<times> (WsError, 'a) result" where
  "fail_fast env c err = try_st (queue_fast_data_frame_error env c err) (\<lambda>c e. (c, Err e))"

text \<open>The slice \<^verbatim>\<open>&data[head..]\<close> panics when the cursor is beyond the data (which the invariant excludes).\<close>

definition try_drain :: "Env \<Rightarrow> 's Sink \<Rightarrow> WsClient \<Rightarrow> 's \<Rightarrow> 's \<times> WsClient \<times> (WsError, nat \<times> DirectDataResult) result" where
  "try_drain env sk c s =
     (if fast_blocked c then (s, c, Ok (0, DrFallback))
      else if cb_head (ws_recv_buf c) > length (cb_data (ws_recv_buf c)) then (s, c, Panic)
      else
        (case scan (sk_fast sk) (ws_config c) (as_slice (ws_recv_buf c)) 0 0 (sk_begin sk s) of
           (s, consumed, events, ScanDrained) \<Rightarrow>
             (sk_flush sk True s, consume_recv c consumed, Ok (events, Drained))
         | (s, consumed, events, ScanWait) \<Rightarrow>
             (sk_flush sk True s, consume_recv c consumed, Ok (events, DrWaitForMore))
         | (s, consumed, events, ScanFallback) \<Rightarrow>
             (sk_flush sk False s, consume_recv c consumed, Ok (events, DrFallback))
         | (s, consumed, events, ScanErr e) \<Rightarrow> (sk_flush sk True s, fail_fast env (consume_recv c consumed) e)
         | (s, consumed, events, ScanPanic) \<Rightarrow> (s, c, Panic)))"

subsection \<open>The drain loop\<close>

lemma scan_bounds:
  "scan fast cfg bs k n s = (s', k', n', e) \<Longrightarrow> k \<le> length bs \<Longrightarrow>
     k \<le> k' \<and> k' \<le> length bs \<and> (e = ScanDrained \<longleftrightarrow> k' = length bs)"
proof (induction fast cfg bs k n s rule: scan.induct)
  case (1 fast cfg bs k n s)
  show ?case
  proof (cases "\<exists>ev m. parse_complete_server_data_frame (drop k bs) (cf_max_frame_payload cfg) (cf_max_message_size cfg)
      (cf_assume_text_utf8 cfg) = Ok (FfParsed ev m) \<and> drop k bs \<noteq> []")
    case True
    then obtain ev m where p: "parse_complete_server_data_frame (drop k bs) (cf_max_frame_payload cfg)
        (cf_max_message_size cfg) (cf_assume_text_utf8 cfg) = Ok (FfParsed ev m)" "drop k bs \<noteq> []" by blast
    have "m \<le> length (drop k bs)" using parse_complete_frame_len [OF p(1)] by simp
    then have "k + m \<le> k' \<and> k' \<le> length bs \<and> (e = ScanDrained \<longleftrightarrow> k' = length bs)"
      using "1.IH" [OF refl p(2,1) refl] "1.prems" p by (simp add: scan.simps [of fast cfg bs k])
    then show ?thesis by simp
  next
    case False
    then show ?thesis
      using "1.prems" by (auto simp: scan.simps [of fast cfg bs k] Let_def split: if_split_asm result.split_asm
          FastDataFrameResult.split_asm)
  qed
qed

lemma clear_after_emit_Ok: "clear_after_emit c = (d, Ok u) \<Longrightarrow> d = cleared c \<and> ws_last_emitted d = None"
  by (auto simp: cleared_def clear_after_emit_def Let_def consume_recv_def
      split: option.split_asm EmitKind.split_asm)

lemma try_drain_Ok:
  assumes "try_drain env sk c s = (s', d, Ok (n, r))"
  shows "(fast_blocked c \<and> d = c \<and> r = DrFallback) \<or>
    (\<exists>k. \<not> fast_blocked c \<and> as_slice (ws_recv_buf c) \<noteq> [] \<and> d = consume_recv c k \<and>
       k \<le> length (as_slice (ws_recv_buf c)) \<and> (r = Drained \<longleftrightarrow> k = length (as_slice (ws_recv_buf c))))"
proof (cases "fast_blocked c")
  case True
  then show ?thesis using assms by (simp add: try_drain_def)
next
  case False
  obtain s1 k n1 e where sc: "scan (sk_fast sk) (ws_config c) (as_slice (ws_recv_buf c)) 0 0 (sk_begin sk s) = (s1, k, n1, e)"
    by (metis prod_cases4)
  have h: "\<not> cb_head (ws_recv_buf c) > length (cb_data (ws_recv_buf c))" using assms False by (auto simp: try_drain_def)
  then have "as_slice (ws_recv_buf c) \<noteq> []" using False by (auto simp: fast_blocked_def cb_is_empty_def as_slice_def)
  then show ?thesis
    using assms False sc h scan_bounds [OF sc]
    by (auto simp: try_drain_def fail_fast_def elim!: try_st_cases split: ScanEnd.split_asm)
qed

lemma try_drain_measure:
  assumes "try_drain env sk c s = (s', d, Ok (n, r))"
  shows "rx_measure d \<le> rx_measure c" "r = Drained \<Longrightarrow> rx_measure d < rx_measure c"
    "ws_last_emitted d = ws_last_emitted c"
  using try_drain_Ok [OF assms] by (auto simp: rx_measure_def consume_recv_def feed_measure_def)

definition slow_event :: "'s Sink \<Rightarrow> WsEvent \<Rightarrow> 's \<Rightarrow> 's" where
  "slow_event sk ev s =
     (case ev of EvText t \<Rightarrow> sk_slow sk (DText t) s | EvBinary b \<Rightarrow> sk_slow sk (DBinary b) s | _ \<Rightarrow> s)"

lemma drain_decreases:
  assumes "clear_after_emit c = (c1, Ok u)" "try_drain env sk c1 s = (s1, c2, Ok (n, r))"
  shows "r = Drained \<Longrightarrow> rx_measure (cleared c2) < rx_measure (cleared c)"
    "poll_event env c2 = (c3, Ok (Some ev)) \<Longrightarrow> rx_measure (cleared c3) < rx_measure (cleared c)"
proof -
  note m = try_drain_measure [OF assms(2)] and c1 = clear_after_emit_Ok [OF assms(1)]
  have c2: "cleared c2 = c2" using m(3) c1 cleared_None [of c2] by metis
  show "r = Drained \<Longrightarrow> rx_measure (cleared c2) < rx_measure (cleared c)" using m(2) c2 c1 by simp
  show "poll_event env c2 = (c3, Ok (Some ev)) \<Longrightarrow> rx_measure (cleared c3) < rx_measure (cleared c)"
    using poll_event_decreases [of env c2 c3 ev] m(1) c2 c1 by simp
qed

function drain :: "Env \<Rightarrow> 's Sink \<Rightarrow> WsClient \<Rightarrow> nat \<Rightarrow> 's \<Rightarrow> 's \<times> WsClient \<times> (WsError, nat) result" where
  "drain env sk c events s =
     (case clear_after_emit c of
        (c1, Ok _) \<Rightarrow>
          (case try_drain env sk c1 s of
             (s1, c2, Ok (direct, Drained)) \<Rightarrow> drain env sk c2 (events + direct) s1
           | (s1, c2, Ok (direct, DrWaitForMore)) \<Rightarrow> (s1, c2, Ok (events + direct))
           | (s1, c2, Ok (direct, DrFallback)) \<Rightarrow>
               (case poll_event env c2 of
                  (c3, Ok (Some ev)) \<Rightarrow> drain env sk c3 (events + direct + 1) (slow_event sk ev s1)
                | (c3, Ok None) \<Rightarrow> (s1, c3, Ok (events + direct))
                | (c3, Err e) \<Rightarrow> (s1, c3, Err e)
                | (c3, Panic) \<Rightarrow> (s1, c3, Panic))
           | (s1, c2, Err e) \<Rightarrow> (s1, c2, Err e)
           | (s1, c2, Panic) \<Rightarrow> (s1, c2, Panic))
      | (c1, Err e) \<Rightarrow> (s, c1, Err e)
      | (c1, Panic) \<Rightarrow> (s, c1, Panic))"
  by pat_completeness auto

termination drain
  by (relation "measure (\<lambda>(env, sk, c, n, s). rx_measure (cleared c))")
    (simp_all, (metis drain_decreases(1)), (metis drain_decreases(2)))

declare drain.simps [simp del]

subsection \<open>Fresh input\<close>

definition can_drain_ingress_directly :: "WsClient \<Rightarrow> bool" where
  "can_drain_ingress_directly c \<longleftrightarrow>
     ws_state c = Open \<and> is_idle (ws_parser c) \<and> ws_msg_opcode c = None \<and> cb_is_empty (ws_recv_buf c) \<and>
     ws_borrowed_payload c = None"

definition try_drain_ingress ::
  "Env \<Rightarrow> 's Sink \<Rightarrow> WsClient \<Rightarrow> bytes \<Rightarrow> 's \<Rightarrow> 's \<times> WsClient \<times> (WsError, nat \<times> nat \<times> DirectDataResult) result" where
  "try_drain_ingress env sk c bs s =
     (case scan (sk_fast sk) (ws_config c) bs 0 0 (sk_begin sk s) of
        (s, consumed, events, ScanDrained) \<Rightarrow> (sk_flush sk True s, c, Ok (events, length bs, Drained))
      | (s, consumed, events, ScanWait) \<Rightarrow> (sk_flush sk True s, c, Ok (events, consumed, DrWaitForMore))
      | (s, consumed, events, ScanFallback) \<Rightarrow> (sk_flush sk False s, c, Ok (events, consumed, DrFallback))
      | (s, consumed, events, ScanErr e) \<Rightarrow> (sk_flush sk True s, fail_fast env c e)
      | (s, consumed, events, ScanPanic) \<Rightarrow> (s, c, Panic))"

definition drain_from_ingress ::
  "Env \<Rightarrow> 's Sink \<Rightarrow> WsClient \<Rightarrow> bytes \<Rightarrow> 's \<Rightarrow> 's \<times> WsClient \<times> (WsError, nat) result" where
  "drain_from_ingress env sk c bs s =
     (case clear_after_emit c of
        (c, Ok _) \<Rightarrow>
          if bs = [] then drain env sk c 0 s
          else if can_drain_ingress_directly c then
            (case try_drain_ingress env sk c bs s of
               (s, c, Ok (events, consumed, Drained)) \<Rightarrow> (s, c, Ok events)
             | (s, c, Ok (events, consumed, DrWaitForMore)) \<Rightarrow> (s, feed_recv c (drop consumed bs), Ok events)
             | (s, c, Ok (events, consumed, DrFallback)) \<Rightarrow>
                 (case drain env sk (feed_recv c (drop consumed bs)) 0 s of
                    (s, c, r) \<Rightarrow> (s, c, and_then r (\<lambda>fallback_events. Ok (events + fallback_events))))
             | (s, c, Err e) \<Rightarrow> (s, c, Err e)
             | (s, c, Panic) \<Rightarrow> (s, c, Panic))
          else drain env sk (feed_recv c bs) 0 s
      | (c, Err e) \<Rightarrow> (s, c, Err e)
      | (c, Panic) \<Rightarrow> (s, c, Panic))"

subsection \<open>The public functions, one event or one batch at a time\<close>

definition try_drain_data_events ::
  "Env \<Rightarrow> WsClient \<Rightarrow> DataEvent list \<Rightarrow> DataEvent list \<times> WsClient \<times> (WsError, nat \<times> DirectDataResult) result" where
  "try_drain_data_events env c s = try_drain env plain_sink c s"

definition drain_data_events :: "Env \<Rightarrow> WsClient \<Rightarrow> DataEvent list \<times> WsClient \<times> (WsError, nat) result" where
  "drain_data_events env c = drain env plain_sink c 0 []"

definition try_drain_ingress_data_events ::
  "Env \<Rightarrow> WsClient \<Rightarrow> bytes \<Rightarrow> DataEvent list \<Rightarrow>
     DataEvent list \<times> WsClient \<times> (WsError, nat \<times> nat \<times> DirectDataResult) result" where
  "try_drain_ingress_data_events env c bs s = try_drain_ingress env plain_sink c bs s"

definition drain_data_events_from_ingress ::
  "Env \<Rightarrow> WsClient \<Rightarrow> bytes \<Rightarrow> DataEvent list \<times> WsClient \<times> (WsError, nat) result" where
  "drain_data_events_from_ingress env c bs = drain_from_ingress env plain_sink c bs []"

definition delivered :: "('b \<times> 'o) \<times> 'c \<times> 'r \<Rightarrow> 'o \<times> 'c \<times> 'r" where
  "delivered res = (snd (fst res), snd res)"

definition try_drain_data_event_batches ::
  "Env \<Rightarrow> WsClient \<Rightarrow> DataEventBatch list \<Rightarrow>
     DataEventBatch list \<times> WsClient \<times> (WsError, nat \<times> DirectDataResult) result" where
  "try_drain_data_event_batches env c out = delivered (try_drain env batch_sink c (batch_new, out))"

definition drain_data_event_batches :: "Env \<Rightarrow> WsClient \<Rightarrow> DataEventBatch list \<times> WsClient \<times> (WsError, nat) result" where
  "drain_data_event_batches env c = delivered (drain env batch_sink c 0 (batch_new, []))"

definition try_drain_ingress_data_event_batches ::
  "Env \<Rightarrow> WsClient \<Rightarrow> bytes \<Rightarrow> DataEventBatch list \<Rightarrow>
     DataEventBatch list \<times> WsClient \<times> (WsError, nat \<times> nat \<times> DirectDataResult) result" where
  "try_drain_ingress_data_event_batches env c bs out = delivered (try_drain_ingress env batch_sink c bs (batch_new, out))"

definition drain_data_event_batches_from_ingress ::
  "Env \<Rightarrow> WsClient \<Rightarrow> bytes \<Rightarrow> DataEventBatch list \<times> WsClient \<times> (WsError, nat) result" where
  "drain_data_event_batches_from_ingress env c bs = delivered (drain_from_ingress env batch_sink c bs (batch_new, []))"

subsection \<open>What a sink promises\<close>

text \<open>A lawful sink loses, adds and reorders nothing: \<open>items\<close> are the events handed to it so far.
  Everything about the drains that does not depend on the packaging of events is proved here once;
  all sinks give the client the same treatment and the application the same events.\<close>

locale event_sink =
  fixes sk :: "'s Sink"
    and items :: "'s \<Rightarrow> DataEvent list"
    and idle :: "'s \<Rightarrow> bool"
    and filling :: "'s \<Rightarrow> bool"
  assumes begin_law: "idle s \<Longrightarrow> items (sk_begin sk s) = items s \<and> filling (sk_begin sk s)"
    and fast_law: "filling s \<Longrightarrow> items (sk_fast sk ev s) = items s @ [ev] \<and> filling (sk_fast sk ev s)"
    and flush_law: "filling s \<Longrightarrow> items (sk_flush sk b s) = items s \<and> idle (sk_flush sk b s)"
    and slow_law: "idle s \<Longrightarrow> items (sk_slow sk ev s) = items s @ [ev] \<and> idle (sk_slow sk ev s)"
begin

lemma scan_items:
  "filling s \<Longrightarrow> scan (sk_fast sk) cfg bs k n s = (s', k', n', e) \<Longrightarrow>
     filling s' \<and> scan (sk_fast plain_sink) cfg bs k n (items s) = (items s', k', n', e)"
proof (induction "sk_fast sk" cfg bs k n s rule: scan.induct)
  case (1 cfg bs k n s)
  let ?p = "parse_complete_server_data_frame (drop k bs) (cf_max_frame_payload cfg) (cf_max_message_size cfg)
      (cf_assume_text_utf8 cfg)"
  note sc = scan.simps [of "sk_fast sk" cfg bs k n s] scan.simps [of "sk_fast plain_sink" cfg bs k n "items s"]
  show ?case
  proof (cases "drop k bs = []")
    case True
    then show ?thesis using "1.prems" unfolding sc by simp
  next
    case False
    show ?thesis
    proof (cases "\<exists>ev m. ?p = Ok (FfParsed ev m)")
      case True
      then obtain ev m where p: "?p = Ok (FfParsed ev m)" by blast
      then have "scan (sk_fast sk) cfg bs (k + m) (n + 1) (sk_fast sk ev s) = (s', k', n', e)"
        using "1.prems"(2) False unfolding sc by simp
      then show ?thesis
        using "1.hyps" [OF refl False p refl] fast_law [OF "1.prems"(1), of ev] False p
        unfolding sc by (simp add: plain_sink_def)
    next
      case nf: False
      then show ?thesis
        using "1.prems" False unfolding sc
        by (cases ?p) (auto split: FastDataFrameResult.split_asm)
    qed
  qed
qed

lemma try_drain_items:
  assumes "idle s" "try_drain env sk c s = (s', d, r)" "r \<noteq> Panic"
  shows "idle s' \<and> try_drain env plain_sink c (items s) = (items s', d, r)"
proof (cases "fast_blocked c")
  case True
  then show ?thesis using assms by (auto simp: try_drain_def)
next
  case False
  obtain s1 k n e where sc: "scan (sk_fast sk) (ws_config c) (as_slice (ws_recv_buf c)) 0 0 (sk_begin sk s) = (s1, k, n, e)"
    by (metis prod_cases4)
  have f: "filling s1 \<and> scan (sk_fast plain_sink) (ws_config c) (as_slice (ws_recv_buf c)) 0 0 (sk_begin plain_sink (items s)) =
      (items s1, k, n, e)"
    using scan_items [OF _ sc] begin_law [OF assms(1)] by (simp add: plain_sink_def)
  have pf: "sk_flush plain_sink b t = t" for b t by (simp add: plain_sink_def)
  show ?thesis
    using assms(2,3) False sc f flush_law [of s1] unfolding try_drain_def
    by (auto simp: pf split: ScanEnd.split_asm if_split_asm)
qed

lemma try_drain_ingress_items:
  assumes "idle s" "try_drain_ingress env sk c bs s = (s', d, r)" "r \<noteq> Panic"
  shows "idle s' \<and> try_drain_ingress env plain_sink c bs (items s) = (items s', d, r)"
proof -
  obtain s1 k n e where sc: "scan (sk_fast sk) (ws_config c) bs 0 0 (sk_begin sk s) = (s1, k, n, e)"
    by (metis prod_cases4)
  have f: "filling s1 \<and> scan (sk_fast plain_sink) (ws_config c) bs 0 0 (sk_begin plain_sink (items s)) = (items s1, k, n, e)"
    using scan_items [OF _ sc] begin_law [OF assms(1)] by (simp add: plain_sink_def)
  have pf: "sk_flush plain_sink b t = t" for b t by (simp add: plain_sink_def)
  show ?thesis
    using assms(2,3) sc f flush_law [of s1] unfolding try_drain_ingress_def
    by (auto simp: pf split: ScanEnd.split_asm)
qed

lemma slow_event_items:
  "idle s \<Longrightarrow> idle (slow_event sk ev s) \<and> items (slow_event sk ev s) = slow_event plain_sink ev (items s)"
  using slow_law by (cases ev) (simp_all add: slow_event_def plain_sink_def)

lemma drain_items:
  "idle s \<Longrightarrow> drain env sk c n s = (s', d, r) \<Longrightarrow> r \<noteq> Panic \<Longrightarrow>
     idle s' \<and> drain env plain_sink c n (items s) = (items s', d, r)"
proof (induction "rx_measure (cleared c)" arbitrary: c n s rule: less_induct)
  case less
  note sc = drain.simps [of env sk c n s] drain.simps [of env plain_sink c n "items s"]
  obtain c1 u where cl: "clear_after_emit c = (c1, u)" by fastforce
  show ?case
  proof (cases u)
    case (Ok v)
    note cl = cl [unfolded Ok]
    obtain s1 c2 r1 where td: "try_drain env sk c1 s = (s1, c2, r1)" by (rule prod_cases3)
    have np: "r1 \<noteq> Panic" using less.prems(2,3) cl td unfolding sc by auto
    note ti = try_drain_items [OF less.prems(1) td np]
    show ?thesis
    proof (cases r1)
      case r1: (Ok v1)
      obtain m dr where v1: "v1 = (m, dr)" by fastforce
      note dec = drain_decreases [OF cl td [unfolded r1 v1]]
      show ?thesis
      proof (cases dr)
        case Drained
        then show ?thesis
          using less.hyps [OF dec(1) [OF Drained], of s1 "n + m"] less.prems(2,3) cl td r1 v1 ti unfolding sc by simp
      next
        case DrWaitForMore
        then show ?thesis using less.prems(2,3) cl td r1 v1 ti unfolding sc by simp
      next
        case DrFallback
        obtain c3 r3 where po: "poll_event env c2 = (c3, r3)" by fastforce
        show ?thesis
        proof (cases "\<exists>ev. r3 = Ok (Some ev)")
          case True
          then obtain ev where ev: "poll_event env c2 = (c3, Ok (Some ev))" using po by auto
          have "drain env sk c3 (n + m + 1) (slow_event sk ev s1) = (s', d, r)"
            using less.prems(2) cl td r1 v1 DrFallback ev unfolding sc by simp
          then show ?thesis
            using less.hyps [OF dec(2) [OF ev], of "slow_event sk ev s1" "n + m + 1"] less.prems(3) cl td r1 v1 DrFallback ev ti slow_event_items [of s1 ev]
            unfolding sc by simp
        next
          case False
          then show ?thesis
            using less.prems(2,3) cl td r1 v1 ti po DrFallback unfolding sc
            by (cases r3) (auto split: option.split_asm)
        qed
      qed
    next
      case (Err e)
      then show ?thesis using less.prems(2,3) cl td ti unfolding sc by simp
    qed (use np in simp)
  next
    case (Err e)
    then show ?thesis using less.prems cl unfolding sc by simp
  next
    case Panic
    then show ?thesis using less.prems cl unfolding sc by simp
  qed
qed

lemma drain_from_ingress_items:
  assumes "idle s" "drain_from_ingress env sk c bs s = (s', d, r)" "r \<noteq> Panic"
  shows "idle s' \<and> drain_from_ingress env plain_sink c bs (items s) = (items s', d, r)"
proof -
  obtain c1 u where cl: "clear_after_emit c = (c1, u)" by fastforce
  show ?thesis
  proof (cases "\<exists>v. u = Ok v \<and> bs \<noteq> [] \<and> can_drain_ingress_directly c1")
    case True
    obtain s1 c2 r1 where td: "try_drain_ingress env sk c1 bs s = (s1, c2, r1)" by (rule prod_cases3)
    have np: "r1 \<noteq> Panic" using assms(2,3) cl td True by (auto simp: drain_from_ingress_def)
    note ti = try_drain_ingress_items [OF assms(1) td np]
    show ?thesis
    proof (cases r1)
      case r1: (Ok v1)
      obtain ev k dd where v1: "v1 = (ev, k, dd)" by (rule prod_cases3)
      obtain s2 c3 r2 where dr: "drain env sk (feed_recv c2 (drop k bs)) 0 s1 = (s2, c3, r2)" by (rule prod_cases3)
      have "r2 \<noteq> Panic" if "dd = DrFallback"
        using that assms(2,3) cl td True r1 v1 dr by (auto simp: drain_from_ingress_def)
      then show ?thesis
        using assms(2) cl td True r1 v1 ti dr drain_items [OF _ dr]
        by (cases dd) (auto simp: drain_from_ingress_def)
    qed (use assms(2,3) cl td ti True in \<open>auto simp: drain_from_ingress_def\<close>)
  next
    case False
    then show ?thesis
      using assms cl drain_items [OF assms(1)] by (cases u) (auto simp: drain_from_ingress_def split: if_split_asm)
  qed
qed

end

interpretation plain: event_sink plain_sink "\<lambda>s. s" "\<lambda>_. True" "\<lambda>_. True"
  by unfold_locales (simp_all add: plain_sink_def)

definition batch_items :: "DataEventBatch \<times> DataEventBatch list \<Rightarrow> DataEvent list" where
  "batch_items s = concat (map ba_events (snd s)) @ ba_events (fst s)"

definition batches_ok :: "DataEventBatch list \<Rightarrow> bool" where
  "batches_ok out \<longleftrightarrow> list_all (\<lambda>b. ba_events b \<noteq> [] \<and> length (ba_events b) \<le> DATA_EVENT_BATCH_CAPACITY) out"

interpretation batch: event_sink batch_sink batch_items
  "\<lambda>s. fst s = batch_new \<and> batches_ok (snd s)"
  "\<lambda>s. length (ba_events (fst s)) \<le> DATA_EVENT_BATCH_CAPACITY \<and> ba_chunk_end (fst s) = False \<and> batches_ok (snd s)"
  by unfold_locales
    (auto simp: batch_sink_def batch_items_def batch_fast_def flush_data_event_batch_def batch_is_full_def
      batch_is_empty_def batch_push_def batch_new_def batch_single_def DATA_EVENT_BATCH_CAPACITY_def batches_ok_def
      Let_def split: prod.splits)

subsection \<open>When the direct path is open\<close>

lemma queue_close_not_Open: "queue_close env c code reason = (d, Ok u) \<Longrightarrow> ws_state d \<noteq> Open"
  by (auto simp: queue_close_def elim!: try_st_cases split: if_split_asm)

lemma fail_fast_not_Open: "fail_fast env c e = (d, r) \<Longrightarrow> r \<noteq> Panic \<Longrightarrow> ws_state d \<noteq> Open \<or> (\<exists>x. queue_fast_data_frame_error env c e = (d, Err x))"
  by (auto simp: fail_fast_def queue_fast_data_frame_error_def elim!: try_st_cases dest: queue_close_not_Open
      split: FastDataFrameError.split_asm)

lemma advance_NeedMore:
  assumes "advance env c = (d, Ok AdvNeedMore)" "ws_state c \<noteq> Closed"
  shows "ws_state d \<noteq> Open \<or> \<not> is_idle (ws_parser d)"
proof (cases "ws_state c = Connecting")
  case True
  then show ?thesis
    using assms by (auto simp: advance_def advance_handshake_def elim!: try_st_cases split: option.split_asm)
next
  case False
  then have "advance_frame env c = (d, Ok AdvNeedMore)"
    using assms by (auto simp: advance_def split: ConnState.split_asm)
  then show ?thesis
    by (auto simp: advance_frame_def run_action_def consume_recv_def is_idle_def elim!: try_st_cases
        dest: feed_one_NeedMore_not_Idle
        split: prod.split_asm result.split_asm FeedOutcome.split_asm FrameEvent.split_asm option.split_asm)
qed

lemma poll_loop_None_blocks:
  "poll_loop env c = (d, r) \<Longrightarrow> r = Ok None \<or> (\<exists>e. r = Err e) \<Longrightarrow> \<not> can_drain_ingress_directly d"
proof (induction env c rule: poll_loop.induct)
  case (1 env c)
  obtain c1 b where b: "try_emit_borrowed_data env c = (c1, b)" by fastforce
  obtain c2 a where a: "advance env c1 = (c2, a)" by fastforce
  show ?case
  proof (cases "ws_state c = Closed")
    case True
    then show ?thesis using "1.prems" by (auto simp: poll_loop.simps [of env c] can_drain_ingress_directly_def)
  next
    case nc: False
    note step = "1.prems"(1) [unfolded poll_loop.simps [of env c] if_not_P [OF nc] b, simplified]
    have fp: "\<not> can_drain_ingress_directly (fail_poll e)" for e
      by (simp add: fail_poll_def can_drain_ingress_directly_def)
    have em: "\<not> (r = Ok None \<or> (\<exists>e. r = Err e))" if "emit e kind = (d, r)" "\<And>x. build_event (e\<lparr>ws_last_emitted := Some kind\<rparr>) kind \<noteq> Err x" for e kind
      using that by (auto simp: emit_def Let_def and_then_iffs)
    have be: "build_event e kind \<noteq> Err x" for e kind x
      by (cases kind) (auto simp: build_event_def and_then_iffs borrowed_payload_def split: option.split result.split)
    have wait: "\<not> cb_is_empty (ws_recv_buf c1)" if "b = Ok WaitForMore"
      using b that by (auto simp: try_emit_borrowed_data_def borrow_frame_def fast_blocked_def Let_def elim!: try_st_cases
          split: if_split_asm result.split_asm option.split_asm)
    show ?thesis
    proof (cases "b = Ok Fallback")
      case False
      then show ?thesis
        using step "1.prems"(2) fp em [OF _ be] wait
        by (auto simp: can_drain_ingress_directly_def split: result.split_asm BorrowedResult.split_asm)
    next
      case fb: True
      then have c1: "c1 = c" using try_emit_Fallback b by blast
      show ?thesis
      proof (cases "a = Ok Progressed")
        case True
        then show ?thesis
          using "1.IH" [OF nc b [symmetric] fb refl a [symmetric] True refl] step fb a "1.prems"(2) by simp
      next
        case False
        then show ?thesis
          using step fb a "1.prems"(2) fp em [OF _ be] advance_NeedMore [of env c c2] c1 nc
          by (auto simp: can_drain_ingress_directly_def split: result.split_asm AdvanceResult.split_asm)
      qed
    qed
  qed
qed

end
