(* ===== verification/Ws_Reply.thy ===== *)
theory Ws_Reply
  imports Ws_Inv
begin

text \<open>
  What the receive side of the client answers on the wire: which calls of \<^verbatim>\<open>poll_event\<close> queue a frame,
  which frame that is, and how the connection state moves with it.
\<close>

subsection \<open>Steps that queue nothing, and steps that shut the connection\<close>

definition calm :: "WsClient \<Rightarrow> WsClient \<Rightarrow> bool" where
  "calm c d \<longleftrightarrow> tx_wf d \<and> pending_tx d = pending_tx c \<and> ws_state d = ws_state c"

definition adds_frame :: "OpCode \<Rightarrow> bytes \<Rightarrow> WsClient \<Rightarrow> WsClient \<Rightarrow> bool" where
  "adds_frame op payload c d \<longleftrightarrow> tx_wf d \<and> (\<exists>key. pending_tx d = pending_tx c @ masked_frame True op key payload)"

text \<open>An open connection gets one Close frame and is then \<^verbatim>\<open>Closing\<close>; one that is closing already is
  left alone.\<close>

definition shut :: "WsClient \<Rightarrow> WsClient \<Rightarrow> bool" where
  "shut c d \<longleftrightarrow>
     (if ws_state c = Open
      then ws_state d = Closing \<and> (\<exists>code reason. length reason \<le> 123 \<and> adds_frame Close (u16_to_be code @ reason) c d)
      else calm c d)"

definition live :: "WsClient \<Rightarrow> bool" where
  "live c \<longleftrightarrow> tx_wf c \<and> (ws_state c = Open \<or> ws_state c = Closing)"

lemma calm_refl: "tx_wf c \<Longrightarrow> calm c c"
  by (simp add: calm_def)

lemma calm_trans: "calm c d \<Longrightarrow> calm d e \<Longrightarrow> calm c e"
  by (simp add: calm_def)

lemma calm_live: "calm c d \<Longrightarrow> live c \<Longrightarrow> live d"
  by (simp add: calm_def live_def)

lemma calm_shut: "calm c d \<Longrightarrow> shut d e \<Longrightarrow> shut c e"
  by (auto simp: calm_def shut_def adds_frame_def)

lemma calm_adds: "calm c d \<Longrightarrow> adds_frame op p d e \<Longrightarrow> adds_frame op p c e"
  by (auto simp: calm_def adds_frame_def)

lemma pending_tx_rx_updates [simp]:
  "pending_tx (c\<lparr>ws_state := s\<rparr>) = pending_tx c" "pending_tx (c\<lparr>ws_parser := p\<rparr>) = pending_tx c"
  "pending_tx (c\<lparr>ws_recv_buf := rb\<rparr>) = pending_tx c" "pending_tx (c\<lparr>ws_msg_buf := mb\<rparr>) = pending_tx c"
  "pending_tx (c\<lparr>ws_msg_opcode := mo\<rparr>) = pending_tx c" "pending_tx (c\<lparr>ws_ctl_buf := xb\<rparr>) = pending_tx c"
  "pending_tx (c\<lparr>ws_ctl_len := n\<rparr>) = pending_tx c" "pending_tx (c\<lparr>ws_cur_opcode := co\<rparr>) = pending_tx c"
  "pending_tx (c\<lparr>ws_cur_fin := cf\<rparr>) = pending_tx c" "pending_tx (c\<lparr>ws_last_emitted := le\<rparr>) = pending_tx c"
  "pending_tx (c\<lparr>ws_borrowed_payload := bp\<rparr>) = pending_tx c" "pending_tx (consume_recv c k) = pending_tx c"
  by (simp_all add: pending_tx_def consume_recv_def)

lemma adds_frame_updates [simp]:
  "adds_frame op p c (d\<lparr>ws_state := s\<rparr>) = adds_frame op p c d"
  "adds_frame op p c (d\<lparr>ws_last_emitted := le\<rparr>) = adds_frame op p c d"
  by (simp_all add: adds_frame_def)

text \<open>The relations read only the pending bytes, the state and the configuration on the left.\<close>

definition same_start :: "WsClient \<Rightarrow> WsClient \<Rightarrow> bool" where
  "same_start c c' \<longleftrightarrow> pending_tx c' = pending_tx c \<and> ws_state c' = ws_state c \<and> ws_config c' = ws_config c"

lemma same_start_calm: "same_start c c' \<Longrightarrow> calm c' d = calm c d"
  by (simp add: same_start_def calm_def)

lemma same_start_shut: "same_start c c' \<Longrightarrow> shut c' d = shut c d"
  by (simp add: same_start_def shut_def calm_def adds_frame_def)

lemma queue_close_adds:
  assumes "tx_wf c" "ws_state c = Open" "length reason \<le> 123" "queue_close env c code reason = (d, r)" "r \<noteq> Panic"
  shows "adds_frame Close (u16_to_be code @ str reason) c d" "ws_state d = Closing"
  using queue_close_cases [OF assms(1,3,4)] assms(2,5) same_rx_fields(1)
  unfolding adds_frame_def by auto

lemma queue_close_shut:
  assumes "live c" "length reason \<le> 123" "queue_close env c code reason = (d, r)" "r \<noteq> Panic"
  shows "shut c d"
proof (cases "ws_state c = Open")
  case True
  moreover have "tx_wf c" using assms(1) by (simp add: live_def)
  moreover have "length (str reason) \<le> 123" using assms(2) by (simp add: str_def)
  ultimately show ?thesis using queue_close_adds [OF _ _ assms(2-4)] unfolding shut_def by auto
next
  case False
  then show ?thesis using assms by (auto simp: shut_def live_def calm_def queue_close_def)
qed

text \<open>The outcome of a step of the receive side: a successful step is calm, an error may have shut
  the connection.\<close>

definition reacts :: "WsClient \<Rightarrow> WsClient \<times> ('e, 'a) result \<Rightarrow> bool" where
  "reacts c res \<longleftrightarrow>
     (case snd res of Ok _ \<Rightarrow> calm c (fst res) | Err _ \<Rightarrow> calm c (fst res) \<or> shut c (fst res) | Panic \<Rightarrow> True)"

lemma reacts_simps [simp]:
  "reacts c (d, Ok x) \<longleftrightarrow> calm c d" "reacts c (d, Err e) \<longleftrightarrow> calm c d \<or> shut c d" "reacts c (d, Panic)"
  by (simp_all add: reacts_def)

lemma reacts_try:
  assumes "reacts c res" "\<And>d x. calm c d \<Longrightarrow> res = (d, Ok x) \<Longrightarrow> reacts d (f d x)"
  shows "reacts c (try_st res f)"
proof -
  obtain d r where res: "res = (d, r)" by fastforce
  show ?thesis
  proof (cases r)
    case (Ok x)
    obtain e r2 where f: "f d x = (e, r2)" by fastforce
    have "calm c d" using assms(1) res Ok by simp
    moreover from this have "reacts d (e, r2)" using assms(2) res Ok f by metis
    ultimately show ?thesis
      using res Ok f calm_trans [of c d e] calm_shut [of c d e] by (cases r2) auto
  qed (use assms(1) res in auto)
qed

lemma reacts_fail:
  assumes "live c" "length reason \<le> 123"
  shows "reacts c (try_st (queue_close env c code reason) (\<lambda>c _. (c, Err e)))"
proof -
  obtain d r where q: "queue_close env c code reason = (d, r)" by fastforce
  then show ?thesis using queue_close_shut [OF assms q] keeps_queue_close(4) [OF _ assms(2) q] assms(1)
    by (cases r) (auto simp: live_def)
qed

lemma reacts_open_message: "live c \<Longrightarrow> reacts c (open_message env c op)"
  by (auto simp: open_message_def reacts_fail live_def calm_def)

lemma reacts_admit_frame: "live c \<Longrightarrow> reacts c (admit_frame env c h)"
  by (auto simp: admit_frame_def Let_def reacts_fail live_def calm_def)

lemma reacts_on_frame_start: "live c \<Longrightarrow> reacts c (on_frame_start env c h)"
  unfolding on_frame_start_def
  by (auto simp: reacts_fail intro!: reacts_try reacts_open_message reacts_admit_frame dest: calm_live)
    (simp add: live_def calm_def)

lemma reacts_take_chunk: "live c \<Longrightarrow> reacts c (take_chunk c chunk)"
  by (auto simp: take_chunk_def live_def calm_def split: option.split result.split)

subsection \<open>Control frames\<close>

definition ctl_payload :: "WsClient \<Rightarrow> bytes" where
  "ctl_payload c = take (ws_ctl_len c) (ws_ctl_buf c)"

text \<open>The reply to a frame that makes \<^verbatim>\<open>poll_event\<close> emit an event.\<close>

definition replies :: "EmitKind \<Rightarrow> WsClient \<Rightarrow> WsClient \<Rightarrow> bool" where
  "replies kind c d \<longleftrightarrow>
     (case kind of
        EkPing \<Rightarrow> ws_state d = ws_state c \<and>
          (if cf_auto_pong (ws_config c) then adds_frame Pong (ctl_payload d) c d else calm c d)
      | EkClose \<Rightarrow> ws_state d = Closed \<and>
          (\<exists>parsed. parse_close_payload (ctl_payload d) = Ok parsed \<and>
             (if ws_state c = Open
              then adds_frame Close (u16_to_be (case parsed of Some (code, _) \<Rightarrow> code | None \<Rightarrow> as_u16 Normal)) c d
              else tx_wf d \<and> pending_tx d = pending_tx c))
      | EkHandshakeComplete \<Rightarrow> ws_state c = Connecting \<and> ws_state d = Open \<and> tx_wf d \<and> pending_tx d = pending_tx c
      | _ \<Rightarrow> calm c d)"

lemma same_start_replies: "same_start c c' \<Longrightarrow> replies k c' d = replies k c d"
  by (cases k) (simp_all add: same_start_def replies_def calm_def adds_frame_def)

lemmas same_start = same_start_calm same_start_shut same_start_replies

lemma reacts_start: "same_start c c' \<Longrightarrow> reacts c' res = reacts c res"
  using same_start [of c c'] by (auto simp: reacts_def split: result.split)

lemma ctl_payload_keeps: "keeps c d \<Longrightarrow> ctl_payload d = ctl_payload c"
  by (simp add: ctl_payload_def keeps_fields)

lemma on_received_close_replies:
  assumes "live c" "on_received_close env c = (d, r)"
  shows "(\<forall>u. r = Ok u \<longrightarrow> replies EkClose c d) \<and> (\<forall>e. r = Err e \<longrightarrow> shut c d)"
proof -
  have tx: "tx_wf c" using assms(1) by (simp add: live_def)
  let ?res = "parse_close_payload (ctl_payload c)"
  note def = assms(2) [unfolded on_received_close_def Let_def ctl_payload_def [symmetric]]
  show ?thesis
  proof (cases ?res)
    case (Err e)
    then obtain d1 r1 where q: "queue_close env c (as_u16 ProtocolError) ''bad close payload'' = (d1, r1)" by fastforce
    then show ?thesis
      using def Err queue_close_shut [OF assms(1) _ q] keeps_queue_close(4) [OF tx _ q] assms(1)
      by (cases r1) (auto simp: shut_def calm_def live_def)
  next
    case Panic
    then show ?thesis using def by simp
  next
    case (Ok parsed)
    let ?code = "case parsed of None \<Rightarrow> as_u16 Normal | Some (code, _) \<Rightarrow> code"
    show ?thesis
    proof (cases "ws_state c = Open")
      case True
      then obtain d1 r1 where q: "queue_close env c ?code '''' = (d1, r1)" by fastforce
      have "adds_frame Close (u16_to_be ?code) c d1" if "r1 = Ok ()"
        using queue_close_adds [OF tx True _ q] that by (simp add: str_def)
      moreover have "r1 = Ok () \<or> r1 = Panic" using keeps_queue_close(4) [OF tx _ q] by simp
      ultimately show ?thesis
        using def Ok True q ctl_payload_keeps [OF keeps_queue_close(1) [OF tx _ q]]
        by (auto simp: replies_def ctl_payload_def)
    next
      case False
      then show ?thesis using def Ok tx by (auto simp: replies_def ctl_payload_def)
    qed
  qed
qed

lemma on_control_end_replies:
  assumes "live c" "rx_wf c" "on_control_end env c op = (d, r)"
  shows "(\<forall>k. r = Ok (Some k) \<longrightarrow> replies k c d) \<and> r \<noteq> Ok None \<and> (\<forall>e. r = Err e \<longrightarrow> calm c d \<or> shut c d)"
proof (cases op)
  case Ping
  have tx: "tx_wf c" and len: "length (ctl_payload c) \<le> 125" "length (ctl_payload c) = ws_ctl_len c"
    using assms(1,2) by (auto simp: live_def ctl_payload_def rx_wf_def)
  then have w: "write_at (replicate 125 0) 0 (ctl_payload c) = Ok (ctl_payload c @ replicate (125 - ws_ctl_len c) 0)"
    by (simp add: write_at_def)
  obtain d1 r1 where wf: "write_frame env c True Pong (ctl_payload c) = (d1, r1)" by fastforce
  note wc = write_frame_cases [OF tx wf] and kw = keeps_write_frame [OF tx wf]
  show ?thesis
  proof (cases "cf_auto_pong (ws_config c)")
    case True
    then have "(d, r) = try_st (d1, r1) (\<lambda>c _. (c, Ok (Some EkPing)))"
      using assms(3) Ping w wf len by (simp add: on_control_end_def ctl_payload_def [symmetric])
    then show ?thesis
      using wc kw True ctl_payload_keeps [OF kw(1)]
      by (cases r1) (auto simp: replies_def adds_frame_def)
  qed (use assms(3) Ping tx in \<open>auto simp: on_control_end_def replies_def calm_def\<close>)
next
  case Close
  obtain d1 r1 where q: "on_received_close env c = (d1, r1)" by fastforce
  then show ?thesis
    using assms(3) Close on_received_close_replies [OF assms(1) q] by (cases r1) (auto simp: on_control_end_def)
qed (use assms in \<open>auto simp: on_control_end_def replies_def calm_def live_def\<close>)

subsection \<open>Frames and events\<close>

lemma on_frame_end_replies:
  assumes "live c" "rx_wf (c\<lparr>ws_cur_opcode := None\<rparr>)" "on_frame_end env c = (d, r)"
  shows "(\<forall>k. r = Ok (Some k) \<longrightarrow> replies k c d) \<and> (r = Ok None \<longrightarrow> calm c d) \<and> (\<forall>e. r = Err e \<longrightarrow> calm c d \<or> shut c d)"
proof (cases "\<exists>op. ws_cur_opcode c = Some op \<and> is_control op")
  case True
  then obtain op where op: "ws_cur_opcode c = Some op" "is_control op" by blast
  let ?c = "c\<lparr>ws_cur_opcode := None\<rparr>"
  have "on_control_end env ?c op = (d, r)" "live ?c" using assms(1,3) op by (simp_all add: on_frame_end_def live_def)
  moreover have "same_start c ?c" by (simp add: same_start_def)
  ultimately show ?thesis
    using on_control_end_replies [OF _ assms(2), of env op d r] same_start [of c ?c] by auto
next
  case False
  have tx: "tx_wf c" using assms(1) by (simp add: live_def)
  let ?c = "c\<lparr>ws_cur_opcode := None, ws_msg_opcode := None\<rparr>"
  let ?q = "try_st (queue_close env ?c (as_u16 InvalidPayload) ''invalid utf-8'') (\<lambda>c _. (c, Err WsUtf8Invalid :: (WsError, EmitKind option) result))"
  have "reacts ?c ?q" using assms(1) by (intro reacts_fail) (simp_all add: live_def)
  moreover have "same_start c ?c" by (simp add: same_start_def)
  ultimately have q: "reacts c ?q" using reacts_start by blast
  obtain e r2 where e: "?q = (e, r2)" by fastforce
  have r2: "r2 \<noteq> Ok x" for x using e by (auto elim!: try_st_cases)
  have "on_frame_end env c = ?q \<or> (\<exists>k. on_frame_end env c = (?c, Ok (Some k)) \<and> (k = EkText \<or> k = EkBinary)) \<or>
     (\<exists>c' r'. on_frame_end env c = (c', r') \<and> calm c c' \<and> (r' = Ok None \<or> (\<exists>e. r' = Err e)))"
    using False tx by (auto simp: on_frame_end_def Let_def calm_def split: option.split OpCode.split)
  then show ?thesis using assms(3) q e r2 tx by (cases r) (auto simp: replies_def calm_def)
qed

text \<open>One advance of the receive side.\<close>

definition step_ok :: "WsClient \<Rightarrow> WsClient \<times> (WsError, AdvanceResult) result \<Rightarrow> bool" where
  "step_ok c res \<longleftrightarrow>
     (case snd res of
        Ok (AdvEmit k) \<Rightarrow> replies k c (fst res)
      | Ok _ \<Rightarrow> calm c (fst res)
      | Err _ \<Rightarrow> calm c (fst res) \<or> shut c (fst res)
      | Panic \<Rightarrow> True)"

lemma step_ok_simps [simp]:
  "step_ok c (d, Ok (AdvEmit k)) = replies k c d" "step_ok c (d, Ok Progressed) = calm c d"
  "step_ok c (d, Ok AdvNeedMore) = calm c d" "step_ok c (d, Err e) = (calm c d \<or> shut c d)" "step_ok c (d, Panic)"
  by (simp_all add: step_ok_def)

lemma step_ok_start: "same_start c c' \<Longrightarrow> step_ok c' res = step_ok c res"
  using same_start [of c c'] by (auto simp: step_ok_def split: result.split AdvanceResult.split)

lemma step_ok_reacts: "reacts c res \<Longrightarrow> step_ok c (try_st res (\<lambda>c _. (c, Ok Progressed)))"
  by (cases res; cases "snd res") auto

lemma frame_end_start:
  assumes "parser_wf p" "feed_one p bs = (q, Ok (Event n FrameEnd))"
  shows "q = Idle \<and> p = Payload 0 \<and> n = 0"
  using assms feed_one_header
  by (cases rule: parser_wf_header_cases)
    (auto simp: feed_one_Payload split: if_split_asm option.split_asm elim!: header_verdict_cases)

lemma step_advance_frame:
  assumes "live c" "rx_wf c"
  shows "step_ok c (advance_frame env c)"
proof -
  let ?bs = "as_slice (ws_recv_buf c)"
  obtain p r where one: "feed_one (ws_parser c) ?bs = (p, r)" by fastforce
  let ?c = "c\<lparr>ws_parser := p\<rparr>"
  have st: "same_start c ?c" "\<And>n. same_start c (consume_recv ?c n)" "\<And>d n. same_start d (consume_recv d n)"
    by (simp_all add: same_start_def consume_recv_def)
  have lv: "live ?c" "\<And>n d. live d \<Longrightarrow> live (consume_recv d n)" using assms(1) by (auto simp: live_def consume_recv_def)
  show ?thesis
  proof (cases r)
    case (Err e)
    obtain d x where d: "advance_frame env c = (d, x)" by fastforce
    have "reacts ?c (advance_frame env c)" using one Err lv by (simp add: advance_frame_def reacts_fail)
    then have "reacts ?c (d, x)" by (simp add: d)
    moreover have "x \<noteq> Ok y" for y using d one Err by (auto simp: advance_frame_def elim!: try_st_cases)
    ultimately show ?thesis using d same_start [OF st(1)] by (cases x) auto
  next
    case (Ok out)
    show ?thesis
    proof (cases out)
      case (NeedMore n)
      then show ?thesis
        using one Ok assms(1) by (simp add: advance_frame_def run_action_def calm_def live_def consume_recv_def)
    next
      case (Event n e)
      show ?thesis
      proof (cases e)
        case (FrameStart h)
        have "step_ok (consume_recv ?c n) (run_action env (consume_recv ?c n) (ActFrameStart h))"
          using lv by (simp add: run_action_def reacts_on_frame_start step_ok_reacts)
        then show ?thesis using one Ok Event FrameStart by (simp add: advance_frame_def step_ok_start [OF st(2)])
      next
        case (PayloadChunk chunk)
        have "reacts ?c (take_chunk ?c chunk)" using lv by (simp add: reacts_take_chunk)
        then have "step_ok ?c (try_st (take_chunk ?c chunk) (\<lambda>c _. run_action env (consume_recv c n) ActPayloadChunk))"
          by (cases "take_chunk ?c chunk"; cases "snd (take_chunk ?c chunk)")
            (auto simp: run_action_def calm_def consume_recv_def)
        then show ?thesis using one Ok Event PayloadChunk by (simp add: advance_frame_def step_ok_start [OF st(1)])
      next
        case FrameEnd
        have "parser_wf (ws_parser c)" using assms(2) by (simp add: rx_wf_def)
        then have p: "p = Idle" "n = 0" using frame_end_start one Ok Event FrameEnd by blast+
        let ?d = "consume_recv ?c n"
        have rx: "rx_wf (?d\<lparr>ws_cur_opcode := None\<rparr>)"
          using assms(2) p cb_wf_consume [of "ws_recv_buf c" 0] by (simp add: rx_wf_def consume_recv_def)
        obtain e r2 where e: "on_frame_end env ?d = (e, r2)" by fastforce
        have "step_ok ?d (run_action env ?d ActFrameEnd)"
          using on_frame_end_replies [OF lv(2) [OF lv(1)] rx e] e
          by (cases r2) (auto simp: run_action_def split: option.split)
        then show ?thesis using one Ok Event FrameEnd by (simp add: advance_frame_def step_ok_start [OF st(2)])
      qed
    qed
  qed (use one in \<open>simp add: advance_frame_def\<close>)
qed

lemma step_advance:
  assumes "tx_wf c" "rx_wf c"
  shows "step_ok c (advance env c)"
proof (cases "live c")
  case True
  then show ?thesis using step_advance_frame [OF True assms(2)] by (auto simp: advance_def live_def)
next
  case False
  obtain d x where d: "advance env c = (d, x)" by fastforce
  have "step_ok c (d, x)"
    using False d assms(1)
    by (cases x)
      (auto simp: advance_def advance_handshake_def live_def calm_def replies_def consume_recv_def
        split: ConnState.split_asm option.split_asm elim!: try_st_cases)
  then show ?thesis by (simp add: d)
qed

subsection \<open>\<^verbatim>\<open>poll_event\<close>\<close>

text \<open>What a returned event says about the bytes queued for the server and the connection state.\<close>

definition event_reply :: "WsClient \<Rightarrow> WsClient \<Rightarrow> WsEvent \<Rightarrow> bool" where
  "event_reply c d e \<longleftrightarrow>
     (case e of
        HandshakeComplete \<Rightarrow> ws_state c = Connecting \<and> ws_state d = Open \<and> pending_tx d = pending_tx c
      | EvPing p \<Rightarrow> ws_state d = ws_state c \<and>
          (if cf_auto_pong (ws_config c) then adds_frame Pong p c d else pending_tx d = pending_tx c)
      | EvClose code reason \<Rightarrow> ws_state d = Closed \<and>
          (if ws_state c = Open then adds_frame Close (u16_to_be (if code = 1005 then 1000 else code)) c d
           else pending_tx d = pending_tx c)
      | _ \<Rightarrow> ws_state d = ws_state c \<and> pending_tx d = pending_tx c)"

definition poll_error :: "WsClient \<Rightarrow> WsClient \<Rightarrow> bool" where
  "poll_error c d \<longleftrightarrow>
     ws_state d = Closed \<and> pending_tx d = pending_tx c \<or>
     ws_state d = Closing \<and>
       (if ws_state c = Open
        then \<exists>code reason. length reason \<le> 123 \<and> adds_frame Close (u16_to_be code @ reason) c d
        else ws_state c = Closing \<and> pending_tx d = pending_tx c)"

definition poll_reply :: "WsClient \<Rightarrow> WsClient \<times> (WsError, WsEvent option) result \<Rightarrow> bool" where
  "poll_reply c res \<longleftrightarrow>
     tx_wf (fst res) \<and>
     (case snd res of
        Ok None \<Rightarrow> calm c (fst res)
      | Ok (Some e) \<Rightarrow> event_reply c (fst res) e
      | Err _ \<Rightarrow> poll_error c (fst res)
      | Panic \<Rightarrow> True)"

lemma poll_reply_quiet [simp]: "poll_reply c (d, Ok None) = calm c d" "poll_reply c (d, Panic) = tx_wf d"
  by (auto simp: poll_reply_def calm_def)

lemma poll_reply_start: "same_start c c' \<Longrightarrow> poll_reply c' res = poll_reply c res"
  using same_start_calm [of c c']
  by (auto simp: poll_reply_def same_start_def event_reply_def poll_error_def adds_frame_def
      split: result.split option.split WsEvent.split)

lemma fail_poll_error:
  assumes "calm c d \<or> shut c d"
  shows "poll_error c (fail_poll d)"
  using assms by (auto simp: poll_error_def fail_poll_def shut_def calm_def split: if_split_asm)

lemma replies_event:
  assumes "replies kind c d" "build_event (d\<lparr>ws_last_emitted := Some kind\<rparr>) kind = Ok e"
  shows "event_reply c d e"
proof (cases kind)
  case EkClose
  then obtain parsed where p: "parse_close_payload (ctl_payload d) = Ok parsed" "ws_state d = Closed"
    "if ws_state c = Open then adds_frame Close (u16_to_be (case parsed of Some (code, _) \<Rightarrow> code | None \<Rightarrow> as_u16 Normal)) c d
     else tx_wf d \<and> pending_tx d = pending_tx c"
    using assms(1) by (auto simp: replies_def)
  have "\<not> is_valid_received 1005" by (simp add: is_valid_received_def)
  then have "code \<noteq> 1005" if "parsed = Some (code, reason)" for code reason
    using p(1) that parse_close_payload_Some_iff by blast
  then show ?thesis
    using assms(2) EkClose p
    by (cases parsed) (auto simp: build_event_def ctl_payload_def event_reply_def split: if_split_asm)
qed (use assms in \<open>auto simp: replies_def event_reply_def build_event_def ctl_payload_def calm_def and_then_eq_Ok_iff
    split: if_split_asm\<close>)

lemma emit_reply:
  assumes "replies kind c d" "tx_wf d"
  shows "poll_reply c (emit d kind)"
proof -
  let ?b = "build_event (d\<lparr>ws_last_emitted := Some kind\<rparr>) kind"
  have ne: "?b \<noteq> Err x" for x
    by (cases kind) (auto simp: build_event_def and_then_iffs borrowed_payload_def split: option.split result.split)
  show ?thesis
  proof (cases ?b)
    case (Ok e)
    have "event_reply c (d\<lparr>ws_last_emitted := Some kind\<rparr>) e"
      using replies_event [OF assms(1) Ok] by (simp add: event_reply_def split: WsEvent.split_asm WsEvent.split)
    then show ?thesis using assms(2) Ok by (simp add: poll_reply_def emit_def Let_def)
  qed (use assms(2) ne in \<open>auto simp: poll_reply_def emit_def Let_def\<close>)
qed

lemma borrow_reacts:
  assumes "quiet c" "try_emit_borrowed_data env c = (d, r)"
  shows "reacts c (d, r)"
proof (cases "fast_blocked c")
  case True
  then show ?thesis using assms by (auto simp: try_emit_borrowed_data_def quiet_def calm_refl)
next
  case False
  then have lv: "live c" using assms(1) by (auto simp: fast_blocked_def live_def quiet_def)
  have kind: "reacts c (borrowed_kind env c op p)" for op p
    using lv by (auto simp: borrowed_kind_def reacts_fail calm_refl live_def)
  have frame: "reacts c (borrow_frame env c h n)" for h n
    using lv kind
    by (auto simp: borrow_frame_def Let_def reacts_fail live_def calm_def intro!: reacts_try)
  have "reacts c (try_emit_borrowed_data env c)"
    using False lv frame
    by (auto simp: try_emit_borrowed_data_def reacts_fail calm_refl live_def split: result.split option.split)
  then show ?thesis using assms(2) by simp
qed

lemma poll_loop_reply: "quiet c \<Longrightarrow> poll_reply c (poll_loop env c)"
proof (induction env c rule: poll_loop.induct)
  case (1 env c)
  obtain c1 b where b: "try_emit_borrowed_data env c = (c1, b)" by fastforce
  obtain c2 a where a: "advance env c1 = (c2, a)" by fastforce
  note re = borrow_reacts [OF 1(2) b] and bo = try_emit_cases [OF 1(2) b]
  have q: "tx_wf c" "rx_wf c" using 1(2) by (auto simp: quiet_def)
  show ?case
  proof (cases "ws_state c = Closed")
    case True
    then show ?thesis using q by (simp add: poll_loop.simps [of env c] poll_reply_def calm_refl)
  next
    case nc: False
    note sc = poll_loop.simps [of env c] if_not_P [OF nc]
    have fail: "poll_reply c (fail_poll e, Err x)" if "calm c e \<or> shut c e" "tx_wf e" for e x
      using fail_poll_error [OF that(1)] that(2) by (simp add: poll_reply_def fail_poll_def)
    show ?thesis
    proof (cases "b = Ok Fallback")
      case False
      with bo consider "b = Ok WaitForMore" "c1 = c" | e where "b = Err e" "quiet c1" | "b = Panic" "quiet c1"
        | kind bp where "b = Ok (BorrowedEmit kind)" "c1 = c\<lparr>ws_borrowed_payload := Some bp\<rparr>" "is_borrowed kind"
        unfolding borrow_outcome_def by blast
      then show ?thesis
      proof cases
        case 4
        have "replies kind c c1" using q(1) 4 by (cases kind) (simp_all add: replies_def calm_def)
        then show ?thesis using emit_reply [of kind c c1] q(1) 4 b by (simp add: sc)
      qed (use b re fail q in \<open>auto simp: sc poll_reply_def calm_refl quiet_def\<close>)
    next
      case fb: True
      then have c1: "c1 = c" using try_emit_Fallback b by blast
      have st: "step_ok c (c2, a)" using step_advance [OF q, of env] a c1 by simp
      have tx: "tx_wf c2" using safe_advance [OF 1(2), of env] a c1 by (simp add: quiet_def)
      show ?thesis
      proof (cases "a = Ok Progressed")
        case True
        have "quiet c2" using safe_advance [OF 1(2), of env] a c1 by simp
        then have "poll_reply c2 (poll_loop env c2)"
          using "1.IH" [OF nc b [symmetric] fb refl a [symmetric] True refl] by simp
        moreover have "same_start c c2"
          using st True advance_setup [OF a] c1 by (simp add: same_start_def same_setup_def calm_def)
        ultimately show ?thesis using poll_reply_start fb b a True by (simp add: sc)
      next
        case False
        then show ?thesis
          using fb b a st fail [of c2] tx emit_reply [of _ c c2]
          by (auto simp: sc split: result.split AdvanceResult.split)
      qed
    qed
  qed
qed

lemma advance_Connecting:
  assumes "ws_state c = Connecting" "advance env c = (d, Ok a)"
  shows "a = AdvEmit EkHandshakeComplete \<or> a = AdvNeedMore"
  using assms by (auto simp: advance_def advance_handshake_def elim!: try_st_cases split: option.split_asm)

lemma poll_loop_live:
  assumes "poll_loop env c = (d, Ok (Some e))" "e \<noteq> HandshakeComplete"
  shows "ws_state c = Open \<or> ws_state c = Closing"
proof (rule ccontr)
  assume "\<not> (ws_state c = Open \<or> ws_state c = Closing)"
  then have c: "ws_state c = Connecting"
    using assms(1) by (cases "ws_state c") (auto simp: poll_loop.simps [of env c])
  obtain c1 a where a: "advance env c = (c1, a)" by fastforce
  have "try_emit_borrowed_data env c = (c, Ok Fallback)" using c by (simp add: try_emit_borrowed_data_def fast_blocked_def)
  then show False
    using assms c a advance_Connecting [OF c, of env c1]
    by (cases a) (auto simp: poll_loop.simps [of env c] emit_def build_event_def)
qed

lemma clear_after_emit_start: "same_start c (cleared c)"
  by (auto simp: cleared_def clear_after_emit_def same_start_def Let_def consume_recv_def split: option.split EmitKind.split)

lemma poll_event_quiet:
  assumes "ws_wf c"
  shows "poll_event env c = poll_loop env (cleared c) \<and> quiet (cleared c)"
  using clear_after_emit_wf [OF assms] by (auto simp: poll_event_def cleared_def)

lemma cleared_setup: "same_setup c (cleared c)"
  by (auto simp: cleared_def clear_after_emit_def same_setup_def Let_def consume_recv_def split: option.split EmitKind.split)

lemma poll_event_wf:
  assumes "ws_wf c" and "poll_event env c = (d, r)"
  shows "ws_wf d" "same_setup c d" "rng_total env \<Longrightarrow> r \<noteq> Panic" "r = Ok (Some e) \<Longrightarrow> event_ok (ws_config c) e"
proof -
  have p: "poll_loop env (cleared c) = (d, r)" "quiet (cleared c)" using poll_event_quiet [OF assms(1)] assms(2) by auto
  show "same_setup c d" using same_setup_trans [OF cleared_setup poll_loop_setup [OF p(1)]] .
  then show "ws_wf d" "rng_total env \<Longrightarrow> r \<noteq> Panic" "r = Ok (Some e) \<Longrightarrow> event_ok (ws_config c) e"
    using poll_loop_wf [OF p(2,1)] by (auto simp: same_setup_def)
qed

lemma poll_event_reply:
  assumes "ws_wf c"
  shows "poll_reply c (poll_event env c) \<and>
    (\<forall>d e. poll_event env c = (d, Ok (Some e)) \<and> e \<noteq> HandshakeComplete \<longrightarrow> ws_state c = Open \<or> ws_state c = Closing)"
proof -
  have "ws_state (cleared c) = ws_state c" using clear_after_emit_start [of c] by (simp add: same_start_def)
  then show ?thesis
    using poll_event_quiet [OF assms, of env] poll_loop_reply [of "cleared c" env] poll_loop_live [of env "cleared c"]
      poll_reply_start [OF clear_after_emit_start, of c]
    by metis
qed

lemma ws_wf_feed_recv:
  assumes "ws_wf c"
  shows "ws_wf (feed_recv c bs)"
proof -
  have wf: "tx_wf c" "rx_wf c" "emit_wf c" "cb_wf (ws_recv_buf c)" using assms by (auto simp: ws_wf_def rx_wf_def)
  have b: "borrow_wf c t \<Longrightarrow> borrow_wf (feed_recv c bs) t" for t
    using wf(4) by (auto simp: borrow_wf_def feed_recv_def text_ok_def as_slice_extend split: option.split_asm)
  have "emit_wf (feed_recv c bs)"
    using wf(3) b [of True] b [of False] unfolding emit_wf_def
    by (auto simp: feed_recv_def split: option.split_asm EmitKind.split_asm option.split EmitKind.split)
  moreover have "rx_wf (feed_recv c bs)"
    using wf(2) by (auto simp: rx_wf_def feed_recv_def intro: wf_intros)
  moreover have "tx_wf (feed_recv c bs)" using wf(1) by (simp add: feed_recv_def)
  ultimately show ?thesis by (simp add: ws_wf_def)
qed

subsection \<open>A sample run\<close>

text \<open>An open connection that has received the text frame "hi".\<close>

lemma sample_client_wf: "ws_wf sample_client"
  by (simp add: ws_wf_def sample_client_facts rx_wf_def emit_wf_def)
    (simp add: sample_client_def cb_wf_def with_capacity_def USIZE_MAX_def ws_config_new_def DEFAULT_MAX_MESSAGE_SIZE_def)

definition sample_text :: WsClient where
  "sample_text = feed_recv sample_client [0x81, 2, 0x68, 0x69]"

definition sample_borrowed :: WsClient where
  "sample_borrowed = sample_text\<lparr>ws_borrowed_payload := Some \<lparr>bp_payload_start = 2, bp_payload_end = 4, bp_frame_len = 4\<rparr>\<rparr>"

lemma sample_text_wf: "ws_wf sample_text"
  using ws_wf_feed_recv [OF sample_client_wf] by (simp add: sample_text_def)

lemma sample_text_slice: "as_slice (ws_recv_buf sample_text) = [0x81, 2, 0x68, 0x69]"
  by (simp add: sample_text_def sample_client_def feed_recv_def extend_from_slice_def with_capacity_def as_slice_def Let_def)

lemma sample_text_fields:
   "ws_state sample_text = Open" "ws_last_emitted sample_text = None" "ws_parser sample_text = Idle"
   "ws_msg_opcode sample_text = None" "ws_config sample_text = ws_config_new (str ''h'') (str ''/'')"
   "pending_tx sample_text = []"
  by (simp_all add: sample_text_def feed_recv_def sample_client_def pending_tx_def)

lemma sample_text_polled:
  "poll_event sample_env sample_text = (sample_borrowed\<lparr>ws_last_emitted := Some EkBorrowedText\<rparr>, Ok (Some (EvText [0x68, 0x69])))"
proof -
  have "parse_header (as_slice (ws_recv_buf sample_text)) = Ok (Some (\<lparr>h_fin = True, h_opcode = Text, h_mask = None, h_payload_len = 2\<rparr>, 2))"
    by (simp add: sample_text_slice parse_header_def Let_def opcode_try_from_def parse_len_field_def)
  moreover have "\<not> fast_blocked sample_text"
     using sample_text_slice
    by (auto simp: fast_blocked_def sample_text_fields is_idle_def cb_is_empty_def as_slice_def)
  moreover have "cb_len (ws_recv_buf sample_text) = 4" using length_as_slice [of "ws_recv_buf sample_text"] sample_text_slice by simp
  ultimately have "poll_loop sample_env sample_text = (sample_borrowed\<lparr>ws_last_emitted := Some EkBorrowedText\<rparr>, Ok (Some (EvText [0x68, 0x69])))"
    by (simp add: sample_text_fields Let_def poll_loop.simps [of sample_env sample_text] try_emit_borrowed_data_def
      borrow_frame_def sample_text_slice borrowed_kind_def utf8_valid_ascii ws_config_new_def DEFAULT_MAX_FRAME_PAYLOAD_def DEFAULT_MAX_MESSAGE_SIZE_def
      USIZE_MAX_def sample_borrowed_def emit_def build_event_def borrowed_payload_def)
  moreover have "clear_after_emit sample_text = (sample_text, Ok ())"
    using cleared_None [OF sample_text_fields(2)] sample_text_fields(2) by (simp add: cleared_def clear_after_emit_def)
  ultimately show ?thesis by (simp add: poll_event_def)
qed

subsection \<open>Properties\<close>

text \<open>C16. What the client answers while polling, for every outcome of \<^verbatim>\<open>poll_event\<close>: a ping is answered by
  one pong with the same payload (or by nothing when automatic pongs are off); a first close is
  echoed with its code (1000 when it carried none) and ends in \<^verbatim>\<open>Closed\<close>, a close that answers ours
  is not echoed; the completed handshake opens the connection; every other event, and a call that
  finds no event, queues nothing and keeps the state; an error leaves the connection \<^verbatim>\<open>Closed\<close> with
  nothing queued or \<^verbatim>\<open>Closing\<close> with exactly one Close frame queued if it was open.  No message, ping,
  pong or close is reported before the handshake or after the close.\<close>

theorem poll_event_answers:
  assumes "ws_wf c"
  shows "poll_reply c (poll_event env c) \<and>
    (\<forall>d e. poll_event env c = (d, Ok (Some e)) \<and> e \<noteq> HandshakeComplete \<longrightarrow> ws_state c = Open \<or> ws_state c = Closing)"
  using poll_event_reply [OF assms] .

theorem poll_event_answers_witness:
  "pending_tx (fst (poll_event sample_env sample_text)) = [] \<and> ws_state (fst (poll_event sample_env sample_text)) = Open"
  using poll_event_answers [OF sample_text_wf, of sample_env]
  by (simp add: sample_text_polled poll_reply_def event_reply_def sample_text_fields)

end
