(* ===== verification/Ws_Life.thy ===== *)
theory Ws_Life
  imports Ws_Drain Ws_Reply
begin

text \<open>
  The client over its whole life: the public operations as a step relation, the invariant in every
  reachable state, and what the bytes handed to the transport amount to.
\<close>

subsection \<open>The drains keep the invariant\<close>

lemma fast_header_not_Panic: "parse_server_data_header_fast bs \<noteq> Panic"
proof -
  have "fast_len bs op (b1 AND 0x7F) \<noteq> Panic" for op and b1 :: u8
    using len7_cases [of b1] by (auto simp: fast_len_def Let_def)
  then show ?thesis by (simp add: parse_server_data_header_fast_def Let_def)
qed

lemma fast_header_opcode:
  "parse_server_data_header_fast bs = Ok (FhParsed h) \<Longrightarrow> fh_opcode h = Text \<or> fh_opcode h = Binary"
  by (auto simp: parse_server_data_header_fast_def fast_len_def Let_def split: if_split_asm)

lemma parse_complete_not_Panic: "parse_complete_server_data_frame bs mfp mms utf8 \<noteq> Panic"
  using fast_header_not_Panic [of bs] fast_header_opcode [of bs]
  by (cases "parse_server_data_header_fast bs")
    (auto simp: parse_complete_server_data_frame_def Let_def split: FastDataHeaderResult.split)

lemma scan_not_Panic: "scan fast cfg bs k n s = (s', k', n', e) \<Longrightarrow> e \<noteq> ScanPanic"
proof (induction fast cfg bs k n s rule: scan.induct)
  case (1 fast cfg bs k n s)
  let ?p = "parse_complete_server_data_frame (drop k bs) (cf_max_frame_payload cfg) (cf_max_message_size cfg)
      (cf_assume_text_utf8 cfg)"
  show ?case
  proof (cases "\<exists>ev m. ?p = Ok (FfParsed ev m) \<and> drop k bs \<noteq> []")
    case True
    then obtain ev m where p: "?p = Ok (FfParsed ev m)" "drop k bs \<noteq> []" by blast
    show ?thesis
      using "1.IH" [OF refl p(2,1) refl] "1.prems" p by (simp add: scan.simps [of fast cfg bs k])
  next
    case False
    then show ?thesis
      using "1.prems" parse_complete_not_Panic [of "drop k bs"]
      by (auto simp: scan.simps [of fast cfg bs k] Let_def split: if_split_asm result.split_asm FastDataFrameResult.split_asm)
  qed
qed

text \<open>The code, the reason and the error of a frame the fast path rejects.\<close>

fun fast_close :: "FastDataFrameError \<Rightarrow> u16 \<times> string \<times> WsError" where
  "fast_close (FdFrame e) = (as_u16 ProtocolError, ''frame parse error'', WsFrame e)"
| "fast_close FdFrameTooLarge = (as_u16 MessageTooBig, ''frame too large'', WsMessageTooLarge)"
| "fast_close FdMessageTooLarge = (as_u16 MessageTooBig, ''message exceeds max_message_size'', WsMessageTooLarge)"
| "fast_close FdUtf8Invalid = (as_u16 InvalidPayload, ''invalid utf-8'', WsUtf8Invalid)"

lemma fail_fast_eq:
  "fail_fast env c err =
     try_st (queue_close env c (fst (fast_close err)) (fst (snd (fast_close err)))) (\<lambda>c _. (c, Err (snd (snd (fast_close err)))))"
proof -
  have "try_st (try_st res (\<lambda>c _. (c, Ok e))) (\<lambda>c e. (c, Err e)) = try_st res (\<lambda>c _. (c, Err e))" for res and e :: WsError
    by (cases res; cases "snd res") auto
  then show ?thesis by (cases err) (simp_all add: fail_fast_def queue_fast_data_frame_error_def)
qed

lemma fast_close_reason: "length (fst (snd (fast_close err))) \<le> 123"
  by (cases err) simp_all

lemma fail_fast_safe:
  assumes "quiet c" "live c" "fail_fast env c err = (d, r)"
  shows "safe_step env (d, r) \<and> reacts c (d, r)"
  using safe_fail [OF assms(1) fast_close_reason] reacts_fail [OF assms(2) fast_close_reason] assms(3)
  unfolding fail_fast_eq by metis

lemma quiet_consume: "quiet c \<Longrightarrow> n \<le> length (as_slice (ws_recv_buf c)) \<Longrightarrow> quiet (consume_recv c n)"
  using quiet_recv [OF _ cb_wf_consume [of "ws_recv_buf c" n]] by (simp add: consume_recv_def quiet_def rx_wf_def)

lemma reacts_consume [simp]: "reacts (consume_recv c n) res = reacts c res"
  using reacts_start [of c "consume_recv c n"] by (simp add: same_start_def consume_recv_def)

lemma try_drain_safe:
  assumes "quiet c" "try_drain env sk c s = (s', d, r)"
  shows "safe_step env (d, r) \<and> reacts c (d, r)"
proof (cases "fast_blocked c")
  case True
  then show ?thesis using assms by (auto simp: try_drain_def quiet_def calm_refl)
next
  case False
  obtain s1 k n e where sc: "scan (sk_fast sk) (ws_config c) (as_slice (ws_recv_buf c)) 0 0 (sk_begin sk s) = (s1, k, n, e)"
    by (metis prod_cases4)
  have h: "\<not> cb_head (ws_recv_buf c) > length (cb_data (ws_recv_buf c))"
    using assms(1) by (simp add: quiet_def rx_wf_def cb_wf_def)
  have q: "quiet (consume_recv c k)" using quiet_consume [OF assms(1)] scan_bounds [OF sc] by simp
  have lv: "live (consume_recv c k)" using False assms(1) by (auto simp: live_def quiet_def fast_blocked_def consume_recv_def)
  have calm: "calm c (consume_recv c k)" using q by (simp add: calm_def quiet_def consume_recv_def)
  show ?thesis
    using assms(2) False h sc q calm scan_not_Panic [OF sc]
    by (cases e) (auto simp: try_drain_def dest!: fail_fast_safe [OF q lv])
qed

lemma try_drain_ingress_safe:
  assumes "quiet c" "live c" "try_drain_ingress env sk c bs s = (s', d, r)"
  shows "safe_step env (d, r) \<and> reacts c (d, r)"
proof -
  obtain s1 k n e where sc: "scan (sk_fast sk) (ws_config c) bs 0 0 (sk_begin sk s) = (s1, k, n, e)"
    by (metis prod_cases4)
  have "calm c c" using assms(1) by (simp add: calm_refl quiet_def)
  then show ?thesis
    using assms(1,3) sc scan_not_Panic [OF sc]
    by (cases e) (auto simp: try_drain_ingress_def dest!: fail_fast_safe [OF assms(1,2)])
qed

subsection \<open>The transmit log\<close>

text \<open>What the client puts on the wire after the handshake is a list of frames: opcode, masking key and
  payload.  \<open>phase_ok\<close> says which logs fit which state: no frame while connecting, no Close while open,
  and once closing, exactly one Close, no data after it (only the pongs that answer late pings).\<close>

type_synonym TxFrame = "OpCode \<times> key4 \<times> bytes"

definition frames_wire :: "TxFrame list \<Rightarrow> bytes" where
  "frames_wire fs = concat (map (\<lambda>(op, key, p). masked_frame True op key p) fs)"

fun frame_ok :: "TxFrame \<Rightarrow> bool" where
  "frame_ok (op, key, p) \<longleftrightarrow> op \<noteq> Continuation \<and> length p < 2 ^ 63 \<and> (is_control op \<longrightarrow> length p \<le> 125) \<and> (op = Text \<longrightarrow> utf8_valid p)"

definition is_close :: "TxFrame \<Rightarrow> bool" where
  "is_close f \<longleftrightarrow> fst f = Close"

definition closing_log :: "TxFrame list \<Rightarrow> bool" where
  "closing_log fs \<longleftrightarrow> (\<exists>before f after. fs = before @ f # after \<and> is_close f \<and> list_all (\<lambda>g. \<not> is_close g) before \<and> list_all (\<lambda>g. fst g = Pong) after)"

definition phase_ok :: "ConnState \<Rightarrow> TxFrame list \<Rightarrow> bool" where
  "phase_ok st fs \<longleftrightarrow>
     (case st of
        Connecting \<Rightarrow> fs = []
      | Open \<Rightarrow> list_all (\<lambda>f. \<not> is_close f) fs
      | Closing \<Rightarrow> closing_log fs
      | Closed \<Rightarrow> list_all (\<lambda>f. \<not> is_close f) fs \<or> closing_log fs)"

fun rank :: "ConnState \<Rightarrow> nat" where
  "rank Connecting = 0"
| "rank Open = 1"
| "rank Closing = 2"
| "rank Closed = 3"

text \<open>\<open>tx_grow c d fs\<close>: the queue has grown by the frames \<open>fs\<close>.  What a client adds of its own accord are
  replies, pongs and Closes; every other frame is asked for by a send.\<close>

definition tx_grow :: "WsClient \<Rightarrow> WsClient \<Rightarrow> TxFrame list \<Rightarrow> bool" where
  "tx_grow c d fs \<longleftrightarrow>
     rank (ws_state c) \<le> rank (ws_state d) \<and> pending_tx d = pending_tx c @ frames_wire fs \<and> list_all frame_ok fs \<and>
     (\<forall>sent. phase_ok (ws_state c) sent \<longrightarrow> phase_ok (ws_state d) (sent @ fs))"

definition is_reply :: "TxFrame \<Rightarrow> bool" where
  "is_reply f \<longleftrightarrow> fst f = Pong \<or> fst f = Close"

definition tx_step :: "WsClient \<Rightarrow> WsClient \<Rightarrow> bool" where
  "tx_step c d \<longleftrightarrow> (\<exists>fs. tx_grow c d fs \<and> list_all is_reply fs)"

lemma frames_wire_simps [simp]:
  "frames_wire [] = []" "frames_wire (xs @ ys) = frames_wire xs @ frames_wire ys"
  "frames_wire [(op, key, p)] = masked_frame True op key p"
  by (simp_all add: frames_wire_def)

lemma tx_grow_trans: "tx_grow c d fs \<Longrightarrow> tx_grow d e gs \<Longrightarrow> tx_grow c e (fs @ gs)"
  unfolding tx_grow_def by auto

lemma tx_step_trans: "tx_step c d \<Longrightarrow> tx_step d e \<Longrightarrow> tx_step c e"
  unfolding tx_step_def by (metis list_all_append tx_grow_trans)

lemma tx_step_rank: "tx_step c d \<Longrightarrow> rank (ws_state c) \<le> rank (ws_state d)"
  by (auto simp: tx_step_def tx_grow_def)

lemma phase_Closed: "phase_ok st sent \<Longrightarrow> phase_ok Closed sent"
  by (auto simp: phase_ok_def split: ConnState.split_asm)

lemma phase_Connecting: "phase_ok Connecting sent \<Longrightarrow> phase_ok Open sent"
  by (simp add: phase_ok_def)

lemma tx_grow_quiet:
  assumes "pending_tx d = pending_tx c"
    and "ws_state d = ws_state c \<or> ws_state d = Closed \<or> ws_state c = Connecting \<and> ws_state d = Open"
  shows "tx_grow c d []"
proof -
  have "rank (ws_state c) \<le> 3" by (cases "ws_state c") simp_all
  then show ?thesis using assms phase_Closed phase_Connecting unfolding tx_grow_def by auto
qed

lemma tx_step_quiet:
  "pending_tx d = pending_tx c \<Longrightarrow>
    ws_state d = ws_state c \<or> ws_state d = Closed \<or> ws_state c = Connecting \<and> ws_state d = Open \<Longrightarrow> tx_step c d"
  unfolding tx_step_def by (intro exI [of _ "[]"]) (simp add: tx_grow_quiet)

lemma tx_grow_frame:
  assumes "adds_frame op p c d" "\<And>key. frame_ok (op, key, p)" "rank (ws_state c) \<le> rank (ws_state d)"
    and "\<And>key sent. phase_ok (ws_state c) sent \<Longrightarrow> phase_ok (ws_state d) (sent @ [(op, key, p)])"
  shows "\<exists>key. tx_grow c d [(op, key, p)]"
proof -
  obtain key where "pending_tx d = pending_tx c @ masked_frame True op key p" using assms(1) unfolding adds_frame_def by blast
  then show ?thesis using assms(2-4) unfolding tx_grow_def by (intro exI [of _ key]) simp
qed

lemma closing_log_close: "list_all (\<lambda>f. \<not> is_close f) fs \<Longrightarrow> is_close g \<Longrightarrow> closing_log (fs @ [g])"
  unfolding closing_log_def by (intro exI [of _ fs] exI [of _ g] exI [of _ "[]"]) simp

lemma closing_log_pong:
  assumes "closing_log fs" "fst g = Pong"
  shows "closing_log (fs @ [g])"
proof -
  obtain before f after where "fs = before @ f # after" "is_close f" "list_all (\<lambda>g. \<not> is_close g) before"
    "list_all (\<lambda>g. fst g = Pong) after" using assms(1) unfolding closing_log_def by blast
  then show ?thesis
    using assms(2) unfolding closing_log_def by (intro exI [of _ before] exI [of _ f] exI [of _ "after @ [g]"]) auto
qed

lemma calm_step: "calm c d \<Longrightarrow> tx_step c d"
  by (simp add: calm_def tx_step_quiet)

lemma close_grow:
  assumes "ws_state c = Open" "ws_state d = Closing \<or> ws_state d = Closed" "adds_frame Close p c d" "length p \<le> 125"
  shows "\<exists>key. tx_grow c d [(Close, key, p)]"
proof (rule tx_grow_frame [OF assms(3)])
  fix key sent
  show "frame_ok (Close, key, p)" using assms(4) by simp
  show "phase_ok (ws_state c) sent \<Longrightarrow> phase_ok (ws_state d) (sent @ [(Close, key, p)])"
    using assms(1,2) closing_log_close [of sent "(Close, key, p)"] by (auto simp: phase_ok_def is_close_def)
qed (use assms(1,2) in auto)

lemma plain_grow:
  assumes "ws_state c = Open \<or> ws_state c = Closing \<and> op = Pong" "ws_state d = ws_state c" "adds_frame op p c d"
    and "op \<noteq> Close" "\<And>key. frame_ok (op, key, p)"
  shows "\<exists>key. tx_grow c d [(op, key, p)]"
proof (rule tx_grow_frame [OF assms(3)])
  fix key sent
  show "frame_ok (op, key, p)" using assms(5) by simp
  show "phase_ok (ws_state c) sent \<Longrightarrow> phase_ok (ws_state d) (sent @ [(op, key, p)])"
    using assms(1,2,4) closing_log_pong [of sent "(op, key, p)"] by (auto simp: phase_ok_def is_close_def)
qed (use assms(2) in simp)

lemma reply_step: "\<exists>key. tx_grow c d [(op, key, p)] \<Longrightarrow> op = Pong \<or> op = Close \<Longrightarrow> tx_step c d"
  unfolding tx_step_def by (auto simp: is_reply_def)

lemma close_step:
  "ws_state c = Open \<Longrightarrow> ws_state d = Closing \<or> ws_state d = Closed \<Longrightarrow> adds_frame Close p c d \<Longrightarrow> length p \<le> 125 \<Longrightarrow> tx_step c d"
  using reply_step [OF close_grow] by blast

lemma pong_step:
  "ws_state c = Open \<or> ws_state c = Closing \<Longrightarrow> ws_state d = ws_state c \<Longrightarrow> adds_frame Pong p c d \<Longrightarrow> length p \<le> 125 \<Longrightarrow> tx_step c d"
  using reply_step [OF plain_grow [of c Pong d p]] by auto

lemma shut_step: "shut c d \<Longrightarrow> tx_step c d"
  using close_step [of c d] calm_step [of c d] by (auto simp: shut_def split: if_split_asm)

lemma reacts_step: "reacts c (d, r) \<Longrightarrow> r \<noteq> Panic \<Longrightarrow> tx_step c d"
  using calm_step shut_step by (cases r) auto

lemma poll_error_step: "poll_error c d \<Longrightarrow> tx_step c d"
  using close_step [of c d] tx_step_quiet [of d c] by (auto simp: poll_error_def split: if_split_asm)

lemma event_reply_step:
  assumes "event_reply c d e" "event_ok cfg e" "e \<noteq> HandshakeComplete \<Longrightarrow> ws_state c = Open \<or> ws_state c = Closing"
  shows "tx_step c d"
proof (cases e)
  case (EvPing p)
  then show ?thesis
    using assms pong_step [of c d p] tx_step_quiet [of d c] by (auto simp: event_reply_def event_ok_def split: if_split_asm)
next
  case (EvClose code reason)
  then show ?thesis
    using assms(1) close_step [of c d "u16_to_be (if code = 1005 then 1000 else code)"] tx_step_quiet [of d c]
    by (auto simp: event_reply_def split: if_split_asm)
qed (use assms tx_step_quiet [of d c] in \<open>auto simp: event_reply_def\<close>)

subsection \<open>Every public operation\<close>

text \<open>The outcome of an operation: the invariant is kept, nothing panics unless the random generator
  fails, the configuration stays, and the transmit log grows by frames that fit the state.\<close>

definition op_ok :: "Env \<Rightarrow> WsClient \<Rightarrow> WsClient \<Rightarrow> ('e, 'a) result \<Rightarrow> bool" where
  "op_ok env c d r \<longleftrightarrow>
     ws_wf d \<and> same_setup c d \<and> (rng_total env \<longrightarrow> r \<noteq> Panic) \<and> (r \<noteq> Panic \<longrightarrow> tx_step c d)"

lemma op_ok_trans: "op_ok env c d r \<Longrightarrow> r \<noteq> Panic \<Longrightarrow> op_ok env d e r' \<Longrightarrow> op_ok env c e r'"
  using tx_step_trans same_setup_trans by (auto simp: op_ok_def)

lemma op_ok_result: "op_ok env c d r \<Longrightarrow> r \<noteq> Panic \<Longrightarrow> r' \<noteq> Panic \<Longrightarrow> op_ok env c d r'"
  by (simp add: op_ok_def)

lemma op_ok_Panic [simp]: "op_ok env c d Panic \<longleftrightarrow> ws_wf d \<and> same_setup c d \<and> \<not> rng_total env"
  by (simp add: op_ok_def)

lemma op_ok_poll:
  assumes "ws_wf c" "poll_event env c = (d, r)"
  shows "op_ok env c d r"
proof -
  note w = poll_event_wf [OF assms] and p = poll_event_reply [OF assms(1), of env, unfolded assms(2)]
  have "tx_step c d" if "r \<noteq> Panic"
  proof (cases r)
    case (Ok o1)
    then show ?thesis
      using w p calm_step [of c d] event_reply_step [of c d _ "ws_config c"]
      by (cases o1) (auto simp: poll_reply_def)
  qed (use p that poll_error_step in \<open>auto simp: poll_reply_def\<close>)
  then show ?thesis using w by (simp add: op_ok_def)
qed

lemma op_ok_cleared:
  assumes "ws_wf c"
  shows "clear_after_emit c = (cleared c, Ok ())" "quiet (cleared c)" "op_ok env c (cleared c) (Ok x)"
proof -
  show c: "clear_after_emit c = (cleared c, Ok ())" "quiet (cleared c)"
    using clear_after_emit_wf [OF assms] by (auto simp: cleared_def)
  show "op_ok env c (cleared c) (Ok x)"
    using clear_after_emit_start [of c] cleared_setup [of c] quiet_ws_wf [OF c(2)] tx_step_quiet [of "cleared c" c]
    by (simp add: op_ok_def same_start_def)
qed

lemma fail_fast_setup: "fail_fast env c err = (d, r) \<Longrightarrow> same_setup c d"
  unfolding fail_fast_eq
  by (auto elim!: try_st_cases dest!: same_input_queue_close simp: same_input_def same_setup_def)

lemma same_setup_recv [simp]:
  "same_setup (consume_recv c k) d = same_setup c d" "same_setup c (consume_recv d k) = same_setup c d"
  "same_setup (feed_recv c bs) d = same_setup c d" "same_setup c (feed_recv d bs) = same_setup c d"
  by (simp_all add: same_setup_def consume_recv_def feed_recv_def)

lemma try_drain_setup: "try_drain env sk c s = (s', d, r) \<Longrightarrow> same_setup c d"
  by (auto simp: try_drain_def split: if_split_asm prod.split_asm ScanEnd.split_asm dest!: fail_fast_setup)

lemma op_ok_try_drain:
  assumes "quiet c" "try_drain env sk c s = (s', d, r)"
  shows "op_ok env c d r" "quiet d"
  using try_drain_safe [OF assms] try_drain_setup [OF assms(2)] reacts_step [of c d r] quiet_ws_wf
  by (auto simp: op_ok_def)

lemma op_ok_drain:
  "ws_wf c \<Longrightarrow> drain env sk c n s = (s', d, r) \<Longrightarrow> op_ok env c d r"
proof (induction "rx_measure (cleared c)" arbitrary: c n s rule: less_induct)
  case less
  note sc = drain.simps [of env sk c n s]
  note cl = op_ok_cleared [OF less.prems(1)]
  obtain s1 c2 r1 where td: "try_drain env sk (cleared c) s = (s1, c2, r1)" by (rule prod_cases3)
  note t = op_ok_try_drain [OF cl(2) td]
  have c2: "op_ok env c c2 r1" using op_ok_trans [OF cl(3) [of env "()"] _ t(1)] by simp
  show ?case
  proof (cases r1)
    case r1: (Ok v1)
    obtain m dr where v1: "v1 = (m, dr)" by fastforce
    note dec = drain_decreases [OF cl(1) td [unfolded r1 v1]]
    note st = op_ok_trans [OF c2 [unfolded r1], simplified] and wf = quiet_ws_wf [OF t(2)]
    show ?thesis
    proof (cases dr)
      case Drained
      then have "drain env sk c2 (n + m) s1 = (s', d, r)" using less.prems(2) cl(1) td r1 v1 unfolding sc by simp
      from st [OF less.hyps [OF dec(1) [OF Drained] wf this]] show ?thesis .
    next
      case DrWaitForMore
      then show ?thesis using less.prems(2) cl(1) td r1 v1 op_ok_result [OF c2] unfolding sc by auto
    next
      case DrFallback
      obtain c3 r3 where po: "poll_event env c2 = (c3, r3)" by fastforce
      note p = st [OF op_ok_poll [OF wf po]]
      show ?thesis
      proof (cases "\<exists>ev. r3 = Ok (Some ev)")
        case True
        then obtain ev where ev: "poll_event env c2 = (c3, Ok (Some ev))" using po by auto
        have "drain env sk c3 (n + m + 1) (slow_event sk ev s1) = (s', d, r)"
          using less.prems(2) cl(1) td r1 v1 DrFallback ev unfolding sc by simp
        moreover have "ws_wf c3" using p by (simp add: op_ok_def)
        ultimately have "op_ok env c3 d r" using less.hyps [OF dec(2) [OF ev]] by blast
        then show ?thesis using op_ok_trans [OF p] True by blast
      next
        case False
        then show ?thesis
          using less.prems(2) cl(1) td r1 v1 po DrFallback p op_ok_result [OF p] unfolding sc
          by (cases r3) (auto split: option.split_asm)
      qed
    qed
  qed (use less.prems(2) cl(1) td c2 op_ok_result [OF c2] in \<open>auto simp: sc\<close>)
qed

lemma op_ok_feed: "ws_wf c \<Longrightarrow> op_ok env c (feed_recv c bs) (Ok x)"
  using ws_wf_feed_recv [of c bs] tx_step_quiet [of "feed_recv c bs" c] by (simp add: op_ok_def) (simp add: feed_recv_def)

lemma op_ok_drain_from_ingress:
  assumes "ws_wf c" "drain_from_ingress env sk c bs s = (s', d, r)"
  shows "op_ok env c d r"
proof -
  note cl = op_ok_cleared [OF assms(1)]
  note def = assms(2) [unfolded drain_from_ingress_def cl(1), simplified]
  have wf: "ws_wf (cleared c)" using quiet_ws_wf [OF cl(2)] .
  have rest: "op_ok env c e x" if "op_ok env c c1 (Ok ())" "drain env sk (feed_recv c1 b) k t = (t', e, x)" for c1 b k t t' e x
  proof -
    have w: "ws_wf c1" using that(1) by (simp add: op_ok_def)
    have "op_ok env c (feed_recv c1 b) (Ok ())" using op_ok_trans [OF that(1) _ op_ok_feed [OF w]] by simp
    from op_ok_trans [OF this _ op_ok_drain [OF ws_wf_feed_recv [OF w] that(2)]] show ?thesis by simp
  qed
  show ?thesis
  proof (cases "bs = []")
    case True
    then show ?thesis using def op_ok_trans [OF cl(3) [of env "()"] _ op_ok_drain [OF wf]] by simp
  next
    case ne: False
    show ?thesis
    proof (cases "can_drain_ingress_directly (cleared c)")
      case False
      then show ?thesis using def ne rest [OF cl(3)] by simp
    next
      case True
      obtain s1 c2 r1 where td: "try_drain_ingress env sk (cleared c) bs s = (s1, c2, r1)" by (rule prod_cases3)
      have lv: "live (cleared c)" using True cl(2) by (simp add: live_def quiet_def can_drain_ingress_directly_def)
      have "same_setup (cleared c) c2"
        using td by (auto simp: try_drain_ingress_def split: prod.split_asm ScanEnd.split_asm dest!: fail_fast_setup)
      then have "op_ok env (cleared c) c2 r1"
        using try_drain_ingress_safe [OF cl(2) lv td] reacts_step [of "cleared c" c2 r1] quiet_ws_wf by (auto simp: op_ok_def)
      from op_ok_trans [OF cl(3) [of env "()"] _ this] have c2: "op_ok env c c2 r1" by simp
      show ?thesis
      proof (cases r1)
        case r1: (Ok v)
        obtain ev k dd where v: "v = (ev, k, dd)" by (rule prod_cases3)
        have ok: "op_ok env c c2 (Ok ())" "ws_wf c2" using c2 r1 by (auto simp: op_ok_def)
        obtain t e x where dr: "drain env sk (feed_recv c2 (drop k bs)) 0 s1 = (t, e, x)" by (rule prod_cases3)
        have x: "op_ok env c e (and_then x f)" if "\<And>y. f y \<noteq> Panic" for f :: "nat \<Rightarrow> (WsError, nat) result"
          using rest [OF ok(1) dr] that by (cases x) (auto simp: op_ok_def)
        have fd: "op_ok env c (feed_recv c2 b) (Ok y)" for b and y :: nat
          using op_ok_trans [OF ok(1) _ op_ok_feed [OF ok(2)]] by simp
        show ?thesis
          using def ne True td r1 v dr x [of "\<lambda>y. Ok (ev + y)"] fd op_ok_result [OF ok(1)]
          by (cases dd) auto
      qed (use def ne True td c2 op_ok_result [OF c2] in auto)
    qed
  qed
qed

subsection \<open>Sending\<close>

datatype Send = SendText bytes | SendBinary bytes | SendPing bytes | SendPong bytes | SendClose u16 bytes

fun client_send :: "Env \<Rightarrow> WsClient \<Rightarrow> Send \<Rightarrow> WsClient \<times> (WsError, unit) result" where
  "client_send env c (SendText p) = send_text env c p"
| "client_send env c (SendBinary p) = send_binary env c p"
| "client_send env c (SendPing p) = send_ping env c p"
| "client_send env c (SendPong p) = send_pong env c p"
| "client_send env c (SendClose code reason) = send_close env c code reason"

fun send_size :: "Send \<Rightarrow> nat" where
  "send_size (SendText p) = length p"
| "send_size (SendBinary p) = length p"
| "send_size (SendPing p) = length p"
| "send_size (SendPong p) = length p"
| "send_size (SendClose code reason) = length reason"

lemma ws_wf_keeps:
  assumes "ws_wf c" "keeps c d"
  shows "ws_wf d"
proof -
  have b: "borrow_wf d t = borrow_wf c t" for t
    by (simp add: borrow_wf_def text_ok_def keeps_fields [OF assms(2)] split: option.split)
  have "emit_wf d = emit_wf c"
    unfolding emit_wf_def by (simp add: b keeps_fields [OF assms(2)] split: option.split EmitKind.split)
  then show ?thesis
    using assms rx_wf_keeps [OF assms(2)] keeps_fields(14) [OF assms(2)] by (simp add: ws_wf_def)
qed

text \<open>The frame a send asks for, and the outcome of a send: as of any operation, but the queue grows by exactly
  that frame if an open client accepts the send, and by nothing if the send is refused or, a repeated
  Close, has nothing left to do.\<close>

fun call_frame :: "Send \<Rightarrow> OpCode \<times> bytes" where
  "call_frame (SendText p) = (Text, p)"
| "call_frame (SendBinary p) = (Binary, p)"
| "call_frame (SendPing p) = (Ping, p)"
| "call_frame (SendPong p) = (Pong, p)"
| "call_frame (SendClose code reason) = (Close, u16_to_be code @ reason)"

definition send_ok :: "Env \<Rightarrow> Send \<Rightarrow> WsClient \<Rightarrow> WsClient \<Rightarrow> (WsError, unit) result \<Rightarrow> bool" where
  "send_ok env m c d r \<longleftrightarrow>
     ws_wf d \<and> same_setup c d \<and> (rng_total env \<longrightarrow> r \<noteq> Panic) \<and>
     (r \<noteq> Panic \<longrightarrow> (\<exists>fs. tx_grow c d fs \<and> map (\<lambda>(op, key, p). (op, p)) fs = (if r = Ok () \<and> ws_state c = Open then [call_frame m] else [])))"

lemma send_ok_write:
  assumes "ws_wf c" "write_frame env c True op p = (d, r)" "ws_state c = Open" "op \<noteq> Close" "\<And>key. frame_ok (op, key, p)"
    and "call_frame m = (op, p)"
  shows "send_ok env m c d r"
proof -
  have tx: "tx_wf c" using assms(1) by (simp add: ws_wf_def)
  note k = keeps_write_frame [OF tx assms(2)] and w = write_frame_cases [OF tx assms(2)]
  have "\<exists>fs. tx_grow c d fs \<and> map (\<lambda>(op, key, p). (op, p)) fs = (if r = Ok () \<and> ws_state c = Open then [call_frame m] else [])" if "r \<noteq> Panic"
  proof -
    have "adds_frame op p c d" "r = Ok ()" using w that unfolding adds_frame_def by auto
    then show ?thesis using plain_grow [of c op d p] assms(3-6) k(3) by auto
  qed
  then show ?thesis using ws_wf_keeps [OF assms(1) k(1)] k keeps_fields(10-12) [OF k(1)] by (auto simp: send_ok_def same_setup_def)
qed

lemma op_ok_refl: "ws_wf c \<Longrightarrow> r \<noteq> Panic \<Longrightarrow> op_ok env c c r"
  using tx_step_quiet [of c c] by (simp add: op_ok_def)

lemma send_ok_refused:
  "ws_wf c \<Longrightarrow> ws_state c \<noteq> Open \<Longrightarrow> send_ok env m c c (Ok ())" "ws_wf c \<Longrightarrow> send_ok env m c c (Err e)"
  using tx_grow_quiet [of c c] by (auto simp: send_ok_def)

lemma send_ok_close:
  assumes "ws_wf c" "send_close env c code reason = (d, r)"
  shows "send_ok env (SendClose code reason) c d r"
proof (cases "ws_state c = Open \<and> is_valid_endpoint_sent code \<and> length reason \<le> 123")
  case True
  have tx: "tx_wf c" using assms(1) by (simp add: ws_wf_def)
  obtain e x where w: "write_frame env c True Close (u16_to_be code @ reason) = (e, x)" by fastforce
  note k = keeps_write_frame [OF tx w] and wc = write_frame_cases [OF tx w]
  have wf: "ws_wf e" "same_setup c e" using ws_wf_keeps [OF assms(1) k(1)] keeps_fields(10-12) [OF k(1)] by (auto simp: same_setup_def)
  have res: "(d, r) = try_st (e, x) (\<lambda>c _. (c\<lparr>ws_state := Closing\<rparr>, Ok ()))"
    using assms(2) True w by (simp add: send_close_def write_close_frame_eq)
  show ?thesis
  proof (cases x)
    case (Ok u)
    then have "adds_frame Close (u16_to_be code @ reason) c e" using wc unfolding adds_frame_def by auto
    then have "\<exists>key. tx_grow c (e\<lparr>ws_state := Closing\<rparr>) [(Close, key, u16_to_be code @ reason)]"
      using True by (intro close_grow) auto
    moreover have "keeps e (e\<lparr>ws_state := Closing\<rparr>)" using wc(2) by (simp add: keeps_refl)
    ultimately show ?thesis
      using res Ok ws_wf_keeps [OF wf(1)] wf(2) True by (auto simp: send_ok_def same_setup_def)
  qed (use k res wf in \<open>auto simp: send_ok_def\<close>)
qed (use assms in \<open>auto simp: send_close_def send_ok_refused split: if_split_asm\<close>)

lemma send_ok_send:
  assumes "ws_wf c" "client_send env c m = (d, r)" "send_size m < 2 ^ 63"
  shows "send_ok env m c d r"
proof (cases "ws_state c = Open")
  case True
  note w = send_ok_write [OF assms(1) _ True]
  show ?thesis
    using assms True w send_ok_close [OF assms(1)]
    by (cases m) (auto simp: send_text_def send_binary_def send_ping_def send_pong_def send_ok_refused split: if_split_asm)
next
  case False
  then show ?thesis
    using assms send_ok_close [OF assms(1)]
    by (cases m) (auto simp: send_text_def send_binary_def send_ping_def send_pong_def send_ok_refused split: if_split_asm)
qed

lemma send_not_open: "ws_state c \<noteq> Open \<Longrightarrow> fst (client_send env c m) = c"
  by (cases m) (simp_all add: send_text_def send_binary_def send_ping_def send_pong_def send_close_def)

subsection \<open>Runs\<close>

text \<open>\<open>ws_run env c acked\<close>: the application and the transport can bring a new client to \<open>c\<close>, the transport
  having taken over the bytes \<open>acked\<close>.  A panic ends the run.  Payloads are Rust slices, shorter than
  \<^verbatim>\<open>isize::MAX\<close>, and \<^verbatim>\<open>ack_tx\<close> is given at most what is pending.\<close>

inductive ws_recv_step :: "Env \<Rightarrow> WsClient \<Rightarrow> WsClient \<Rightarrow> bool" for env where
  feed: "ws_recv_step env c (feed_recv c bs)"
| poll: "poll_event env c = (d, r) \<Longrightarrow> r \<noteq> Panic \<Longrightarrow> ws_recv_step env c d"
| events: "drain_data_events env c = (out, d, r) \<Longrightarrow> r \<noteq> Panic \<Longrightarrow> ws_recv_step env c d"
| events_ingress: "drain_data_events_from_ingress env c bs = (out, d, r) \<Longrightarrow> r \<noteq> Panic \<Longrightarrow> ws_recv_step env c d"
| batches: "drain_data_event_batches env c = (bats, d, r) \<Longrightarrow> r \<noteq> Panic \<Longrightarrow> ws_recv_step env c d"
| batches_ingress:
    "drain_data_event_batches_from_ingress env c bs = (bats, d, r) \<Longrightarrow> r \<noteq> Panic \<Longrightarrow> ws_recv_step env c d"

inductive ws_step :: "Env \<Rightarrow> WsClient \<Rightarrow> WsClient \<Rightarrow> bool" for env where
  send: "client_send env c m = (d, r) \<Longrightarrow> send_size m < 2 ^ 63 \<Longrightarrow> r \<noteq> Panic \<Longrightarrow> ws_step env c d"
| receive: "ws_recv_step env c d \<Longrightarrow> ws_step env c d"

inductive ws_run :: "Env \<Rightarrow> WsClient \<Rightarrow> bytes \<Rightarrow> bool" for env where
  start: "new_client env k cfg = Ok c \<Longrightarrow> ws_run env c []"
| handshake: "ws_run env c acked \<Longrightarrow> begin_handshake c = (d, r) \<Longrightarrow> ws_run env d acked"
| step: "ws_run env c acked \<Longrightarrow> ws_step env c d \<Longrightarrow> ws_run env d acked"
| ack: "ws_run env c acked \<Longrightarrow> n \<le> length (pending_tx c) \<Longrightarrow>
    ws_run env (ack_tx c n) (acked @ take n (pending_tx c))"

lemma delivered_eq: "delivered res = (out, d, r) \<longleftrightarrow> (\<exists>b. res = ((b, out), d, r))"
  by (cases res) (auto simp: delivered_def)

lemma op_ok_recv_step: "ws_recv_step env c d \<Longrightarrow> ws_wf c \<Longrightarrow> op_ok env c d (Ok ())"
  by (erule ws_recv_step.cases)
    (auto simp: drain_data_events_def drain_data_events_from_ingress_def drain_data_event_batches_def
      drain_data_event_batches_from_ingress_def delivered_eq
      intro: op_ok_result dest: op_ok_poll op_ok_drain op_ok_drain_from_ingress
      intro!: op_ok_feed)

lemma step_grows:
  assumes "ws_step env c d" "ws_wf c"
  shows "ws_wf d \<and> same_setup c d \<and> (\<exists>fs. tx_grow c d fs)"
  using assms(1)
proof (cases rule: ws_step.cases)
  case (send m r)
  then show ?thesis using send_ok_send [OF assms(2)] unfolding send_ok_def by blast
next
  case receive
  then show ?thesis using op_ok_recv_step [OF _ assms(2)] by (auto simp: op_ok_def tx_step_def)
qed

lemma new_client_Ok:
  assumes "new_client env k cfg = Ok c"
  shows "\<exists>key pool rc tc. length pool = MASK_POOL_BYTES \<and> cf_max_message_size cfg + MAX_HEADER_LEN \<le> USIZE_MAX \<and>
    c = \<lparr>ws_state = Connecting, ws_parser = parser_new, ws_recv_buf = with_capacity rc,
         ws_msg_buf = [], ws_borrowed_payload = None, ws_msg_opcode = None,
         ws_ctl_buf = replicate 125 0, ws_ctl_len = 0, ws_cur_opcode = None, ws_cur_fin = False,
         ws_tx_buf = [], ws_tx_cap = tc, ws_tx_head = 0, ws_config = cfg, ws_client_key = key,
         ws_handshake_started = False, ws_last_emitted = None, ws_mask_pool = pool,
         ws_mask_pool_cursor = 0, ws_rng_calls = k + 2\<rparr>"
proof -
  have len: "length pool = MASK_POOL_BYTES" if "rng_fill env i MASK_POOL_BYTES = Some pool" for i pool
    using that by (auto simp: rng_fill_def split: option.split_asm)
  show ?thesis
    using assms unfolding new_client_def and_then_eq_Ok_iff Let_def
    by (auto simp: and_then_eq_Ok_iff not_less dest!: len split: if_split_asm option.split_asm)
qed

lemma new_client_wf:
  assumes "new_client env k cfg = Ok c"
  shows "ws_wf c" "ws_state c = Connecting" "\<not> ws_handshake_started c" "pending_tx c = []"
  using new_client_Ok [OF assms]
  by (auto simp: ws_wf_def tx_wf_def rx_wf_def emit_wf_def pending_tx_def parser_new_def MAX_HEADER_LEN_def
      with_capacity_def cb_wf_def)

lemma ws_wf_started [simp]: "ws_wf (c\<lparr>ws_handshake_started := b\<rparr>) = ws_wf c"
proof -
  have "borrow_wf (c\<lparr>ws_handshake_started := b\<rparr>) t = borrow_wf c t" for t
    by (simp add: borrow_wf_def text_ok_def split: option.split)
  then have "emit_wf (c\<lparr>ws_handshake_started := b\<rparr>) = emit_wf c"
    by (simp add: emit_wf_def split: option.split EmitKind.split)
  then show ?thesis by (simp add: ws_wf_def tx_wf_def rx_wf_def frame_progress_def)
qed

lemma begin_handshake_cases:
  assumes "begin_handshake c = (d, r)" "ws_wf c"
  shows "d = c \<or> ws_state c = Connecting \<and> ws_state d = Connecting \<and> \<not> ws_handshake_started c \<and> ws_handshake_started d \<and>
    ws_wf d \<and> pending_tx d = pending_tx c @ encode_upgrade_request []
      \<lparr>ur_host = cf_host (ws_config c), ur_path = cf_path (ws_config c), ur_key = ws_client_key c,
       ur_subprotocols = cf_subprotocols (ws_config c), ur_origin = cf_origin (ws_config c)\<rparr>"
proof (cases "ws_state c = Connecting \<and> \<not> ws_handshake_started c")
  case True
  have tx: "tx_wf c" using assms(2) by (simp add: ws_wf_def)
  define e where "e = tx_extend (compact_tx_if_needed c 256) (encode_upgrade_request []
      \<lparr>ur_host = cf_host (ws_config c), ur_path = cf_path (ws_config c), ur_key = ws_client_key c,
       ur_subprotocols = cf_subprotocols (ws_config c), ur_origin = cf_origin (ws_config c)\<rparr>)"
  have rx: "same_rx c e" unfolding e_def using same_rx_trans [OF same_rx_tx_updates(2,1)] .
  have cc: "ws_config (compact_tx_if_needed c 256) = ws_config c" "ws_client_key (compact_tx_if_needed c 256) = ws_client_key c"
    by (simp_all add: compact_tx_if_needed_def)
  have d: "d = e\<lparr>ws_handshake_started := True\<rparr>" using assms(1) True by (simp add: begin_handshake_def e_def Let_def cc)
  have "ws_wf e" using ws_wf_keeps [OF assms(2) keepsI(1) [OF rx]] tx by (simp add: e_def)
  then have "ws_wf d" unfolding d by simp
  moreover have "pending_tx d = pending_tx e" by (simp add: d pending_tx_def)
  ultimately show ?thesis
    using True tx same_rx_fields(1) [OF rx] by (simp add: d) (simp add: e_def)
qed (use assms in \<open>auto simp: begin_handshake_def split: if_split_asm\<close>)

text \<open>The bytes the client has produced: an upgrade request, if the handshake was begun, and a log of
  frames that fits the state.\<close>

definition produced :: "WsClient \<Rightarrow> bytes \<Rightarrow> UpgradeRequest option \<Rightarrow> TxFrame list \<Rightarrow> bool" where
  "produced c bs req fs \<longleftrightarrow>
     bs = (case req of None \<Rightarrow> [] | Some q \<Rightarrow> encode_upgrade_request [] q) @ frames_wire fs \<and>
     list_all frame_ok fs \<and> phase_ok (ws_state c) fs \<and> (req = None \<longleftrightarrow> \<not> ws_handshake_started c)"

lemma produced_step:
  assumes "produced c (acked @ pending_tx c) req fs" "same_setup c d" "\<exists>gs. tx_grow c d gs"
  shows "\<exists>fs'. produced d (acked @ pending_tx d) req (fs @ fs')"
proof -
  obtain gs where "pending_tx d = pending_tx c @ frames_wire gs" "list_all frame_ok gs"
    "\<forall>sent. phase_ok (ws_state c) sent \<longrightarrow> phase_ok (ws_state d) (sent @ gs)"
    using assms(3) unfolding tx_grow_def by blast
  moreover have "ws_handshake_started d = ws_handshake_started c" using assms(2) by (simp add: same_setup_def)
  ultimately have "produced d (acked @ pending_tx d) req (fs @ gs)"
    using assms(1) unfolding produced_def append_assoc [symmetric] by simp
  then show ?thesis ..
qed

lemma ws_run_produced: "ws_run env c acked \<Longrightarrow> ws_wf c \<and> (\<exists>req fs. produced c (acked @ pending_tx c) req fs)"
proof (induction rule: ws_run.induct)
  case (start k cfg c)
  then show ?case using new_client_wf [OF start] by (auto simp: produced_def phase_ok_def intro!: exI [of _ "[]"])
next
  case (handshake c acked d r)
  then obtain req fs where p: "produced c (acked @ pending_tx c) req fs" by blast
  have wf: "ws_wf c" using handshake.IH by simp
  show ?case
  proof (cases "d = c")
    case False
    then show ?thesis
      using begin_handshake_cases [OF handshake.hyps(2) wf] p
      by (auto simp: produced_def phase_ok_def intro!: exI [of _ "Some _"] exI [of _ "[]"])
  qed (use handshake.IH in simp)
next
  case (step c acked d)
  then show ?case using step_grows [OF step.hyps(2)] produced_step by blast
next
  case (ack c acked n)
  have "ws_wf (ack_tx c n)"
    using ack ws_wf_keeps [OF _ keepsI(1) [OF same_rx_tx_updates(4) tx_wf_ack]] by (auto simp: ws_wf_def [of c])
  moreover have "produced (ack_tx c n) bs req fs = produced c bs req fs" for bs req fs
    by (simp add: produced_def ack_tx_def Let_def)
  ultimately show ?case using ack by (simp add: ack_tx_view)
qed

subsection \<open>What a server makes of the stream\<close>

lemma server_read_shorter: "server_read bs = Some (fin, op, p, rest) \<Longrightarrow> length rest < length bs"
proof -
  assume r: "server_read bs = Some (fin, op, p, rest)"
  then obtain h n where "parse_header bs = Ok (Some (h, n))" "rest = drop (n + unat (h_payload_len h)) bs"
    by (auto simp: server_read_def split: result.split_asm option.split_asm if_split_asm)
  moreover from this have "2 \<le> n" "n \<le> length bs" using parse_header_sound [of bs h n] length_wire_header_bounds(1) [of h] by auto
  ultimately show ?thesis by simp
qed

function server_stream :: "bytes \<Rightarrow> (OpCode \<times> bytes) list" where
  "server_stream bs = (case server_read bs of Some (fin, op, p, rest) \<Rightarrow> (op, p) # server_stream rest | None \<Rightarrow> [])"
  by pat_completeness auto

termination server_stream
  by (relation "measure length") (simp, metis in_measure server_read_shorter)

declare server_stream.simps [simp del]

lemma server_stream_wire:
  "list_all frame_ok fs \<Longrightarrow> server_stream (frames_wire fs) = map (\<lambda>(op, key, p). (op, p)) fs"
proof (induction fs)
  case Nil
  have "server_read [] = None" by (simp add: server_read_def parse_header_def)
  then show ?case by (simp add: server_stream.simps [of "[]"])
next
  case (Cons f fs)
  obtain op key p where f: "f = (op, key, p)" by (rule prod_cases3)
  have "frames_wire (f # fs) = masked_frame True op key p @ frames_wire fs" by (simp add: f frames_wire_def)
  moreover have "server_read (masked_frame True op key p @ frames_wire fs) = Some (True, op, p, frames_wire fs)"
    using Cons.prems f by (intro server_read_masked_frame) auto
  ultimately show ?case using Cons f by (simp add: server_stream.simps [of "masked_frame True op key p @ frames_wire fs"])
qed

text \<open>A concrete run: a new client that has begun its handshake.\<close>

lemma sample_new: "\<exists>c. new_client sample_env 0 (ws_config_new (str ''h'') (str ''/'')) = Ok c"
  by (simp add: new_client_def generate_key_def rng_fill_def sample_env_def ws_config_new_def vec_with_capacity_def
      DEFAULT_MAX_MESSAGE_SIZE_def MAX_HEADER_LEN_def USIZE_MAX_def Let_def)

lemma sample_run: "\<exists>c. ws_run sample_env c [] \<and> ws_state c = Connecting \<and> ws_handshake_started c"
proof -
  obtain c where c: "new_client sample_env 0 (ws_config_new (str ''h'') (str ''/'')) = Ok c" using sample_new by blast
  note n = new_client_wf [OF c]
  obtain d r where b: "begin_handshake c = (d, r)" by fastforce
  have "ws_run sample_env d []" using ws_run.handshake [OF ws_run.start [OF c] b] .
  moreover have "ws_state d = Connecting" "ws_handshake_started d"
    using b n(2,3) by (auto simp: begin_handshake_def Let_def tx_extend_def compact_tx_if_needed_def)
  ultimately show ?thesis by blast
qed

subsection \<open>Properties\<close>

text \<open>C6. The outbound stream of a client, in every run of the public operations: the bytes taken by the
  transport and those still pending are the upgrade request (once the handshake has been begun)
  followed by a sequence of complete, legal, masked frames, which a server reads back as the opcodes
  and payloads sent.  No frame precedes the end of the handshake; an open connection has sent no
  Close; a closing one has sent exactly one, no data, ping or second Close after it, and at most
  pongs; a closed one has sent at most one.\<close>

theorem client_stream:
  assumes "ws_run env c acked"
  shows "\<exists>req fs. acked @ pending_tx c = (case req of None \<Rightarrow> [] | Some q \<Rightarrow> encode_upgrade_request [] q) @ frames_wire fs \<and>
    (req = None \<longleftrightarrow> \<not> ws_handshake_started c) \<and> list_all frame_ok fs \<and> phase_ok (ws_state c) fs \<and>
    server_stream (frames_wire fs) = map (\<lambda>(op, key, p). (op, p)) fs"
  using ws_run_produced [OF assms] server_stream_wire unfolding produced_def by blast

theorem client_stream_witness:
  "\<exists>c q. ws_run sample_env c [] \<and> pending_tx c = encode_upgrade_request [] q"
proof -
  obtain c where c: "ws_run sample_env c []" "ws_state c = Connecting" "ws_handshake_started c" using sample_run by blast
  have "\<exists>q. pending_tx c = encode_upgrade_request [] q"
    using client_stream [OF c(1)] c(2,3) by (auto simp: phase_ok_def)
  then show ?thesis using c(1) by blast
qed

text \<open>C15. Safety of the client in every run: the invariant holds, the connection state only moves forward
  (connecting, open, closing, closed) with each operation, and if the random generator does not fail,
  then no send, no poll and no drain panics, whatever the server sent.\<close>

theorem client_run_safe:
  assumes "ws_run env c acked"
  shows "ws_wf c \<and> (\<forall>d. ws_step env c d \<longrightarrow> rank (ws_state c) \<le> rank (ws_state d) \<and> same_setup c d) \<and>
    (rng_total env \<longrightarrow>
       snd (poll_event env c) \<noteq> Panic \<and>
       (\<forall>m. send_size m < 2 ^ 63 \<longrightarrow> snd (client_send env c m) \<noteq> Panic) \<and>
       snd (snd (drain_data_events env c)) \<noteq> Panic \<and>
       (\<forall>bs. snd (snd (drain_data_events_from_ingress env c bs)) \<noteq> Panic) \<and>
       snd (snd (drain_data_event_batches env c)) \<noteq> Panic \<and>
       (\<forall>bs. snd (snd (drain_data_event_batches_from_ingress env c bs)) \<noteq> Panic))"
proof -
  have wf: "ws_wf c" using ws_run_produced [OF assms] by simp
  have "rank (ws_state c) \<le> rank (ws_state d) \<and> same_setup c d" if "ws_step env c d" for d
    using step_grows [OF that wf] by (auto simp: tx_grow_def)
  moreover have "snd (poll_event env c) \<noteq> Panic" "snd (snd (drain_data_events env c)) \<noteq> Panic"
    "snd (snd (drain_data_event_batches env c)) \<noteq> Panic" if "rng_total env"
    using that op_ok_poll [OF wf surjective_pairing] op_ok_drain [OF wf, of env _ 0]
    unfolding drain_data_events_def drain_data_event_batches_def delivered_def op_ok_def
    by (metis prod.collapse snd_conv)+
  moreover have "snd (client_send env c m) \<noteq> Panic" if "rng_total env" "send_size m < 2 ^ 63" for m
    using that send_ok_send [OF wf surjective_pairing] by (simp add: send_ok_def)
  moreover have "snd (snd (drain_data_events_from_ingress env c bs)) \<noteq> Panic"
    "snd (snd (drain_data_event_batches_from_ingress env c bs)) \<noteq> Panic" if "rng_total env" for bs
    using that op_ok_drain_from_ingress [OF wf, of env _ bs]
    unfolding drain_data_events_from_ingress_def drain_data_event_batches_from_ingress_def delivered_def op_ok_def
    by (metis prod.collapse snd_conv)+
  ultimately show ?thesis using wf by blast
qed

theorem client_run_safe_witness:
  "\<exists>c. ws_run sample_env c [] \<and> ws_wf c \<and> snd (poll_event sample_env c) \<noteq> Panic"
  using sample_run client_run_safe sample_client_facts(2) by metis

end
