(* ===== verification/Ws_Deliver.thy ===== *)
theory Ws_Deliver
  imports Ws_Life
begin

text \<open>
  What the data-only drains deliver, compared with \<^verbatim>\<open>poll_event\<close>: the same messages in the same order,
  whichever way they are packaged; and when the copy-free ingress path is taken.
\<close>

subsection \<open>The fast header agrees with the general one\<close>

lemma fast_len_cases:
  assumes "fast_len buf op len7 = r" "2 \<le> length buf" "len7 \<le> 125 \<or> len7 = 126 \<or> len7 = 127"
  obtains (parsed) h where "r = Ok (FhParsed h)" "fh_opcode h = op" "2 \<le> fh_header_len h" "fh_header_len h \<le> length buf"
      "parse_len_field buf len7 = Ok (Some (fh_payload_len_u64 h, fh_header_len h - 2))" "unat (fh_payload_len_u64 h) = fh_payload_len h"
  | (more) "r = Ok FhNeedMore" "parse_len_field buf len7 = Ok None"
  | (fallback) "r = Ok FhFallback"
  | (err) e where "r = Err e" "parse_len_field buf len7 = Err e"
proof -
  have u: "unat (ucast x :: u64) = unat x" for x :: u8 using unat_u8_less [of x] by (simp add: unat_ucast_mod)
  consider "len7 \<le> 125" | "\<not> len7 \<le> 125" "len7 = 126" | "\<not> len7 \<le> 125" "len7 = 127" using assms(3) by blast
  then show thesis
  proof cases
    case 1
    then show ?thesis using assms parsed [of "\<lparr>fh_opcode = op, fh_header_len = 2, fh_payload_len = unat len7, fh_payload_len_u64 = ucast len7\<rparr>"]
      by (simp add: fast_len_def parse_len_field_def u)
  next
    case 2
    let ?v = "u16_from_be (buf ! 2) (buf ! 3)"
    have "unat (ucast ?v :: u64) = unat ?v" using unat_u16_less [of ?v] by (simp add: unat_ucast_mod)
    then show ?thesis using 2 assms more err parsed [of "\<lparr>fh_opcode = op, fh_header_len = 4, fh_payload_len = unat ?v, fh_payload_len_u64 = ucast ?v\<rparr>"]
      by (simp add: fast_len_def parse_len_field_def Let_def split: if_split_asm)
  next
    case 3
    then show ?thesis using assms fallback by (simp add: fast_len_def)
  qed
qed

text \<open>What \<^verbatim>\<open>parse_header\<close> says of the bytes, for each verdict of the fast header parser.\<close>

lemma fast_header_cases:
  obtains (parsed) h where "parse_server_data_header_fast bs = Ok (FhParsed h)" "unat (fh_payload_len_u64 h) = fh_payload_len h"
      "fh_opcode h = Text \<or> fh_opcode h = Binary"
      "parse_header bs = Ok (Some (\<lparr>h_fin = True, h_opcode = fh_opcode h, h_mask = None, h_payload_len = fh_payload_len_u64 h\<rparr>, fh_header_len h))"
  | (more) "parse_server_data_header_fast bs = Ok FhNeedMore" "parse_header bs = Ok None"
  | (fallback) "parse_server_data_header_fast bs = Ok FhFallback"
  | (err) e where "parse_server_data_header_fast bs = Err e" "\<And>h n. parse_header bs = Ok (Some (h, n)) \<Longrightarrow> h_mask h \<noteq> None"
proof -
  let ?b0 = "bs ! 0" and ?b1 = "bs ! 1"
  consider "length bs < 2" | "2 \<le> length bs" "?b0 AND 0x70 \<noteq> 0" | "2 \<le> length bs" "?b0 AND 0x70 = 0" "?b1 AND 0x80 \<noteq> 0"
    | "2 \<le> length bs" "?b0 AND 0x70 = 0" "?b1 AND 0x80 = 0" "?b0 AND 0x80 = 0"
    | "2 \<le> length bs" "?b0 AND 0x70 = 0" "?b1 AND 0x80 = 0" "?b0 AND 0x80 \<noteq> 0"
    by linarith
  then show thesis
  proof cases
    case 1
    then show ?thesis using more by (simp add: parse_server_data_header_fast_def parse_header_def)
  next
    case 2
    then show ?thesis using err by (simp add: parse_server_data_header_fast_def parse_header_def Let_def)
  next
    case 3
    then have "parse_server_data_header_fast bs = Err ServerSentMaskedFrame"
      by (simp add: parse_server_data_header_fast_def Let_def)
    moreover have "h_mask h \<noteq> None" if "parse_header bs = Ok (Some (h, n))" for h n
      using that 3(3) by (cases rule: parse_header_SomeE) simp
    ultimately show ?thesis using err by blast
  next
    case 4
    then show ?thesis using fallback by (simp add: parse_server_data_header_fast_def Let_def)
  next
    case 5
    let ?op = "?b0 AND 0x0F"
    have data: thesis if op: "?op = opcode_u8 op" "op = Text \<or> op = Binary" for op
    proof -
      have f: "parse_server_data_header_fast bs = fast_len bs op (?b1 AND 0x7F)" "opcode_try_from ?op = Ok op"
        using op 5 by (auto simp: parse_server_data_header_fast_def opcode_try_from_def Let_def)
      show thesis
      proof (cases rule: fast_len_cases [OF f(1) [symmetric] 5(1) len7_cases])
        case (1 h)
        then obtain k where k: "fh_header_len h = 2 + k" using le_Suc_ex by blast
        have "parse_header bs = Ok (Some (\<lparr>h_fin = True, h_opcode = op, h_mask = None, h_payload_len = fh_payload_len_u64 h\<rparr>, 2 + k))"
          using 1 k f op 5 by (auto simp: parse_header_def Let_def)
        then show ?thesis using parsed [of h] 1 k f op by simp
      next
        case 2
        then show ?thesis using more f op 5 by (auto simp: parse_header_def Let_def)
      next
        case 3
        then show ?thesis using fallback by simp
      next
        case (4 e)
        then show ?thesis using err [of e] f op 5 by (auto simp: parse_header_def Let_def)
      qed
    qed
    consider op where "?op = opcode_u8 op" "op = Text \<or> op = Binary" | "?op = 0 \<or> ?op = 8 \<or> ?op = 9 \<or> ?op = 10"
      | "?op \<notin> {0, 1, 2, 8, 9, 10}" by force
    then show ?thesis
    proof cases
      case 1
      then show ?thesis using data by blast
    next
      case 2
      then show ?thesis using fallback 5 by (auto simp: parse_server_data_header_fast_def Let_def)
    next
      case 3
      then show ?thesis using err [of "InvalidOpCode ?op"] 5
        by (simp add: parse_server_data_header_fast_def parse_header_def opcode_try_from_def Let_def)
    qed
  qed
qed

subsection \<open>One frame of the fast path is one poll\<close>

lemma consume_0: "as_slice q \<noteq> [] \<Longrightarrow> cb_consume q 0 = q"
  by (cases q) (auto simp: cb_consume_def as_slice_def Let_def)

lemma consume_add:
  "cb_wf q \<Longrightarrow> a + b \<le> length (as_slice q) \<Longrightarrow> cb_consume (cb_consume q a) b = cb_consume q (a + b)"
  by (auto simp: cb_consume_def cb_wf_def as_slice_def Let_def)

lemma consume_recv_0: "as_slice (ws_recv_buf c) \<noteq> [] \<Longrightarrow> consume_recv c 0 = c"
  by (simp add: consume_recv_def consume_0)

lemma consume_recv_add:
  "quiet c \<Longrightarrow> a + b \<le> length (as_slice (ws_recv_buf c)) \<Longrightarrow> consume_recv (consume_recv c a) b = consume_recv c (a + b)"
  by (simp add: consume_recv_def consume_add quiet_def rx_wf_def)

fun data_event :: "DataEvent \<Rightarrow> WsEvent" where
  "data_event (DText t) = EvText t"
| "data_event (DBinary b) = EvBinary b"

abbreviation "fast_frame c \<equiv>
  parse_complete_server_data_frame (as_slice (ws_recv_buf c)) (cf_max_frame_payload (ws_config c))
    (cf_max_message_size (ws_config c)) (cf_assume_text_utf8 (ws_config c))"

lemma fast_frame_Parsed:
  assumes "fast_frame c = Ok (FfParsed ev n)" "\<not> fast_blocked c" "quiet c"
  obtains b kind where "poll_loop env c = ((c\<lparr>ws_borrowed_payload := Some b, ws_last_emitted := Some kind\<rparr>), Ok (Some (data_event ev)))"
    "bp_frame_len b = n" "is_borrowed kind"
proof -
  let ?bs = "as_slice (ws_recv_buf c)"
  obtain h where h: "parse_server_data_header_fast ?bs = Ok (FhParsed h)"
    using assms(1)
    by (cases "parse_server_data_header_fast ?bs")
      (auto simp: parse_complete_server_data_frame_def split: FastDataHeaderResult.split_asm)
  let ?h = "\<lparr>h_fin = True, h_opcode = fh_opcode h, h_mask = None, h_payload_len = fh_payload_len_u64 h\<rparr>"
  have p: "parse_header ?bs = Ok (Some (?h, fh_header_len h))" "unat (fh_payload_len_u64 h) = fh_payload_len h"
    by (cases rule: fast_header_cases [of ?bs]; use h in simp)+
  let ?n = "fh_header_len h + fh_payload_len h"
  let ?p = "drop (fh_header_len h) (take ?n ?bs)"
  have fits: "\<not> fh_payload_len_u64 h > cf_max_frame_payload (ws_config c)" "\<not> fh_payload_len h > cf_max_message_size (ws_config c)"
    "\<not> ?n > USIZE_MAX" "\<not> length ?bs < ?n" "n = ?n"
    and ev: "fh_opcode h = Text \<and> ev = DText ?p \<and> (cf_assume_text_utf8 (ws_config c) \<or> utf8_valid ?p) \<or> fh_opcode h = Binary \<and> ev = DBinary ?p"
    using assms(1) h by (auto simp: parse_complete_server_data_frame_def Let_def split: if_split_asm)
  define b where "b = \<lparr>bp_payload_start = fh_header_len h, bp_payload_end = ?n, bp_frame_len = ?n\<rparr>"
  define kind where "kind = (if fh_opcode h = Text then EkBorrowedText else EkBorrowedBinary)"
  have "ws_state c = Open" using assms(2) by (simp add: fast_blocked_def)
  moreover have "borrowed_kind env c (fh_opcode h) ?p = (c, Ok kind)"
    using ev by (auto simp: borrowed_kind_def kind_def)
  then have "try_emit_borrowed_data env c = (c\<lparr>ws_borrowed_payload := Some b\<rparr>, Ok (BorrowedEmit kind))"
    using assms(2) p fits ev by (auto simp: try_emit_borrowed_data_def borrow_frame_def length_as_slice b_def Let_def)
  moreover have "build_event (c\<lparr>ws_borrowed_payload := Some b, ws_last_emitted := Some kind\<rparr>) kind = Ok (data_event ev)"
    using ev fits by (auto simp: build_event_def borrowed_payload_def kind_def b_def)
  ultimately have "poll_loop env c = ((c\<lparr>ws_borrowed_payload := Some b, ws_last_emitted := Some kind\<rparr>), Ok (Some (data_event ev)))"
    by (simp add: poll_loop.simps [of env c] emit_def Let_def)
  moreover have "bp_frame_len b = n" "is_borrowed kind" using fits by (simp_all add: b_def kind_def)
  ultimately show thesis using that by blast
qed

lemma fast_frame_NeedMore:
  assumes "fast_frame c = Ok FfNeedMore" "\<not> fast_blocked c"
  shows "poll_loop env c = (c, Ok None)"
proof -
  let ?bs = "as_slice (ws_recv_buf c)"
  have "ws_state c = Open" using assms(2) by (simp add: fast_blocked_def)
  moreover have "try_emit_borrowed_data env c = (c, Ok WaitForMore)"
  proof (cases rule: fast_header_cases [of ?bs])
    case (parsed h)
    then show ?thesis
      using assms
      by (auto simp: parse_complete_server_data_frame_def try_emit_borrowed_data_def borrow_frame_def length_as_slice Let_def
          split: if_split_asm)
  next
    case more
    then show ?thesis using assms(2) by (simp add: try_emit_borrowed_data_def)
  qed (use assms in \<open>auto simp: parse_complete_server_data_frame_def\<close>)
  ultimately show ?thesis by (simp add: poll_loop.simps [of env c])
qed

text \<open>A frame the fast path rejects is not delivered by \<^verbatim>\<open>poll_event\<close> either.\<close>

lemma poll_loop_borrow_fails:
  assumes "ws_state c = Open" "try_emit_borrowed_data env c = (d, r)" "r \<noteq> Ok Fallback" "\<And>k. r \<noteq> Ok (BorrowedEmit k)"
  shows "\<exists>e x. poll_loop env c = (e, x) \<and> (\<forall>ev. x \<noteq> Ok (Some ev))"
  using assms by (cases r) (auto simp: poll_loop.simps [of env c] split: BorrowedResult.split)

lemma fast_frame_Err:
  assumes "fast_frame c = Err e" "\<not> fast_blocked c"
  shows "\<exists>d x. poll_loop env c = (d, x) \<and> (\<forall>ev. x \<noteq> Ok (Some ev))"
proof -
  let ?bs = "as_slice (ws_recv_buf c)"
  obtain d r where t: "try_emit_borrowed_data env c = (d, r)" by fastforce
  have fail: "r \<noteq> Ok y" if "(d, r) = try_st res (\<lambda>c _. (c, Err er))" for res :: "WsClient \<times> (WsError, unit) result" and er y
    using that by (cases res; cases "snd res") auto
  have "\<forall>y. r = Ok y \<longrightarrow> y = WaitForMore"
  proof (cases rule: fast_header_cases [of ?bs])
    case (parsed h)
    then show ?thesis
      using assms t fail
      by (auto simp: parse_complete_server_data_frame_def try_emit_borrowed_data_def borrow_frame_def borrowed_kind_def length_as_slice Let_def
          elim!: try_st_cases split: if_split_asm)
  next
    case (err er)
    show ?thesis
    proof (cases ?bs rule: parse_header_cases)
      case (complete h n)
      then have "h_mask h \<noteq> None" using err(2) by blast
      then show ?thesis
        using complete assms(2) t by (auto simp: try_emit_borrowed_data_def borrow_frame_def elim!: try_st_cases)
    qed (use assms(2) t in \<open>auto simp: try_emit_borrowed_data_def elim!: try_st_cases\<close>)
  qed (use assms in \<open>auto simp: parse_complete_server_data_frame_def\<close>)
  moreover have "ws_state c = Open" using assms(2) by (simp add: fast_blocked_def)
  ultimately show ?thesis using poll_loop_borrow_fails [OF _ t] by auto
qed

subsection \<open>The reference: polling until nothing is left\<close>

function poll_all :: "Env \<Rightarrow> WsClient \<Rightarrow> nat \<Rightarrow> DataEvent list \<Rightarrow> DataEvent list \<times> WsClient \<times> (WsError, nat) result" where
  "poll_all env c n s =
     (case poll_event env c of
        (d, Ok (Some ev)) \<Rightarrow> poll_all env d (n + 1) (slow_event plain_sink ev s)
      | (d, Ok None) \<Rightarrow> (s, d, Ok n)
      | (d, Err e) \<Rightarrow> (s, d, Err e)
      | (d, Panic) \<Rightarrow> (s, d, Panic))"
  by pat_completeness auto

termination poll_all
  by (relation "measure (\<lambda>(env, c, n, s). rx_measure (cleared c))") (simp_all, metis poll_event_decreases)

declare poll_all.simps [simp del]

lemma cleared_quiet: "quiet c \<Longrightarrow> cleared c = c"
  by (simp add: cleared_None quiet_def)

lemma poll_event_cleared: "ws_wf c \<Longrightarrow> poll_event env (cleared c) = poll_event env c"
  using poll_event_quiet [of c env] poll_event_quiet [of "cleared c" env] quiet_ws_wf cleared_quiet by metis

lemma poll_all_cleared: "ws_wf c \<Longrightarrow> poll_all env (cleared c) n s = poll_all env c n s"
  by (simp add: poll_all.simps [of env "cleared c"] poll_all.simps [of env c] poll_event_cleared)

lemma poll_event_quiet_eq: "quiet c \<Longrightarrow> poll_event env c = poll_loop env c"
  using poll_event_quiet [of c env] quiet_ws_wf [of c] cleared_quiet [of c] by simp

lemma slow_event_data: "slow_event plain_sink (data_event ev) s = s @ [ev]"
  by (cases ev) (simp_all add: slow_event_def plain_sink_def)

lemma fast_frame_polled:
  assumes "fast_frame c = Ok (FfParsed ev n)" "\<not> fast_blocked c" "quiet c"
  obtains d where "poll_loop env c = (d, Ok (Some (data_event ev)))" "ws_wf d" "cleared d = consume_recv c n"
proof -
  obtain b kind where p: "poll_loop env c = ((c\<lparr>ws_borrowed_payload := Some b, ws_last_emitted := Some kind\<rparr>), Ok (Some (data_event ev)))"
    "bp_frame_len b = n" "is_borrowed kind" using fast_frame_Parsed [OF assms] .
  let ?d = "c\<lparr>ws_borrowed_payload := Some b, ws_last_emitted := Some kind\<rparr>"
  have wf: "ws_wf ?d" using poll_loop_wf [OF assms(3) p(1)] by simp
  have "c\<lparr>ws_last_emitted := None, ws_borrowed_payload := None\<rparr> = c" using assms(3) by (cases c) (simp add: quiet_def)
  then have "cleared ?d = consume_recv c n"
    using p(2,3) by (cases kind) (simp_all add: cleared_def clear_after_emit_def Let_def consume_recv_def)
  then show thesis using that p(1) wf by blast
qed

lemma poll_all_fast:
  assumes "fast_frame c = Ok (FfParsed ev n)" "\<not> fast_blocked c" "quiet c"
  shows "poll_all env c m s = poll_all env (consume_recv c n) (m + 1) (s @ [ev])"
proof -
  obtain d where d: "poll_loop env c = (d, Ok (Some (data_event ev)))" "ws_wf d" "cleared d = consume_recv c n"
    using fast_frame_polled [OF assms] .
  then show ?thesis
    using poll_event_quiet_eq [OF assms(3), of env] poll_all_cleared [OF d(2), of env "m + 1" "s @ [ev]"]
    by (simp add: poll_all.simps [of env c] slow_event_data)
qed

lemma fast_blocked_consume:
  "\<not> fast_blocked c \<Longrightarrow> quiet c \<Longrightarrow> drop k (as_slice (ws_recv_buf c)) \<noteq> [] \<Longrightarrow> \<not> fast_blocked (consume_recv c k)"
  by (auto simp: fast_blocked_def consume_recv_def cb_is_empty_def as_slice_def cb_consume_def Let_def split: if_split_asm)

text \<open>The whole fast loop.\<close>

lemma scan_polls:
  "scan (sk_fast plain_sink) (ws_config c) bs k n s = (s', k', n', e) \<Longrightarrow> bs = as_slice (ws_recv_buf c) \<Longrightarrow>
     k \<le> length bs \<Longrightarrow> \<not> fast_blocked c \<Longrightarrow> quiet c \<Longrightarrow>
     poll_all env (consume_recv c k) (m + n) s = poll_all env (consume_recv c k') (m + n') s'"
proof (induction "sk_fast plain_sink" "ws_config c" bs k n s rule: scan.induct)
  case (1 bs k n s)
  let ?p = "parse_complete_server_data_frame (drop k bs) (cf_max_frame_payload (ws_config c)) (cf_max_message_size (ws_config c))
      (cf_assume_text_utf8 (ws_config c))"
  note sc = scan.simps [of "sk_fast plain_sink" "ws_config c" bs k n s]
  show ?case
  proof (cases "\<exists>ev f. ?p = Ok (FfParsed ev f) \<and> drop k bs \<noteq> []")
    case True
    then obtain ev f where p: "?p = Ok (FfParsed ev f)" "drop k bs \<noteq> []" by blast
    have f: "k + f \<le> length bs" using parse_complete_frame_len [OF p(1)] "1.prems"(3) by auto
    let ?c = "consume_recv c k"
    have slice: "as_slice (ws_recv_buf ?c) = drop k bs" "ws_config ?c = ws_config c"
      using "1.prems"(2) by (simp_all add: consume_recv_def)
    have "poll_all env ?c (m + n) s = poll_all env (consume_recv ?c f) (m + n + 1) (s @ [ev])"
      using p fast_blocked_consume [OF "1.prems"(4,5), of k] quiet_consume [OF "1.prems"(5), of k] "1.prems"(2,3)
      by (intro poll_all_fast) (simp_all add: slice)
    moreover have "consume_recv ?c f = consume_recv c (k + f)"
      using consume_recv_add [OF "1.prems"(5)] f "1.prems"(2) by simp
    moreover have "scan (sk_fast plain_sink) (ws_config c) bs (k + f) (n + 1) (s @ [ev]) = (s', k', n', e)"
      using "1.prems"(1) p unfolding sc by (simp add: plain_sink_def)
    ultimately show ?thesis
      using "1.hyps" [OF refl p(2,1) refl] "1.prems"(2,4,5) f by (simp add: plain_sink_def)
  next
    case False
    then show ?thesis
      using "1.prems"(1) unfolding sc by (auto simp: Let_def split: if_split_asm result.split_asm FastDataFrameResult.split_asm)
  qed
qed

text \<open>Where the fast loop stops.\<close>

lemma scan_stop:
  "scan fast cfg bs k n s = (s', k', n', e) \<Longrightarrow> e \<noteq> ScanDrained \<Longrightarrow>
     drop k' bs \<noteq> [] \<and>
     (let p = parse_complete_server_data_frame (drop k' bs) (cf_max_frame_payload cfg) (cf_max_message_size cfg) (cf_assume_text_utf8 cfg)
      in (e = ScanWait \<longrightarrow> p = Ok FfNeedMore) \<and> (\<forall>x. e = ScanErr x \<longrightarrow> p = Err x))"
proof (induction fast cfg bs k n s rule: scan.induct)
  case (1 fast cfg bs k n s)
  let ?p = "parse_complete_server_data_frame (drop k bs) (cf_max_frame_payload cfg) (cf_max_message_size cfg)
      (cf_assume_text_utf8 cfg)"
  note sc = scan.simps [of fast cfg bs k n s]
  show ?case
  proof (cases "\<exists>ev m. ?p = Ok (FfParsed ev m) \<and> drop k bs \<noteq> []")
    case True
    then obtain ev m where p: "?p = Ok (FfParsed ev m)" "drop k bs \<noteq> []" by blast
    then have "scan fast cfg bs (k + m) (n + 1) (fast ev s) = (s', k', n', e)" using "1.prems"(1) unfolding sc by simp
    then show ?thesis using "1.IH" [OF refl p(2,1) refl _ "1.prems"(2)] by blast
  next
    case False
    then show ?thesis
      using "1.prems" unfolding sc by (auto simp: Let_def split: if_split_asm result.split_asm FastDataFrameResult.split_asm)
  qed
qed

lemma try_drain_polls:
  assumes "quiet c" "try_drain env plain_sink c s = (s1, c2, r)" "r \<noteq> Panic"
  shows "(\<forall>n w. r = Ok (n, w) \<longrightarrow> poll_all env c m s = poll_all env c2 (m + n) s1 \<and> (w = DrWaitForMore \<longrightarrow> poll_loop env c2 = (c2, Ok None))) \<and>
    (\<forall>e. r = Err e \<longrightarrow> (\<exists>d x. poll_all env c m s = (s1, d, x)))"
proof (cases "fast_blocked c")
  case True
  then show ?thesis using assms by (auto simp: try_drain_def)
next
  case False
  let ?bs = "as_slice (ws_recv_buf c)"
  obtain t k n e where sc: "scan (sk_fast plain_sink) (ws_config c) ?bs 0 0 (sk_begin plain_sink s) = (t, k, n, e)"
    by (metis prod_cases4)
  have h: "\<not> cb_head (ws_recv_buf c) > length (cb_data (ws_recv_buf c))"
    using assms(1) by (simp add: quiet_def rx_wf_def cb_wf_def)
  have ne: "?bs \<noteq> []" using False h by (auto simp: fast_blocked_def cb_is_empty_def as_slice_def)
  let ?d = "consume_recv c k"
  have q: "quiet ?d" using quiet_consume [OF assms(1)] scan_bounds [OF sc] by simp
  have all: "poll_all env c m s = poll_all env ?d (m + n) t"
    using scan_polls [OF sc refl _ False assms(1), of env m] consume_recv_0 [OF ne] by (simp add: plain_sink_def)
  have stop: "drop k ?bs \<noteq> [] \<and> (e = ScanWait \<longrightarrow> fast_frame ?d = Ok FfNeedMore) \<and> (\<forall>x. e = ScanErr x \<longrightarrow> fast_frame ?d = Err x)"
    if "e \<noteq> ScanDrained" using scan_stop [OF sc that] by (simp add: consume_recv_def Let_def)
  have d: "\<not> fast_blocked ?d" if "e \<noteq> ScanDrained" using fast_blocked_consume [OF False assms(1)] stop [OF that] by simp
  have pf: "sk_flush plain_sink b x = x" for b x by (simp add: plain_sink_def)
  show ?thesis
  proof (cases e)
    case ScanWait
    then have "poll_loop env ?d = (?d, Ok None)" using fast_frame_NeedMore [OF _ d] stop by simp
    then show ?thesis using assms(2) False h sc ScanWait all by (auto simp: try_drain_def pf)
  next
    case (ScanErr x)
    then obtain f y where "poll_loop env ?d = (f, y)" "\<forall>ev. y \<noteq> Ok (Some ev)" using fast_frame_Err [OF _ d] stop by blast
    then have "\<exists>z. poll_all env ?d (m + n) t = (t, f, z)"
      using poll_event_quiet_eq [OF q, of env] by (cases y) (auto simp: poll_all.simps [of env ?d] split: option.split)
    moreover have "s1 = t" "r \<noteq> Ok w" for w
      using assms(2) False h sc ScanErr by (auto simp: try_drain_def pf fail_fast_eq elim!: try_st_cases)
    ultimately show ?thesis using all by auto
  qed (use assms(2,3) False h sc all in \<open>auto simp: try_drain_def pf\<close>)
qed

lemma drain_polls:
  "ws_wf c \<Longrightarrow> drain env plain_sink c n s = (s', d, r) \<Longrightarrow> r \<noteq> Panic \<Longrightarrow>
     (\<forall>m. r = Ok m \<longrightarrow> poll_all env c n s = (s', d, r)) \<and> (\<forall>e. r = Err e \<longrightarrow> (\<exists>d' x. poll_all env c n s = (s', d', x)))"
proof (induction "rx_measure (cleared c)" arbitrary: c n s rule: less_induct)
  case less
  note sc = drain.simps [of env plain_sink c n s]
  note cl = op_ok_cleared [OF less.prems(1)]
  obtain s1 c2 r1 where td: "try_drain env plain_sink (cleared c) s = (s1, c2, r1)" by (rule prod_cases3)
  have np: "r1 \<noteq> Panic" using less.prems(2,3) cl(1) td unfolding sc by auto
  note t = op_ok_try_drain [OF cl(2) td] and tp = try_drain_polls [OF cl(2) td np, of n, unfolded poll_all_cleared [OF less.prems(1)]]
  show ?case
  proof (cases r1)
    case r1: (Ok v1)
    obtain m dr where v1: "v1 = (m, dr)" by fastforce
    note dec = drain_decreases [OF cl(1) td [unfolded r1 v1]]
    have all: "poll_all env c n s = poll_all env c2 (n + m) s1" using tp r1 v1 by simp
    show ?thesis
    proof (cases dr)
      case Drained
      then have "drain env plain_sink c2 (n + m) s1 = (s', d, r)" using less.prems(2) cl(1) td r1 v1 unfolding sc by simp
      then show ?thesis using less.hyps [OF dec(1) [OF Drained] quiet_ws_wf [OF t(2)]] less.prems(3) all by auto
    next
      case DrWaitForMore
      then have "poll_event env c2 = (c2, Ok None)" using tp r1 v1 poll_event_quiet_eq [OF t(2), of env] by simp
      then have "poll_all env c2 (n + m) s1 = (s1, c2, Ok (n + m))" by (subst poll_all.simps) simp
      then show ?thesis using less.prems(2) cl(1) td r1 v1 DrWaitForMore all unfolding sc by auto
    next
      case DrFallback
      obtain c3 r3 where po: "poll_event env c2 = (c3, r3)" by fastforce
      show ?thesis
      proof (cases "\<exists>ev. r3 = Ok (Some ev)")
        case True
        then obtain ev where ev: "poll_event env c2 = (c3, Ok (Some ev))" using po by auto
        have "drain env plain_sink c3 (n + m + 1) (slow_event plain_sink ev s1) = (s', d, r)"
          using less.prems(2) cl(1) td r1 v1 DrFallback ev unfolding sc by simp
        moreover have "ws_wf c3" using op_ok_poll [OF quiet_ws_wf [OF t(2)] po] by (simp add: op_ok_def)
        ultimately have "(\<forall>m'. r = Ok m' \<longrightarrow> poll_all env c3 (n + m + 1) (slow_event plain_sink ev s1) = (s', d, r)) \<and>
            (\<forall>e. r = Err e \<longrightarrow> (\<exists>d' x. poll_all env c3 (n + m + 1) (slow_event plain_sink ev s1) = (s', d', x)))"
          using less.hyps [OF dec(2) [OF ev]] less.prems(3) by blast
        then show ?thesis using all ev by (simp add: poll_all.simps [of env c2])
      next
        case False
        then show ?thesis
          using less.prems(2,3) cl(1) td r1 v1 po DrFallback all unfolding sc
          by (cases r3) (auto simp: poll_all.simps [of env c2] split: option.split_asm)
      qed
    qed
  next
    case (Err e)
    then show ?thesis using less.prems(2,3) cl(1) td tp unfolding sc by auto
  qed (use np in simp)
qed

subsection \<open>When the copy-free path is open\<close>

text \<open>A chunk of complete data messages, each in one unmasked frame: what the fast header parser and the size
  and UTF-8 checks accept, from the first byte to the last.\<close>

inductive whole_frames :: "WsConfig \<Rightarrow> bytes \<Rightarrow> bool" for cfg where
  empty: "whole_frames cfg []"
| frame: "bs \<noteq> [] \<Longrightarrow>
    parse_complete_server_data_frame bs (cf_max_frame_payload cfg) (cf_max_message_size cfg) (cf_assume_text_utf8 cfg) = Ok (FfParsed ev n) \<Longrightarrow>
    whole_frames cfg (drop n bs) \<Longrightarrow> whole_frames cfg bs"

inductive_cases whole_frames_nonempty: "whole_frames cfg bs"

lemma scan_whole: "scan fast cfg bs k n s = (s', k', n', e) \<Longrightarrow> e = ScanDrained \<longleftrightarrow> whole_frames cfg (drop k bs)"
proof (induction fast cfg bs k n s rule: scan.induct)
  case (1 fast cfg bs k n s)
  let ?p = "parse_complete_server_data_frame (drop k bs) (cf_max_frame_payload cfg) (cf_max_message_size cfg) (cf_assume_text_utf8 cfg)"
  show ?case
  proof (cases "drop k bs = []")
    case True
    then show ?thesis using "1.prems" by (simp add: scan.simps [of fast cfg bs k] whole_frames.empty)
  next
    case ne: False
    show ?thesis
    proof (cases "\<exists>ev m. ?p = Ok (FfParsed ev m)")
      case True
      then obtain ev m where p: "?p = Ok (FfParsed ev m)" by blast
      have "(e = ScanDrained) = whole_frames cfg (drop (k + m) bs)"
        using "1.IH" [OF refl ne p refl] "1.prems" p ne by (simp add: scan.simps [of fast cfg bs k])
      moreover have "whole_frames cfg (drop k bs) = whole_frames cfg (drop m (drop k bs))"
        using p ne by (auto elim: whole_frames_nonempty intro: whole_frames.frame)
      ultimately show ?thesis by (simp add: add.commute)
    next
      case False
      then have "\<not> whole_frames cfg (drop k bs)" using ne by (auto elim: whole_frames_nonempty)
      then show ?thesis
        using "1.prems" ne False by (auto simp: scan.simps [of fast cfg bs k] Let_def split: result.split_asm FastDataFrameResult.split_asm)
    qed
  qed
qed

lemma fail_fast_blocks: "fail_fast env c e = (d, r) \<Longrightarrow> r \<noteq> Panic \<Longrightarrow> quiet c \<Longrightarrow> \<not> can_drain_ingress_directly d"
  unfolding fail_fast_eq
  by (auto simp: can_drain_ingress_directly_def quiet_def elim!: try_st_cases
      dest: queue_close_not_Open keeps_queue_close(4) [OF _ fast_close_reason])

lemma consume_not_empty: "drop k (as_slice (ws_recv_buf c)) \<noteq> [] \<Longrightarrow> \<not> can_drain_ingress_directly (consume_recv c k)"
  by (auto simp: can_drain_ingress_directly_def consume_recv_def cb_is_empty_def as_slice_def cb_consume_def Let_def split: if_split_asm)

lemma try_drain_blocks:
  assumes "quiet c" "try_drain env sk c s = (s1, d, r)" "r \<noteq> Panic" "\<And>n w. r = Ok (n, w) \<Longrightarrow> w = DrWaitForMore"
  shows "\<not> can_drain_ingress_directly d"
proof (cases "fast_blocked c")
  case True
  then show ?thesis using assms by (auto simp: try_drain_def)
next
  case False
  let ?bs = "as_slice (ws_recv_buf c)"
  obtain t k n e where sc: "scan (sk_fast sk) (ws_config c) ?bs 0 0 (sk_begin sk s) = (t, k, n, e)"
    by (metis prod_cases4)
  have h: "\<not> cb_head (ws_recv_buf c) > length (cb_data (ws_recv_buf c))"
    using assms(1) by (simp add: quiet_def rx_wf_def cb_wf_def)
  have q: "quiet (consume_recv c k)" using quiet_consume [OF assms(1)] scan_bounds [OF sc] by simp
  have ne: "e \<noteq> ScanDrained \<Longrightarrow> \<not> can_drain_ingress_directly (consume_recv c k)"
    using scan_stop [OF sc] consume_not_empty [of k c] by blast
  show ?thesis
    using assms(2-4) False h sc ne fail_fast_blocks [OF _ _ q, of env _ d r]
    by (cases e) (auto simp: try_drain_def)
qed

lemma drain_blocks:
  "ws_wf c \<Longrightarrow> drain env sk c n s = (s', d, r) \<Longrightarrow> r \<noteq> Panic \<Longrightarrow> \<not> can_drain_ingress_directly d"
proof (induction "rx_measure (cleared c)" arbitrary: c n s rule: less_induct)
  case less
  note sc = drain.simps [of env sk c n s]
  note cl = op_ok_cleared [OF less.prems(1)]
  obtain s1 c2 r1 where td: "try_drain env sk (cleared c) s = (s1, c2, r1)" by (rule prod_cases3)
  note t = op_ok_try_drain [OF cl(2) td] and tb = try_drain_blocks [OF cl(2) td]
  show ?case
  proof (cases r1)
    case r1: (Ok v1)
    obtain m dr where v1: "v1 = (m, dr)" by fastforce
    note dec = drain_decreases [OF cl(1) td [unfolded r1 v1]]
    show ?thesis
    proof (cases dr)
      case Drained
      then show ?thesis
        using less.hyps [OF dec(1) [OF Drained] quiet_ws_wf [OF t(2)]] less.prems(2,3) cl(1) td r1 v1 unfolding sc by simp
    next
      case DrWaitForMore
      then show ?thesis using less.prems(2,3) cl(1) td r1 v1 tb unfolding sc by auto
    next
      case DrFallback
      obtain c3 r3 where po: "poll_event env c2 = (c3, r3)" by fastforce
      have pl: "poll_loop env c2 = (c3, r3)" using po poll_event_quiet_eq [OF t(2), of env] by simp
      show ?thesis
      proof (cases "\<exists>ev. r3 = Ok (Some ev)")
        case True
        then obtain ev where ev: "poll_event env c2 = (c3, Ok (Some ev))" using po by auto
        have "drain env sk c3 (n + m + 1) (slow_event sk ev s1) = (s', d, r)"
          using less.prems(2) cl(1) td r1 v1 DrFallback ev unfolding sc by simp
        moreover have "ws_wf c3" using op_ok_poll [OF quiet_ws_wf [OF t(2)] po] by (simp add: op_ok_def)
        ultimately show ?thesis using less.hyps [OF dec(2) [OF ev]] less.prems(3) by blast
      next
        case False
        then show ?thesis
          using less.prems(2,3) cl(1) td r1 v1 po DrFallback poll_loop_None_blocks [OF pl] unfolding sc
          by (cases r3) (auto split: option.split_asm)
      qed
    qed
  qed (use less.prems(2,3) cl(1) td tb in \<open>auto simp: sc\<close>)
qed

lemma fail_fast_not_Ok: "fail_fast env c err \<noteq> (d, Ok v)"
  unfolding fail_fast_eq by (auto elim!: try_st_cases)

lemma feed_not_empty:
  assumes "ws_wf c" "bs \<noteq> []"
  shows "\<not> can_drain_ingress_directly (feed_recv c bs)"
proof -
  have "cb_wf (ws_recv_buf c)" using assms(1) by (simp add: ws_wf_def rx_wf_def)
  then show ?thesis
    using assms(2) by (simp add: can_drain_ingress_directly_def feed_recv_def cb_is_empty_iff [OF cb_wf_extend] as_slice_extend)
qed

lemma ingress_path_iff:
  assumes "ws_wf c" "drain_from_ingress env sk c bs s = (s', d, r)" "r \<noteq> Panic"
  shows "can_drain_ingress_directly d \<longleftrightarrow> can_drain_ingress_directly (cleared c) \<and> bs \<noteq> [] \<and> whole_frames (ws_config c) bs"
proof -
  note cl = op_ok_cleared [OF assms(1)]
  note def = assms(2) [unfolded drain_from_ingress_def cl(1), simplified]
  have wf: "ws_wf (cleared c)" "ws_wf (feed_recv (cleared c) x)" for x using quiet_ws_wf [OF cl(2)] ws_wf_feed_recv by auto
  have cfg: "ws_config (cleared c) = ws_config c" using cl(3) [of undefined] by (simp add: op_ok_def same_setup_def)
  show ?thesis
  proof (cases "can_drain_ingress_directly (cleared c) \<and> bs \<noteq> []")
    case False
    then show ?thesis
      using def drain_blocks [OF wf(1) _ assms(3), of env sk] drain_blocks [OF wf(2) _ assms(3), of env sk] by (auto split: if_split_asm)
  next
    case True
    obtain t k n e where sc: "scan (sk_fast sk) (ws_config (cleared c)) bs 0 0 (sk_begin sk s) = (t, k, n, e)" by (metis prod_cases4)
    note w = scan_whole [OF sc, simplified, unfolded cfg] and stop = scan_stop [OF sc]
    have fb: "\<not> can_drain_ingress_directly x" if "drain env sk (feed_recv (cleared c) y) 0 u = (u', x, v)" "v \<noteq> Panic" for y u u' x v
      using drain_blocks [OF wf(2) that] .
    show ?thesis
    proof (cases e)
      case ScanDrained
      then show ?thesis using def True sc w assms(3) by (simp add: try_drain_ingress_def)
    next
      case ScanWait
      then show ?thesis using def True sc w stop feed_not_empty [OF wf(1), of "drop k bs"] by (simp add: try_drain_ingress_def)
    next
      case ScanFallback
      obtain u x v where dr: "drain env sk (feed_recv (cleared c) (drop k bs)) 0 (sk_flush sk False t) = (u, x, v)" by (metis prod_cases3)
      then have "d = x" "v \<noteq> Panic" using def True sc ScanFallback assms(3) by (auto simp: try_drain_ingress_def)
      then show ?thesis using fb [OF dr] w ScanFallback by simp
    next
      case (ScanErr err)
      obtain x and v :: "(WsError, nat \<times> nat \<times> DirectDataResult) result" where f: "fail_fast env (cleared c) err = (x, v)" by fastforce
      have "d = x \<and> v \<noteq> Panic"
      proof (cases v)
        case (Ok y)
        then show ?thesis using fail_fast_not_Ok f by metis
      qed (use def True sc ScanErr f assms(3) in \<open>simp_all add: try_drain_ingress_def\<close>)
      then show ?thesis using fail_fast_blocks [OF f _ cl(2)] w ScanErr by simp
    qed (use def True sc assms(3) in \<open>simp add: try_drain_ingress_def\<close>)
  qed
qed

lemma sample_drains:
  "ws_wf c \<Longrightarrow> \<exists>evs d r. drain_data_events sample_env c = (evs, d, r) \<and> r \<noteq> Panic"
  "ws_wf c \<Longrightarrow> \<exists>out d r. drain_data_event_batches sample_env c = (out, d, r) \<and> r \<noteq> Panic"
  "ws_wf c \<Longrightarrow> \<exists>out d r. drain_data_event_batches_from_ingress sample_env c bs = (out, d, r) \<and> r \<noteq> Panic"
proof -
  assume wf: "ws_wf c"
  have ok: "r \<noteq> Panic" if "op_ok sample_env c d r" for d r using that sample_client_facts(2) by (simp add: op_ok_def)
  obtain s1 d1 r1 s2 d2 r2 s3 d3 r3 where e: "drain sample_env plain_sink c 0 [] = (s1, d1, r1)"
    "drain sample_env batch_sink c 0 (batch_new, []) = (s2, d2, r2)"
    "drain_from_ingress sample_env batch_sink c bs (batch_new, []) = (s3, d3, r3)" by (metis prod_cases3)
  show "\<exists>evs d r. drain_data_events sample_env c = (evs, d, r) \<and> r \<noteq> Panic"
    "\<exists>out d r. drain_data_event_batches sample_env c = (out, d, r) \<and> r \<noteq> Panic"
    "\<exists>out d r. drain_data_event_batches_from_ingress sample_env c bs = (out, d, r) \<and> r \<noteq> Panic"
    using e ok [OF op_ok_drain [OF wf e(1)]] ok [OF op_ok_drain [OF wf e(2)]] ok [OF op_ok_drain_from_ingress [OF wf e(3)]]
    by (auto simp: drain_data_events_def drain_data_event_batches_def drain_data_event_batches_from_ingress_def delivered_def)
qed

subsection \<open>Properties\<close>

text \<open>C3. The fast drain is an optimisation of polling: on any well-formed client, \<^verbatim>\<open>drain_data_events\<close> hands
  out exactly the data messages that repeated \<^verbatim>\<open>poll_event\<close> calls would report, in the same order; when
  it succeeds it returns the same event count and leaves the client in the very state polling leaves
  it in.  (When it fails, polling delivers the same messages and then stops too, possibly later or with
  another reason: the fast header check rejects a masked frame before its header is complete.)\<close>

theorem drain_refines_polling:
  assumes "ws_wf c" and "drain_data_events env c = (evs, d, r)" and "r \<noteq> Panic"
  shows "(\<forall>n. r = Ok n \<longrightarrow> poll_all env c 0 [] = (evs, d, Ok n)) \<and>
    (\<forall>e. r = Err e \<longrightarrow> (\<exists>d' x. poll_all env c 0 [] = (evs, d', x)))"
  using drain_polls [OF assms(1) assms(2) [unfolded drain_data_events_def] assms(3)] by auto

theorem drain_refines_polling_witness:
  "\<exists>evs d r. drain_data_events sample_env sample_text = (evs, d, r) \<and> fst (poll_all sample_env sample_text 0 []) = evs"
proof -
  obtain evs d r where e: "drain_data_events sample_env sample_text = (evs, d, r)" "r \<noteq> Panic"
    using sample_drains(1) [OF sample_text_wf] by blast
  from drain_refines_polling [OF sample_text_wf e] show ?thesis using e by (cases r) auto
qed

text \<open>C18. Batching loses, adds and reorders nothing: the batches \<^verbatim>\<open>drain_data_event_batches\<close> delivers hold, one
  after the other, exactly the messages \<^verbatim>\<open>drain_data_events\<close> delivers one by one, each batch has between
  1 and 32 of them, and the client and the result are the same; likewise for fresh input.\<close>

theorem batches_refine_events:
  assumes "drain_data_event_batches env c = (out, d, r)" and "r \<noteq> Panic"
    and "drain_data_event_batches_from_ingress env c bs = (out', d', r')" and "r' \<noteq> Panic"
  shows "batches_ok out \<and> drain_data_events env c = (concat (map ba_events out), d, r) \<and>
    batches_ok out' \<and> drain_data_events_from_ingress env c bs = (concat (map ba_events out'), d', r')"
proof -
  have idle: "fst (batch_new, []) = batch_new \<and> batches_ok (snd (batch_new, []))" by (simp add: batches_ok_def)
  have items: "batch_items (batch_new, xs) = concat (map ba_events xs)" for xs by (simp add: batch_items_def batch_new_def)
  obtain b b' where b: "drain env batch_sink c 0 (batch_new, []) = ((b, out), d, r)"
    "drain_from_ingress env batch_sink c bs (batch_new, []) = ((b', out'), d', r')"
    using assms(1,3) by (auto simp: drain_data_event_batches_def drain_data_event_batches_from_ingress_def delivered_eq)
  show ?thesis
    using batch.drain_items [OF idle b(1) assms(2)] batch.drain_from_ingress_items [OF idle b(2) assms(4)] items
    by (auto simp: drain_data_events_def drain_data_events_from_ingress_def)
qed

theorem batches_refine_events_witness:
  "\<exists>out d r. drain_data_event_batches sample_env sample_text = (out, d, r) \<and>
     drain_data_events sample_env sample_text = (concat (map ba_events out), d, r)"
  using batches_refine_events [of sample_env sample_text _ _ _ "[]"] sample_drains(2,3) [OF sample_text_wf] by metis

text \<open>C40. When the copy-free ingress path is open: after \<^verbatim>\<open>drain_data_events\<close> and after
  \<^verbatim>\<open>drain_data_event_batches\<close>, whatever they delivered, it is closed, that is, the next ingress chunk will be
  copied into the receive buffer.  After either ingress drain it is open exactly if it was open before and
  the chunk was not empty and consisted of complete data messages only, each in one frame.  So the first
  other chunk (a partial frame, a control frame, a fragment, or an empty chunk) closes the path, and no
  drain of any kind opens it again: the frame parser is not idle after it has been run on an empty buffer.\<close>

theorem ingress_path_lost:
  assumes "ws_wf c"
  shows "(\<forall>evs d r. drain_data_events env c = (evs, d, r) \<and> r \<noteq> Panic \<longrightarrow> \<not> can_drain_ingress_directly d) \<and>
    (\<forall>bats d r. drain_data_event_batches env c = (bats, d, r) \<and> r \<noteq> Panic \<longrightarrow> \<not> can_drain_ingress_directly d) \<and>
    (\<forall>evs d r. drain_data_events_from_ingress env c bs = (evs, d, r) \<and> r \<noteq> Panic \<longrightarrow>
       can_drain_ingress_directly d = (can_drain_ingress_directly (cleared c) \<and> bs \<noteq> [] \<and> whole_frames (ws_config c) bs)) \<and>
    (\<forall>bats d r. drain_data_event_batches_from_ingress env c bs = (bats, d, r) \<and> r \<noteq> Panic \<longrightarrow>
       can_drain_ingress_directly d = (can_drain_ingress_directly (cleared c) \<and> bs \<noteq> [] \<and> whole_frames (ws_config c) bs))"
  using drain_blocks [OF assms, of env plain_sink] drain_blocks [OF assms, of env batch_sink]
    ingress_path_iff [OF assms, of env plain_sink] ingress_path_iff [OF assms, of env batch_sink]
  unfolding drain_data_events_def drain_data_event_batches_def drain_data_events_from_ingress_def
    drain_data_event_batches_from_ingress_def delivered_eq
  by blast

text \<open>A whole frame leaves the path of an idle client open; a lone header byte closes it.\<close>

theorem ingress_path_lost_witness:
  "can_drain_ingress_directly sample_client \<and>
   \<not> can_drain_ingress_directly (fst (snd (drain_data_events sample_env sample_client))) \<and>
   can_drain_ingress_directly (fst (snd (drain_data_event_batches_from_ingress sample_env sample_client [0x82, 1, 7]))) \<and>
   \<not> can_drain_ingress_directly (fst (snd (drain_data_event_batches_from_ingress sample_env sample_client [0x82])))"
proof (intro conjI)
  have cl: "cleared sample_client = sample_client" by (simp add: cleared_None sample_client_def)
  show dir: "can_drain_ingress_directly sample_client"
    by (simp add: can_drain_ingress_directly_def sample_client_def is_idle_def with_capacity_def cb_is_empty_def)
  note lost = ingress_path_lost [OF sample_client_wf, of sample_env]
  obtain evs d r where e: "drain_data_events sample_env sample_client = (evs, d, r)" "r \<noteq> Panic"
    using sample_drains(1) [OF sample_client_wf] by blast
  then show "\<not> can_drain_ingress_directly (fst (snd (drain_data_events sample_env sample_client)))" using lost by auto
  have ingress: "can_drain_ingress_directly (fst (snd (drain_data_event_batches_from_ingress sample_env sample_client bs))) =
      (bs \<noteq> [] \<and> whole_frames (ws_config sample_client) bs)" for bs
  proof -
    obtain bats d r where "drain_data_event_batches_from_ingress sample_env sample_client bs = (bats, d, r)" "r \<noteq> Panic"
      using sample_drains(3) [OF sample_client_wf] by blast
    then show ?thesis using lost [of bs] dir cl by auto
  qed
  have "whole_frames (ws_config sample_client) [0x82, 1, 7]"
    by (rule whole_frames.frame [where n = 3 and ev = "DBinary [7]"])
      (simp_all add: whole_frames.empty parse_complete_server_data_frame_def parse_server_data_header_fast_def fast_len_def sample_client_def
        ws_config_new_def USIZE_MAX_def DEFAULT_MAX_MESSAGE_SIZE_def DEFAULT_MAX_FRAME_PAYLOAD_def Let_def)
  then show "can_drain_ingress_directly (fst (snd (drain_data_event_batches_from_ingress sample_env sample_client [0x82, 1, 7])))"
    using ingress by simp
  have "\<not> whole_frames (ws_config sample_client) [0x82]"
    by (auto elim: whole_frames.cases simp: parse_complete_server_data_frame_def parse_server_data_header_fast_def)
  then show "\<not> can_drain_ingress_directly (fst (snd (drain_data_event_batches_from_ingress sample_env sample_client [0x82])))"
    using ingress by simp
qed

end
