(* ===== verification/Observability.thy ===== *)
theory Observability
  imports Prelude
begin

text \<open>
  The opt-in observability types of \<^verbatim>\<open>observability.rs\<close>: the deterministic sampling rate, the timing
  metadata of a message, and the latency histograms.

  The clocks of the standard library are a parameter: \<open>ck_elapsed k\<close> is what the \<open>k\<close>-th reading of the
  process clock gives in nanoseconds since the start, \<open>ck_epoch k\<close> what a reading of the system clock
  gives since the epoch (\<open>None\<close> if it is set before 1970).  A function that reads a clock takes the
  number of readings made so far and returns it increased.  The histogram type of the crate
  \<^verbatim>\<open>hdrhistogram\<close> is the type variable \<open>'h\<close>, its operations the record \<open>HistOps\<close>.
\<close>

subsection \<open>Sampling\<close>

definition MAX_BASIS_POINTS :: u16 where
  "MAX_BASIS_POINTS = 10000"

record ObservabilitySampleRate =
  sr_basis_points :: u16

definition always :: ObservabilitySampleRate where
  "always = \<lparr>sr_basis_points = MAX_BASIS_POINTS\<rparr>"

definition never :: ObservabilitySampleRate where
  "never = \<lparr>sr_basis_points = 0\<rparr>"

definition from_basis_points :: "u16 \<Rightarrow> ObservabilitySampleRate" where
  "from_basis_points bp = \<lparr>sr_basis_points = (if bp > MAX_BASIS_POINTS then MAX_BASIS_POINTS else bp)\<rparr>"

definition basis_points :: "ObservabilitySampleRate \<Rightarrow> u16" where
  "basis_points r = sr_basis_points r"

definition should_sample_sequence :: "ObservabilitySampleRate \<Rightarrow> u64 \<Rightarrow> bool" where
  "should_sample_sequence r sequence =
     (if sr_basis_points r = 0 then False
      else if sr_basis_points r \<ge> MAX_BASIS_POINTS then True
      else
        let bucket = (sequence * 0x9E3779B97F4A7C15) mod 10000
        in bucket < ucast (sr_basis_points r))"

subsection \<open>Clocks\<close>

record Clock =
  ck_elapsed :: "nat \<Rightarrow> nat"
  ck_epoch :: "nat \<Rightarrow> nat option"

definition monotonic_nanos_now :: "Clock \<Rightarrow> nat \<Rightarrow> u64 \<times> nat" where
  "monotonic_nanos_now clk k = (word_of_nat (min (ck_elapsed clk k) (2 ^ 64 - 1)), k + 1)"

definition unix_epoch_nanos_now :: "Clock \<Rightarrow> nat \<Rightarrow> u64 \<times> nat" where
  "unix_epoch_nanos_now clk k =
     (case ck_epoch clk k of None \<Rightarrow> (0, k + 1) | Some d \<Rightarrow> (word_of_nat (min d (2 ^ 63 - 1)), k + 1))"

definition saturating_add :: "'a::len word \<Rightarrow> 'a word \<Rightarrow> 'a word" where
  "saturating_add a b = (if unat a + unat b \<ge> 2 ^ LENGTH('a) then - 1 else a + b)"

definition saturating_sub :: "'a::len word \<Rightarrow> 'a word \<Rightarrow> 'a word" where
  "saturating_sub a b = (if a < b then 0 else a - b)"

definition checked_sub :: "'a::len word \<Rightarrow> 'a word \<Rightarrow> 'a word option" where
  "checked_sub a b = (if a < b then None else Some (a - b))"

subsection \<open>Message metadata\<close>

record DataEventMeta =
  dm_sampled :: bool
  dm_source_recv_time_nanos :: u64
  dm_recv_sequence :: u64
  dm_transport_recv_mono_nanos :: u64
  dm_tls_plaintext_ready_mono_nanos :: u64
  dm_ws_payload_ready_mono_nanos :: u64
  dm_message_sequence :: u64
  dm_tls_plaintext_chunk_index :: u16
  dm_chunk_message_index :: u16
  dm_chunk_prior_sink_service_nanos :: u64

definition recv_observed_now :: "Clock \<Rightarrow> nat \<Rightarrow> u64 \<Rightarrow> bool \<Rightarrow> DataEventMeta \<times> nat" where
  "recv_observed_now clk k recv_sequence sampled =
     (let (source, k) = (if sampled then unix_epoch_nanos_now clk k else (0, k));
          (transport, k) = (if sampled then monotonic_nanos_now clk k else (0, k))
      in (\<lparr>dm_sampled = sampled, dm_source_recv_time_nanos = source, dm_recv_sequence = recv_sequence,
           dm_transport_recv_mono_nanos = transport, dm_tls_plaintext_ready_mono_nanos = 0,
           dm_ws_payload_ready_mono_nanos = 0, dm_message_sequence = 0, dm_tls_plaintext_chunk_index = 0,
           dm_chunk_message_index = 0, dm_chunk_prior_sink_service_nanos = 0\<rparr>, k))"

definition plaintext_ready_at :: "DataEventMeta \<Rightarrow> u64 \<Rightarrow> u16 \<Rightarrow> DataEventMeta" where
  "plaintext_ready_at m mono_nanos chunk_index =
     m\<lparr>dm_tls_plaintext_ready_mono_nanos := (if dm_sampled m then mono_nanos else 0),
       dm_tls_plaintext_chunk_index := chunk_index, dm_chunk_message_index := 0,
       dm_chunk_prior_sink_service_nanos := 0\<rparr>"

definition plaintext_ready_now :: "Clock \<Rightarrow> nat \<Rightarrow> DataEventMeta \<Rightarrow> u16 \<Rightarrow> DataEventMeta \<times> nat" where
  "plaintext_ready_now clk k m chunk_index =
     (let (mono_nanos, k) = (if dm_sampled m then monotonic_nanos_now clk k else (0, k))
      in (plaintext_ready_at m mono_nanos chunk_index, k))"

definition ws_payload_ready_now :: "Clock \<Rightarrow> nat \<Rightarrow> DataEventMeta \<Rightarrow> u16 \<Rightarrow> u64 \<Rightarrow> DataEventMeta \<times> nat" where
  "ws_payload_ready_now clk k m chunk_message_index message_sequence =
     (let (mono_nanos, k) = (if dm_sampled m then monotonic_nanos_now clk k else (0, k))
      in (m\<lparr>dm_ws_payload_ready_mono_nanos := mono_nanos, dm_message_sequence := message_sequence,
            dm_chunk_message_index := chunk_message_index\<rparr>, k))"

definition with_chunk_prior_sink_service_nanos :: "DataEventMeta \<Rightarrow> u64 \<Rightarrow> DataEventMeta" where
  "with_chunk_prior_sink_service_nanos m nanos =
     m\<lparr>dm_chunk_prior_sink_service_nanos := (if dm_sampled m then nanos else 0)\<rparr>"

definition recv_to_plaintext_nanos :: "DataEventMeta \<Rightarrow> u64 option" where
  "recv_to_plaintext_nanos m =
     (if \<not> dm_sampled m then None
      else checked_sub (dm_tls_plaintext_ready_mono_nanos m) (dm_transport_recv_mono_nanos m))"

definition plaintext_to_ws_nanos :: "DataEventMeta \<Rightarrow> u64 option" where
  "plaintext_to_ws_nanos m =
     (if \<not> dm_sampled m then None
      else checked_sub (dm_ws_payload_ready_mono_nanos m) (dm_tls_plaintext_ready_mono_nanos m))"

definition recv_to_ws_nanos :: "DataEventMeta \<Rightarrow> u64 option" where
  "recv_to_ws_nanos m =
     (if \<not> dm_sampled m then None
      else checked_sub (dm_ws_payload_ready_mono_nanos m) (dm_transport_recv_mono_nanos m))"

definition chunk_prior_sink_service_nanos :: "DataEventMeta \<Rightarrow> u64 option" where
  "chunk_prior_sink_service_nanos m = (if dm_sampled m then Some (dm_chunk_prior_sink_service_nanos m) else None)"

definition minus_prior :: "u64 option \<Rightarrow> u64 option \<Rightarrow> u64 option" where
  "minus_prior whole prior =
     (case whole of None \<Rightarrow> None | Some t \<Rightarrow> (case prior of None \<Rightarrow> None | Some p \<Rightarrow> checked_sub t p))"

definition plaintext_to_ws_excluding_prior_sink_nanos :: "DataEventMeta \<Rightarrow> u64 option" where
  "plaintext_to_ws_excluding_prior_sink_nanos m = minus_prior (plaintext_to_ws_nanos m) (chunk_prior_sink_service_nanos m)"

definition recv_to_ws_excluding_prior_sink_nanos :: "DataEventMeta \<Rightarrow> u64 option" where
  "recv_to_ws_excluding_prior_sink_nanos m = minus_prior (recv_to_ws_nanos m) (chunk_prior_sink_service_nanos m)"

subsection \<open>Histograms\<close>

record 'h HistOps =
  ho_new :: "u64 \<Rightarrow> u64 \<Rightarrow> u8 \<Rightarrow> (string, 'h) result"
  ho_saturating_record :: "u64 \<Rightarrow> 'h \<Rightarrow> 'h"
  ho_reset :: "'h \<Rightarrow> 'h"
  ho_len :: "'h \<Rightarrow> nat"

definition LATENCY_HISTOGRAM_LOWEST_NS :: u64 where "LATENCY_HISTOGRAM_LOWEST_NS = 1"

definition LATENCY_HISTOGRAM_HIGHEST_NS :: u64 where "LATENCY_HISTOGRAM_HIGHEST_NS = 60000000000"

definition LATENCY_HISTOGRAM_SIGFIG :: u8 where "LATENCY_HISTOGRAM_SIGFIG = 3"

record 'h StageHistogram =
  sh_hist :: 'h
  sh_total_nanos :: u64

definition stage_new :: "'h HistOps \<Rightarrow> (string, 'h StageHistogram) result" where
  "stage_new ops =
     and_then (ho_new ops LATENCY_HISTOGRAM_LOWEST_NS LATENCY_HISTOGRAM_HIGHEST_NS LATENCY_HISTOGRAM_SIGFIG)
       (\<lambda>h. Ok \<lparr>sh_hist = h, sh_total_nanos = 0\<rparr>)"

definition stage_record :: "'h HistOps \<Rightarrow> u64 \<Rightarrow> 'h StageHistogram \<Rightarrow> 'h StageHistogram" where
  "stage_record ops nanos s =
     s\<lparr>sh_hist := ho_saturating_record ops (max nanos 1) (sh_hist s),
       sh_total_nanos := saturating_add (sh_total_nanos s) nanos\<rparr>"

definition stage_reset :: "'h HistOps \<Rightarrow> 'h StageHistogram \<Rightarrow> 'h StageHistogram" where
  "stage_reset ops s = s\<lparr>sh_hist := ho_reset ops (sh_hist s), sh_total_nanos := 0\<rparr>"

datatype MessageChunkPosition = First | Queued

definition position_from_meta :: "DataEventMeta \<Rightarrow> MessageChunkPosition" where
  "position_from_meta m = (if dm_chunk_message_index m = 0 then First else Queued)"

record 'h LatencyHistogramSet =
  lh_recv_to_plaintext :: "'h StageHistogram"
  lh_plaintext_to_ws_all :: "'h StageHistogram"
  lh_plaintext_to_ws_first :: "'h StageHistogram"
  lh_plaintext_to_ws_queued :: "'h StageHistogram"
  lh_plaintext_to_ws_excl_all :: "'h StageHistogram"
  lh_plaintext_to_ws_excl_first :: "'h StageHistogram"
  lh_plaintext_to_ws_excl_queued :: "'h StageHistogram"
  lh_recv_to_ws_all :: "'h StageHistogram"
  lh_recv_to_ws_first :: "'h StageHistogram"
  lh_recv_to_ws_queued :: "'h StageHistogram"
  lh_recv_to_ws_excl_all :: "'h StageHistogram"
  lh_recv_to_ws_excl_first :: "'h StageHistogram"
  lh_recv_to_ws_excl_queued :: "'h StageHistogram"
  lh_chunk_prior_queued :: "'h StageHistogram"

text \<open>Fourteen times \<^verbatim>\<open>StageHistogram::new()?\<close>; the first failure is returned.\<close>

definition set_new :: "'h HistOps \<Rightarrow> (string, 'h LatencyHistogramSet) result" where
  "set_new ops =
     and_then (stage_new ops) (\<lambda>a. and_then (stage_new ops) (\<lambda>b. and_then (stage_new ops) (\<lambda>c.
     and_then (stage_new ops) (\<lambda>d. and_then (stage_new ops) (\<lambda>e. and_then (stage_new ops) (\<lambda>f.
     and_then (stage_new ops) (\<lambda>g. and_then (stage_new ops) (\<lambda>h. and_then (stage_new ops) (\<lambda>i.
     and_then (stage_new ops) (\<lambda>j. and_then (stage_new ops) (\<lambda>k. and_then (stage_new ops) (\<lambda>l.
     and_then (stage_new ops) (\<lambda>m. and_then (stage_new ops) (\<lambda>n.
       Ok \<lparr>lh_recv_to_plaintext = a, lh_plaintext_to_ws_all = b, lh_plaintext_to_ws_first = c,
           lh_plaintext_to_ws_queued = d, lh_plaintext_to_ws_excl_all = e, lh_plaintext_to_ws_excl_first = f,
           lh_plaintext_to_ws_excl_queued = g, lh_recv_to_ws_all = h, lh_recv_to_ws_first = i,
           lh_recv_to_ws_queued = j, lh_recv_to_ws_excl_all = k, lh_recv_to_ws_excl_first = l,
           lh_recv_to_ws_excl_queued = m, lh_chunk_prior_queued = n\<rparr>))))))))))))))"

definition set_record_plaintext_chunk :: "'h HistOps \<Rightarrow> DataEventMeta \<Rightarrow> 'h LatencyHistogramSet \<Rightarrow> 'h LatencyHistogramSet" where
  "set_record_plaintext_chunk ops m s =
     (case recv_to_plaintext_nanos m of
        None \<Rightarrow> s
      | Some nanos \<Rightarrow> s\<lparr>lh_recv_to_plaintext := stage_record ops nanos (lh_recv_to_plaintext s)\<rparr>)"

definition set_record_message :: "'h HistOps \<Rightarrow> DataEventMeta \<Rightarrow> 'h LatencyHistogramSet \<Rightarrow> 'h LatencyHistogramSet" where
  "set_record_message ops m s =
     (let position = position_from_meta m;
          s = (case plaintext_to_ws_nanos m of
                 None \<Rightarrow> s
               | Some nanos \<Rightarrow>
                   let s = s\<lparr>lh_plaintext_to_ws_all := stage_record ops nanos (lh_plaintext_to_ws_all s)\<rparr>
                   in case position of
                        First \<Rightarrow> s\<lparr>lh_plaintext_to_ws_first := stage_record ops nanos (lh_plaintext_to_ws_first s)\<rparr>
                      | Queued \<Rightarrow> s\<lparr>lh_plaintext_to_ws_queued := stage_record ops nanos (lh_plaintext_to_ws_queued s)\<rparr>);
          s = (case plaintext_to_ws_excluding_prior_sink_nanos m of
                 None \<Rightarrow> s
               | Some nanos \<Rightarrow>
                   let s = s\<lparr>lh_plaintext_to_ws_excl_all := stage_record ops nanos (lh_plaintext_to_ws_excl_all s)\<rparr>
                   in case position of
                        First \<Rightarrow> s\<lparr>lh_plaintext_to_ws_excl_first := stage_record ops nanos (lh_plaintext_to_ws_excl_first s)\<rparr>
                      | Queued \<Rightarrow> s\<lparr>lh_plaintext_to_ws_excl_queued := stage_record ops nanos (lh_plaintext_to_ws_excl_queued s)\<rparr>);
          s = (case recv_to_ws_nanos m of
                 None \<Rightarrow> s
               | Some nanos \<Rightarrow>
                   let s = s\<lparr>lh_recv_to_ws_all := stage_record ops nanos (lh_recv_to_ws_all s)\<rparr>
                   in case position of
                        First \<Rightarrow> s\<lparr>lh_recv_to_ws_first := stage_record ops nanos (lh_recv_to_ws_first s)\<rparr>
                      | Queued \<Rightarrow> s\<lparr>lh_recv_to_ws_queued := stage_record ops nanos (lh_recv_to_ws_queued s)\<rparr>);
          s = (case recv_to_ws_excluding_prior_sink_nanos m of
                 None \<Rightarrow> s
               | Some nanos \<Rightarrow>
                   let s = s\<lparr>lh_recv_to_ws_excl_all := stage_record ops nanos (lh_recv_to_ws_excl_all s)\<rparr>
                   in case position of
                        First \<Rightarrow> s\<lparr>lh_recv_to_ws_excl_first := stage_record ops nanos (lh_recv_to_ws_excl_first s)\<rparr>
                      | Queued \<Rightarrow> s\<lparr>lh_recv_to_ws_excl_queued := stage_record ops nanos (lh_recv_to_ws_excl_queued s)\<rparr>)
      in case (position, chunk_prior_sink_service_nanos m) of
           (Queued, Some nanos) \<Rightarrow> s\<lparr>lh_chunk_prior_queued := stage_record ops nanos (lh_chunk_prior_queued s)\<rparr>
         | _ \<Rightarrow> s)"

definition set_reset :: "'h HistOps \<Rightarrow> 'h LatencyHistogramSet \<Rightarrow> 'h LatencyHistogramSet" where
  "set_reset ops s =
     (let r = stage_reset ops
      in \<lparr>lh_recv_to_plaintext = r (lh_recv_to_plaintext s), lh_plaintext_to_ws_all = r (lh_plaintext_to_ws_all s),
          lh_plaintext_to_ws_first = r (lh_plaintext_to_ws_first s), lh_plaintext_to_ws_queued = r (lh_plaintext_to_ws_queued s),
          lh_plaintext_to_ws_excl_all = r (lh_plaintext_to_ws_excl_all s),
          lh_plaintext_to_ws_excl_first = r (lh_plaintext_to_ws_excl_first s),
          lh_plaintext_to_ws_excl_queued = r (lh_plaintext_to_ws_excl_queued s), lh_recv_to_ws_all = r (lh_recv_to_ws_all s),
          lh_recv_to_ws_first = r (lh_recv_to_ws_first s), lh_recv_to_ws_queued = r (lh_recv_to_ws_queued s),
          lh_recv_to_ws_excl_all = r (lh_recv_to_ws_excl_all s), lh_recv_to_ws_excl_first = r (lh_recv_to_ws_excl_first s),
          lh_recv_to_ws_excl_queued = r (lh_recv_to_ws_excl_queued s), lh_chunk_prior_queued = r (lh_chunk_prior_queued s)\<rparr>)"

record 'h LatencyHistograms =
  lh_cumulative :: "'h LatencyHistogramSet"
  lh_interval :: "'h LatencyHistogramSet"

definition hist_new :: "'h HistOps \<Rightarrow> (string, 'h LatencyHistograms) result" where
  "hist_new ops =
     and_then (set_new ops) (\<lambda>cu. and_then (set_new ops) (\<lambda>iv. Ok \<lparr>lh_cumulative = cu, lh_interval = iv\<rparr>))"

definition record_plaintext_chunk :: "'h HistOps \<Rightarrow> DataEventMeta \<Rightarrow> 'h LatencyHistograms \<Rightarrow> 'h LatencyHistograms" where
  "record_plaintext_chunk ops m h =
     h\<lparr>lh_cumulative := set_record_plaintext_chunk ops m (lh_cumulative h),
       lh_interval := set_record_plaintext_chunk ops m (lh_interval h)\<rparr>"

definition record_message :: "'h HistOps \<Rightarrow> DataEventMeta \<Rightarrow> 'h LatencyHistograms \<Rightarrow> 'h LatencyHistograms" where
  "record_message ops m h =
     h\<lparr>lh_cumulative := set_record_message ops m (lh_cumulative h),
       lh_interval := set_record_message ops m (lh_interval h)\<rparr>"

text \<open>What \<^verbatim>\<open>write_prometheus_interval_and_reset\<close> does to the recorder after the text is written.\<close>

definition interval_reset :: "'h HistOps \<Rightarrow> 'h LatencyHistograms \<Rightarrow> 'h LatencyHistograms" where
  "interval_reset ops h = h\<lparr>lh_interval := set_reset ops (lh_interval h)\<rparr>"

subsection \<open>Arithmetic\<close>

lemma unat_saturating_add: "unat (saturating_add a b) = min (2 ^ LENGTH('a) - 1) (unat a + unat (b :: 'a::len word))"
proof (cases "unat a + unat b \<ge> 2 ^ LENGTH('a)")
  case True
  then show ?thesis by (simp add: saturating_add_def unsigned_minus_1_eq_mask mask_eq_exp_minus_1)
next
  case False
  then show ?thesis by (simp add: saturating_add_def unat_word_ariths)
qed

lemma unat_monotonic: "unat (fst (monotonic_nanos_now clk k)) = min (ck_elapsed clk k) (2 ^ 64 - 1)"
  by (simp add: monotonic_nanos_now_def unat_of_nat_mod)

lemma unat_saturating_sub: "unat (saturating_sub a b) = unat a - unat b"
  by (auto simp: saturating_sub_def word_less_nat_alt unat_sub word_le_nat_alt)

lemma checked_sub_Some_iff: "checked_sub a b = Some c \<longleftrightarrow> unat b \<le> unat a \<and> unat c = unat a - unat b"
  by (auto simp: checked_sub_def word_less_nat_alt unat_sub word_le_nat_alt word_unat_eq_iff)

subsection \<open>The recorder\<close>

text \<open>What is relied on of the histogram crate: a new or reset histogram is empty, and recording a value
  adds one sample.\<close>

definition hist_lawful :: "'h HistOps \<Rightarrow> bool" where
  "hist_lawful ops \<longleftrightarrow>
     (\<forall>lo hi sf h. ho_new ops lo hi sf = Ok h \<longrightarrow> ho_len ops h = 0) \<and>
     (\<forall>v h. ho_len ops (ho_saturating_record ops v h) = ho_len ops h + 1) \<and>
     (\<forall>h. ho_len ops (ho_reset ops h) = 0)"

datatype RecorderOp = RecChunk DataEventMeta | RecMessage DataEventMeta | RecScrape

fun recorder_step :: "'h HistOps \<Rightarrow> RecorderOp \<Rightarrow> 'h LatencyHistograms \<Rightarrow> 'h LatencyHistograms" where
  "recorder_step ops (RecChunk m) h = record_plaintext_chunk ops m h"
| "recorder_step ops (RecMessage m) h = record_message ops m h"
| "recorder_step ops RecScrape h = interval_reset ops h"

text \<open>The samples of a stage split into those of first and of queued messages.\<close>

definition stage_split :: "'h HistOps \<Rightarrow> 'h StageHistogram \<Rightarrow> 'h StageHistogram \<Rightarrow> 'h StageHistogram \<Rightarrow> bool" where
  "stage_split ops a f q \<longleftrightarrow>
     ho_len ops (sh_hist a) = ho_len ops (sh_hist f) + ho_len ops (sh_hist q) \<and>
     unat (sh_total_nanos a) = min (2 ^ 64 - 1) (unat (sh_total_nanos f) + unat (sh_total_nanos q))"

definition set_split :: "'h HistOps \<Rightarrow> 'h LatencyHistogramSet \<Rightarrow> bool" where
  "set_split ops s \<longleftrightarrow>
     stage_split ops (lh_plaintext_to_ws_all s) (lh_plaintext_to_ws_first s) (lh_plaintext_to_ws_queued s) \<and>
     stage_split ops (lh_plaintext_to_ws_excl_all s) (lh_plaintext_to_ws_excl_first s) (lh_plaintext_to_ws_excl_queued s) \<and>
     stage_split ops (lh_recv_to_ws_all s) (lh_recv_to_ws_first s) (lh_recv_to_ws_queued s) \<and>
     stage_split ops (lh_recv_to_ws_excl_all s) (lh_recv_to_ws_excl_first s) (lh_recv_to_ws_excl_queued s)"

lemma stage_split_record:
  assumes "hist_lawful ops" "stage_split ops a f q"
  shows "stage_split ops (stage_record ops n a) (stage_record ops n f) q"
    "stage_split ops (stage_record ops n a) f (stage_record ops n q)"
  using assms by (simp_all add: stage_split_def stage_record_def hist_lawful_def unat_saturating_add)

lemma stage_split_reset:
  "hist_lawful ops \<Longrightarrow> stage_split ops (stage_reset ops a) (stage_reset ops f) (stage_reset ops q)"
  by (simp add: stage_split_def stage_reset_def hist_lawful_def)

lemma stage_new_Ok:
  "hist_lawful ops \<Longrightarrow> stage_new ops = Ok s \<Longrightarrow> ho_len ops (sh_hist s) = 0 \<and> sh_total_nanos s = 0"
  by (auto simp: stage_new_def hist_lawful_def and_then_eq_Ok_iff)

lemma set_split_new: "hist_lawful ops \<Longrightarrow> set_new ops = Ok s \<Longrightarrow> set_split ops s"
  by (cases "stage_new ops") (auto simp: set_new_def set_split_def stage_split_def dest: stage_new_Ok)

lemma set_split_message:
  "hist_lawful ops \<Longrightarrow> set_split ops s \<Longrightarrow> set_split ops (set_record_message ops m s)"
  by (cases "position_from_meta m")
    (auto simp: set_record_message_def set_split_def Let_def intro: stage_split_record split: option.split)

lemma set_split_chunk: "set_split ops s \<Longrightarrow> set_split ops (set_record_plaintext_chunk ops m s)"
  by (auto simp: set_record_plaintext_chunk_def set_split_def split: option.split)

lemma set_split_reset: "hist_lawful ops \<Longrightarrow> set_split ops (set_reset ops s)"
  by (simp add: set_reset_def set_split_def stage_split_reset Let_def)

lemma recorder_split:
  assumes "hist_lawful ops" "set_split ops (lh_cumulative h)" "set_split ops (lh_interval h)"
  shows "set_split ops (lh_cumulative (fold (recorder_step ops) rs h)) \<and> set_split ops (lh_interval (fold (recorder_step ops) rs h))"
  using assms(2,3)
proof (induction rs arbitrary: h)
  case (Cons r rs)
  have "set_split ops (lh_cumulative (recorder_step ops r h)) \<and> set_split ops (lh_interval (recorder_step ops r h))"
    using Cons.prems assms(1)
    by (cases r) (simp_all add: record_plaintext_chunk_def record_message_def interval_reset_def set_split_chunk
        set_split_message set_split_reset)
  then show ?case using Cons.IH by simp
qed simp

subsection \<open>Samples across scrapes\<close>

text \<open>The fourteen stages of a set, the number of samples in each, and the interval sets that the scrapes of
  a run have read.\<close>

definition stages :: "'h LatencyHistogramSet \<Rightarrow> 'h StageHistogram list" where
  "stages s =
     [lh_recv_to_plaintext s, lh_plaintext_to_ws_all s, lh_plaintext_to_ws_first s, lh_plaintext_to_ws_queued s,
      lh_plaintext_to_ws_excl_all s, lh_plaintext_to_ws_excl_first s, lh_plaintext_to_ws_excl_queued s,
      lh_recv_to_ws_all s, lh_recv_to_ws_first s, lh_recv_to_ws_queued s,
      lh_recv_to_ws_excl_all s, lh_recv_to_ws_excl_first s, lh_recv_to_ws_excl_queued s, lh_chunk_prior_queued s]"

definition counts :: "'h HistOps \<Rightarrow> 'h LatencyHistogramSet \<Rightarrow> nat list" where
  "counts ops s = map (\<lambda>st. ho_len ops (sh_hist st)) (stages s)"

fun scraped :: "'h HistOps \<Rightarrow> RecorderOp list \<Rightarrow> 'h LatencyHistograms \<Rightarrow> 'h LatencyHistogramSet list" where
  "scraped ops [] h = []"
| "scraped ops (RecScrape # rs) h = lh_interval h # scraped ops rs (recorder_step ops RecScrape h)"
| "scraped ops (r # rs) h = scraped ops rs (recorder_step ops r h)"

lemma length_counts [simp]: "length (counts ops s) = 14"
  by (simp add: counts_def stages_def)

lemma stage_len:
  assumes "hist_lawful ops"
  shows "ho_len ops (sh_hist (stage_record ops n st)) = Suc (ho_len ops (sh_hist st))"
    "ho_len ops (sh_hist (stage_reset ops st)) = 0"
  using assms by (simp_all add: stage_record_def stage_reset_def hist_lawful_def)

lemma counts_chunk:
  "hist_lawful ops \<Longrightarrow> map2 (+) (counts ops (set_record_plaintext_chunk ops m s)) (counts ops t) =
     map2 (+) (counts ops s) (counts ops (set_record_plaintext_chunk ops m t))"
  by (simp add: counts_def stages_def set_record_plaintext_chunk_def stage_len split: option.split)

lemma counts_message:
  "hist_lawful ops \<Longrightarrow> map2 (+) (counts ops (set_record_message ops m s)) (counts ops t) =
     map2 (+) (counts ops s) (counts ops (set_record_message ops m t))"
  by (cases "position_from_meta m"; cases "plaintext_to_ws_nanos m"; cases "plaintext_to_ws_excluding_prior_sink_nanos m";
      cases "recv_to_ws_nanos m"; cases "recv_to_ws_excluding_prior_sink_nanos m"; cases "chunk_prior_sink_service_nanos m")
    (simp_all add: counts_def stages_def set_record_message_def stage_len)

lemma counts_reset: "hist_lawful ops \<Longrightarrow> counts ops (set_reset ops s) = replicate 14 0"
  by (simp add: counts_def stages_def set_reset_def stage_len Let_def numeral_eq_Suc)

lemma counts_new: "hist_lawful ops \<Longrightarrow> set_new ops = Ok s \<Longrightarrow> counts ops s = replicate 14 0"
  by (cases "stage_new ops") (auto simp: set_new_def counts_def stages_def numeral_eq_Suc dest: stage_new_Ok)

lemma recorder_conserves:
  assumes "hist_lawful ops" "i < 14"
  shows "counts ops (lh_cumulative (fold (recorder_step ops) rs h)) ! i + counts ops (lh_interval h) ! i =
    counts ops (lh_cumulative h) ! i + (\<Sum>s\<leftarrow>scraped ops rs h. counts ops s ! i) +
    counts ops (lh_interval (fold (recorder_step ops) rs h)) ! i"
proof (induction rs arbitrary: h)
  case (Cons r rs)
  have at_i: "xs ! i + ys ! i = us ! i + vs ! i" if "map2 (+) xs ys = map2 (+) us vs"
    and "length xs = 14" "length ys = 14" "length us = 14" "length vs = 14" for xs ys us vs :: "nat list"
    using arg_cong [OF that(1), of "\<lambda>zs. zs ! i"] that(2-5) assms(2) by simp
  show ?case
  proof (cases r)
    case (RecChunk m)
    then show ?thesis using Cons.IH [of "recorder_step ops r h"] at_i [OF counts_chunk [OF assms(1), of m "lh_cumulative h" "lh_interval h"]]
      by (simp add: record_plaintext_chunk_def)
  next
    case (RecMessage m)
    then show ?thesis using Cons.IH [of "recorder_step ops r h"] at_i [OF counts_message [OF assms(1), of m "lh_cumulative h" "lh_interval h"]]
      by (simp add: record_message_def)
  next
    case RecScrape
    then show ?thesis using Cons.IH [of "recorder_step ops r h"] assms(2) by (simp add: interval_reset_def counts_reset [OF assms(1)])
  qed
qed simp

subsection \<open>Properties\<close>

text \<open>Sampling rates: construction clamps to 100 percent; the two ends never and always sample; and the
  choice is nested: a message sampled at some rate is sampled at every higher rate, so raising the
  rate only adds messages.\<close>

lemma sampling_monotone:
  "basis_points (from_basis_points bp) = min bp 10000 \<and>
   \<not> should_sample_sequence never n \<and> should_sample_sequence always n \<and>
   (bp \<le> bp' \<and> should_sample_sequence (from_basis_points bp) n \<longrightarrow> should_sample_sequence (from_basis_points bp') n)"
proof -
  have "should_sample_sequence (from_basis_points bp') n"
    if "bp \<le> bp'" "should_sample_sequence (from_basis_points bp) n"
    using that
    by (auto simp: should_sample_sequence_def from_basis_points_def MAX_BASIS_POINTS_def Let_def word_le_nat_alt word_less_nat_alt
        unat_ucast_mod split: if_split_asm)
  then show ?thesis
    by (auto simp: basis_points_def from_basis_points_def MAX_BASIS_POINTS_def never_def always_def should_sample_sequence_def min_def)
qed

text \<open>C35. The latency recorder accounts for every sample exactly once: through any sequence of recordings and
  scrapes, both the cumulative and the interval set keep, for each of their four message stages, as
  many samples under \<^verbatim>\<open>all\<close> as under \<^verbatim>\<open>first\<close> and \<^verbatim>\<open>queued\<close> together, and the (saturating) sums agree.  In each of
  the fourteen stages, the samples of the whole lifetime are those that the scrapes have read and those
  of the current interval: a scrape neither loses a sample nor reports it twice.\<close>

theorem recorder_accounts:
  assumes "hist_lawful ops" and "hist_new ops = Ok h"
  shows "set_split ops (lh_cumulative (fold (recorder_step ops) rs h)) \<and>
    set_split ops (lh_interval (fold (recorder_step ops) rs h)) \<and>
    (\<forall>i<14. counts ops (lh_cumulative (fold (recorder_step ops) rs h)) ! i =
       (\<Sum>s\<leftarrow>scraped ops rs h. counts ops s ! i) + counts ops (lh_interval (fold (recorder_step ops) rs h)) ! i)"
proof -
  have new: "set_new ops = Ok (lh_cumulative h)" "set_new ops = Ok (lh_interval h)"
    using assms(2) by (auto simp: hist_new_def and_then_eq_Ok_iff)
  show ?thesis
    using recorder_split [OF assms(1)] new [THEN set_split_new [OF assms(1)]]
      recorder_conserves [OF assms(1), of _ rs h] new [THEN counts_new [OF assms(1)]] by simp
qed

text \<open>A histogram that keeps its samples in a list.\<close>

definition list_hist :: "u64 list HistOps" where
  "list_hist = \<lparr>ho_new = (\<lambda>_ _ _. Ok []), ho_saturating_record = (\<lambda>v h. v # h), ho_reset = (\<lambda>_. []), ho_len = length\<rparr>"

theorem recorder_accounts_witness:
  "\<exists>h. hist_new list_hist = Ok h \<and> set_split list_hist (lh_cumulative (fold (recorder_step list_hist) [RecScrape] h))"
proof -
  have "hist_lawful list_hist" by (simp add: hist_lawful_def list_hist_def)
  moreover obtain h where "hist_new list_hist = Ok h"
    by (simp add: hist_new_def set_new_def stage_new_def list_hist_def)
  ultimately show ?thesis using recorder_accounts by blast
qed

end
