(* ===== verification/Ws_Marked.thy ===== *)
theory Ws_Marked
  imports Ws_Deliver Observability
begin

text \<open>
  The marked data drains of \<^verbatim>\<open>ws/client.rs\<close>: the drains of the theory \<open>Ws_Drain\<close> with sinks that stamp
  every message with an index, a sequence number and timing metadata, one by one or in batches.
\<close>

subsection \<open>Marked events and batches\<close>

datatype MarkedDataEvent = MText bytes DataEventMeta | MBinary bytes DataEventMeta

fun marked_meta :: "MarkedDataEvent \<Rightarrow> DataEventMeta" where
  "marked_meta (MText p m) = m"
| "marked_meta (MBinary p m) = m"

definition MARKED_DATA_EVENT_BATCH_CAPACITY :: nat where
  "MARKED_DATA_EVENT_BATCH_CAPACITY = 32"

record MarkedDataEventBatch =
  mb_events :: "MarkedDataEvent list"
  mb_chunk_end :: bool

definition mb_new :: MarkedDataEventBatch where
  "mb_new = \<lparr>mb_events = [], mb_chunk_end = False\<rparr>"

definition mb_is_full :: "MarkedDataEventBatch \<Rightarrow> bool" where
  "mb_is_full b \<longleftrightarrow> length (mb_events b) = MARKED_DATA_EVENT_BATCH_CAPACITY"

definition mb_is_empty :: "MarkedDataEventBatch \<Rightarrow> bool" where
  "mb_is_empty b \<longleftrightarrow> mb_events b = []"

definition mb_push :: "MarkedDataEventBatch \<Rightarrow> MarkedDataEvent \<Rightarrow> MarkedDataEventBatch \<times> bool" where
  "mb_push b ev = (if mb_is_full b then (b, False) else (b\<lparr>mb_events := mb_events b @ [ev]\<rparr>, True))"

definition mb_single :: "MarkedDataEvent \<Rightarrow> MarkedDataEventBatch" where
  "mb_single ev = (fst (mb_push mb_new ev))\<lparr>mb_chunk_end := True\<rparr>"

definition mb_text_count :: "MarkedDataEventBatch \<Rightarrow> nat" where
  "mb_text_count b = length (filter (\<lambda>e. case e of MText _ _ \<Rightarrow> True | MBinary _ _ \<Rightarrow> False) (mb_events b))"

definition mb_binary_count :: "MarkedDataEventBatch \<Rightarrow> nat" where
  "mb_binary_count b = length (mb_events b) - mb_text_count b"

subsection \<open>Marking\<close>

text \<open>The counters a marked drain threads through by mutable reference, and the clock readings so far.\<close>

record Mark =
  mk_index :: u16
  mk_sequence :: u64
  mk_prior :: u64
  mk_clock :: nat

definition next_marked_meta :: "Clock \<Rightarrow> DataEventMeta \<Rightarrow> Mark \<Rightarrow> DataEventMeta \<times> Mark" where
  "next_marked_meta clk base mk =
     (let (m, k) = ws_payload_ready_now clk (mk_clock mk) base (mk_index mk) (mk_sequence mk);
          m = with_chunk_prior_sink_service_nanos m (mk_prior mk)
      in (m, mk\<lparr>mk_index := saturating_add (mk_index mk) 1, mk_sequence := saturating_add (mk_sequence mk) 1,
               mk_clock := k\<rparr>))"

definition emit_timed :: "Clock \<Rightarrow> 'e \<Rightarrow> bool \<Rightarrow> Mark \<times> 'e list \<Rightarrow> Mark \<times> 'e list" where
  "emit_timed clk event sampled s =
     (case s of (mk, out) \<Rightarrow>
        if sampled then
          (let (sink_started, k) = monotonic_nanos_now clk (mk_clock mk);
               (sink_ended, k) = monotonic_nanos_now clk k;
               service_nanos = saturating_sub sink_ended sink_started
           in (mk\<lparr>mk_prior := saturating_add (mk_prior mk) service_nanos, mk_clock := k\<rparr>, out @ [event]))
        else (mk, out @ [event]))"

definition emit_marked_event :: "Clock \<Rightarrow> MarkedDataEvent \<Rightarrow> bool \<Rightarrow> Mark \<times> MarkedDataEvent list \<Rightarrow> Mark \<times> MarkedDataEvent list" where
  "emit_marked_event = emit_timed"

definition emit_marked_text :: "Clock \<Rightarrow> bytes \<Rightarrow> DataEventMeta \<Rightarrow> Mark \<times> MarkedDataEvent list \<Rightarrow> Mark \<times> MarkedDataEvent list" where
  "emit_marked_text clk payload base s =
     (let (m, mk) = next_marked_meta clk base (fst s)
      in emit_marked_event clk (MText payload m) (dm_sampled m) (mk, snd s))"

definition emit_marked_binary :: "Clock \<Rightarrow> bytes \<Rightarrow> DataEventMeta \<Rightarrow> Mark \<times> MarkedDataEvent list \<Rightarrow> Mark \<times> MarkedDataEvent list" where
  "emit_marked_binary clk payload base s =
     (let (m, mk) = next_marked_meta clk base (fst s)
      in emit_marked_event clk (MBinary payload m) (dm_sampled m) (mk, snd s))"

fun emit_marked :: "Clock \<Rightarrow> DataEventMeta \<Rightarrow> DataEvent \<Rightarrow> Mark \<times> MarkedDataEvent list \<Rightarrow> Mark \<times> MarkedDataEvent list" where
  "emit_marked clk base (DText t) s = emit_marked_text clk t base s"
| "emit_marked clk base (DBinary b) s = emit_marked_binary clk b base s"

definition marked_sink :: "Clock \<Rightarrow> DataEventMeta \<Rightarrow> (Mark \<times> MarkedDataEvent list) Sink" where
  "marked_sink clk base =
     \<lparr>sk_begin = (\<lambda>s. s), sk_fast = emit_marked clk base, sk_flush = (\<lambda>_ s. s), sk_slow = emit_marked clk base\<rparr>"

subsection \<open>Marked batches\<close>

type_synonym MarkedBatching = "Mark \<times> MarkedDataEventBatch \<times> MarkedDataEventBatch list"

definition emit_marked_event_batch ::
  "Clock \<Rightarrow> MarkedDataEventBatch \<Rightarrow> bool \<Rightarrow> Mark \<times> MarkedDataEventBatch list \<Rightarrow> Mark \<times> MarkedDataEventBatch list" where
  "emit_marked_event_batch = emit_timed"

definition flush_marked_data_event_batch :: "Clock \<Rightarrow> bool \<Rightarrow> bool \<Rightarrow> MarkedBatching \<Rightarrow> MarkedBatching" where
  "flush_marked_data_event_batch clk chunk_end sampled s =
     (case s of (mk, batch, out) \<Rightarrow>
        if mb_is_empty batch then s
        else
          let ready = batch\<lparr>mb_chunk_end := chunk_end\<rparr>;
              (mk, out) = emit_marked_event_batch clk ready sampled (mk, out)
          in (mk, mb_new, out))"

fun mark_event :: "DataEvent \<Rightarrow> DataEventMeta \<Rightarrow> MarkedDataEvent" where
  "mark_event (DText t) m = MText t m"
| "mark_event (DBinary b) m = MBinary b m"

definition marked_batch_fast :: "Clock \<Rightarrow> DataEventMeta \<Rightarrow> DataEvent \<Rightarrow> MarkedBatching \<Rightarrow> MarkedBatching" where
  "marked_batch_fast clk base ev s =
     (let (mk, batch, out) =
            (if mb_is_full (fst (snd s)) then flush_marked_data_event_batch clk False (dm_sampled base) s else s);
          (m, mk) = next_marked_meta clk base mk
      in (mk, fst (mb_push batch (mark_event ev m)), out))"

definition marked_batch_slow :: "Clock \<Rightarrow> DataEventMeta \<Rightarrow> DataEvent \<Rightarrow> MarkedBatching \<Rightarrow> MarkedBatching" where
  "marked_batch_slow clk base ev s =
     (case s of (mk, batch, out) \<Rightarrow>
        let (m, mk) = next_marked_meta clk base mk;
            (mk, out) = emit_marked_event_batch clk (mb_single (mark_event ev m)) (dm_sampled m) (mk, out)
        in (mk, batch, out))"

definition marked_batch_sink :: "Clock \<Rightarrow> DataEventMeta \<Rightarrow> MarkedBatching Sink" where
  "marked_batch_sink clk base =
     \<lparr>sk_begin = (\<lambda>(mk, _, out). (mk, mb_new, out)), sk_fast = marked_batch_fast clk base,
      sk_flush = (\<lambda>chunk_end. flush_marked_data_event_batch clk chunk_end (dm_sampled base)),
      sk_slow = marked_batch_slow clk base\<rparr>"

subsection \<open>The public functions\<close>

text \<open>The mark at the start of a call: index and sink time start at zero, the sequence number continues.\<close>

definition fresh_mark :: "u64 \<Rightarrow> nat \<Rightarrow> Mark" where
  "fresh_mark message_sequence k = \<lparr>mk_index = 0, mk_sequence = message_sequence, mk_prior = 0, mk_clock = k\<rparr>"

definition try_drain_data_events_marked where
  "try_drain_data_events_marked env clk base s c = try_drain env (marked_sink clk base) c s"

definition drain_data_events_marked_from_index ::
  "Env \<Rightarrow> Clock \<Rightarrow> DataEventMeta \<Rightarrow> Mark \<Rightarrow> WsClient \<Rightarrow> (Mark \<times> MarkedDataEvent list) \<times> WsClient \<times> (WsError, nat) result" where
  "drain_data_events_marked_from_index env clk base mk c = drain env (marked_sink clk base) c 0 (mk, [])"

definition drain_data_events_marked ::
  "Env \<Rightarrow> Clock \<Rightarrow> nat \<Rightarrow> DataEventMeta \<Rightarrow> WsClient \<Rightarrow> (Mark \<times> MarkedDataEvent list) \<times> WsClient \<times> (WsError, nat) result" where
  "drain_data_events_marked env clk k base c =
     drain_data_events_marked_from_index env clk base (fresh_mark (dm_message_sequence base) k) c"

definition try_drain_ingress_data_events_marked where
  "try_drain_ingress_data_events_marked env clk base s bs c = try_drain_ingress env (marked_sink clk base) c bs s"

definition drain_data_events_from_ingress_marked_with_message_sequence ::
  "Env \<Rightarrow> Clock \<Rightarrow> nat \<Rightarrow> bytes \<Rightarrow> DataEventMeta \<Rightarrow> u64 \<Rightarrow> WsClient \<Rightarrow>
     (Mark \<times> MarkedDataEvent list) \<times> WsClient \<times> (WsError, nat) result" where
  "drain_data_events_from_ingress_marked_with_message_sequence env clk k bs base message_sequence c =
     drain_from_ingress env (marked_sink clk base) c bs (fresh_mark message_sequence k, [])"

definition drain_data_events_from_ingress_marked ::
  "Env \<Rightarrow> Clock \<Rightarrow> nat \<Rightarrow> bytes \<Rightarrow> DataEventMeta \<Rightarrow> WsClient \<Rightarrow>
     (Mark \<times> MarkedDataEvent list) \<times> WsClient \<times> (WsError, nat) result" where
  "drain_data_events_from_ingress_marked env clk k bs base c =
     drain_data_events_from_ingress_marked_with_message_sequence env clk k bs base (dm_message_sequence base) c"

definition try_drain_data_event_batches_marked where
  "try_drain_data_event_batches_marked env clk base s c = try_drain env (marked_batch_sink clk base) c s"

definition drain_data_event_batches_marked_from_index ::
  "Env \<Rightarrow> Clock \<Rightarrow> DataEventMeta \<Rightarrow> Mark \<Rightarrow> WsClient \<Rightarrow> MarkedBatching \<times> WsClient \<times> (WsError, nat) result" where
  "drain_data_event_batches_marked_from_index env clk base mk c =
     drain env (marked_batch_sink clk base) c 0 (mk, mb_new, [])"

definition drain_data_event_batches_marked ::
  "Env \<Rightarrow> Clock \<Rightarrow> nat \<Rightarrow> DataEventMeta \<Rightarrow> WsClient \<Rightarrow> MarkedBatching \<times> WsClient \<times> (WsError, nat) result" where
  "drain_data_event_batches_marked env clk k base c =
     drain_data_event_batches_marked_from_index env clk base (fresh_mark (dm_message_sequence base) k) c"

definition try_drain_ingress_data_event_batches_marked where
  "try_drain_ingress_data_event_batches_marked env clk base s bs c = try_drain_ingress env (marked_batch_sink clk base) c bs s"

definition drain_data_event_batches_from_ingress_marked_with_message_sequence ::
  "Env \<Rightarrow> Clock \<Rightarrow> nat \<Rightarrow> bytes \<Rightarrow> DataEventMeta \<Rightarrow> u64 \<Rightarrow> WsClient \<Rightarrow> MarkedBatching \<times> WsClient \<times> (WsError, nat) result" where
  "drain_data_event_batches_from_ingress_marked_with_message_sequence env clk k bs base message_sequence c =
     drain_from_ingress env (marked_batch_sink clk base) c bs (fresh_mark message_sequence k, mb_new, [])"

definition drain_data_event_batches_from_ingress_marked ::
  "Env \<Rightarrow> Clock \<Rightarrow> nat \<Rightarrow> bytes \<Rightarrow> DataEventMeta \<Rightarrow> WsClient \<Rightarrow> MarkedBatching \<times> WsClient \<times> (WsError, nat) result" where
  "drain_data_event_batches_from_ingress_marked env clk k bs base c =
     drain_data_event_batches_from_ingress_marked_with_message_sequence env clk k bs base (dm_message_sequence base) c"

subsection \<open>What the metadata says\<close>

definition steady_clock :: "Clock \<Rightarrow> bool" where
  "steady_clock clk \<longleftrightarrow> (\<forall>i j. i \<le> j \<longrightarrow> ck_elapsed clk i \<le> ck_elapsed clk j)"

definition clock_at :: "Clock \<Rightarrow> nat \<Rightarrow> nat" where
  "clock_at clk k = unat (fst (monotonic_nanos_now clk k))"

text \<open>A mark on a message: the transport fields are those of the chunk, timestamps only if sampled.\<close>

definition stamped :: "DataEventMeta \<Rightarrow> DataEventMeta \<Rightarrow> bool" where
  "stamped base m \<longleftrightarrow>
     m = base\<lparr>dm_ws_payload_ready_mono_nanos := dm_ws_payload_ready_mono_nanos m, dm_message_sequence := dm_message_sequence m,
              dm_chunk_message_index := dm_chunk_message_index m,
              dm_chunk_prior_sink_service_nanos := dm_chunk_prior_sink_service_nanos m\<rparr> \<and>
     (\<not> dm_sampled base \<longrightarrow> dm_ws_payload_ready_mono_nanos m = 0 \<and> dm_chunk_prior_sink_service_nanos m = 0)"

lemma stamped_keeps:
  assumes "stamped base m"
  shows "dm_sampled m = dm_sampled base"
    and "dm_tls_plaintext_ready_mono_nanos m = dm_tls_plaintext_ready_mono_nanos base"
  using assms unfolding stamped_def by (auto dest: arg_cong [where f = dm_sampled] arg_cong [where f = dm_tls_plaintext_ready_mono_nanos])

definition numbered :: "DataEventMeta \<Rightarrow> u64 \<Rightarrow> DataEventMeta list \<Rightarrow> bool" where
  "numbered base seq ms \<longleftrightarrow>
     (\<forall>i < length ms. stamped base (ms ! i) \<and> unat (dm_chunk_message_index (ms ! i)) = min (2 ^ 16 - 1) i \<and>
        unat (dm_message_sequence (ms ! i)) = min (2 ^ 64 - 1) (unat seq + i))"

text \<open>The time spent in earlier sink calls of a chunk is part of the time since its plaintext was ready.\<close>

definition timed :: "DataEventMeta \<Rightarrow> DataEventMeta \<Rightarrow> bool" where
  "timed base m \<longleftrightarrow> unat (dm_tls_plaintext_ready_mono_nanos base) + unat (dm_chunk_prior_sink_service_nanos m) \<le>
     unat (dm_ws_payload_ready_mono_nanos m)"

definition marks_ok :: "Clock \<Rightarrow> DataEventMeta \<Rightarrow> u64 \<Rightarrow> bool \<Rightarrow> Mark \<Rightarrow> DataEventMeta list \<Rightarrow> bool" where
  "marks_ok clk base seq timing mk ms \<longleftrightarrow>
     numbered base seq ms \<and> unat (mk_index mk) = min (2 ^ 16 - 1) (length ms) \<and>
     unat (mk_sequence mk) = min (2 ^ 64 - 1) (unat seq + length ms) \<and>
     (timing \<longrightarrow> steady_clock clk \<and> dm_sampled base \<and> list_all (timed base) ms \<and>
        unat (dm_tls_plaintext_ready_mono_nanos base) + unat (mk_prior mk) \<le> clock_at clk (mk_clock mk))"

lemma clock_at_mono: "steady_clock clk \<Longrightarrow> i \<le> j \<Longrightarrow> clock_at clk i \<le> clock_at clk j"
  unfolding clock_at_def unat_monotonic steady_clock_def by (meson min.mono order_refl)

lemma numbered_snoc:
  assumes "numbered base seq ms" "stamped base m" "unat (dm_chunk_message_index m) = min (2 ^ 16 - 1) (length ms)"
    and "unat (dm_message_sequence m) = min (2 ^ 64 - 1) (unat seq + length ms)"
  shows "numbered base seq (ms @ [m])"
  using assms by (auto simp: numbered_def nth_append less_Suc_eq)

lemma marks_ok_next:
  assumes "marks_ok clk base seq timing mk ms" "next_marked_meta clk base mk = (m, mk')"
  shows "marks_ok clk base seq timing mk' (ms @ [m])" "dm_sampled m = dm_sampled base"
proof -
  let ?r = "if dm_sampled base then fst (monotonic_nanos_now clk (mk_clock mk)) else 0"
  have m: "m = base\<lparr>dm_ws_payload_ready_mono_nanos := ?r, dm_message_sequence := mk_sequence mk,
      dm_chunk_message_index := mk_index mk, dm_chunk_prior_sink_service_nanos := (if dm_sampled base then mk_prior mk else 0)\<rparr>"
    and mk': "mk' = mk\<lparr>mk_index := saturating_add (mk_index mk) 1, mk_sequence := saturating_add (mk_sequence mk) 1,
      mk_clock := mk_clock mk + (if dm_sampled base then 1 else 0)\<rparr>"
    using assms(2) by (auto simp: next_marked_meta_def ws_payload_ready_now_def with_chunk_prior_sink_service_nanos_def Let_def
        monotonic_nanos_now_def split: if_split_asm)
  show "dm_sampled m = dm_sampled base" by (simp add: m)
  have num: "numbered base seq (ms @ [m])"
    using assms(1) by (intro numbered_snoc) (auto simp: m marks_ok_def stamped_def)
  have "timing \<Longrightarrow> timed base m" using assms(1) by (auto simp: marks_ok_def timed_def m clock_at_def)
  moreover have "timing \<Longrightarrow> clock_at clk (mk_clock mk) \<le> clock_at clk (mk_clock mk')"
    using assms(1) clock_at_mono [of clk "mk_clock mk" "mk_clock mk'"] by (simp add: marks_ok_def mk')
  ultimately show "marks_ok clk base seq timing mk' (ms @ [m])"
    using assms(1) num by (auto simp: marks_ok_def unat_saturating_add mk')
qed

lemma marks_ok_emit:
  assumes "marks_ok clk base seq timing mk ms" "emit_timed clk e sampled (mk, out) = (mk', out')"
  shows "marks_ok clk base seq timing mk' ms \<and> out' = out @ [e]"
proof (cases sampled)
  case True
  let ?k = "mk_clock mk"
  have mk': "mk' = mk\<lparr>mk_prior := saturating_add (mk_prior mk)
        (saturating_sub (fst (monotonic_nanos_now clk (?k + 1))) (fst (monotonic_nanos_now clk ?k))), mk_clock := ?k + 2\<rparr>"
    "out' = out @ [e]"
    using assms(2) True by (auto simp: emit_timed_def Let_def monotonic_nanos_now_def)
  have "unat (mk_prior mk') \<le> unat (mk_prior mk) + (clock_at clk (?k + 1) - clock_at clk ?k)"
    by (simp add: mk' unat_saturating_add unat_saturating_sub clock_at_def)
  moreover have "timing \<Longrightarrow> clock_at clk ?k \<le> clock_at clk (?k + 1) \<and> clock_at clk (?k + 1) \<le> clock_at clk (?k + 2)"
    using assms(1) clock_at_mono [of clk] by (simp add: marks_ok_def)
  ultimately show ?thesis using assms(1) by (auto simp: marks_ok_def mk')
qed (use assms in \<open>simp add: emit_timed_def\<close>)

lemma marks_ok_fresh:
  assumes "timing \<Longrightarrow> steady_clock clk \<and> dm_sampled base \<and> unat (dm_tls_plaintext_ready_mono_nanos base) \<le> clock_at clk k"
  shows "marks_ok clk base seq timing (fresh_mark seq k) []"
  using assms unat_u64_less [of seq] by (simp add: marks_ok_def numbered_def fresh_mark_def)

fun unmark :: "MarkedDataEvent \<Rightarrow> DataEvent" where
  "unmark (MText t m) = DText t"
| "unmark (MBinary b m) = DBinary b"

lemma emit_marked_ok:
  assumes "marks_ok clk base seq timing mk (map marked_meta out)" "emit_marked clk base ev (mk, out) = (mk', out')"
  shows "marks_ok clk base seq timing mk' (map marked_meta out') \<and> map unmark out' = map unmark out @ [ev]"
proof -
  obtain m mk1 where n: "next_marked_meta clk base mk = (m, mk1)" by fastforce
  then have "emit_timed clk (mark_event ev m) (dm_sampled m) (mk1, out) = (mk', out')"
    using assms(2) by (cases ev) (simp_all add: emit_marked_text_def emit_marked_binary_def emit_marked_event_def)
  from marks_ok_emit [OF marks_ok_next(1) [OF assms(1) n] this] show ?thesis by (cases ev) auto
qed

interpretation marked: event_sink "marked_sink clk base" "\<lambda>s. map unmark (snd s)"
  "\<lambda>s. marks_ok clk base seq timing (fst s) (map marked_meta (snd s))"
  "\<lambda>s. marks_ok clk base seq timing (fst s) (map marked_meta (snd s))"
  for clk base seq timing
proof unfold_locales
  fix s ev
  assume ok: "marks_ok clk base seq timing (fst s) (map marked_meta (snd s))"
  obtain mk' out' where "emit_marked clk base ev (fst s, snd s) = (mk', out')" by fastforce
  then show "map unmark (snd (sk_fast (marked_sink clk base) ev s)) = map unmark (snd s) @ [ev] \<and>
      marks_ok clk base seq timing (fst (sk_fast (marked_sink clk base) ev s)) (map marked_meta (snd (sk_fast (marked_sink clk base) ev s)))"
    "map unmark (snd (sk_slow (marked_sink clk base) ev s)) = map unmark (snd s) @ [ev] \<and>
      marks_ok clk base seq timing (fst (sk_slow (marked_sink clk base) ev s)) (map marked_meta (snd (sk_slow (marked_sink clk base) ev s)))"
    using emit_marked_ok [OF ok] by (simp_all add: marked_sink_def)
qed (simp_all add: marked_sink_def)

definition mb_all :: "MarkedDataEventBatch \<times> MarkedDataEventBatch list \<Rightarrow> MarkedDataEvent list" where
  "mb_all s = concat (map mb_events (snd s)) @ mb_events (fst s)"

definition mbatches_ok :: "MarkedDataEventBatch list \<Rightarrow> bool" where
  "mbatches_ok out \<longleftrightarrow>
     list_all (\<lambda>b. mb_events b \<noteq> [] \<and> length (mb_events b) \<le> MARKED_DATA_EVENT_BATCH_CAPACITY) out"

definition mbatch_filling :: "Clock \<Rightarrow> DataEventMeta \<Rightarrow> u64 \<Rightarrow> bool \<Rightarrow> MarkedBatching \<Rightarrow> bool" where
  "mbatch_filling clk base seq timing s \<longleftrightarrow>
     length (mb_events (fst (snd s))) \<le> MARKED_DATA_EVENT_BATCH_CAPACITY \<and> mb_chunk_end (fst (snd s)) = False \<and>
     mbatches_ok (snd (snd s)) \<and> marks_ok clk base seq timing (fst s) (map marked_meta (mb_all (snd s)))"

definition mbatch_idle :: "Clock \<Rightarrow> DataEventMeta \<Rightarrow> u64 \<Rightarrow> bool \<Rightarrow> MarkedBatching \<Rightarrow> bool" where
  "mbatch_idle clk base seq timing s \<longleftrightarrow> fst (snd s) = mb_new \<and> mbatch_filling clk base seq timing s"

lemma flush_marked_ok:
  assumes "mbatch_filling clk base seq timing s"
  shows "mbatch_idle clk base seq timing (flush_marked_data_event_batch clk b sampled s) \<and>
    mb_all (snd (flush_marked_data_event_batch clk b sampled s)) = mb_all (snd s)"
proof -
  obtain mk batch out where s: "s = (mk, batch, out)" by (rule prod_cases3)
  obtain mk' out' where e: "emit_timed clk (batch\<lparr>mb_chunk_end := b\<rparr>) sampled (mk, out) = (mk', out')" by fastforce
  note ok = assms [unfolded s mbatch_filling_def, simplified]
  show ?thesis
  proof (cases "mb_is_empty batch")
    case True
    then have "batch = mb_new" using ok by (cases batch) (simp add: mb_is_empty_def mb_new_def)
    then show ?thesis using assms True by (simp add: s flush_marked_data_event_batch_def mbatch_idle_def)
  next
    case False
    have m: "marks_ok clk base seq timing mk' (map marked_meta (mb_all (batch, out)))" "out' = out @ [batch\<lparr>mb_chunk_end := b\<rparr>]"
      using marks_ok_emit [OF _ e] ok by auto
    then show ?thesis
      using False ok e
      by (auto simp: s flush_marked_data_event_batch_def emit_marked_event_batch_def mbatch_idle_def mbatch_filling_def mb_all_def
          mb_new_def mbatches_ok_def mb_is_empty_def MARKED_DATA_EVENT_BATCH_CAPACITY_def)
  qed
qed

lemma push_marked_ok:
  assumes "mbatch_filling clk base seq timing (mk, batch, out)" "\<not> mb_is_full batch" "next_marked_meta clk base mk = (m, mk')"
  shows "mbatch_filling clk base seq timing (mk', fst (mb_push batch (mark_event ev m)), out) \<and>
    map unmark (mb_all (fst (mb_push batch (mark_event ev m)), out)) = map unmark (mb_all (batch, out)) @ [ev]"
proof -
  have mm: "marked_meta (mark_event ev m) = m" "unmark (mark_event ev m) = ev" by (cases ev; simp)+
  show ?thesis
    using assms marks_ok_next(1) [OF _ assms(3), of seq timing "map marked_meta (mb_all (batch, out))"]
    by (auto simp: mbatch_filling_def mb_push_def mb_is_full_def mb_all_def mm)
qed

lemma marked_batch_fast_ok:
  assumes "mbatch_filling clk base seq timing s"
  shows "mbatch_filling clk base seq timing (marked_batch_fast clk base ev s) \<and>
    map unmark (mb_all (snd (marked_batch_fast clk base ev s))) = map unmark (mb_all (snd s)) @ [ev]"
proof -
  define t where "t = (if mb_is_full (fst (snd s)) then flush_marked_data_event_batch clk False (dm_sampled base) s else s)"
  obtain mk batch out where t: "t = (mk, batch, out)" by (rule prod_cases3)
  obtain m mk' where n: "next_marked_meta clk base mk = (m, mk')" by fastforce
  have "mbatch_filling clk base seq timing t" "mb_all (snd t) = mb_all (snd s)"
    using flush_marked_ok [OF assms] assms by (auto simp: t_def mbatch_idle_def)
  moreover have "\<not> mb_is_full batch"
    using flush_marked_ok [OF assms, of False "dm_sampled base"] t
    by (auto simp: t_def mbatch_idle_def mb_new_def mb_is_full_def MARKED_DATA_EVENT_BATCH_CAPACITY_def split: if_split_asm)
  moreover have "marked_batch_fast clk base ev s = (mk', fst (mb_push batch (mark_event ev m)), out)"
    using t n by (simp add: marked_batch_fast_def t_def [symmetric])
  ultimately show ?thesis using push_marked_ok [OF _ _ n, of seq timing batch out ev] t by simp
qed

lemma marked_batch_slow_ok:
  assumes "mbatch_idle clk base seq timing s"
  shows "mbatch_idle clk base seq timing (marked_batch_slow clk base ev s) \<and>
    map unmark (mb_all (snd (marked_batch_slow clk base ev s))) = map unmark (mb_all (snd s)) @ [ev]"
proof -
  obtain mk out where s: "s = (mk, mb_new, out)" using assms by (cases s) (auto simp: mbatch_idle_def)
  obtain m mk1 where n: "next_marked_meta clk base mk = (m, mk1)" by fastforce
  obtain mk' out' where e: "emit_timed clk (mb_single (mark_event ev m)) (dm_sampled m) (mk1, out) = (mk', out')" by fastforce
  have mm: "marked_meta (mark_event ev m) = m" "unmark (mark_event ev m) = ev" by (cases ev; simp)+
  have ok: "marks_ok clk base seq timing mk (map marked_meta (mb_all (mb_new, out)))"
    using assms by (simp add: s mbatch_idle_def mbatch_filling_def)
  have "out' = out @ [mb_single (mark_event ev m)]"
    "marks_ok clk base seq timing mk' (map marked_meta (mb_all (mb_new, out)) @ [m])"
    using marks_ok_emit [OF marks_ok_next(1) [OF ok n] e] by auto
  then show ?thesis
    using assms n e
    by (auto simp: s marked_batch_slow_def emit_marked_event_batch_def mbatch_idle_def mbatch_filling_def mb_all_def mb_new_def
        mb_single_def mb_push_def mb_is_full_def mbatches_ok_def MARKED_DATA_EVENT_BATCH_CAPACITY_def mm)
qed

interpretation marked_batch: event_sink "marked_batch_sink clk base" "\<lambda>s. map unmark (mb_all (snd s))"
  "mbatch_idle clk base seq timing" "mbatch_filling clk base seq timing"
  for clk base seq timing
proof unfold_locales
  fix s
  assume "mbatch_idle clk base seq timing s"
  then show "map unmark (mb_all (snd (sk_begin (marked_batch_sink clk base) s))) = map unmark (mb_all (snd s)) \<and>
      mbatch_filling clk base seq timing (sk_begin (marked_batch_sink clk base) s)"
    by (cases s) (simp add: marked_batch_sink_def mbatch_idle_def)
qed (use marked_batch_fast_ok flush_marked_ok marked_batch_slow_ok in \<open>auto simp: marked_batch_sink_def\<close>)

definition sample_clock :: Clock where
  "sample_clock = \<lparr>ck_elapsed = (\<lambda>k. 10 * k), ck_epoch = (\<lambda>k. Some k)\<rparr>"

definition sample_meta :: DataEventMeta where
  "sample_meta = fst (plaintext_ready_now sample_clock 1 (fst (recv_observed_now sample_clock 0 7 True)) 0)"

lemma sample_results:
  assumes "ws_wf c"
  obtains mk1 out1 d1 r1 mk2 out2 d2 r2 mk3 b3 out3 d3 r3 mk4 b4 out4 d4 r4 where
    "drain_data_events_marked sample_env clk k base c = ((mk1, out1), d1, r1)" "r1 \<noteq> Panic"
    "drain_data_events_from_ingress_marked_with_message_sequence sample_env clk k bs base seq c = ((mk2, out2), d2, r2)" "r2 \<noteq> Panic"
    "drain_data_event_batches_marked sample_env clk k base c = ((mk3, b3, out3), d3, r3)" "r3 \<noteq> Panic"
    "drain_data_event_batches_from_ingress_marked_with_message_sequence sample_env clk k bs base seq c = ((mk4, b4, out4), d4, r4)" "r4 \<noteq> Panic"
proof -
  have ok: "r \<noteq> Panic" if "op_ok sample_env c d r" for d and r :: "(WsError, nat) result"
    using that sample_client_facts(2) by (simp add: op_ok_def)
  show thesis
    using that op_ok_drain [OF assms] op_ok_drain_from_ingress [OF assms] ok
    unfolding drain_data_events_marked_def drain_data_events_marked_from_index_def
      drain_data_events_from_ingress_marked_with_message_sequence_def drain_data_event_batches_marked_def
      drain_data_event_batches_marked_from_index_def drain_data_event_batches_from_ingress_marked_with_message_sequence_def
    by (metis prod.exhaust)
qed

subsection \<open>Properties\<close>

text \<open>C19. Marking observes without interfering: the marked drains, over the buffer and over fresh input, one
  by one and in batches, hand out the same messages in the same order as the unmarked drains and give
  the same result and client state; batches hold between 1 and 32 messages.\<close>

theorem marked_transparent:
  assumes "drain_data_events_marked env clk k base c = ((mk1, out1), d1, r1)" and "r1 \<noteq> Panic"
    and "drain_data_events_from_ingress_marked_with_message_sequence env clk k bs base seq c = ((mk2, out2), d2, r2)" and "r2 \<noteq> Panic"
    and "drain_data_event_batches_marked env clk k base c = ((mk3, b3, out3), d3, r3)" and "r3 \<noteq> Panic"
    and "drain_data_event_batches_from_ingress_marked_with_message_sequence env clk k bs base seq c = ((mk4, b4, out4), d4, r4)" and "r4 \<noteq> Panic"
  shows "drain_data_events env c = (map unmark out1, d1, r1) \<and>
    drain_data_events_from_ingress env c bs = (map unmark out2, d2, r2) \<and>
    mbatches_ok out3 \<and> drain_data_events env c = (map unmark (concat (map mb_events out3)), d3, r3) \<and>
    mbatches_ok out4 \<and> drain_data_events_from_ingress env c bs = (map unmark (concat (map mb_events out4)), d4, r4)"
proof -
  note fresh = marks_ok_fresh [of False clk base k, simplified]
  have idle: "mbatch_idle clk base seq False (fresh_mark seq k, mb_new, [])" for seq
    using fresh by (simp add: mbatch_idle_def mbatch_filling_def mb_new_def mbatches_ok_def mb_all_def)
  have all: "mb_all (mb_new, out) = concat (map mb_events out)" for out by (simp add: mb_all_def mb_new_def)
  note defs = drain_data_events_marked_def drain_data_events_marked_from_index_def
    drain_data_events_from_ingress_marked_with_message_sequence_def drain_data_event_batches_marked_def
    drain_data_event_batches_marked_from_index_def drain_data_event_batches_from_ingress_marked_with_message_sequence_def
  have 1: "drain_data_events env c = (map unmark out1, d1, r1)"
    using marked.drain_items [OF _ assms(1) [unfolded defs] assms(2), of "dm_message_sequence base" False] fresh by (simp add: drain_data_events_def)
  have 2: "drain_data_events_from_ingress env c bs = (map unmark out2, d2, r2)"
    using marked.drain_from_ingress_items [OF _ assms(3) [unfolded defs] assms(4), of seq False] fresh
    by (simp add: drain_data_events_from_ingress_def)
  have 3: "mbatches_ok out3 \<and> drain_data_events env c = (map unmark (concat (map mb_events out3)), d3, r3)"
    using marked_batch.drain_items [OF idle assms(5) [unfolded defs] assms(6)] all
    by (simp add: drain_data_events_def mbatch_idle_def mbatch_filling_def)
  have 4: "mbatches_ok out4 \<and> drain_data_events_from_ingress env c bs = (map unmark (concat (map mb_events out4)), d4, r4)"
    using marked_batch.drain_from_ingress_items [OF idle assms(7) [unfolded defs] assms(8)] all
    by (simp add: drain_data_events_from_ingress_def mbatch_idle_def mbatch_filling_def)
  show ?thesis using 1 2 3 4 by blast
qed

theorem marked_transparent_witness:
  "\<exists>mk out d r. drain_data_events_marked sample_env sample_clock 2 sample_meta sample_text = ((mk, out), d, r) \<and>
     drain_data_events sample_env sample_text = (map unmark out, d, r)"
  by (rule sample_results [OF sample_text_wf, of sample_clock 2 sample_meta "[]" 5]) (metis marked_transparent)

text \<open>C20. Numbering: the messages one marked ingress call hands out carry the chunk indices 0, 1, 2, ... and
  consecutive sequence numbers from the connection's counter, both saturating at their width; the
  counter returned continues after the last message, so numbering is gapless across calls; all other
  fields are those of the chunk, and without sampling no timestamp is set.  Batches are numbered
  through.\<close>

theorem marked_numbering:
  assumes "drain_data_events_from_ingress_marked_with_message_sequence env clk k bs base seq c = ((mk, out), d, r)" and "r \<noteq> Panic"
    and "drain_data_event_batches_from_ingress_marked_with_message_sequence env clk k bs base seq c = ((mk', b', out'), d', r')"
    and "r' \<noteq> Panic"
  shows "numbered base seq (map marked_meta out) \<and> unat (mk_sequence mk) = min (2 ^ 64 - 1) (unat seq + length out) \<and>
    numbered base seq (map marked_meta (concat (map mb_events out'))) \<and>
    unat (mk_sequence mk') = min (2 ^ 64 - 1) (unat seq + length (concat (map mb_events out')))"
proof -
  note fresh = marks_ok_fresh [of False clk base k, simplified]
  have idle: "mbatch_idle clk base seq False (fresh_mark seq k, mb_new, [])"
    using fresh by (simp add: mbatch_idle_def mbatch_filling_def mb_new_def mbatches_ok_def mb_all_def)
  note defs = drain_data_events_from_ingress_marked_with_message_sequence_def
    drain_data_event_batches_from_ingress_marked_with_message_sequence_def
  have "marks_ok clk base seq False mk (map marked_meta out)"
    using marked.drain_from_ingress_items [OF _ assms(1) [unfolded defs] assms(2), of seq False] fresh by simp
  moreover have "mbatch_idle clk base seq False (mk', b', out')"
    using marked_batch.drain_from_ingress_items [OF idle assms(3) [unfolded defs] assms(4)] by simp
  then have "marks_ok clk base seq False mk' (map marked_meta (concat (map mb_events out')))"
    by (auto simp: mbatch_idle_def mbatch_filling_def mb_all_def mb_new_def)
  ultimately show ?thesis unfolding marks_ok_def by simp
qed

theorem marked_numbering_witness:
  "\<exists>mk out d r. drain_data_events_from_ingress_marked_with_message_sequence sample_env sample_clock 2 [] sample_meta 5 sample_text =
     ((mk, out), d, r) \<and> numbered sample_meta 5 (map marked_meta out)"
  by (rule sample_results [OF sample_text_wf, of sample_clock 2 sample_meta "[]" 5]) (metis marked_numbering)

text \<open>C36. Timing is consistent: with a clock that does not run backwards, a sampled chunk whose plaintext was
  ready before the drain started, the time each message reports for the sink calls before it fits
  into the time since the plaintext was ready; so the latency without sink time is always available
  and equals the difference.\<close>

theorem marked_timing:
  assumes "steady_clock clk" and "dm_sampled base" and "unat (dm_tls_plaintext_ready_mono_nanos base) \<le> clock_at clk k"
    and "drain_data_events_from_ingress_marked_with_message_sequence env clk k bs base seq c = ((mk, out), d, r)" and "r \<noteq> Panic"
    and "m \<in> set (map marked_meta out)"
  shows "\<exists>total prior. plaintext_to_ws_nanos m = Some total \<and> chunk_prior_sink_service_nanos m = Some prior \<and>
    unat prior \<le> unat total \<and> plaintext_to_ws_excluding_prior_sink_nanos m = Some (total - prior)"
proof -
  have "marks_ok clk base seq True (fresh_mark seq k) []" using assms(1-3) by (intro marks_ok_fresh) simp
  then have ok: "marks_ok clk base seq True mk (map marked_meta out)"
    using marked.drain_from_ingress_items [OF _ assms(4) [unfolded drain_data_events_from_ingress_marked_with_message_sequence_def] assms(5), of seq True]
    by simp
  then have t: "timed base m" using assms(6) by (auto simp: marks_ok_def list_all_iff)
  have "stamped base m" using ok assms(6) unfolding marks_ok_def numbered_def by (metis in_set_conv_nth)
  then have "dm_sampled m = dm_sampled base" "dm_tls_plaintext_ready_mono_nanos m = dm_tls_plaintext_ready_mono_nanos base"
    by (rule stamped_keeps)+
  then show ?thesis
    using t assms(2) unat_sub [of "dm_tls_plaintext_ready_mono_nanos base" "dm_ws_payload_ready_mono_nanos m"]
    by (auto simp: plaintext_to_ws_nanos_def chunk_prior_sink_service_nanos_def plaintext_to_ws_excluding_prior_sink_nanos_def
        minus_prior_def checked_sub_def timed_def word_less_nat_alt word_le_nat_alt)
qed

theorem marked_timing_witness:
  "\<exists>mk out d r. drain_data_events_from_ingress_marked_with_message_sequence sample_env sample_clock 2 [] sample_meta 5 sample_text =
     ((mk, out), d, r) \<and> (\<forall>m \<in> set (map marked_meta out). plaintext_to_ws_excluding_prior_sink_nanos m \<noteq> None)"
proof (rule sample_results [OF sample_text_wf, of sample_clock 2 sample_meta "[]" 5])
  fix mk2 out2 d2 r2
  assume r: "drain_data_events_from_ingress_marked_with_message_sequence sample_env sample_clock 2 [] sample_meta 5 sample_text =
     ((mk2, out2), d2, r2)" "r2 \<noteq> Panic"
  have st: "steady_clock sample_clock" by (simp add: steady_clock_def sample_clock_def)
  have rd: "dm_sampled sample_meta" "unat (dm_tls_plaintext_ready_mono_nanos sample_meta) \<le> clock_at sample_clock 2"
    by (simp_all add: sample_meta_def plaintext_ready_now_def plaintext_ready_at_def recv_observed_now_def monotonic_nanos_now_def
        unix_epoch_nanos_now_def sample_clock_def clock_at_def)
  have "plaintext_to_ws_excluding_prior_sink_nanos m \<noteq> None" if "m \<in> set (map marked_meta out2)" for m
    using marked_timing [OF st rd r that] by auto
  then show ?thesis using r(1) by blast
qed

end
