(* ===== verification/Proactor_Op.thy ===== *)
theory Proactor_Op
  imports Prelude
begin

text \<open>
  Operation kinds, the 64-bit \<^verbatim>\<open>user_data\<close> word and completions (\<^verbatim>\<open>proactor/op.rs\<close>), and the
  connection token inside it (\<^verbatim>\<open>connection_meta.rs\<close>).

  The layout is: operation kind in bits 63..56, slot generation in bits 55..28, slot id in bits 27..0.
  How a completion's flags carry the buffer id and the multishot bit is decided by the
  \<^verbatim>\<open>io_uring\<close> crate; the two decoders are the parameter \<open>CqFlags\<close>.
\<close>

subsection \<open>Operation kinds and user data\<close>

datatype OpKind = OpConnect | OpRecv | OpSend | OpClose | OpNop

fun opkind_u8 :: "OpKind \<Rightarrow> u8" where
  "opkind_u8 OpConnect = 1"
| "opkind_u8 OpRecv = 2"
| "opkind_u8 OpSend = 3"
| "opkind_u8 OpClose = 4"
| "opkind_u8 OpNop = 5"

definition op_from_u8 :: "u8 \<Rightarrow> OpKind option" where
  "op_from_u8 v =
     (if v = 1 then Some OpConnect
      else if v = 2 then Some OpRecv
      else if v = 3 then Some OpSend
      else if v = 4 then Some OpClose
      else if v = 5 then Some OpNop
      else None)"

datatype UserData = UserData (ud_raw: u64)

definition TOKEN_MASK :: u64 where
  "TOKEN_MASK = 0x00FFFFFFFFFFFFFF"

definition ud_new :: "OpKind \<Rightarrow> u64 \<Rightarrow> UserData" where
  "ud_new kind token = UserData (push_bit 56 (ucast (opkind_u8 kind)) OR (token AND TOKEN_MASK))"

definition ud_from_raw :: "u64 \<Rightarrow> UserData" where
  "ud_from_raw raw = UserData raw"

definition ud_kind :: "UserData \<Rightarrow> OpKind option" where
  "ud_kind ud = op_from_u8 (ucast (drop_bit 56 (ud_raw ud)))"

definition ud_token :: "UserData \<Rightarrow> u64" where
  "ud_token ud = ud_raw ud AND TOKEN_MASK"

subsection \<open>Completions\<close>

text \<open>An operating system error carries its number, an error made by the program its message.\<close>

datatype IoError = OsError int | InvalidInput string | InvalidData string | IoOther string

record Completion =
  co_user_data :: UserData
  co_result :: "32 word"
  co_flags :: u32

record CqFlags =
  cq_buffer_select :: "u32 \<Rightarrow> u16 option"
  cq_more :: "u32 \<Rightarrow> bool"

definition to_result :: "Completion \<Rightarrow> (IoError, nat) result" where
  "to_result c =
     (if 0 \<le> sint (co_result c) then Ok (nat (sint (co_result c)))
      else Err (OsError (sint (- co_result c))))"

definition buffer_id :: "CqFlags \<Rightarrow> Completion \<Rightarrow> u16 option" where
  "buffer_id fl c = cq_buffer_select fl (co_flags c)"

definition has_more :: "CqFlags \<Rightarrow> Completion \<Rightarrow> bool" where
  "has_more fl c = cq_more fl (co_flags c)"

subsection \<open>Submission flags\<close>

text \<open>The bit of \<^verbatim>\<open>IO_LINK\<close> and the truncation to known bits belong to the \<^verbatim>\<open>io_uring\<close> crate and are given as arguments.\<close>

datatype SqeFlags = SqeFlags (sq_bits: u8)

definition SQE_NONE :: SqeFlags where "SQE_NONE = SqeFlags 0"
definition SQE_IO_LINK :: "u8 \<Rightarrow> SqeFlags" where "SQE_IO_LINK io_link = SqeFlags io_link"
definition sqe_empty :: SqeFlags where "sqe_empty = SQE_NONE"
definition sqe_is_empty :: "SqeFlags \<Rightarrow> bool" where "sqe_is_empty f \<longleftrightarrow> sq_bits f = 0"
definition sqe_bitor :: "SqeFlags \<Rightarrow> SqeFlags \<Rightarrow> SqeFlags" where "sqe_bitor f g = SqeFlags (sq_bits f OR sq_bits g)"
definition into_io_uring :: "(u8 \<Rightarrow> u8) \<Rightarrow> SqeFlags \<Rightarrow> u8" where "into_io_uring from_bits_truncate f = from_bits_truncate (sq_bits f)"

subsection \<open>Connection tokens\<close>

definition CONN_ID_MASK :: u64 where "CONN_ID_MASK = 0x0FFFFFFF"

definition CONN_GENERATION_MASK :: u64 where "CONN_GENERATION_MASK = 0x0FFFFFFF"

definition CONN_GENERATION_SHIFT :: nat where "CONN_GENERATION_SHIFT = 28"

definition encode_conn_token :: "u32 \<Rightarrow> u32 \<Rightarrow> u64" where
  "encode_conn_token conn_id generation = push_bit CONN_GENERATION_SHIFT (ucast generation) OR ucast conn_id"

definition token_conn_id :: "u64 \<Rightarrow> u32" where
  "token_conn_id token = ucast (token AND CONN_ID_MASK)"

definition token_generation :: "u64 \<Rightarrow> u32" where
  "token_generation token = ucast (drop_bit CONN_GENERATION_SHIFT token AND CONN_GENERATION_MASK)"

record ConnectionRuntimeIdentity =
  id_conn_id :: u32
  id_generation :: u32
  id_bgid :: u16

definition id_token :: "ConnectionRuntimeIdentity \<Rightarrow> u64" where
  "id_token i = encode_conn_token (id_conn_id i) (id_generation i)"

text \<open>The numbers that fit their field of the token.\<close>

definition token_fits :: "u32 \<Rightarrow> bool" where
  "token_fits n \<longleftrightarrow> unat n < 2 ^ 28"

subsection \<open>Masks and fields\<close>

lemma masks_take_bit:
  "x AND TOKEN_MASK = take_bit 56 x" "x AND CONN_ID_MASK = take_bit 28 x" "x AND CONN_GENERATION_MASK = take_bit 28 x"
  by (simp_all add: TOKEN_MASK_def CONN_ID_MASK_def CONN_GENERATION_MASK_def take_bit_eq_mask mask_eq_exp_minus_1)

lemma ucast_small: "LENGTH('a) \<le> LENGTH('b) \<Longrightarrow> unat (ucast (w :: 'a::len word) :: 'b::len word) = unat w"
  by (simp add: unsigned_ucast_eq take_bit_nat_eq_self_iff) (meson less_le_trans one_le_numeral power_increasing unsigned_less)


lemma bit_small:
  assumes "unat (w :: 'a::len word) < 2 ^ k" and "k \<le> n"
  shows "\<not> bit w n"
  using take_bit_word_small [OF assms(1)] assms(2) by (metis bit_take_bit_iff not_less)

lemma field_low: "take_bit k (push_bit k y OR x) = x" if "unat (x :: u64) < 2 ^ k"
proof (rule bit_eqI)
  fix n
  assume "possible_bit TYPE(u64) n"
  then show "bit (take_bit k (push_bit k y OR x)) n = bit x n"
    using bit_small [OF that, of n] by (cases "n < k") (auto simp: bit_simps)
qed

lemma field_high:
  assumes "unat (x :: u64) < 2 ^ k" and "unat y < 2 ^ m" and "k + m \<le> 64"
  shows "drop_bit k (push_bit k y OR x) = y"
proof (rule bit_eqI)
  fix n
  assume "possible_bit TYPE(u64) n"
  show "bit (drop_bit k (push_bit k y OR x)) n = bit y n"
    using bit_small [OF assms(1), of "k + n"] bit_small [OF assms(2), of n] assms(3)
    by (cases "n < m") (auto simp: bit_simps)
qed

lemma unat_take_bit_word: "unat (take_bit k (w :: 'a::len word)) = unat w mod 2 ^ k"
  by (metis take_bit_eq_mod unsigned_take_bit_eq)

lemma take_bit_less: "unat (take_bit k (w :: 'a::len word)) < 2 ^ k"
  by (simp add: unat_take_bit_word)

lemma opkind_less: "unat (ucast (opkind_u8 k) :: u64) < 2 ^ 8"
  by (cases k) simp_all

lemma op_from_opkind: "op_from_u8 (opkind_u8 k) = Some k"
  by (cases k) (simp_all add: op_from_u8_def)

lemma opkind_from_op: "op_from_u8 v = Some k \<longleftrightarrow> v = opkind_u8 k"
  by (cases k) (auto simp: op_from_u8_def split: if_splits)

subsection \<open>User data\<close>

lemma ucast_ucast_u8: "ucast (ucast (v :: u8) :: u64) = v"
  by (rule bit_eqI) (auto simp: bit_simps dest: bit_imp_le_length)

lemma ud_kind_new [simp]: "ud_kind (ud_new k t) = Some k"
  using field_high [OF take_bit_less [of 56 t] opkind_less [of k]]
  by (simp add: ud_kind_def ud_new_def masks_take_bit ucast_ucast_u8 op_from_opkind)

lemma ud_token_new: "ud_token (ud_new k t) = take_bit 56 t"
  using field_low [OF take_bit_less [of 56 t], of "ucast (opkind_u8 k)"]
  by (simp add: ud_token_def ud_new_def masks_take_bit)

lemma ud_new_token:
  assumes "ud_kind ud = Some k"
  shows "ud_new k (ud_token ud) = ud"
proof -
  have u: "(ucast (drop_bit 56 (ud_raw ud)) :: u8) = opkind_u8 k"
    using assms by (simp add: ud_kind_def opkind_from_op)
  have "(ucast (ucast (drop_bit 56 (ud_raw ud)) :: u8) :: u64) = drop_bit 56 (ud_raw ud)"
    by (rule bit_eqI) (auto simp: bit_simps dest: bit_imp_le_length)
  moreover have "push_bit 56 (drop_bit 56 (ud_raw ud)) OR take_bit 56 (ud_raw ud) = ud_raw ud"
    by (rule bit_eqI) (auto simp: bit_simps)
  ultimately have "push_bit 56 (ucast (opkind_u8 k)) OR take_bit 56 (ud_raw ud) = ud_raw ud"
    by (simp only: u)
  then show ?thesis
    by (cases ud) (simp add: ud_new_def ud_token_def masks_take_bit)
qed

subsection \<open>Tokens\<close>

lemma token_fits_ucast: "token_fits n \<Longrightarrow> unat (ucast n :: u64) < 2 ^ 28"
  by (simp add: token_fits_def ucast_small)

lemma token_less: "token_fits g \<Longrightarrow> token_fits i \<Longrightarrow> take_bit 56 (encode_conn_token i g) = encode_conn_token i g"
proof (rule bit_eqI)
  fix n
  assume f: "token_fits g" "token_fits i" and "possible_bit TYPE(u64) n"
  then show "bit (take_bit 56 (encode_conn_token i g)) n = bit (encode_conn_token i g) n"
    using bit_small [OF token_fits_ucast [OF f(1)], of "n - 28"] bit_small [OF token_fits_ucast [OF f(2)], of n]
    by (cases "n < 56") (auto simp: encode_conn_token_def CONN_GENERATION_SHIFT_def bit_take_bit_iff bit_or_iff bit_push_bit_iff)
qed

lemma token_fields:
  assumes "token_fits i" and "token_fits g"
  shows "token_conn_id (encode_conn_token i g) = i" and "token_generation (encode_conn_token i g) = g"
proof -
  have t: "take_bit 28 (ucast n :: u64) = ucast n" if "token_fits n" for n :: u32
    using token_fits_ucast [OF that] by (rule take_bit_word_small)
  have u: "ucast (ucast n :: u64) = n" for n :: u32
    by (rule bit_eqI) (auto simp: bit_simps dest: bit_imp_le_length)
  show "token_conn_id (encode_conn_token i g) = i"
    using field_low [OF token_fits_ucast [OF assms(1)], of "ucast g"]
    by (simp add: token_conn_id_def encode_conn_token_def CONN_GENERATION_SHIFT_def masks_take_bit u)
  show "token_generation (encode_conn_token i g) = g"
    using field_high [OF token_fits_ucast [OF assms(1)] token_fits_ucast [OF assms(2)]]
    by (simp add: token_generation_def encode_conn_token_def CONN_GENERATION_SHIFT_def masks_take_bit u t [OF assms(2)])
qed

text \<open>C23. The word that travels through the kernel loses nothing: for a slot id and a generation of 28
  bits each, kind, slot id and generation of a completion are those of the submission; whatever the
  token, the kind survives and the token is cut to 56 bits; a word whose kind is known is rebuilt from
  its kind and token, so no two operations of live slots share a word.\<close>

theorem user_data_roundtrip:
  assumes "token_fits i" and "token_fits g"
  shows "ud_kind (ud_from_raw (ud_raw (ud_new k (encode_conn_token i g)))) = Some k \<and>
    ud_token (ud_new k (encode_conn_token i g)) = encode_conn_token i g \<and>
    token_conn_id (ud_token (ud_new k (encode_conn_token i g))) = i \<and>
    token_generation (ud_token (ud_new k (encode_conn_token i g))) = g \<and>
    (\<forall>t. ud_kind (ud_new k t) = Some k \<and> unat (ud_token (ud_new k t)) = unat t mod 2 ^ 56) \<and>
    (\<forall>ud. ud_kind ud = Some k \<longrightarrow> ud_new k (ud_token ud) = ud)"
  using assms token_less [OF assms(2) assms(1)]
  by (auto simp: ud_from_raw_def ud_token_new token_fields unat_take_bit_word ud_new_token)

theorem user_data_roundtrip_witness:
  "token_fits 7 \<and> token_fits 268435455 \<and>
   token_generation (ud_token (ud_new OpRecv (encode_conn_token 7 268435455))) = 268435455"
proof -
  have f: "token_fits 7" "token_fits 268435455" by (simp_all add: token_fits_def)
  show ?thesis using user_data_roundtrip [OF f, of OpRecv] f by blast
qed

end
