(* ===== verification/Socket.thy ===== *)
theory Socket
  imports Proactor_Op
begin

text \<open>
  TCP sockets (\<^verbatim>\<open>proactor/socket.rs\<close>): the C image of a socket address, creating a socket and its options.

  The C library is the parameter \<open>Libc\<close>: its constants, the byte order of the target, the size of
  \<^verbatim>\<open>sockaddr_storage\<close>, and for each system call what it returns together with the \<^verbatim>\<open>errno\<close> it leaves.
  A C struct is the bytes of its fields in order, each in the byte order of the target; \<^verbatim>\<open>OwnedFd\<close> is the
  descriptor, closed when its owner is dropped.
\<close>

subsection \<open>The C library\<close>

type_synonym c_int = "32 word"
type_synonym RawFd = int

record Libc =
  lc_big_endian :: bool
  lc_storage_size :: nat
  lc_AF_INET :: c_int
  lc_AF_INET6 :: c_int
  lc_SOCK_STREAM :: c_int
  lc_SOCK_CLOEXEC :: c_int
  lc_IPPROTO_TCP :: c_int
  lc_TCP_NODELAY :: c_int
  lc_SOL_SOCKET :: c_int
  lc_SO_BUSY_POLL :: c_int
  lc_SO_REUSEADDR :: c_int
  lc_socket :: "c_int \<Rightarrow> c_int \<Rightarrow> c_int \<Rightarrow> c_int \<times> c_int"
  lc_setsockopt :: "RawFd \<Rightarrow> c_int \<Rightarrow> c_int \<Rightarrow> c_int \<Rightarrow> u32 \<Rightarrow> c_int \<times> c_int"

text \<open>\<^verbatim>\<open>to_ne_bytes\<close>, \<^verbatim>\<open>from_ne_bytes\<close> and \<^verbatim>\<open>to_be\<close> of the integer types: memory in the byte order of the target.\<close>

definition to_ne_bytes :: "Libc \<Rightarrow> 'a::len word \<Rightarrow> bytes" where
  "to_ne_bytes lc v = (let bs = to_be (LENGTH('a) div 8) (unat v) in if lc_big_endian lc then bs else rev bs)"

definition from_ne_bytes :: "Libc \<Rightarrow> bytes \<Rightarrow> 'a::len word" where
  "from_ne_bytes lc bs = word_of_nat (be_nat (if lc_big_endian lc then bs else rev bs))"

definition swap_bytes :: "'a::len word \<Rightarrow> 'a word" where
  "swap_bytes v = word_of_nat (be_nat (rev (to_be (LENGTH('a) div 8) (unat v))))"

definition int_to_be :: "Libc \<Rightarrow> 'a::len word \<Rightarrow> 'a word" where
  "int_to_be lc v = (if lc_big_endian lc then v else swap_bytes v)"

subsection \<open>Addresses\<close>

datatype Domain = V4 | V6

text \<open>The addresses of the standard library: the IP address as a number, port, and for version 6 the flow
  information and scope.  \<^verbatim>\<open>octets\<close> lists the bytes of an IP address from the most significant.\<close>

datatype SocketAddr = AddrV4 "32 word" u16 | AddrV6 "128 word" u16 u32 u32

definition octets :: "'a::len word \<Rightarrow> bytes" where
  "octets ip = to_be (LENGTH('a) div 8) (unat ip)"

record sockaddr_in =
  sin_family :: u16
  sin_port :: u16
  sin_addr :: u32
  sin_zero :: bytes

record sockaddr_in6 =
  sin6_family :: u16
  sin6_port :: u16
  sin6_flowinfo :: u32
  sin6_addr :: bytes
  sin6_scope_id :: u32

definition in_bytes :: "Libc \<Rightarrow> sockaddr_in \<Rightarrow> bytes" where
  "in_bytes lc s = to_ne_bytes lc (sin_family s) @ to_ne_bytes lc (sin_port s) @ to_ne_bytes lc (sin_addr s) @ sin_zero s"

definition in6_bytes :: "Libc \<Rightarrow> sockaddr_in6 \<Rightarrow> bytes" where
  "in6_bytes lc s =
     to_ne_bytes lc (sin6_family s) @ to_ne_bytes lc (sin6_port s) @ to_ne_bytes lc (sin6_flowinfo s) @ sin6_addr s @
     to_ne_bytes lc (sin6_scope_id s)"

record SockAddr =
  sa_storage :: bytes
  sa_len :: u32

text \<open>\<^verbatim>\<open>ptr::write\<close> at the start of the storage.\<close>

definition ptr_write :: "bytes \<Rightarrow> bytes \<Rightarrow> bytes" where
  "ptr_write raw storage = raw @ drop (length raw) storage"

text \<open>The family is a \<^verbatim>\<open>try_from\<close> whose fallback is the truncating cast, hence the cast.\<close>

definition from_std :: "Libc \<Rightarrow> SocketAddr \<Rightarrow> SockAddr" where
  "from_std lc addr =
     (let storage = replicate (lc_storage_size lc) 0 in
      case addr of
        AddrV4 ip port \<Rightarrow>
          let raw = in_bytes lc \<lparr>sin_family = ucast (lc_AF_INET lc), sin_port = int_to_be lc port,
                                 sin_addr = from_ne_bytes lc (octets ip), sin_zero = replicate 8 0\<rparr>
          in \<lparr>sa_storage = ptr_write raw storage, sa_len = word_of_nat (length raw)\<rparr>
      | AddrV6 ip port flowinfo scope_id \<Rightarrow>
          let raw = in6_bytes lc \<lparr>sin6_family = ucast (lc_AF_INET6 lc), sin6_port = int_to_be lc port,
                                  sin6_flowinfo = flowinfo, sin6_addr = octets ip, sin6_scope_id = scope_id\<rparr>
          in \<lparr>sa_storage = ptr_write raw storage, sa_len = word_of_nat (length raw)\<rparr>)"

text \<open>What \<^verbatim>\<open>as_ptr\<close> and \<^verbatim>\<open>len\<close> hand to the kernel: the memory at the pointer, and how much of it to read.\<close>

definition sa_bytes :: "SockAddr \<Rightarrow> bytes" where
  "sa_bytes a = take (unat (sa_len a)) (sa_storage a)"

definition domain_of :: "SocketAddr \<Rightarrow> Domain" where
  "domain_of addr = (case addr of AddrV4 _ _ \<Rightarrow> V4 | AddrV6 _ _ _ _ \<Rightarrow> V6)"

subsection \<open>Sockets\<close>

definition tcp_socket_new :: "Libc \<Rightarrow> Domain \<Rightarrow> (IoError, RawFd) result" where
  "tcp_socket_new lc domain =
     (let af = (case domain of V4 \<Rightarrow> lc_AF_INET lc | V6 \<Rightarrow> lc_AF_INET6 lc);
          (raw, errno) = lc_socket lc af (lc_SOCK_STREAM lc OR lc_SOCK_CLOEXEC lc) 0
      in if sint raw < 0 then Err (OsError (sint errno)) else Ok (sint raw))"

definition set_option :: "Libc \<Rightarrow> RawFd \<Rightarrow> c_int \<Rightarrow> c_int \<Rightarrow> c_int \<Rightarrow> (IoError, unit) result" where
  "set_option lc fd level name val =
     (let (rc, errno) = lc_setsockopt lc fd level name val 4
      in if sint rc < 0 then Err (OsError (sint errno)) else Ok ())"

definition set_nodelay :: "Libc \<Rightarrow> RawFd \<Rightarrow> bool \<Rightarrow> (IoError, unit) result" where
  "set_nodelay lc fd on = set_option lc fd (lc_IPPROTO_TCP lc) (lc_TCP_NODELAY lc) (of_bool on)"

definition set_busy_poll :: "Libc \<Rightarrow> RawFd \<Rightarrow> u32 \<Rightarrow> (IoError, unit) result" where
  "set_busy_poll lc fd usecs =
     (if unat usecs < 2 ^ 31 then set_option lc fd (lc_SOL_SOCKET lc) (lc_SO_BUSY_POLL lc) usecs
      else Err (InvalidInput ''SO_BUSY_POLL usecs does not fit c_int''))"

definition set_reuseaddr :: "Libc \<Rightarrow> RawFd \<Rightarrow> bool \<Rightarrow> (IoError, unit) result" where
  "set_reuseaddr lc fd on = set_option lc fd (lc_SOL_SOCKET lc) (lc_SO_REUSEADDR lc) (of_bool on)"

subsection \<open>Byte order\<close>

lemma unat_swap: "LENGTH('a::len) = 8 * n \<Longrightarrow> to_be n (unat (word_of_nat (be_nat bs) :: 'a word)) = bs" if "length bs = n"
proof -
  assume l: "LENGTH('a) = 8 * n"
  have "(2 :: nat) ^ LENGTH('a) = 256 ^ n" by (simp add: l power_mult)
  then show ?thesis using that be_nat_less [of bs] to_be_be_nat [of bs] by (simp add: unat_of_nat_mod)
qed

lemma length_ne [simp]: "length (to_ne_bytes lc (v :: 'a::len word)) = LENGTH('a) div 8"
  by (simp add: to_ne_bytes_def Let_def)

lemma length_octets [simp]: "length (octets (ip :: 'a::len word)) = LENGTH('a) div 8"
  by (simp add: octets_def)

text \<open>A number swapped for the target lies in memory from its most significant byte on either target, and bytes
  read as a native number lie in memory as they were.\<close>

lemma port_in_memory: "to_ne_bytes lc (int_to_be lc (port :: u16)) = u16_to_be port"
  by (simp add: to_ne_bytes_def int_to_be_def swap_bytes_def u16_to_be_def unat_swap)

lemma ip_in_memory: "to_ne_bytes lc (from_ne_bytes lc (octets (ip :: 32 word)) :: 32 word) = octets ip"
  by (simp add: to_ne_bytes_def from_ne_bytes_def unat_swap)

lemma ne_inject: "LENGTH('a::len) = 8 * n \<Longrightarrow> to_ne_bytes lc (v :: 'a word) = to_ne_bytes lc w \<longleftrightarrow> v = w"
proof -
  assume l: "LENGTH('a) = 8 * n"
  have "unat x < 256 ^ n" for x :: "'a word" using unsigned_less [of x, where ?'a = nat] by (simp add: l power_mult)
  then have "v = w" if "to_be n (unat v) = to_be n (unat w)"
    using arg_cong [OF that, of be_nat] by (simp add: be_nat_to_be word_unat_eq_iff)
  then show ?thesis by (auto simp: to_ne_bytes_def l Let_def)
qed

subsection \<open>What the kernel reads\<close>

text \<open>The address in network order, as RFC and ABI have it.\<close>

definition wire_addr :: "Libc \<Rightarrow> SocketAddr \<Rightarrow> bytes" where
  "wire_addr lc addr =
     (case addr of
        AddrV4 ip port \<Rightarrow> to_ne_bytes lc (ucast (lc_AF_INET lc) :: u16) @ u16_to_be port @ octets ip @ replicate 8 0
      | AddrV6 ip port flowinfo scope_id \<Rightarrow>
          to_ne_bytes lc (ucast (lc_AF_INET6 lc) :: u16) @ u16_to_be port @ to_ne_bytes lc flowinfo @ octets ip @ to_ne_bytes lc scope_id)"

lemma from_std_bytes: "sa_bytes (from_std lc addr) = wire_addr lc addr"
  by (cases addr) (simp_all add: sa_bytes_def from_std_def wire_addr_def ptr_write_def in_bytes_def in6_bytes_def Let_def
      port_in_memory ip_in_memory)

lemma from_std_len: "unat (sa_len (from_std lc addr)) = length (wire_addr lc addr)"
  by (cases addr) (simp_all add: from_std_def wire_addr_def in_bytes_def in6_bytes_def Let_def)

lemma octets_inject: "octets (v :: 32 word) = octets w \<longleftrightarrow> v = w" "octets (v6 :: 128 word) = octets w6 \<longleftrightarrow> v6 = w6"
  using ne_inject [where 'a = 32, of 4 "undefined\<lparr>lc_big_endian := True\<rparr>" v w] ne_inject [where 'a = 128, of 16 "undefined\<lparr>lc_big_endian := True\<rparr>" v6 w6]
  by (simp_all add: to_ne_bytes_def octets_def)

lemma wire_addr_inject: "wire_addr lc a = wire_addr lc b \<longleftrightarrow> a = b"
proof
  assume eq: "wire_addr lc a = wire_addr lc b"
  have port: "u16_to_be p = u16_to_be q \<longleftrightarrow> p = q" for p q :: u16
    using ne_inject [where 'a = 16, of 2 "undefined\<lparr>lc_big_endian := True\<rparr>" p q] by (simp add: to_ne_bytes_def u16_to_be_def)
  have ne: "to_ne_bytes lc p = to_ne_bytes lc q \<longleftrightarrow> p = q" for p q :: u32
    using ne_inject [where 'a = 32, of 4] by simp
  have "length (wire_addr lc a) = length (wire_addr lc b)" using eq by simp
  then show "a = b" using eq by (cases a; cases b) (simp_all add: wire_addr_def port ne octets_inject)
qed simp

lemma domain_len: "length (wire_addr lc addr) = (case domain_of addr of V4 \<Rightarrow> 16 | V6 \<Rightarrow> 28)"
  by (cases addr) (simp_all add: wire_addr_def domain_of_def)

subsection \<open>Options\<close>

lemma sint_nonneg_iff: "0 \<le> sint (w :: 32 word) \<longleftrightarrow> unat w < 2 ^ 31"
proof -
  have "0 \<le> sint w \<longleftrightarrow> \<not> bit w 31"
    by (simp only: sint_uint signed_take_bit_nonnegative_iff bit_uint_iff) simp
  moreover have "bit w 31 \<longleftrightarrow> 2 ^ 31 \<le> unat w"
  proof -
    have "unat w div 2 ^ 31 < 2" using unsigned_less [of w, where ?'a = nat] by (intro less_mult_imp_div_less) simp
    then have "odd (unat w div 2 ^ 31) \<longleftrightarrow> unat w div 2 ^ 31 = 1" by (cases "unat w div 2 ^ 31 = 0") auto
    moreover have "unat w div 2 ^ 31 = 1 \<longleftrightarrow> 2 ^ 31 \<le> unat w"
      using \<open>unat w div 2 ^ 31 < 2\<close> div_greater_zero_iff [of "unat w" "2 ^ 31"] by (auto simp: less_2_cases_iff)
    moreover have "bit w 31 \<longleftrightarrow> odd (unat w div 2 ^ 31)"
      using bit_unsigned_iff [where ?'a = nat, of w 31] bit_iff_odd [of "unat w" 31] by simp
    ultimately show ?thesis by simp
  qed
  ultimately show ?thesis by (simp add: not_le)
qed

text \<open>A busy-poll budget reaches the kernel unchanged, or is refused before any system call.\<close>

lemma set_busy_poll_cases:
  "(0 \<le> sint usecs \<and> set_busy_poll lc fd usecs = set_option lc fd (lc_SOL_SOCKET lc) (lc_SO_BUSY_POLL lc) usecs) \<or>
   (sint usecs < 0 \<and> (\<exists>msg. set_busy_poll lc fd usecs = Err (InvalidInput msg)))"
  using sint_nonneg_iff [of usecs] by (cases "unat usecs < 2 ^ 31") (auto simp: set_busy_poll_def)

end
