(* ===== verification/Proactor.thy ===== *)
theory Proactor
  imports Socket
begin

text \<open>
  The io_uring proactor (\<^verbatim>\<open>proactor/uring.rs\<close>): setup flags, configuration and its validation, and the
  submission and completion calls.

  The kernel and the \<^verbatim>\<open>io_uring\<close> crate are the parameter \<open>Uring\<close>: operations on an abstract ring state
  \<open>'k\<close> that also stands for the allocator and for the memory the kernel writes received bytes to.  A
  submission entry carries the bytes of a send, and the address of a connect, at the time of submission; that the buffer stays
  unchanged until the completion is a property of the connection, not of this layer.
\<close>

subsection \<open>Setup flags\<close>

datatype ProactorSetupFlags = SetupFlags (sf_bits: u32)

definition SETUP_NONE :: ProactorSetupFlags where "SETUP_NONE = SetupFlags 0"
definition COOP_TASKRUN :: ProactorSetupFlags where "COOP_TASKRUN = SetupFlags (push_bit 0 1)"
definition TASKRUN_FLAG :: ProactorSetupFlags where "TASKRUN_FLAG = SetupFlags (push_bit 1 1)"
definition SINGLE_ISSUER :: ProactorSetupFlags where "SINGLE_ISSUER = SetupFlags (push_bit 2 1)"
definition DEFER_TASKRUN :: ProactorSetupFlags where "DEFER_TASKRUN = SetupFlags (push_bit 3 1)"

definition sf_is_empty :: "ProactorSetupFlags \<Rightarrow> bool" where
  "sf_is_empty f \<longleftrightarrow> sf_bits f = 0"

definition sf_contains :: "ProactorSetupFlags \<Rightarrow> ProactorSetupFlags \<Rightarrow> bool" where
  "sf_contains f flag \<longleftrightarrow> sf_bits f AND sf_bits flag = sf_bits flag"

definition sf_bitor :: "ProactorSetupFlags \<Rightarrow> ProactorSetupFlags \<Rightarrow> ProactorSetupFlags" where
  "sf_bitor f g = SetupFlags (sf_bits f OR sf_bits g)"

subsection \<open>Configuration\<close>

record ProactorConfig =
  pc_sq_entries :: u32
  pc_cq_entries :: "u32 option"
  pc_setup_flags :: ProactorSetupFlags

definition proactor_config_default :: ProactorConfig where
  "proactor_config_default = \<lparr>pc_sq_entries = 256, pc_cq_entries = None, pc_setup_flags = SETUP_NONE\<rparr>"

definition with_sq_entries :: "u32 \<Rightarrow> ProactorConfig \<Rightarrow> ProactorConfig" where
  "with_sq_entries n c = c\<lparr>pc_sq_entries := n\<rparr>"

definition with_cq_entries :: "u32 \<Rightarrow> ProactorConfig \<Rightarrow> ProactorConfig" where
  "with_cq_entries n c = c\<lparr>pc_cq_entries := Some n\<rparr>"

definition with_setup_flags :: "ProactorSetupFlags \<Rightarrow> ProactorConfig \<Rightarrow> ProactorConfig" where
  "with_setup_flags f c = c\<lparr>pc_setup_flags := f\<rparr>"

datatype ProactorError = PrInit IoError | PrInvalidConfig string | PrSqFull | PrSubmit IoError

text \<open>\<^verbatim>\<open>is_power_of_two\<close> of the integer types: exactly one bit is set.\<close>

definition is_power_of_two :: "'a::len word \<Rightarrow> bool" where
  "is_power_of_two w \<longleftrightarrow> length (filter (bit w) [0..<LENGTH('a)]) = 1"

definition validate_config :: "ProactorConfig \<Rightarrow> (ProactorError, unit) result" where
  "validate_config config =
     (let flags = pc_setup_flags config in
      if pc_sq_entries config = 0 \<or> \<not> is_power_of_two (pc_sq_entries config) then
        Err (PrInvalidConfig ''sq_entries must be a non-zero power of two'')
      else
        and_then
          (case pc_cq_entries config of
             None \<Rightarrow> Ok ()
           | Some cq_entries \<Rightarrow>
               if cq_entries \<le> pc_sq_entries config then
                 Err (PrInvalidConfig ''cq_entries must be greater than sq_entries'')
               else if \<not> is_power_of_two cq_entries then
                 Err (PrInvalidConfig ''cq_entries must be a power of two'')
               else Ok ())
          (\<lambda>_.
            if sf_contains flags DEFER_TASKRUN \<and> \<not> sf_contains flags SINGLE_ISSUER then
              Err (PrInvalidConfig ''DEFER_TASKRUN requires SINGLE_ISSUER'')
            else if sf_contains flags TASKRUN_FLAG \<and>
                \<not> (sf_contains flags COOP_TASKRUN \<or> sf_contains flags DEFER_TASKRUN) then
              Err (PrInvalidConfig ''TASKRUN_FLAG requires COOP_TASKRUN or DEFER_TASKRUN'')
            else if sf_contains flags COOP_TASKRUN \<and> sf_contains flags DEFER_TASKRUN then
              Err (PrInvalidConfig ''COOP_TASKRUN and DEFER_TASKRUN are separate taskrun modes'')
            else Ok ()))"

datatype SetupCall = SetupCqsize u32 | SetupCoopTaskrun | SetupTaskrunFlag | SetupSingleIssuer | SetupDeferTaskrun

definition apply_setup_flags :: "SetupCall list \<Rightarrow> ProactorSetupFlags \<Rightarrow> SetupCall list" where
  "apply_setup_flags builder flags =
     builder @ (if sf_contains flags COOP_TASKRUN then [SetupCoopTaskrun] else [])
             @ (if sf_contains flags TASKRUN_FLAG then [SetupTaskrunFlag] else [])
             @ (if sf_contains flags SINGLE_ISSUER then [SetupSingleIssuer] else [])
             @ (if sf_contains flags DEFER_TASKRUN then [SetupDeferTaskrun] else [])"

subsection \<open>The ring\<close>

datatype Sqe =
    SqeConnect RawFd bytes u32 UserData u8
  | SqeRecv RawFd u64 u32 UserData u8
  | SqeSend RawFd bytes UserData u8
  | SqeClose RawFd UserData
  | SqeNop UserData
  | SqeRecvMulti RawFd u16 UserData
  | SqeRecvMultiBundle RawFd u16 UserData

record 'k Uring =
  io_build :: "SetupCall list \<Rightarrow> u32 \<Rightarrow> (IoError, 'k) result"
  io_bundle :: "'k \<Rightarrow> bool"
  io_push :: "Sqe \<Rightarrow> 'k \<Rightarrow> 'k option"
  io_register :: "u64 \<Rightarrow> u16 \<Rightarrow> u16 \<Rightarrow> 'k \<Rightarrow> 'k \<times> (IoError, unit) result"
  io_unregister :: "u16 \<Rightarrow> 'k \<Rightarrow> 'k \<times> (IoError, unit) result"
  io_submit :: "'k \<Rightarrow> 'k \<times> (IoError, nat) result"
  io_submit_and_wait :: "nat \<Rightarrow> 'k \<Rightarrow> 'k \<times> (IoError, nat) result"
  io_completion :: "'k \<Rightarrow> (u64 \<times> 32 word \<times> u32) list \<times> 'k"
  io_flags :: CqFlags
  io_alloc_zeroed :: "nat \<Rightarrow> 'k \<Rightarrow> u64 option \<times> 'k"
  io_boxed_slice :: "nat \<Rightarrow> 'k \<Rightarrow> u64 \<times> 'k"
  io_memory :: "'k \<Rightarrow> u64 \<Rightarrow> u8"
  io_from_bits_truncate :: "u8 \<Rightarrow> u8"

definition proactor_new :: "'k Uring \<Rightarrow> ProactorConfig \<Rightarrow> (ProactorError, 'k) result" where
  "proactor_new io config =
     and_then (validate_config config) (\<lambda>_.
       let builder = (case pc_cq_entries config of None \<Rightarrow> [] | Some cq_entries \<Rightarrow> [SetupCqsize cq_entries]);
           builder = apply_setup_flags builder (pc_setup_flags config)
       in map_err PrInit (io_build io builder (pc_sq_entries config)))"

definition push_sqe :: "'k Uring \<Rightarrow> Sqe \<Rightarrow> 'k \<Rightarrow> 'k \<times> (ProactorError, unit) result" where
  "push_sqe io sqe k = (case io_push io sqe k of None \<Rightarrow> (k, Err PrSqFull) | Some k' \<Rightarrow> (k', Ok ()))"

definition sqe_flags :: "'k Uring \<Rightarrow> SqeFlags \<Rightarrow> u8" where
  "sqe_flags io flags = into_io_uring (io_from_bits_truncate io) flags"

definition pr_submit_connect where
  "pr_submit_connect io fd addr ud flags k = push_sqe io (SqeConnect fd (sa_bytes addr) (sa_len addr) ud (sqe_flags io flags)) k"

definition pr_submit_recv where
  "pr_submit_recv io fd buf len ud flags k = push_sqe io (SqeRecv fd buf len ud (sqe_flags io flags)) k"

definition pr_submit_send where
  "pr_submit_send io fd data ud flags k = push_sqe io (SqeSend fd data ud (sqe_flags io flags)) k"

definition pr_submit_nop where
  "pr_submit_nop io ud k = push_sqe io (SqeNop ud) k"

text \<open>\<^verbatim>\<open>submit_close\<close> consumes the descriptor: it reports whether the kernel now owns the closing of the
  descriptor; otherwise dropping the \<^verbatim>\<open>OwnedFd\<close> closes it here.\<close>

definition pr_submit_close :: "'k Uring \<Rightarrow> RawFd \<Rightarrow> UserData \<Rightarrow> 'k \<Rightarrow> 'k \<times> bool \<times> (ProactorError, unit) result" where
  "pr_submit_close io fd ud k =
     (case push_sqe io (SqeClose fd ud) k of (k, Ok _) \<Rightarrow> (k, True, Ok ()) | (k, r) \<Rightarrow> (k, False, r))"

definition pr_submit_close_raw where
  "pr_submit_close_raw io fd ud k = push_sqe io (SqeClose fd ud) k"

definition submit_recv_multishot where
  "submit_recv_multishot io fd buf_group ud k = push_sqe io (SqeRecvMulti fd buf_group ud) k"

definition submit_recv_multishot_bundle where
  "submit_recv_multishot_bundle io fd buf_group ud k = push_sqe io (SqeRecvMultiBundle fd buf_group ud) k"

definition register_buf_ring :: "'k Uring \<Rightarrow> u64 \<Rightarrow> u16 \<Rightarrow> u16 \<Rightarrow> 'k \<Rightarrow> 'k \<times> (ProactorError, unit) result" where
  "register_buf_ring io ring_addr ring_entries bgid k =
     (case io_register io ring_addr ring_entries bgid k of (k, r) \<Rightarrow> (k, map_err PrSubmit r))"

definition unregister_buf_ring :: "'k Uring \<Rightarrow> u16 \<Rightarrow> 'k \<Rightarrow> 'k \<times> (ProactorError, unit) result" where
  "unregister_buf_ring io bgid k = (case io_unregister io bgid k of (k, r) \<Rightarrow> (k, map_err PrSubmit r))"

definition pr_submit :: "'k Uring \<Rightarrow> 'k \<Rightarrow> 'k \<times> (ProactorError, nat) result" where
  "pr_submit io k = (case io_submit io k of (k, r) \<Rightarrow> (k, map_err PrSubmit r))"

definition pr_submit_and_wait :: "'k Uring \<Rightarrow> nat \<Rightarrow> 'k \<Rightarrow> 'k \<times> (ProactorError, nat) result" where
  "pr_submit_and_wait io wait_nr k = (case io_submit_and_wait io wait_nr k of (k, r) \<Rightarrow> (k, map_err PrSubmit r))"

definition wait_for_cqe :: "'k Uring \<Rightarrow> nat \<Rightarrow> 'k \<Rightarrow> 'k \<times> (ProactorError, nat) result" where
  "wait_for_cqe io wait_nr k = (if wait_nr = 0 then (k, Ok 0) else pr_submit_and_wait io wait_nr k)"

text \<open>\<^verbatim>\<open>drain_completions\<close> calls its sink once per completion, in ring order; every caller pushes them to a
  vector, which is the list returned here, and the count is its length.\<close>

definition drain_completions :: "'k Uring \<Rightarrow> 'k \<Rightarrow> Completion list \<times> nat \<times> 'k" where
  "drain_completions io k =
     (case io_completion io k of (cq, k) \<Rightarrow>
        let cs = map (\<lambda>(ud, res, flags). \<lparr>co_user_data = ud_from_raw ud, co_result = res, co_flags = flags\<rparr>) cq
        in (cs, length cs, k))"

definition read_memory :: "'k Uring \<Rightarrow> 'k \<Rightarrow> u64 \<Rightarrow> nat \<Rightarrow> bytes" where
  "read_memory io k addr n = map (\<lambda>i. io_memory io k (addr + word_of_nat i)) [0..<n]"

lemma length_read_memory [simp]: "length (read_memory io k a n) = n"
  by (simp add: read_memory_def)

subsection \<open>What has been handed to the kernel\<close>

text \<open>A history of the submission queue: \<open>sq k\<close> are all entries ever pushed, in order.  A push that succeeds adds
  its entry at the end; registering buffer rings and allocating memory push nothing.\<close>

definition records :: "'k Uring \<Rightarrow> ('k \<Rightarrow> Sqe list) \<Rightarrow> bool" where
  "records io sq \<longleftrightarrow>
     (\<forall>e k k'. io_push io e k = Some k' \<longrightarrow> sq k' = sq k @ [e]) \<and>
     (\<forall>addr n bgid k. sq (fst (io_register io addr n bgid k)) = sq k) \<and> (\<forall>bgid k. sq (fst (io_unregister io bgid k)) = sq k) \<and>
     (\<forall>n k. sq (snd (io_alloc_zeroed io n k)) = sq k) \<and> (\<forall>n k. sq (snd (io_boxed_slice io n k)) = sq k)"

text \<open>The sends on a socket among the entries, and those pushed between two states of the ring: the user data the
  completion will carry, and the bytes the kernel is to send.\<close>

definition sends_of :: "RawFd \<Rightarrow> Sqe list \<Rightarrow> (UserData \<times> bytes) list" where
  "sends_of fd es =
     concat (map (\<lambda>e. case e of SqeSend fd' data ud flags \<Rightarrow> if fd' = fd then [(ud, data)] else [] | _ \<Rightarrow> []) es)"

definition handed :: "('k \<Rightarrow> Sqe list) \<Rightarrow> RawFd \<Rightarrow> 'k \<Rightarrow> 'k \<Rightarrow> (UserData \<times> bytes) list" where
  "handed sq fd k k' = sends_of fd (drop (length (sq k)) (sq k'))"

definition no_sends :: "('k \<Rightarrow> Sqe list) \<Rightarrow> 'k \<Rightarrow> 'k \<Rightarrow> bool" where
  "no_sends sq k k' \<longleftrightarrow> (\<exists>es. sq k' = sq k @ es \<and> (\<forall>fd. sends_of fd es = []))"

lemma sends_of_simps [simp]:
  "sends_of fd [] = []" "sends_of fd (xs @ ys) = sends_of fd xs @ sends_of fd ys"
  "sends_of fd [SqeSend fd' data ud flags] = (if fd' = fd then [(ud, data)] else [])"
  by (simp_all add: sends_of_def)

lemma no_sends_refl [simp]: "no_sends sq k k"
  by (simp add: no_sends_def)

lemma no_sends_same: "sq k' = sq k \<Longrightarrow> no_sends sq k k'"
  unfolding no_sends_def by (intro exI [of _ "[]"]) simp

lemma no_sends_trans: "no_sends sq k k1 \<Longrightarrow> no_sends sq k1 k2 \<Longrightarrow> no_sends sq k k2"
  unfolding no_sends_def by fastforce

lemma handed_no_sends: "no_sends sq k k' \<Longrightarrow> handed sq fd k k' = []"
  by (auto simp: no_sends_def handed_def)

lemma handed_refl [simp]: "handed sq fd k k = []"
  by (simp add: handed_def)

lemma push_records:
  assumes "records io sq" and "push_sqe io e k = (k', r)"
  shows "r = Ok () \<and> sq k' = sq k @ [e] \<or> k' = k \<and> r = Err PrSqFull"
  using assms by (auto simp: records_def push_sqe_def split: option.splits)

lemma push_no_sends:
  assumes "records io sq" and "push_sqe io e k = (k', r)" and "\<forall>fd. sends_of fd [e] = []"
  shows "no_sends sq k k'"
  using push_records [OF assms(1,2)] assms(3) unfolding no_sends_def by (auto simp: sends_of_def)

lemma send_handed:
  assumes "records io sq" and "pr_submit_send io fd data ud flags k = (k', r)"
  shows "handed sq fd k k' = (if r = Ok () then [(ud, data)] else [])"
  using push_records [OF assms(1)] assms(2) by (fastforce simp: pr_submit_send_def handed_def)

subsection \<open>Powers of two\<close>

lemma filter_one:
  assumes "length (filter P [0..<n]) = 1"
  obtains i where "i < n" "P i" "\<And>j. j < n \<Longrightarrow> P j \<Longrightarrow> j = i"
proof -
  obtain i where "filter P [0..<n] = [i]" using assms by (auto simp: length_Suc_conv)
  then have "set (filter P [0..<n]) = {i}" by simp
  then show thesis using that by auto
qed

lemma filter_upt_eq: "n < m \<Longrightarrow> filter (\<lambda>j. j = n) [0..<m] = [n]"
  by (induction m) (auto simp: filter_empty_conv)

lemma unat_exp: "n < LENGTH('a) \<Longrightarrow> unat ((2 :: 'a::len word) ^ n) = 2 ^ n"
  using unat_of_nat_mod [of "2 ^ n", where ?'a = 'a] by simp

lemma is_power_of_two_iff: "is_power_of_two (w :: 'a::len word) \<longleftrightarrow> (\<exists>n < LENGTH('a). unat w = 2 ^ n)"
proof
  assume "is_power_of_two w"
  then obtain i where i: "i < LENGTH('a)" "bit w i" "\<And>j. j < LENGTH('a) \<Longrightarrow> bit w j \<Longrightarrow> j = i"
    unfolding is_power_of_two_def by (rule filter_one) blast
  have "w = 2 ^ i"
  proof (rule bit_eqI)
    fix j
    assume j: "possible_bit TYPE('a word) j"
    then have "bit w j \<longleftrightarrow> j = i" using i by (metis possible_bit_word)
    then show "bit w j = bit ((2 :: 'a word) ^ i) j"
      using j by (simp only: bit_exp_iff) blast
  qed
  then show "\<exists>n < LENGTH('a). unat w = 2 ^ n" using i(1) by (auto simp: unat_exp)
next
  assume "\<exists>n < LENGTH('a). unat w = 2 ^ n"
  then obtain n where n: "n < LENGTH('a)" "unat w = 2 ^ n" by blast
  then have w: "w = 2 ^ n" by (simp add: word_unat_eq_iff unat_exp)
  have "filter (bit w) [0..<LENGTH('a)] = filter (\<lambda>j. j = n) [0..<LENGTH('a)]"
    by (rule filter_cong) (auto simp: w bit_exp_iff)
  also have "\<dots> = [n]" using n(1) by (rule filter_upt_eq)
  finally show "is_power_of_two w" by (simp add: is_power_of_two_def)
qed

subsection \<open>What the kernel is asked to set up\<close>

definition pow2 :: "u32 \<Rightarrow> bool" where
  "pow2 w \<longleftrightarrow> (\<exists>n < 32. unat w = 2 ^ n)"

text \<open>The configurations the kernel accepts as a combination: sizes that are powers of two, a completion
  queue larger than the submission queue, and one consistent task-run mode.\<close>

definition coherent_setup :: "SetupCall list \<Rightarrow> u32 \<Rightarrow> bool" where
  "coherent_setup calls sq \<longleftrightarrow>
     pow2 sq \<and> (\<forall>cq. SetupCqsize cq \<in> set calls \<longrightarrow> sq < cq \<and> pow2 cq) \<and>
     (SetupDeferTaskrun \<in> set calls \<longrightarrow> SetupSingleIssuer \<in> set calls \<and> SetupCoopTaskrun \<notin> set calls) \<and>
     (SetupTaskrunFlag \<in> set calls \<longrightarrow> SetupCoopTaskrun \<in> set calls \<or> SetupDeferTaskrun \<in> set calls)"

definition setup_calls :: "ProactorConfig \<Rightarrow> SetupCall list" where
  "setup_calls c =
     (case pc_cq_entries c of None \<Rightarrow> [] | Some n \<Rightarrow> [SetupCqsize n]) @
     (if sf_contains (pc_setup_flags c) COOP_TASKRUN then [SetupCoopTaskrun] else []) @
     (if sf_contains (pc_setup_flags c) TASKRUN_FLAG then [SetupTaskrunFlag] else []) @
     (if sf_contains (pc_setup_flags c) SINGLE_ISSUER then [SetupSingleIssuer] else []) @
     (if sf_contains (pc_setup_flags c) DEFER_TASKRUN then [SetupDeferTaskrun] else [])"

lemma proactor_new_builds:
  "proactor_new io c = and_then (validate_config c) (\<lambda>_. map_err PrInit (io_build io (setup_calls c) (pc_sq_entries c)))"
  by (simp add: proactor_new_def setup_calls_def apply_setup_flags_def Let_def split: option.split)

lemma pow2_iff: "(w \<noteq> 0 \<and> is_power_of_two w) = pow2 w"
  by (auto simp: pow2_def is_power_of_two_iff word_unat_eq_iff)

lemma validate_config_ok_iff: "validate_config c = Ok () \<longleftrightarrow> coherent_setup (setup_calls c) (pc_sq_entries c)"
proof -
  note pow2_iff [of "pc_sq_entries c"]
  moreover have "is_power_of_two n \<longleftrightarrow> pow2 n" if "pc_sq_entries c < n" for n
    using that pow2_iff [of n] by auto
  ultimately show ?thesis
    by (cases "pc_cq_entries c")
      (auto simp: validate_config_def coherent_setup_def setup_calls_def Let_def not_le and_then_iffs split: if_splits)
qed

lemma validate_config_cases: "validate_config c = Ok () \<or> (\<exists>m. validate_config c = Err (PrInvalidConfig m))"
  by (simp add: validate_config_def Let_def split: option.split)

text \<open>C38. A proactor is built exactly from coherent configurations: an incoherent one is refused with an
  invalid-configuration error whatever the kernel would do, and for a coherent one the kernel is asked
  once, for the configured sizes and flags; an error then is the kernel's.\<close>

theorem proactor_new_asks_coherent_setup:
  "proactor_new io c =
     (if coherent_setup (setup_calls c) (pc_sq_entries c)
      then map_err PrInit (io_build io (setup_calls c) (pc_sq_entries c))
      else validate_config c) \<and>
   (coherent_setup (setup_calls c) (pc_sq_entries c) \<or> (\<exists>m. validate_config c = Err (PrInvalidConfig m)))"
  using validate_config_cases [of c] validate_config_ok_iff [of c] by (auto simp: proactor_new_builds)

end
