(* ===== verification/Buf_Ring.thy ===== *)
theory Buf_Ring
  imports Proactor "HOL-Library.Multiset"
begin

text \<open>
  The provided-buffer ring (\<^verbatim>\<open>proactor/buf_ring.rs\<close>): construction, buffer access, recycling with the
  wrapping 16-bit tail, unregistering and drop.

  The ring memory shared with the kernel is a list of entries and the published tail; buffer contents
  are bytes of the memory the kernel writes to.  The abstract view is a queue: the buffer ids between
  the kernel's head and the published tail, in ring order.
\<close>

subsection \<open>The ring\<close>

datatype BufferRingError =
    BrInvalidEntryCount u16
  | BrInvalidBufSize u32
  | BrLayout
  | BrAllocFailed
  | BrProactor ProactorError

record BufRingEntry =
  en_addr :: u64
  en_len :: u32
  en_bid :: u16

record BufferRing =
  br_ring_mem :: "BufRingEntry list"
  br_tail :: u16
  br_storage :: u64
  br_entries :: u16
  br_buf_size :: u32
  br_bgid :: u16
  br_local_tail :: u16
  br_unregistered :: bool

definition PAGE_SIZE :: nat where "PAGE_SIZE = 4096"

definition ENTRY_SIZE :: nat where "ENTRY_SIZE = 16"

definition ISIZE_MAX :: nat where "ISIZE_MAX = 2 ^ 63 - 1"

text \<open>The entry that hands buffer \<open>bid\<close> to the kernel.\<close>

definition ring_entry :: "u64 \<Rightarrow> u32 \<Rightarrow> u16 \<Rightarrow> BufRingEntry" where
  "ring_entry base buf_size bid =
     \<lparr>en_addr = base + ucast bid * ucast buf_size, en_len = buf_size, en_bid = bid\<rparr>"

definition ring_new :: "'k Uring \<Rightarrow> u16 \<Rightarrow> u16 \<Rightarrow> u32 \<Rightarrow> 'k \<Rightarrow> 'k \<times> (BufferRingError, BufferRing) result" where
  "ring_new io bgid entries buf_size k =
     (if entries = 0 \<or> \<not> is_power_of_two entries then (k, Err (BrInvalidEntryCount entries))
      else if buf_size = 0 then (k, Err (BrInvalidBufSize buf_size))
      else
        let ring_bytes = unat entries * ENTRY_SIZE
        in if ring_bytes > ISIZE_MAX - (PAGE_SIZE - 1) then (k, Err BrLayout)
           else case io_alloc_zeroed io ring_bytes k of
             (None, k) \<Rightarrow> (k, Err BrAllocFailed)
           | (Some ring_addr, k) \<Rightarrow>
               let buf_bytes = unat entries * unat buf_size
               in if buf_bytes \<ge> 2 ^ 64 then (k, Err BrLayout)
                  else case io_boxed_slice io buf_bytes k of
                    (buf_base, k) \<Rightarrow>
                      let ring_mem = map (\<lambda>i. ring_entry buf_base buf_size (word_of_nat i)) [0..<unat entries]
                      in case register_buf_ring io ring_addr entries bgid k of
                           (k, Err e) \<Rightarrow> (k, Err (BrProactor e))
                         | (k, Panic) \<Rightarrow> (k, Panic)
                         | (k, Ok _) \<Rightarrow>
                             (k, Ok \<lparr>br_ring_mem = ring_mem, br_tail = entries, br_storage = buf_base, br_entries = entries,
                                     br_buf_size = buf_size, br_bgid = bgid, br_local_tail = entries,
                                     br_unregistered = False\<rparr>))"

definition ring_buffer :: "'k Uring \<Rightarrow> 'k \<Rightarrow> BufferRing \<Rightarrow> u16 \<Rightarrow> nat \<Rightarrow> ('e, bytes) result" where
  "ring_buffer io k ring bid len =
     (if bid < br_entries ring
      then Ok (read_memory io k (br_storage ring + word_of_nat (unat bid * unat (br_buf_size ring))) len)
      else Panic)"

definition ring_recycle :: "BufferRing \<Rightarrow> u16 \<Rightarrow> ('e, BufferRing) result" where
  "ring_recycle ring bid =
     (if \<not> bid < br_entries ring then Panic
      else
        let slot_mask = br_entries ring - 1;
            slot = br_local_tail ring AND slot_mask;
            ring = ring\<lparr>br_ring_mem := (br_ring_mem ring)[unat slot := ring_entry (br_storage ring) (br_buf_size ring) bid]\<rparr>;
            ring = ring\<lparr>br_local_tail := br_local_tail ring + 1\<rparr>
        in Ok (ring\<lparr>br_tail := br_local_tail ring\<rparr>))"

definition ring_unregister :: "'k Uring \<Rightarrow> BufferRing \<Rightarrow> 'k \<Rightarrow> 'k \<times> BufferRing \<times> (BufferRingError, unit) result" where
  "ring_unregister io ring k =
     (if br_unregistered ring then (k, ring, Ok ())
      else case unregister_buf_ring io (br_bgid ring) k of
             (k, Ok _) \<Rightarrow> (k, ring\<lparr>br_unregistered := True\<rparr>, Ok ())
           | (k, Err e) \<Rightarrow> (k, ring, Err (BrProactor e))
           | (k, Panic) \<Rightarrow> (k, ring, Panic))"

text \<open>Dropping a ring frees its memory only when the kernel no longer refers to it, and leaks it otherwise.\<close>

datatype DropOutcome = FreedMemory | LeakedMemory

definition ring_drop :: "BufferRing \<Rightarrow> DropOutcome" where
  "ring_drop ring = (if \<not> br_unregistered ring then LeakedMemory else FreedMemory)"

subsection \<open>The queue the kernel sees\<close>

definition entries_ok :: "u16 \<Rightarrow> bool" where
  "entries_ok n \<longleftrightarrow> (\<exists>m < 16. unat n = 2 ^ m)"

definition slot_of :: "BufferRing \<Rightarrow> u16 \<Rightarrow> nat" where
  "slot_of ring i = unat i mod unat (br_entries ring)"

definition ready_entries :: "BufferRing \<Rightarrow> u16 \<Rightarrow> BufRingEntry list" where
  "ready_entries ring head = map (\<lambda>i. br_ring_mem ring ! slot_of ring (head + word_of_nat i)) [0..<unat (br_tail ring - head)]"

text \<open>A well-formed ring, with the kernel's head: no more entries are published than the ring has, and
  every published entry describes its buffer.\<close>

definition ring_wf :: "BufferRing \<Rightarrow> u16 \<Rightarrow> bool" where
  "ring_wf ring head \<longleftrightarrow>
     entries_ok (br_entries ring) \<and> length (br_ring_mem ring) = unat (br_entries ring) \<and>
     br_tail ring = br_local_tail ring \<and> unat (br_tail ring - head) \<le> unat (br_entries ring) \<and>
     (\<forall>e \<in> set (ready_entries ring head).
        en_bid e < br_entries ring \<and> e = ring_entry (br_storage ring) (br_buf_size ring) (en_bid e))"

definition ready :: "BufferRing \<Rightarrow> u16 \<Rightarrow> u16 list" where
  "ready ring head = map en_bid (ready_entries ring head)"


lemma slot_word:
  assumes "entries_ok n"
  shows "unat (t AND (n - 1)) = unat t mod unat n"
proof -
  obtain m where m: "m < 16" "unat n = 2 ^ m" using assms by (auto simp: entries_ok_def)
  then have n: "n = 2 ^ m" by (simp add: word_unat_eq_iff unat_exp)
  show ?thesis using m by (simp add: n mask_eq_exp_minus_1 [symmetric] take_bit_eq_mask [symmetric] unat_take_bit_word)
qed

lemma entries_dvd: "entries_ok n \<Longrightarrow> unat n dvd 65536 \<and> 0 < unat n \<and> unat n \<le> 32768"
  unfolding entries_ok_def
proof safe
  fix m :: nat
  assume m: "m < 16" "unat n = 2 ^ m"
  have "(2::nat) ^ m dvd 2 ^ 16" using m(1) by (intro le_imp_power_dvd) simp
  then show "unat n dvd 65536" by (simp add: m(2))
  have "(2::nat) ^ m \<le> 2 ^ 15" using m(1) by (intro power_increasing) simp_all
  then show "unat n \<le> 32768" by (simp add: m(2))
qed (simp)

lemma slot_of_add:
  assumes "entries_ok (br_entries ring)"
  shows "slot_of ring (h + word_of_nat i) = (unat h + i) mod unat (br_entries ring)"
proof -
  have d: "unat (br_entries ring) dvd 65536" using entries_dvd [OF assms] by blast
  have "unat (h + word_of_nat i) = (unat h + i) mod 65536"
    by (simp add: unat_word_ariths unat_of_nat_mod mod_simps)
  then show ?thesis by (simp add: slot_of_def mod_mod_cancel [OF d])
qed

lemma slots_distinct:
  assumes "entries_ok (br_entries ring)" and "i < n" and "n < unat (br_entries ring)"
  shows "slot_of ring (h + word_of_nat i) \<noteq> slot_of ring (h + word_of_nat n)"
proof
  assume e: "slot_of ring (h + word_of_nat i) = slot_of ring (h + word_of_nat n)"
  then have "(unat h + n) mod unat (br_entries ring) = (unat h + i) mod unat (br_entries ring)"
    by (simp add: slot_of_add [OF assms(1)])
  then have "unat (br_entries ring) dvd (unat h + n) - (unat h + i)"
    using assms(2) by (simp only: mod_eq_dvd_iff_nat)
  then show False using assms(2,3) by (auto dest: dvd_imp_le)
qed

lemma head_plus_count: "h + word_of_nat (unat (t - h)) = (t :: u16)"
  by simp

lemma unat_suc_diff: "unat (t - h :: u16) < 32768 \<Longrightarrow> unat (t + 1 - h) = Suc (unat (t - h))"
proof -
  assume "unat (t - h) < 32768"
  then have "unat (1 + (t - h)) = Suc (unat (t - h))" by (simp add: unat_word_ariths)
  then show ?thesis by (simp add: algebra_simps)
qed

lemma ready_entries_recycle:
  assumes "ring_wf ring head" and "unat (br_tail ring - head) < unat (br_entries ring)" and "bid < br_entries ring"
  obtains ring' where "ring_recycle ring bid = (Ok ring' :: ('e, BufferRing) result)"
    and "ready_entries ring' head = ready_entries ring head @ [ring_entry (br_storage ring) (br_buf_size ring) bid]"
    and "ring' = ring\<lparr>br_ring_mem := br_ring_mem ring', br_tail := br_tail ring', br_local_tail := br_local_tail ring'\<rparr>"
    and "br_tail ring' = br_tail ring + 1" and "br_local_tail ring' = br_tail ring'"
    and "length (br_ring_mem ring') = length (br_ring_mem ring)"
proof -
  define n where "n = unat (br_tail ring - head)"
  define e where "e = ring_entry (br_storage ring) (br_buf_size ring) bid"
  define ring' where "ring' = ring\<lparr>br_ring_mem := (br_ring_mem ring)[slot_of ring (br_tail ring) := e],
    br_tail := br_tail ring + 1, br_local_tail := br_tail ring + 1\<rparr>"
  have wf: "entries_ok (br_entries ring)" "length (br_ring_mem ring) = unat (br_entries ring)" "br_local_tail ring = br_tail ring"
    using assms(1) by (simp_all add: ring_wf_def)
  have rec: "ring_recycle ring bid = (Ok ring' :: ('e, BufferRing) result)"
    using assms(3) by (simp add: ring_recycle_def ring'_def e_def slot_word [OF wf(1)] slot_of_def wf(3) Let_def)
  have n: "n < unat (br_entries ring)" "head + word_of_nat n = br_tail ring" using assms(2) by (simp_all add: n_def)
  have suc: "unat (br_tail ring' - head) = Suc n"
    using unat_suc_diff [of "br_tail ring" head] n(1) entries_dvd [OF wf(1)] by (simp add: ring'_def n_def)
  have slot: "slot_of ring' i = slot_of ring i" for i by (simp add: slot_of_def ring'_def)
  have lt: "slot_of ring i < length (br_ring_mem ring)" for i
    using entries_dvd [OF wf(1)] by (simp add: slot_of_def wf(2))
  have old: "br_ring_mem ring' ! slot_of ring' (head + word_of_nat i) = br_ring_mem ring ! slot_of ring (head + word_of_nat i)" if "i < n" for i
    using slots_distinct [OF wf(1) that n(1), of head] by (simp add: slot n(2)) (simp add: ring'_def)
  have new: "br_ring_mem ring' ! slot_of ring' (head + word_of_nat n) = e"
    unfolding n(2) slot using lt by (simp add: ring'_def)
  have "ready_entries ring' head = ready_entries ring head @ [e]"
    unfolding ready_entries_def suc n_def [symmetric] by (simp add: old new)
  then show thesis
    using rec by (intro that [of ring']) (simp_all add: e_def ring'_def)
qed

lemma ready_entries_take:
  assumes "ready_entries ring head \<noteq> []"
  shows "ready_entries ring (head + 1) = tl (ready_entries ring head)"
proof -
  define n where "n = unat (br_tail ring - head)"
  have pos: "0 < n" using assms by (simp add: ready_entries_def n_def)
  then have "br_tail ring - head \<noteq> 0" by (auto simp: n_def)
  then have "unat (br_tail ring - (head + 1)) = n - 1"
    using unat_minus_one [of "br_tail ring - head"] by (simp add: n_def algebra_simps)
  moreover have "[0..<n] = 0 # map Suc [0..<n - 1]" using pos by (simp add: map_Suc_upt upt_conv_Cons)
  ultimately show ?thesis
    by (simp add: ready_entries_def n_def [symmetric] comp_def algebra_simps)
qed

subsection \<open>Buffers go round\<close>

text \<open>The contract between a ring and the code that hands buffers back: a queue with a capacity, to which
  a legal item is appended as long as there is room.  While items are only moved between the queue and
  the holder, none is lost or duplicated, and there is always room for a held item.\<close>

locale recycling_queue =
  fixes inv :: "'r \<Rightarrow> bool" and view :: "'r \<Rightarrow> 'b list" and room :: "'r \<Rightarrow> nat" and legal :: "'r \<Rightarrow> 'b \<Rightarrow> bool"
    and put :: "'r \<Rightarrow> 'b \<Rightarrow> 'r option" and drop_first :: "'r \<Rightarrow> 'r"
  assumes put_appends: "\<lbrakk>inv r; length (view r) < room r; legal r b\<rbrakk>
      \<Longrightarrow> \<exists>r'. put r b = Some r' \<and> inv r' \<and> view r' = view r @ [b] \<and> room r' = room r \<and> (\<forall>x. legal r' x = legal r x)"
    and drop_first_tl: "\<lbrakk>inv r; view r \<noteq> []\<rbrakk>
      \<Longrightarrow> inv (drop_first r) \<and> view (drop_first r) = tl (view r) \<and> room (drop_first r) = room r \<and>
          (\<forall>x. legal (drop_first r) x = legal r x)"
begin

definition accounts :: "'b multiset \<Rightarrow> 'r \<times> 'b list \<Rightarrow> bool" where
  "accounts items s \<longleftrightarrow>
     (case s of (r, held) \<Rightarrow> inv r \<and> mset (view r @ held) = items \<and> room r = size items \<and> (\<forall>b \<in># items. legal r b))"

lemma accounts_take:
  assumes "accounts items (r, held)" and "view r = b # bs"
  shows "accounts items (drop_first r, b # held)"
  using assms drop_first_tl [of r] by (simp add: accounts_def)

lemma accounts_give:
  assumes "accounts items (r, held)" and "b \<in> set held"
  shows "\<exists>r'. put r b = Some r' \<and> view r' = view r @ [b] \<and> accounts items (r', remove1 b held)"
proof -
  have a: "inv r" "mset (view r @ held) = items" "room r = size items" "\<forall>b \<in># items. legal r b"
    using assms(1) by (auto simp: accounts_def)
  have split: "mset held = add_mset b (mset (remove1 b held))" using assms(2) by simp
  have "b \<in># items" using assms(2) a(2) by auto
  moreover have "length (view r) < room r"
    using assms(2) a(2) by (cases held) (auto simp: a(3) simp flip: a(2))
  ultimately obtain r' where r': "put r b = Some r'" "inv r'" "view r' = view r @ [b]" "room r' = room r" "\<forall>x. legal r' x = legal r x"
    using put_appends a(1,4) by blast
  have "mset (view r' @ remove1 b held) = mset (view r) + add_mset b (mset (remove1 b held))" by (simp add: r'(3))
  then have "mset (view r' @ remove1 b held) = items" using a(2) split by (metis mset_append)
  then have "accounts items (r', remove1 b held)" using r' a(3,4) unfolding accounts_def by simp
  then show ?thesis using r'(1,3) by blast
qed

end

definition ring_put :: "BufferRing \<times> u16 \<Rightarrow> u16 \<Rightarrow> (BufferRing \<times> u16) option" where
  "ring_put s bid =
     (case ring_recycle (fst s) bid :: (unit, BufferRing) result of Ok ring \<Rightarrow> Some (ring, snd s) | _ \<Rightarrow> None)"

definition ring_advance :: "BufferRing \<times> u16 \<Rightarrow> BufferRing \<times> u16" where
  "ring_advance s = (fst s, snd s + 1)"

lemma length_ready_entries [simp]: "length (ready_entries ring head) = unat (br_tail ring - head)"
  by (simp add: ready_entries_def)

lemma ring_entry_bid [simp]: "en_bid (ring_entry base sz bid) = bid"
  by (simp add: ring_entry_def)

lemma ring_wf_recycle:
  assumes "ring_wf ring head" and "length (ready ring head) < unat (br_entries ring)" and "bid < br_entries ring"
  obtains ring' where "ring_recycle ring bid = (Ok ring' :: ('e, BufferRing) result)" and "ring_wf ring' head"
    and "ready ring' head = ready ring head @ [bid]"
    and "br_entries ring' = br_entries ring" "br_buf_size ring' = br_buf_size ring" "br_storage ring' = br_storage ring"
      "br_bgid ring' = br_bgid ring" "br_unregistered ring' = br_unregistered ring"
proof -
  have lt: "unat (br_tail ring - head) < unat (br_entries ring)" using assms(2) by (simp add: ready_def)
  obtain ring' where r: "ring_recycle ring bid = (Ok ring' :: ('e, BufferRing) result)"
    "ready_entries ring' head = ready_entries ring head @ [ring_entry (br_storage ring) (br_buf_size ring) bid]"
    "ring' = ring\<lparr>br_ring_mem := br_ring_mem ring', br_tail := br_tail ring', br_local_tail := br_local_tail ring'\<rparr>"
    "br_tail ring' = br_tail ring + 1" "br_local_tail ring' = br_tail ring'" "length (br_ring_mem ring') = length (br_ring_mem ring)"
    using ready_entries_recycle [OF assms(1) lt assms(3), where ?'e = 'e] by metis
  have same: "br_entries ring' = br_entries ring" "br_buf_size ring' = br_buf_size ring" "br_storage ring' = br_storage ring"
      "br_bgid ring' = br_bgid ring" "br_unregistered ring' = br_unregistered ring"
    by (subst r(3), simp)+
  have "unat (br_tail ring' - head) = Suc (unat (br_tail ring - head))"
    using arg_cong [OF r(2), of length] by simp
  then have "ring_wf ring' head"
    using assms(1,3) lt r(5,6) unfolding ring_wf_def same r(2) by auto
  then show thesis using r(1,2) same by (intro that [of ring']) (simp_all add: ready_def)
qed

lemma ring_wf_take:
  assumes "ring_wf ring head" and "ready ring head \<noteq> []"
  shows "ring_wf ring (head + 1) \<and> ready ring (head + 1) = tl (ready ring head)"
proof -
  have ne: "ready_entries ring head \<noteq> []" using assms(2) by (simp add: ready_def)
  then have t: "ready_entries ring (head + 1) = tl (ready_entries ring head)" by (rule ready_entries_take)
  then have "unat (br_tail ring - (head + 1)) = unat (br_tail ring - head) - 1"
    by (metis length_ready_entries length_tl)
  then show ?thesis
    using assms(1) t by (auto simp: ring_wf_def ready_def map_tl dest: list.set_sel(2) [OF ne])
qed

interpretation ring_queue: recycling_queue "\<lambda>(ring, head). ring_wf ring head" "\<lambda>(ring, head). ready ring head"
  "\<lambda>s. unat (br_entries (fst s))" "\<lambda>s bid. bid < br_entries (fst s)" ring_put ring_advance
proof
  fix r :: "BufferRing \<times> u16" and b :: u16
  assume a: "case r of (ring, head) \<Rightarrow> ring_wf ring head"
    "length (case r of (ring, head) \<Rightarrow> ready ring head) < unat (br_entries (fst r))" "b < br_entries (fst r)"
  obtain ring head where r: "r = (ring, head)" by force
  obtain ring' where "ring_recycle ring b = (Ok ring' :: (unit, BufferRing) result)" "ring_wf ring' head"
    "ready ring' head = ready ring head @ [b]" "br_entries ring' = br_entries ring"
    using a unfolding r by (auto elim: ring_wf_recycle [where ?'e = unit])
  then show "\<exists>r'. ring_put r b = Some r' \<and> (case r' of (ring, head) \<Rightarrow> ring_wf ring head) \<and>
      (case r' of (ring, head) \<Rightarrow> ready ring head) = (case r of (ring, head) \<Rightarrow> ready ring head) @ [b] \<and>
      unat (br_entries (fst r')) = unat (br_entries (fst r)) \<and> (\<forall>x. (x < br_entries (fst r')) = (x < br_entries (fst r)))"
    by (simp add: ring_put_def r)
next
  fix r :: "BufferRing \<times> u16"
  assume "case r of (ring, head) \<Rightarrow> ring_wf ring head" "(case r of (ring, head) \<Rightarrow> ready ring head) \<noteq> []"
  then show "(case ring_advance r of (ring, head) \<Rightarrow> ring_wf ring head) \<and>
      (case ring_advance r of (ring, head) \<Rightarrow> ready ring head) = tl (case r of (ring, head) \<Rightarrow> ready ring head) \<and>
      unat (br_entries (fst (ring_advance r))) = unat (br_entries (fst r)) \<and>
      (\<forall>x. (x < br_entries (fst (ring_advance r))) = (x < br_entries (fst r)))"
    using ring_wf_take by (cases r) (auto simp: ring_advance_def)
qed

subsection \<open>Life of a ring\<close>

lemma ring_new_shape:
  assumes "ring_new io bgid entries buf_size k = (k', Ok ring)"
  shows "\<exists>base. ring = \<lparr>br_ring_mem = map (\<lambda>i. ring_entry base buf_size (word_of_nat i)) [0..<unat entries],
      br_tail = entries, br_storage = base, br_entries = entries, br_buf_size = buf_size, br_bgid = bgid,
      br_local_tail = entries, br_unregistered = False\<rparr>"
  using assms unfolding ring_new_def Let_def
  by (simp split: if_split_asm) (simp split: prod.splits option.splits, (simp split: result.splits if_split_asm)?, blast)

lemma ring_new_ok:
  assumes "ring_new io bgid entries buf_size k = (k', Ok ring)"
  shows "ring_wf ring 0" and "ready ring 0 = map word_of_nat [0..<unat entries]" and "br_entries ring = entries"
    and "br_bgid ring = bgid" and "br_buf_size ring = buf_size" and "buf_size \<noteq> 0" and "\<not> br_unregistered ring"
proof -
  have ok: "entries_ok entries" and nz: "buf_size \<noteq> 0"
    using assms by (auto simp: ring_new_def entries_ok_def is_power_of_two_iff split: if_splits)
  obtain base where r: "ring = \<lparr>br_ring_mem = map (\<lambda>i. ring_entry base buf_size (word_of_nat i)) [0..<unat entries],
      br_tail = entries, br_storage = base, br_entries = entries, br_buf_size = buf_size, br_bgid = bgid,
      br_local_tail = entries, br_unregistered = False\<rparr>"
    using ring_new_shape [OF assms] by blast
  have "ready_entries ring 0 = map (\<lambda>i. ring_entry base buf_size (word_of_nat i)) [0..<unat entries]"
    using entries_dvd [OF ok] by (auto simp: ready_entries_def r slot_of_def unat_of_nat_mod)
  moreover have "word_of_nat i < entries" if "i < unat entries" for i
    using that by (simp add: word_less_nat_alt unat_of_nat_mod)
  ultimately show "ring_wf ring 0" "ready ring 0 = map word_of_nat [0..<unat entries]" "br_entries ring = entries"
    "br_bgid ring = bgid" "br_buf_size ring = buf_size" "buf_size \<noteq> 0" "\<not> br_unregistered ring"
    using ok nz by (auto simp: ring_wf_def ready_def r)
qed

text \<open>The kernel takes the first ready buffer for received bytes; the program recycles a buffer it holds.\<close>

inductive ring_run :: "BufferRing \<times> u16 \<times> u16 list \<Rightarrow> BufferRing \<times> u16 \<times> u16 list \<Rightarrow> bool" where
  run_start: "ring_run s s"
| run_take: "\<lbrakk>ring_run s (ring, head, held); ready ring head = b # bs\<rbrakk> \<Longrightarrow> ring_run s (ring, head + 1, b # held)"
| run_give: "\<lbrakk>ring_run s (ring, head, held); b \<in> set held; ring_recycle ring b = (Ok ring' :: (unit, BufferRing) result)\<rbrakk>
    \<Longrightarrow> ring_run s (ring', head, remove1 b held)"

lemma ring_run_accounts:
  assumes "ring_run s t" and "ring_queue.accounts items ((fst s, fst (snd s)), snd (snd s))"
  shows "ring_queue.accounts items ((fst t, fst (snd t)), snd (snd t))"
  using assms
proof (induction rule: ring_run.induct)
  case (run_take s ring head held b bs)
  then show ?case using ring_queue.accounts_take [of items "(ring, head)" held b bs] by (simp add: ring_advance_def)
next
  case (run_give s ring head held b ring')
  then show ?case using ring_queue.accounts_give [of items "(ring, head)" held b] by (auto simp: ring_put_def)
qed simp

text \<open>C13. Receive buffers are conserved.  Whatever the order in which the kernel takes buffers and the
  program recycles the ones it holds, across any number of wrap-arounds of the 16-bit tail, every buffer
  of a fresh ring is at any time exactly once either ready for the kernel or held by the program;
  recycling a held buffer never panics and appends it behind the ready ones without touching them, and
  every ready entry points to its own part of the buffer memory.\<close>

theorem ring_conserves_buffers:
  assumes "ring_new io bgid entries buf_size k = (k', Ok ring0)" and "ring_run (ring0, 0, []) (ring, head, held)"
  shows "mset (ready ring head @ held) = mset (map word_of_nat [0..<unat entries]) \<and>
    (\<forall>b \<in> set held. \<exists>ring'. ring_recycle ring b = (Ok ring' :: (unit, BufferRing) result) \<and> ready ring' head = ready ring head @ [b]) \<and>
    (\<forall>e \<in> set (ready_entries ring head). en_bid e < br_entries ring \<and>
       e = ring_entry (br_storage ring) (br_buf_size ring) (en_bid e))"
proof -
  define items :: "u16 multiset" where "items = mset (map word_of_nat [0..<unat entries])"
  note new = ring_new_ok [OF assms(1)]
  have "ring_queue.accounts items ((ring0, 0), [])"
    unfolding ring_queue.accounts_def items_def using new(1-3) by (auto simp: word_less_nat_alt unat_of_nat_mod)
  then have acc: "ring_queue.accounts items ((ring, head), held)"
    using ring_run_accounts [OF assms(2)] by simp
  have "\<exists>ring'. ring_recycle ring b = (Ok ring' :: (unit, BufferRing) result) \<and> ready ring' head = ready ring head @ [b]"
    if "b \<in> set held" for b
    using ring_queue.accounts_give [OF acc that] by (auto simp: ring_put_def split: result.splits)
  moreover have "ring_wf ring head" "mset (ready ring head @ held) = items" using acc unfolding ring_queue.accounts_def by auto
  ultimately show ?thesis unfolding items_def ring_wf_def by blast
qed

text \<open>A kernel that grants every request, with its memory at address 4096.\<close>

definition sample_uring :: "Sqe list Uring" where
  "sample_uring = \<lparr>io_build = (\<lambda>_ _. Ok []), io_bundle = (\<lambda>_. True), io_push = (\<lambda>e k. Some (k @ [e])),
     io_register = (\<lambda>_ _ _ k. (k, Ok ())), io_unregister = (\<lambda>_ k. (k, Ok ())), io_submit = (\<lambda>k. (k, Ok (length k))),
     io_submit_and_wait = (\<lambda>_ k. (k, Ok (length k))), io_completion = (\<lambda>k. ([], k)),
     io_flags = \<lparr>cq_buffer_select = (\<lambda>f. if bit f 0 then Some (ucast (drop_bit 16 f)) else None), cq_more = (\<lambda>f. bit f 1)\<rparr>,
     io_alloc_zeroed = (\<lambda>_ k. (Some 4096, k)), io_boxed_slice = (\<lambda>_ k. (8192, k)), io_memory = (\<lambda>_ a. ucast a), io_from_bits_truncate = (\<lambda>f. f)\<rparr>"

theorem ring_conserves_buffers_witness:
  "\<exists>ring0 ring. ring_new sample_uring 3 2 16 [] = ([], Ok ring0) \<and> ring_run (ring0, 0, []) (ring, 1, [0]) \<and>
     mset (ready ring 1 @ [0]) = mset (map word_of_nat [0..<unat (2 :: u16)])"
proof -
  obtain ring0 where new: "ring_new sample_uring 3 2 16 [] = ([], Ok ring0)"
    by (simp add: ring_new_def sample_uring_def is_power_of_two_def register_buf_ring_def Let_def upt_rec
        ENTRY_SIZE_def ISIZE_MAX_def PAGE_SIZE_def bit_numeral_rec)
  have "ready ring0 0 = [0, 1]" using ring_new_ok(2) [OF new] by (simp add: upt_rec)
  then have run: "ring_run (ring0, 0, []) (ring0, 1, [0])" using run_take [OF run_start [of "(ring0, 0, [])"]] by simp
  show ?thesis using new run ring_conserves_buffers [OF new run] by blast
qed

end
