(* ===== verification/Tls.thy ===== *)
theory Tls
  imports Proactor_Op "HOL-Library.Multiset"
begin

text \<open>
  The TLS adapter (\<^verbatim>\<open>tls.rs\<close>): ciphertext in, plaintext chunks out to a callback, handshake and alert
  bytes out to the caller, and the ordering of cipher suites.

  The \<^verbatim>\<open>rustls\<close> connection is the parameter \<open>Rustls\<close> over an abstract session state \<open>'t\<close>; a client
  configuration is an opaque reference.  The two drain loops end when rustls has nothing left; they get
  as fuel one more than the amounts of buffered plaintext and of ciphertext to write that rustls
  reports, and run out of it, with value \<open>Panic\<close>, only if rustls hands out more than it has.
  \<open>rustls_lawful\<close> says that it does not; under it the loops end with their proper result.
\<close>

subsection \<open>Providers and cipher preference\<close>

datatype TlsError =
    TlsInvalidServerName bytes
  | TlsRustls string
  | TlsIo IoError
  | TlsBadAlpn bytes

datatype TlsCryptoProvider = AwsLc | Ring

definition tls_provider_default :: TlsCryptoProvider where "tls_provider_default = Ring"

fun tls_provider_fmt :: "TlsCryptoProvider \<Rightarrow> string" where
  "tls_provider_fmt AwsLc = ''aws-lc''"
| "tls_provider_fmt Ring = ''ring''"

text \<open>A parse error carries the rejected string; the message of the source is a rendering of it.\<close>

definition tls_provider_from_str :: "string \<Rightarrow> (string, TlsCryptoProvider) result" where
  "tls_provider_from_str s =
     (if s \<in> {''aws-lc'', ''aws_lc'', ''aws-lc-rs'', ''aws_lc_rs''} then Ok AwsLc
      else if s = ''ring'' then Ok Ring
      else Err s)"

datatype TlsCipherPreference = ProviderDefault | Aes128GcmFirst | Aes256GcmFirst | Chacha20First

fun cipher_preference_fmt :: "TlsCipherPreference \<Rightarrow> string" where
  "cipher_preference_fmt ProviderDefault = ''default''"
| "cipher_preference_fmt Aes128GcmFirst = ''aes128''"
| "cipher_preference_fmt Aes256GcmFirst = ''aes256''"
| "cipher_preference_fmt Chacha20First = ''chacha''"

definition cipher_preference_from_str :: "string \<Rightarrow> (string, TlsCipherPreference) result" where
  "cipher_preference_from_str s =
     (if s = ''default'' then Ok ProviderDefault
      else if s \<in> {''aes128'', ''aes-128'', ''aes128-gcm'', ''aes-128-gcm''} then Ok Aes128GcmFirst
      else if s \<in> {''aes256'', ''aes-256'', ''aes256-gcm'', ''aes-256-gcm''} then Ok Aes256GcmFirst
      else if s \<in> {''chacha'', ''chacha20'', ''chacha20-poly1305''} then Ok Chacha20First
      else Err s)"

datatype CipherSuite =
    TLS13_AES_128_GCM_SHA256
  | TLS13_AES_256_GCM_SHA384
  | TLS13_CHACHA20_POLY1305_SHA256
  | OtherSuite u16

fun preferred_suites :: "TlsCipherPreference \<Rightarrow> CipherSuite list" where
  "preferred_suites ProviderDefault = []"
| "preferred_suites Aes128GcmFirst = [TLS13_AES_128_GCM_SHA256, TLS13_AES_256_GCM_SHA384, TLS13_CHACHA20_POLY1305_SHA256]"
| "preferred_suites Aes256GcmFirst = [TLS13_AES_256_GCM_SHA384, TLS13_AES_128_GCM_SHA256, TLS13_CHACHA20_POLY1305_SHA256]"
| "preferred_suites Chacha20First = [TLS13_CHACHA20_POLY1305_SHA256, TLS13_AES_128_GCM_SHA256, TLS13_AES_256_GCM_SHA384]"

fun push_preferred :: "('p \<Rightarrow> CipherSuite) \<Rightarrow> 'p list \<Rightarrow> CipherSuite list \<Rightarrow> 'p list \<Rightarrow> 'p list" where
  "push_preferred suite suites [] reordered = reordered"
| "push_preferred suite suites (target # targets) reordered =
     (case find (\<lambda>s. suite s = target) suites of
        Some s \<Rightarrow> push_preferred suite suites targets (reordered @ [s])
      | None \<Rightarrow> push_preferred suite suites targets reordered)"

fun push_rest :: "('p \<Rightarrow> CipherSuite) \<Rightarrow> 'p list \<Rightarrow> 'p list \<Rightarrow> 'p list" where
  "push_rest suite [] reordered = reordered"
| "push_rest suite (s # suites) reordered =
     (if list_all (\<lambda>e. suite e \<noteq> suite s) reordered then push_rest suite suites (reordered @ [s])
      else push_rest suite suites reordered)"

definition apply_cipher_preference :: "('p \<Rightarrow> CipherSuite) \<Rightarrow> TlsCipherPreference \<Rightarrow> 'p list \<Rightarrow> 'p list" where
  "apply_cipher_preference suite preference suites =
     (if preference = ProviderDefault then suites
      else push_rest suite suites (push_preferred suite suites (preferred_suites preference) []))"

subsection \<open>The adapter\<close>

type_synonym ClientConfigRef = nat

datatype Fill = Chunk bytes | WouldBlock | FillErr IoError

record 't Rustls =
  rt_server_name_ok :: "bytes \<Rightarrow> bool"
  rt_default_config :: "TlsCryptoProvider \<Rightarrow> (string, ClientConfigRef) result"
  rt_new :: "ClientConfigRef \<Rightarrow> bytes \<Rightarrow> (string, 't) result"
  rt_is_handshaking :: "'t \<Rightarrow> bool"
  rt_alpn_protocol :: "'t \<Rightarrow> bytes option"
  rt_send_close_notify :: "'t \<Rightarrow> 't"
  rt_wants_read :: "'t \<Rightarrow> bool"
  rt_read_tls :: "bytes \<Rightarrow> 't \<Rightarrow> 't \<times> (IoError, nat) result"
  rt_process_new_packets :: "'t \<Rightarrow> 't \<times> (string, bool) result"
  rt_fill_buf :: "'t \<Rightarrow> Fill"
  rt_consume :: "nat \<Rightarrow> 't \<Rightarrow> 't"
  rt_wants_write :: "'t \<Rightarrow> bool"
  rt_write_tls :: "'t \<Rightarrow> 't \<times> (IoError, bytes) result"
  rt_write_all :: "bytes \<Rightarrow> 't \<Rightarrow> 't \<times> (IoError, unit) result"
  rt_plain_left :: "'t \<Rightarrow> nat"
  rt_cipher_left :: "'t \<Rightarrow> nat"

record 't TlsAdapter =
  ta_conn :: 't
  ta_peer_closed_notify :: bool

definition REQUIRED_ALPN :: bytes where
  "REQUIRED_ALPN = map (\<lambda>c. of_char c) ''http/1.1''"

definition new_client_with_config :: "'t Rustls \<Rightarrow> bytes \<Rightarrow> ClientConfigRef \<Rightarrow> (TlsError, 't TlsAdapter) result" where
  "new_client_with_config rt server_name config =
     (if \<not> rt_server_name_ok rt server_name then Err (TlsInvalidServerName server_name)
      else and_then (map_err TlsRustls (rt_new rt config server_name)) (\<lambda>conn.
             Ok \<lparr>ta_conn = conn, ta_peer_closed_notify = False\<rparr>))"

definition new_client_with_provider :: "'t Rustls \<Rightarrow> bytes \<Rightarrow> TlsCryptoProvider \<Rightarrow> (TlsError, 't TlsAdapter) result" where
  "new_client_with_provider rt server_name provider =
     and_then (map_err TlsRustls (rt_default_config rt provider)) (\<lambda>config. new_client_with_config rt server_name config)"

definition tls_new_client :: "'t Rustls \<Rightarrow> bytes \<Rightarrow> (TlsError, 't TlsAdapter) result" where
  "tls_new_client rt server_name = new_client_with_provider rt server_name tls_provider_default"

definition is_handshaking :: "'t Rustls \<Rightarrow> 't TlsAdapter \<Rightarrow> bool" where
  "is_handshaking rt a = rt_is_handshaking rt (ta_conn a)"

definition verify_alpn :: "'t Rustls \<Rightarrow> 't TlsAdapter \<Rightarrow> (TlsError, unit) result" where
  "verify_alpn rt a =
     (case rt_alpn_protocol rt (ta_conn a) of
        None \<Rightarrow> Ok ()
      | Some p \<Rightarrow> if p = REQUIRED_ALPN then Ok () else Err (TlsBadAlpn p))"

definition received_close_notify :: "'t TlsAdapter \<Rightarrow> bool" where
  "received_close_notify a = ta_peer_closed_notify a"

definition send_close_notify :: "'t Rustls \<Rightarrow> 't TlsAdapter \<Rightarrow> 't TlsAdapter" where
  "send_close_notify rt a = a\<lparr>ta_conn := rt_send_close_notify rt (ta_conn a)\<rparr>"

fun drain_plaintext_loop :: "'t Rustls \<Rightarrow> (bytes \<Rightarrow> 's \<Rightarrow> 's) \<Rightarrow> nat \<Rightarrow> 't \<Rightarrow> 's \<Rightarrow> ('t \<times> 's) \<times> (TlsError, unit) result" where
  "drain_plaintext_loop rt on_plaintext 0 t s = ((t, s), Panic)"
| "drain_plaintext_loop rt on_plaintext (Suc fuel) t s =
     (case rt_fill_buf rt t of
        Chunk chunk \<Rightarrow>
          if chunk = [] then ((t, s), Ok ())
          else drain_plaintext_loop rt on_plaintext fuel (rt_consume rt (length chunk) t) (on_plaintext chunk s)
      | WouldBlock \<Rightarrow> ((t, s), Ok ())
      | FillErr e \<Rightarrow> ((t, s), Err (TlsIo e)))"

definition drain_plaintext :: "'t Rustls \<Rightarrow> (bytes \<Rightarrow> 's \<Rightarrow> 's) \<Rightarrow> 't \<Rightarrow> 's \<Rightarrow> ('t \<times> 's) \<times> (TlsError, unit) result" where
  "drain_plaintext rt on_plaintext t s = drain_plaintext_loop rt on_plaintext (Suc (rt_plain_left rt t)) t s"

fun drain_ciphertext_loop :: "'t Rustls \<Rightarrow> nat \<Rightarrow> 't \<Rightarrow> bytes \<Rightarrow> ('t \<times> bytes) \<times> (TlsError, unit) result" where
  "drain_ciphertext_loop rt 0 t dst = ((t, dst), Panic)"
| "drain_ciphertext_loop rt (Suc fuel) t dst =
     (if \<not> rt_wants_write rt t then ((t, dst), Ok ())
      else case rt_write_tls rt t of
             (t, Ok out) \<Rightarrow>
               if out = [] then ((t, dst), Ok ()) else drain_ciphertext_loop rt fuel t (dst @ out)
           | (t, Err e) \<Rightarrow> ((t, dst), Err (TlsIo e))
           | (t, Panic) \<Rightarrow> ((t, dst), Panic))"

definition drain_ciphertext :: "'t Rustls \<Rightarrow> 't \<Rightarrow> bytes \<Rightarrow> ('t \<times> bytes) \<times> (TlsError, unit) result" where
  "drain_ciphertext rt t dst = drain_ciphertext_loop rt (Suc (rt_cipher_left rt t)) t dst"

type_synonym ('t, 's) ingest = "'t TlsAdapter \<times> bytes \<times> 's"

definition process_and_drain ::
  "'t Rustls \<Rightarrow> (bytes \<Rightarrow> 's \<Rightarrow> 's) \<Rightarrow> ('t, 's) ingest \<Rightarrow> ('t, 's) ingest \<times> (TlsError, unit) result" where
  "process_and_drain rt on_plaintext st =
     (case st of (a, dst, s) \<Rightarrow>
        case rt_process_new_packets rt (ta_conn a) of
          (t, Err e) \<Rightarrow> ((a\<lparr>ta_conn := t\<rparr>, dst, s), Err (TlsRustls e))
        | (t, Panic) \<Rightarrow> ((a\<lparr>ta_conn := t\<rparr>, dst, s), Panic)
        | (t, Ok peer_has_closed) \<Rightarrow>
            let a = a\<lparr>ta_conn := t, ta_peer_closed_notify := ta_peer_closed_notify a \<or> peer_has_closed\<rparr>
            in case drain_plaintext rt on_plaintext t s of
                 ((t, s), Ok _) \<Rightarrow>
                   (case drain_ciphertext rt t dst of ((t, dst), r) \<Rightarrow> ((a\<lparr>ta_conn := t\<rparr>, dst, s), r))
               | ((t, s), r) \<Rightarrow> ((a\<lparr>ta_conn := t\<rparr>, dst, s), r))"

text \<open>How the loop over the ciphertext is left: at its end or \<^verbatim>\<open>break\<close> (with the \<^verbatim>\<open>processed\<close> flag), or by an
  early \<^verbatim>\<open>return\<close>.\<close>

datatype IngestExit = IngestDone bool | IngestReturn

function ingest_loop ::
  "'t Rustls \<Rightarrow> (bytes \<Rightarrow> 's \<Rightarrow> 's) \<Rightarrow> bytes \<Rightarrow> bool \<Rightarrow> ('t, 's) ingest \<Rightarrow> ('t, 's) ingest \<times> (TlsError, IngestExit) result" where
  "ingest_loop rt on_plaintext src processed st =
     (if src = [] then (st, Ok (IngestDone processed))
      else
        try_st (if \<not> rt_wants_read rt (ta_conn (fst st)) then process_and_drain rt on_plaintext st else (st, Ok ())) (\<lambda>st _.
          if \<not> rt_wants_read rt (ta_conn (fst st)) then (st, Ok IngestReturn)
          else
            case rt_read_tls rt src (ta_conn (fst st)) of
              (t, Err e) \<Rightarrow> (apfst (\<lambda>a. a\<lparr>ta_conn := t\<rparr>) st, Err (TlsIo e))
            | (t, Panic) \<Rightarrow> (apfst (\<lambda>a. a\<lparr>ta_conn := t\<rparr>) st, Panic)
            | (t, Ok n) \<Rightarrow>
                if n = 0 then (apfst (\<lambda>a. a\<lparr>ta_conn := t\<rparr>) st, Ok (IngestDone processed))
                else try_st (process_and_drain rt on_plaintext (apfst (\<lambda>a. a\<lparr>ta_conn := t\<rparr>) st)) (\<lambda>st _.
                       ingest_loop rt on_plaintext (drop n src) True st)))"
  by pat_completeness auto
termination by (relation "measure (\<lambda>(rt, f, src, p, st). length src)") auto

declare ingest_loop.simps [simp del]

definition ingest_ciphertext ::
  "'t Rustls \<Rightarrow> bytes \<Rightarrow> (bytes \<Rightarrow> 's \<Rightarrow> 's) \<Rightarrow> ('t, 's) ingest \<Rightarrow> ('t, 's) ingest \<times> (TlsError, unit) result" where
  "ingest_ciphertext rt src on_plaintext st =
     try_st (ingest_loop rt on_plaintext src False st) (\<lambda>st exit.
       case exit of
         IngestReturn \<Rightarrow> (st, Ok ())
       | IngestDone processed \<Rightarrow> if \<not> processed then process_and_drain rt on_plaintext st else (st, Ok ()))"

definition egress_plaintext ::
  "'t Rustls \<Rightarrow> bytes \<Rightarrow> 't TlsAdapter \<Rightarrow> bytes \<Rightarrow> ('t TlsAdapter \<times> bytes) \<times> (TlsError, unit) result" where
  "egress_plaintext rt src a dst =
     try_st (if src \<noteq> [] then
               (case rt_write_all rt src (ta_conn a) of (t, r) \<Rightarrow> ((a\<lparr>ta_conn := t\<rparr>, dst), map_err TlsIo r))
             else ((a, dst), Ok ())) (\<lambda>(a, dst) _.
       case drain_ciphertext rt (ta_conn a) dst of ((t, dst), r) \<Rightarrow> ((a\<lparr>ta_conn := t\<rparr>, dst), r))"

subsection \<open>Cipher suites\<close>

lemma push_preferred_eq:
  "push_preferred suite suites targets acc = acc @ List.map_filter (\<lambda>target. find (\<lambda>s. suite s = target) suites) targets"
  by (induction targets arbitrary: acc) (auto simp: map_filter_simps split: option.split)

lemma push_rest_eq:
  assumes "distinct (map suite suites)"
  shows "push_rest suite suites acc = acc @ filter (\<lambda>s. suite s \<notin> suite ` set acc) suites"
  using assms
proof (induction suites arbitrary: acc)
  case (Cons s suites)
  have "filter (\<lambda>x. suite x \<notin> suite ` set (acc @ [s])) suites = filter (\<lambda>x. suite x \<notin> suite ` set acc) suites"
    by (rule filter_cong) (use Cons.prems in \<open>auto simp: image_iff\<close>)
  then show ?case using Cons by (auto simp: list_all_iff image_iff)
qed simp

lemma find_suite:
  assumes "distinct (map suite suites)"
  shows "find (\<lambda>s. suite s = target) suites = Some s \<longleftrightarrow> s \<in> set suites \<and> suite s = target"
  using assms by (induction suites) (auto simp: image_iff)

lemma set_map_filter_iff: "x \<in> set (List.map_filter f xs) \<longleftrightarrow> (\<exists>y \<in> set xs. f y = Some x)"
  by (induction xs) (auto simp: map_filter_simps split: option.split)

lemma mset_preferred:
  assumes "distinct (map suite suites)" and "distinct targets"
  shows "mset (List.map_filter (\<lambda>target. find (\<lambda>s. suite s = target) suites) targets) =
    mset (filter (\<lambda>s. suite s \<in> set targets) suites)"
proof -
  let ?xs = "List.map_filter (\<lambda>target. find (\<lambda>s. suite s = target) suites) targets"
  have set: "set ?xs = {s \<in> set suites. suite s \<in> set targets}"
    by (auto simp: set_map_filter_iff find_suite [OF assms(1)])
  have "distinct ?xs"
    using assms(2)
    by (induction targets) (auto simp: map_filter_simps find_suite [OF assms(1)] set_map_filter_iff split: option.split)
  moreover have "distinct (filter (\<lambda>s. suite s \<in> set targets) suites)" using assms(1) by (simp add: distinct_map)
  ultimately show ?thesis using set by (metis set_filter set_eq_iff_mset_eq_distinct)
qed

lemma preferred_distinct: "distinct (preferred_suites p)"
  by (cases p) simp_all

text \<open>C37. Reordering cipher suites by a preference only reorders: a provider without duplicate suites keeps
  exactly its suites; the preferred ones it has come first, in the order of the preference, and the
  others follow in their old order.\<close>

theorem cipher_preference_reorders:
  assumes "distinct (map suite suites)"
  shows "mset (apply_cipher_preference suite p suites) = mset suites \<and>
    apply_cipher_preference suite p suites =
      List.map_filter (\<lambda>target. find (\<lambda>s. suite s = target) suites) (preferred_suites p) @
      filter (\<lambda>s. suite s \<notin> set (preferred_suites p)) suites"
proof (cases "p = ProviderDefault")
  case False
  let ?first = "List.map_filter (\<lambda>target. find (\<lambda>s. suite s = target) suites) (preferred_suites p)"
  have "suite s \<in> suite ` set ?first \<longleftrightarrow> suite s \<in> set (preferred_suites p)" if "s \<in> set suites" for s
    using that by (auto simp: set_map_filter_iff find_suite [OF assms] image_iff)
  then have rest: "filter (\<lambda>s. suite s \<notin> suite ` set ?first) suites = filter (\<lambda>s. suite s \<notin> set (preferred_suites p)) suites"
    by (intro filter_cong) auto
  have eq: "apply_cipher_preference suite p suites = ?first @ filter (\<lambda>s. suite s \<notin> set (preferred_suites p)) suites"
    using False by (simp add: apply_cipher_preference_def push_preferred_eq push_rest_eq [OF assms] rest)
  then show ?thesis
    using mset_preferred [OF assms preferred_distinct [of p]] multiset_partition [of "mset suites" "\<lambda>s. suite s \<in> set (preferred_suites p)"]
    by (simp add: mset_filter)
qed (simp add: apply_cipher_preference_def map_filter_simps)

theorem cipher_preference_reorders_witness:
  "apply_cipher_preference id Chacha20First [OtherSuite 9, TLS13_AES_256_GCM_SHA384, TLS13_CHACHA20_POLY1305_SHA256] =
     [TLS13_CHACHA20_POLY1305_SHA256, TLS13_AES_256_GCM_SHA384, OtherSuite 9]"
  using cipher_preference_reorders [of id "[OtherSuite 9, TLS13_AES_256_GCM_SHA384, TLS13_CHACHA20_POLY1305_SHA256]" Chacha20First]
  by (simp add: map_filter_simps)

subsection \<open>Draining rustls\<close>

text \<open>What the adapter relies on: rustls has finite buffers, a chunk handed out and ciphertext written leave
  less behind, and no call panics.\<close>

definition rustls_lawful :: "'t Rustls \<Rightarrow> bool" where
  "rustls_lawful rt \<longleftrightarrow>
     (\<forall>t chunk. rt_fill_buf rt t = Chunk chunk \<longrightarrow> chunk \<noteq> [] \<longrightarrow>
        rt_plain_left rt (rt_consume rt (length chunk) t) < rt_plain_left rt t) \<and>
     (\<forall>t t' out. rt_wants_write rt t \<longrightarrow> rt_write_tls rt t = (t', Ok out) \<longrightarrow> out \<noteq> [] \<longrightarrow>
        rt_cipher_left rt t' < rt_cipher_left rt t) \<and>
     (\<forall>t src. snd (rt_read_tls rt src t) \<noteq> Panic) \<and> (\<forall>t. snd (rt_process_new_packets rt t) \<noteq> Panic) \<and>
     (\<forall>t. snd (rt_write_tls rt t) \<noteq> Panic) \<and> (\<forall>t src. snd (rt_write_all rt src t) \<noteq> Panic)"

lemma rustls_lawfulD:
  assumes "rustls_lawful rt"
  shows "rt_fill_buf rt t = Chunk chunk \<Longrightarrow> chunk \<noteq> [] \<Longrightarrow> rt_plain_left rt (rt_consume rt (length chunk) t) < rt_plain_left rt t"
    and "rt_wants_write rt t \<Longrightarrow> rt_write_tls rt t = (t', Ok out) \<Longrightarrow> out \<noteq> [] \<Longrightarrow> rt_cipher_left rt t' < rt_cipher_left rt t"
    and "rt_read_tls rt src t \<noteq> (t', Panic)" and "rt_process_new_packets rt t \<noteq> (t', Panic)"
    and "rt_write_tls rt t \<noteq> (t', Panic)" and "rt_write_all rt src t \<noteq> (t', Panic)"
  using assms unfolding rustls_lawful_def by (metis snd_conv)+

lemma drain_plaintext_loop_ends:
  assumes "rustls_lawful rt" and "rt_plain_left rt t < fuel"
  shows "snd (drain_plaintext_loop rt f fuel t s) \<noteq> Panic"
  using assms(2)
proof (induction fuel arbitrary: t s)
  case (Suc fuel)
  show ?case
  proof (cases "rt_fill_buf rt t")
    case (Chunk chunk)
    show ?thesis
    proof (cases "chunk = []")
      case False
      have "rt_plain_left rt (rt_consume rt (length chunk) t) < fuel"
        using Suc.prems rustls_lawfulD(1) [OF assms(1) Chunk False] by linarith
      then show ?thesis using Suc.IH Chunk False by simp
    qed (simp add: Chunk)
  qed simp_all
qed simp

lemma drain_ciphertext_loop_ends:
  assumes "rustls_lawful rt" and "rt_cipher_left rt t < fuel"
  shows "snd (drain_ciphertext_loop rt fuel t dst) \<noteq> Panic"
  using assms(2)
proof (induction fuel arbitrary: t dst)
  case (Suc fuel)
  show ?case
  proof (cases "rt_wants_write rt t")
    case True
    obtain t' r where w: "rt_write_tls rt t = (t', r)" by force
    show ?thesis
    proof (cases r)
      case (Ok out)
      then have "out \<noteq> [] \<Longrightarrow> rt_cipher_left rt t' < fuel"
        using Suc.prems rustls_lawfulD(2) [OF assms(1) True] w by fastforce
      then show ?thesis using Suc.IH Ok w by simp
    qed (use w rustls_lawfulD(5) [OF assms(1)] in auto)
  qed simp
qed simp

lemma drain_ends:
  assumes "rustls_lawful rt"
  shows "drain_plaintext rt f t s \<noteq> (ts, Panic)" and "drain_ciphertext rt t dst \<noteq> (td, Panic)"
  using drain_plaintext_loop_ends [OF assms, of t "Suc (rt_plain_left rt t)" f s]
    drain_ciphertext_loop_ends [OF assms, of t "Suc (rt_cipher_left rt t)" dst]
  by (auto simp: drain_plaintext_def drain_ciphertext_def simp del: drain_plaintext_loop.simps drain_ciphertext_loop.simps)

lemma drain_ciphertext_appends: "drain_ciphertext_loop rt fuel t dst = ((t', dst'), r) \<Longrightarrow> \<exists>out. dst' = dst @ out"
  by (induction fuel arbitrary: t dst) (auto split: if_splits prod.splits result.splits, metis append_assoc)

text \<open>The callback is only told the chunks: running with a callback is running with the one that collects
  the chunks, and then telling it the chunks in order.\<close>

definition collect :: "bytes \<Rightarrow> bytes list \<Rightarrow> bytes list" where
  "collect c cs = cs @ [c]"

definition tell :: "(bytes \<Rightarrow> 's \<Rightarrow> 's) \<Rightarrow> 's \<Rightarrow> ('t, bytes list) ingest \<Rightarrow> ('t, 's) ingest" where
  "tell f s st = (fst st, fst (snd st), fold f (snd (snd st)) s)"

lemma drain_plaintext_tell:
  "drain_plaintext_loop rt f fuel t (fold f cs s) = apfst (apsnd (\<lambda>cs. fold f cs s)) (drain_plaintext_loop rt collect fuel t cs)"
proof (induction fuel arbitrary: t cs)
  case (Suc fuel)
  have step: "f c (fold f cs s) = fold f (cs @ [c]) s" for c by simp
  show ?case using Suc.IH [of _ "cs @ [_]"] by (auto simp: collect_def step simp del: fold_append split: Fill.split)
qed simp

lemma drain_tell:
  "drain_plaintext rt f t (fold f cs s) = apfst (apsnd (\<lambda>cs. fold f cs s)) (drain_plaintext rt collect t cs)"
  unfolding drain_plaintext_def by (rule drain_plaintext_tell)

lemma drain_plaintext_chunks:
  assumes "drain_plaintext_loop rt collect fuel t cs = ((t', cs'), r)" and "[] \<notin> set cs"
  shows "[] \<notin> set cs'"
  using assms by (induction fuel arbitrary: t cs) (auto simp: collect_def split: Fill.splits if_splits)

lemma process_and_drain_tell:
  "process_and_drain rt f (tell f s st) = apfst (tell f s) (process_and_drain rt collect st)"
  by (cases st)
    (auto simp: process_and_drain_def tell_def drain_tell Let_def split: prod.split result.split)

lemma process_and_drain_facts:
  assumes "process_and_drain rt f st = (st', r)"
  shows "\<exists>out. fst (snd st') = fst (snd st) @ out"
    and "received_close_notify (fst st) \<Longrightarrow> received_close_notify (fst st')"
    and "rustls_lawful rt \<Longrightarrow> r \<noteq> Panic"
proof -
  obtain a dst s where st: "st = (a, dst, s)" by (cases st) auto
  obtain t p where pr: "rt_process_new_packets rt (ta_conn a) = (t, p)" by force
  obtain t2 s2 d where dp: "drain_plaintext rt f t s = ((t2, s2), d)" by (cases "drain_plaintext rt f t s") auto
  obtain t3 dst3 e where dc: "drain_ciphertext rt t2 dst = ((t3, dst3), e)" by (cases "drain_ciphertext rt t2 dst") auto
  have "\<exists>out. dst3 = dst @ out" using dc unfolding drain_ciphertext_def by (rule drain_ciphertext_appends)
  then show "\<exists>out. fst (snd st') = fst (snd st) @ out"
    using assms by (cases p; cases d) (auto simp: st process_and_drain_def pr dp dc Let_def)
  show "received_close_notify (fst st')" if "received_close_notify (fst st)"
    using assms that by (cases p; cases d) (auto simp: st process_and_drain_def pr dp dc Let_def received_close_notify_def)
  assume l: "rustls_lawful rt"
  have "p \<noteq> Panic" using pr rustls_lawfulD(4) [OF l, of "ta_conn a" t] by auto
  moreover have "d \<noteq> Panic" using dp drain_ends(1) [OF l, of f t s "(t2, s2)"] by auto
  moreover have "e \<noteq> Panic" using dc drain_ends(2) [OF l, of t2 dst "(t3, dst3)"] by auto
  ultimately show "r \<noteq> Panic"
    using assms by (cases p; cases d) (auto simp: st process_and_drain_def pr dp dc Let_def)
qed

lemma process_and_drain_chunks:
  assumes "process_and_drain rt collect (a, dst, cs) = ((a', dst', cs'), r)" and "[] \<notin> set cs"
  shows "[] \<notin> set cs'"
  using assms drain_plaintext_chunks [of rt _ _ cs]
  by (auto simp: process_and_drain_def drain_plaintext_def Let_def simp del: drain_plaintext_loop.simps
      split: prod.splits result.splits)

lemma fst_tell [simp]: "fst (tell f s st) = fst st"
  by (simp add: tell_def)

lemma apfst_tell: "apfst g (tell f s st) = tell f s (apfst g st)"
  by (simp add: tell_def apfst_def map_prod_def split_beta)

lemma try_st_tell:
  assumes "\<And>y u. m = (y, Ok u) \<Longrightarrow> g (tell f s y) u = apfst (tell f s) (h y u)"
  shows "try_st (apfst (tell f s) m) g = apfst (tell f s) (try_st m h)"
  using assms by (cases "(m, h)" rule: try_st.cases) auto

lemma ingest_loop_tell: "ingest_loop rt f src p (tell f s st) = apfst (tell f s) (ingest_loop rt collect src p st)"
proof (induction src arbitrary: p st rule: length_induct)
  case (1 src)
  have maybe: "(if b then process_and_drain rt f (tell f s st) else (tell f s st, Ok ())) =
      apfst (tell f s) (if b then process_and_drain rt collect st else (st, Ok ()))" for b
    by (simp add: process_and_drain_tell)
  have rest: "(case rt_read_tls rt src (ta_conn (fst y)) of
        (t, Err e) \<Rightarrow> (apfst (\<lambda>a. a\<lparr>ta_conn := t\<rparr>) (tell f s y), Err (TlsIo e))
      | (t, Panic) \<Rightarrow> (apfst (\<lambda>a. a\<lparr>ta_conn := t\<rparr>) (tell f s y), Panic)
      | (t, Ok n) \<Rightarrow>
          if n = 0 then (apfst (\<lambda>a. a\<lparr>ta_conn := t\<rparr>) (tell f s y), Ok (IngestDone p))
          else try_st (process_and_drain rt f (apfst (\<lambda>a. a\<lparr>ta_conn := t\<rparr>) (tell f s y))) (\<lambda>st _.
                 ingest_loop rt f (drop n src) True st)) =
    apfst (tell f s) (case rt_read_tls rt src (ta_conn (fst y)) of
        (t, Err e) \<Rightarrow> (apfst (\<lambda>a. a\<lparr>ta_conn := t\<rparr>) y, Err (TlsIo e))
      | (t, Panic) \<Rightarrow> (apfst (\<lambda>a. a\<lparr>ta_conn := t\<rparr>) y, Panic)
      | (t, Ok n) \<Rightarrow>
          if n = 0 then (apfst (\<lambda>a. a\<lparr>ta_conn := t\<rparr>) y, Ok (IngestDone p))
          else try_st (process_and_drain rt collect (apfst (\<lambda>a. a\<lparr>ta_conn := t\<rparr>) y)) (\<lambda>st _.
                 ingest_loop rt collect (drop n src) True st))" if "src \<noteq> []" for y
  proof -
    obtain t r where rd: "rt_read_tls rt src (ta_conn (fst y)) = (t, r)" by force
    have "ingest_loop rt f (drop n src) True (tell f s x) = apfst (tell f s) (ingest_loop rt collect (drop n src) True x)"
      if "n \<noteq> 0" for n x
      using 1 [rule_format, of "drop n src"] that \<open>src \<noteq> []\<close> by simp
    then show ?thesis
      unfolding rd by (cases r) (auto simp: apfst_tell process_and_drain_tell intro!: try_st_tell)
  qed
  show ?case
  proof (cases "src = []")
    case False
    show ?thesis
      by (subst (1 2) ingest_loop.simps)
        (simp only: False if_False fst_tell maybe, rule try_st_tell, simp add: rest [OF False])
  qed (simp add: ingest_loop.simps)
qed

text \<open>What every drain and every read keeps, the whole ingest keeps; and what every step avoids, it avoids.\<close>

lemma ingest_loop_inv:
  assumes step: "\<And>st st' r. process_and_drain rt f st = (st', r) \<Longrightarrow> P st \<Longrightarrow> P st' \<and> (L \<longrightarrow> r \<noteq> Panic)"
    and upd: "\<And>st src t q. P st \<Longrightarrow> rt_read_tls rt src (ta_conn (fst st)) = (t, q) \<Longrightarrow> P (apfst (\<lambda>a. a\<lparr>ta_conn := t\<rparr>) st)"
    and read: "\<And>src t t'. L \<Longrightarrow> rt_read_tls rt src t \<noteq> (t', Panic)"
    and "P st" and "ingest_loop rt f src p st = (st', r)"
  shows "P st' \<and> (L \<longrightarrow> r \<noteq> Panic)"
  using assms(4,5)
proof (induction src arbitrary: p st rule: length_induct)
  case (1 src)
  show ?case
  proof (cases "src = []")
    case False
    have "try_st (if \<not> rt_wants_read rt (ta_conn (fst st)) then process_and_drain rt f st else (st, Ok ())) (\<lambda>st _.
        if \<not> rt_wants_read rt (ta_conn (fst st)) then (st, Ok IngestReturn)
        else case rt_read_tls rt src (ta_conn (fst st)) of
            (t, Err e) \<Rightarrow> (apfst (\<lambda>a. a\<lparr>ta_conn := t\<rparr>) st, Err (TlsIo e))
          | (t, Panic) \<Rightarrow> (apfst (\<lambda>a. a\<lparr>ta_conn := t\<rparr>) st, Panic)
          | (t, Ok n) \<Rightarrow>
              if n = 0 then (apfst (\<lambda>a. a\<lparr>ta_conn := t\<rparr>) st, Ok (IngestDone p))
              else try_st (process_and_drain rt f (apfst (\<lambda>a. a\<lparr>ta_conn := t\<rparr>) st)) (\<lambda>st _.
                     ingest_loop rt f (drop n src) True st)) = (st', r)"
      using 1(3) False by (subst (asm) ingest_loop.simps) simp
    then show ?thesis
    proof (cases rule: try_st_cases)
      case (ok st1 x)
      have P1: "P st1" using ok(1) 1(2) step by (auto split: if_splits)
      obtain t rd where rd: "rt_read_tls rt src (ta_conn (fst st1)) = (t, rd)" by force
      define st2 where "st2 = apfst (\<lambda>a. a\<lparr>ta_conn := t\<rparr>) st1"
      have P2: "P st2" unfolding st2_def by (rule upd [OF P1 rd])
      show ?thesis
      proof (cases "rt_wants_read rt (ta_conn (fst st1)) \<and> (\<exists>n. rd = Ok n \<and> n \<noteq> 0)")
        case True
        then obtain n where n: "rd = Ok n" "n \<noteq> 0" by blast
        then have "try_st (process_and_drain rt f st2) (\<lambda>st _. ingest_loop rt f (drop n src) True st) = (st', r)"
          using ok(2) True by (simp add: rd st2_def)
        then show ?thesis
        proof (cases rule: try_st_cases)
          case (ok st3 y)
          then show ?thesis using 1(1) [rule_format, of "drop n src" st3 True] n(2) False step [OF ok(1) P2] by simp
        qed (use step P2 in blast)+
      next
        case False
        then show ?thesis
          using ok(2) P1 P2 read [of src "ta_conn (fst st1)" t] by (auto simp: rd st2_def split: result.splits if_splits)
      qed
    next
      case (err e)
      then show ?thesis using step [of st st' "Err e"] 1(2) by (simp split: if_splits)
    next
      case panic
      then show ?thesis using step [of st st' Panic] 1(2) by (simp split: if_splits)
    qed
  qed (use 1 in \<open>auto simp: ingest_loop.simps\<close>)
qed

lemma ingest_inv:
  assumes step: "\<And>st st' r. process_and_drain rt f st = (st', r) \<Longrightarrow> P st \<Longrightarrow> P st' \<and> (L \<longrightarrow> r \<noteq> Panic)"
    and upd: "\<And>st src t q. P st \<Longrightarrow> rt_read_tls rt src (ta_conn (fst st)) = (t, q) \<Longrightarrow> P (apfst (\<lambda>a. a\<lparr>ta_conn := t\<rparr>) st)"
    and read: "\<And>src t t'. L \<Longrightarrow> rt_read_tls rt src t \<noteq> (t', Panic)"
    and "P st" and "ingest_ciphertext rt src f st = (st', r)"
  shows "P st' \<and> (L \<longrightarrow> r \<noteq> Panic)"
proof -
  obtain st1 r1 where l: "ingest_loop rt f src False st = (st1, r1)" by (rule prod.exhaust)
  have "P st1 \<and> (L \<longrightarrow> r1 \<noteq> Panic)" by (rule ingest_loop_inv [OF step upd read assms(4) l])
  then show ?thesis
    using assms(5) step [of st1] by (cases r1) (auto simp: ingest_ciphertext_def l split: IngestExit.splits if_splits)
qed

lemma ingest_tell:
  "ingest_ciphertext rt src f (tell f s st) = apfst (tell f s) (ingest_ciphertext rt src collect st)"
  unfolding ingest_ciphertext_def ingest_loop_tell
  by (rule try_st_tell) (simp add: process_and_drain_tell split: IngestExit.split)

lemma ingest_facts:
  fixes rt :: "'t Rustls"
  assumes "ingest_ciphertext rt src f (a, dst, s) = ((a', dst', s'), r)"
  shows "(rustls_lawful rt \<longrightarrow> r \<noteq> Panic) \<and> (\<exists>out. dst' = dst @ out) \<and> (received_close_notify a \<longrightarrow> received_close_notify a') \<and>
    (\<exists>chunks. [] \<notin> set chunks \<and> s' = fold f chunks s \<and> ingest_ciphertext rt src collect (a, dst, []) = ((a', dst', chunks), r))"
proof -
  obtain a1 dst1 cs r1 where i: "ingest_ciphertext rt src collect (a, dst, []) = ((a1, dst1, cs), r1)"
    by (cases "ingest_ciphertext rt src collect (a, dst, [])") auto
  define P where "P = (\<lambda>st :: ('t, bytes list) ingest.
    (\<exists>out. fst (snd st) = dst @ out) \<and> (received_close_notify a \<longrightarrow> received_close_notify (fst st)) \<and> [] \<notin> set (snd (snd st)))"
  have "P (a1, dst1, cs) \<and> (rustls_lawful rt \<longrightarrow> r1 \<noteq> Panic)"
  proof (rule ingest_inv [OF _ _ _ _ i, of P])
    fix st st' :: "('t, bytes list) ingest" and q
    assume st: "process_and_drain rt collect st = (st', q)" "P st"
    have "[] \<notin> set (snd (snd st'))"
      using process_and_drain_chunks [of rt "fst st" "fst (snd st)" "snd (snd st)" "fst st'" "fst (snd st')"] st
      by (simp add: P_def)
    then show "P st' \<and> (rustls_lawful rt \<longrightarrow> q \<noteq> Panic)"
      using process_and_drain_facts [OF st(1)] st(2) by (auto simp: P_def)
  qed (auto simp: P_def received_close_notify_def dest: rustls_lawfulD(3))
  moreover have "((a', dst', s'), r) = ((a1, dst1, fold f cs s), r1)"
    using ingest_tell [of rt src f s "(a, dst, [])"] assms i by (simp add: tell_def)
  ultimately show ?thesis using i by (auto simp: P_def)
qed

subsection \<open>What rustls hands out\<close>

text \<open>A history of rustls: \<open>pt\<close> are the plaintext chunks it has handed out, \<open>ct\<close> the bytes for the peer it has
  written.  A chunk counts as handed out when the reader is told to consume it; only \<^verbatim>\<open>write_tls\<close> writes, and
  only \<^verbatim>\<open>process_new_packets\<close> makes new plaintext appear.\<close>

definition rustls_history :: "'t Rustls \<Rightarrow> ('t \<Rightarrow> bytes list) \<Rightarrow> ('t \<Rightarrow> bytes) \<Rightarrow> bool" where
  "rustls_history rt pt ct \<longleftrightarrow>
     (\<forall>t chunk. rt_fill_buf rt t = Chunk chunk \<longrightarrow>
        pt (rt_consume rt (length chunk) t) = pt t @ [chunk] \<and> ct (rt_consume rt (length chunk) t) = ct t) \<and>
     (\<forall>t t' r. rt_write_tls rt t = (t', r) \<longrightarrow>
        ct t' = ct t @ (case r of Ok out \<Rightarrow> out | _ \<Rightarrow> []) \<and> pt t' = pt t \<and> rt_fill_buf rt t' = rt_fill_buf rt t) \<and>
     (\<forall>src t t' r. rt_read_tls rt src t = (t', r) \<longrightarrow> ct t' = ct t \<and> pt t' = pt t \<and> rt_fill_buf rt t' = rt_fill_buf rt t) \<and>
     (\<forall>t t' r. rt_process_new_packets rt t = (t', r) \<longrightarrow> ct t' = ct t \<and> pt t' = pt t)"

definition drained :: "'t Rustls \<Rightarrow> 't \<Rightarrow> bool" where
  "drained rt t \<longleftrightarrow> rt_fill_buf rt t = WouldBlock \<or> rt_fill_buf rt t = Chunk []"

lemma drain_plaintext_history:
  assumes "rustls_history rt pt ct"
  shows "drain_plaintext_loop rt collect fuel t cs = ((t', cs'), r) \<Longrightarrow>
    (\<exists>new. cs' = cs @ new \<and> pt t' = pt t @ new) \<and> ct t' = ct t \<and> (r = Ok () \<longrightarrow> drained rt t')"
proof (induction fuel arbitrary: t cs)
  case (Suc fuel)
  show ?case
  proof (cases "\<exists>chunk. rt_fill_buf rt t = Chunk chunk \<and> chunk \<noteq> []")
    case True
    then obtain chunk where c: "rt_fill_buf rt t = Chunk chunk" "chunk \<noteq> []" by blast
    have h: "pt (rt_consume rt (length chunk) t) = pt t @ [chunk]" "ct (rt_consume rt (length chunk) t) = ct t"
      using assms c(1) by (simp_all add: rustls_history_def)
    have "collect chunk cs = cs @ [chunk]" by (simp add: collect_def)
    then have "drain_plaintext_loop rt collect fuel (rt_consume rt (length chunk) t) (cs @ [chunk]) = ((t', cs'), r)"
      using Suc.prems c by simp
    from Suc.IH [OF this] show ?thesis by (auto simp: h)
  next
    case False
    then show ?thesis using Suc.prems by (cases "rt_fill_buf rt t") (auto simp: drained_def)
  qed
qed simp

lemma drain_ciphertext_history:
  assumes "rustls_history rt pt ct"
  shows "drain_ciphertext_loop rt fuel t dst = ((t', dst'), r) \<Longrightarrow>
    (\<exists>out. dst' = dst @ out \<and> ct t' = ct t @ out) \<and> pt t' = pt t \<and> rt_fill_buf rt t' = rt_fill_buf rt t"
proof (induction fuel arbitrary: t dst)
  case (Suc fuel)
  show ?case
  proof (cases "rt_wants_write rt t")
    case True
    obtain t1 q where w: "rt_write_tls rt t = (t1, q)" by force
    have h: "ct t1 = ct t @ (case q of Ok out \<Rightarrow> out | _ \<Rightarrow> [])" "pt t1 = pt t" "rt_fill_buf rt t1 = rt_fill_buf rt t"
      using assms w unfolding rustls_history_def by blast+
    show ?thesis
    proof (cases "\<exists>out. q = Ok out \<and> out \<noteq> []")
      case True
      then obtain out where q: "q = Ok out" "out \<noteq> []" by blast
      have "drain_ciphertext_loop rt fuel t1 (dst @ out) = ((t', dst'), r)"
        using Suc.prems \<open>rt_wants_write rt t\<close> w q by simp
      from Suc.IH [OF this] show ?thesis using h q by auto
    qed (use Suc.prems True w h in \<open>cases q; auto\<close>)
  qed (use Suc.prems in auto)
qed simp

lemma process_and_drain_history:
  assumes "rustls_history rt pt ct" and "process_and_drain rt collect (a, dst, cs) = ((a', dst', cs'), r)"
  shows "(\<exists>new. cs' = cs @ new \<and> pt (ta_conn a') = pt (ta_conn a) @ new)" and "(\<exists>out. dst' = dst @ out \<and> ct (ta_conn a') = ct (ta_conn a) @ out)"
    and "r = Ok () \<longrightarrow> drained rt (ta_conn a')"
proof -
  obtain t p where pr: "rt_process_new_packets rt (ta_conn a) = (t, p)" by force
  obtain t2 cs2 d where dp: "drain_plaintext rt collect t cs = ((t2, cs2), d)" by (cases "drain_plaintext rt collect t cs") auto
  obtain t3 dst3 e where dc: "drain_ciphertext rt t2 dst = ((t3, dst3), e)" by (cases "drain_ciphertext rt t2 dst") auto
  have h: "ct t = ct (ta_conn a)" "pt t = pt (ta_conn a)" using assms(1) pr unfolding rustls_history_def by blast+
  note hp = drain_plaintext_history [OF assms(1) dp [unfolded drain_plaintext_def]]
  note hc = drain_ciphertext_history [OF assms(1) dc [unfolded drain_ciphertext_def]]
  have "(\<exists>new. cs' = cs @ new \<and> pt (ta_conn a') = pt (ta_conn a) @ new) \<and> (\<exists>out. dst' = dst @ out \<and> ct (ta_conn a') = ct (ta_conn a) @ out) \<and>
      (r = Ok () \<longrightarrow> drained rt (ta_conn a'))"
    using assms(2) hp hc h by (cases p; cases d) (auto simp: process_and_drain_def pr dp dc Let_def drained_def)
  then show "(\<exists>new. cs' = cs @ new \<and> pt (ta_conn a') = pt (ta_conn a) @ new)" and "(\<exists>out. dst' = dst @ out \<and> ct (ta_conn a') = ct (ta_conn a) @ out)"
    and "r = Ok () \<longrightarrow> drained rt (ta_conn a')" by blast+
qed

lemma ingest_history:
  fixes rt :: "'t Rustls"
  assumes h: "rustls_history rt pt ct" and "ingest_ciphertext rt src collect (a, dst, []) = ((a', dst', chunks), r)"
  shows "pt (ta_conn a') = pt (ta_conn a) @ chunks" and "\<exists>out. dst' = dst @ out \<and> ct (ta_conn a') = ct (ta_conn a) @ out"
proof -
  define P where "P = (\<lambda>st :: ('t, bytes list) ingest. pt (ta_conn (fst st)) = pt (ta_conn a) @ snd (snd st) \<and>
    (\<exists>out. fst (snd st) = dst @ out \<and> ct (ta_conn (fst st)) = ct (ta_conn a) @ out))"
  have "P (a', dst', chunks) \<and> (False \<longrightarrow> r \<noteq> Panic)"
  proof (rule ingest_inv [OF _ _ _ _ assms(2), of P])
    fix st st' :: "('t, bytes list) ingest" and q
    assume st: "process_and_drain rt collect st = (st', q)" "P st"
    obtain b d0 cs b' d' cs' where sp: "st = (b, d0, cs)" "st' = (b', d', cs')" by (metis prod_cases3)
    show "P st' \<and> (False \<longrightarrow> q \<noteq> Panic)"
      using process_and_drain_history [OF h st(1) [unfolded sp]] st(2) unfolding P_def sp by auto
  next
    fix st :: "('t, bytes list) ingest" and src' t q
    assume st: "P st" "rt_read_tls rt src' (ta_conn (fst st)) = (t, q)"
    have "ct t = ct (ta_conn (fst st)) \<and> pt t = pt (ta_conn (fst st))" using h st(2) unfolding rustls_history_def by blast
    then show "P (apfst (\<lambda>a. a\<lparr>ta_conn := t\<rparr>) st)" using st(1) by (simp add: P_def)
  qed (auto simp: P_def)
  then show "pt (ta_conn a') = pt (ta_conn a) @ chunks" and "\<exists>out. dst' = dst @ out \<and> ct (ta_conn a') = ct (ta_conn a) @ out"
    by (simp_all add: P_def)
qed

text \<open>A successful ingest leaves no plaintext behind: it ends in a drain, or in reads that follow one.\<close>

lemma ingest_loop_drained:
  assumes h: "rustls_history rt pt ct"
  shows "ingest_loop rt collect src p st = (st', Ok x) \<Longrightarrow> (p \<longrightarrow> drained rt (ta_conn (fst st))) \<Longrightarrow>
    x \<noteq> IngestDone False \<longrightarrow> drained rt (ta_conn (fst st'))"
proof (induction src arbitrary: p st rule: length_induct)
  case (1 src)
  have pd: "drained rt (ta_conn (fst st2))" if "process_and_drain rt collect st1 = (st2, Ok u)" for st1 st2 u
    using process_and_drain_history(3) [OF h, of "fst st1" "fst (snd st1)" "snd (snd st1)" "fst st2" "fst (snd st2)" "snd (snd st2)" "Ok u"] that
    by simp
  have rd: "drained rt t" if "rt_read_tls rt src y = (t, q)" "drained rt y" for y t q
  proof -
    have "rt_fill_buf rt t = rt_fill_buf rt y" using h that(1) unfolding rustls_history_def by blast
    then show ?thesis using that(2) by (simp add: drained_def)
  qed
  show ?case
  proof (cases "src = []")
    case True
    then show ?thesis using 1(2,3) by (auto simp: ingest_loop.simps)
  next
    case False
    obtain st1 u where s1: "(if \<not> rt_wants_read rt (ta_conn (fst st)) then process_and_drain rt collect st else (st, Ok ())) = (st1, Ok u)"
      and rest: "(if \<not> rt_wants_read rt (ta_conn (fst st1)) then (st1, Ok IngestReturn)
        else case rt_read_tls rt src (ta_conn (fst st1)) of
            (t, Err e) \<Rightarrow> (apfst (\<lambda>a. a\<lparr>ta_conn := t\<rparr>) st1, Err (TlsIo e))
          | (t, Panic) \<Rightarrow> (apfst (\<lambda>a. a\<lparr>ta_conn := t\<rparr>) st1, Panic)
          | (t, Ok n) \<Rightarrow>
              if n = 0 then (apfst (\<lambda>a. a\<lparr>ta_conn := t\<rparr>) st1, Ok (IngestDone p))
              else try_st (process_and_drain rt collect (apfst (\<lambda>a. a\<lparr>ta_conn := t\<rparr>) st1)) (\<lambda>st _.
                     ingest_loop rt collect (drop n src) True st)) = (st', Ok x)"
      using 1(2) False by (subst (asm) ingest_loop.simps) (auto elim: try_st_cases)
    have d1: "drained rt (ta_conn (fst st1))" if "p \<or> \<not> rt_wants_read rt (ta_conn (fst st))"
      using s1 that 1(3) pd by (auto split: if_splits)
    obtain t q where t: "rt_read_tls rt src (ta_conn (fst st1)) = (t, q)" by force
    show ?thesis
    proof (cases "rt_wants_read rt (ta_conn (fst st1)) \<and> (\<exists>n. q = Ok n \<and> n \<noteq> 0)")
      case True
      then obtain n where n: "q = Ok n" "n \<noteq> 0" by blast
      then have "try_st (process_and_drain rt collect (apfst (\<lambda>a. a\<lparr>ta_conn := t\<rparr>) st1)) (\<lambda>st _. ingest_loop rt collect (drop n src) True st) = (st', Ok x)"
        using rest t True by simp
      then show ?thesis
      proof (cases rule: try_st_cases)
        case (ok st2 v)
        then show ?thesis using 1(1) [rule_format, of "drop n src" True st2] n(2) False pd by simp
      qed simp_all
    next
      case False
      then show ?thesis using rest t d1 rd [OF t] s1 by (auto split: if_splits result.splits)
    qed
  qed
qed

lemma ingest_drained:
  assumes h: "rustls_history rt pt ct" and i: "ingest_ciphertext rt src collect (a, dst, []) = ((a', dst', chunks), Ok ())"
  shows "drained rt (ta_conn a')"
proof -
  obtain st1 x where l: "ingest_loop rt collect src False (a, dst, []) = (st1, Ok x)"
    and r: "(case x of IngestReturn \<Rightarrow> (st1, Ok ()) | IngestDone processed \<Rightarrow> if \<not> processed then process_and_drain rt collect st1 else (st1, Ok ())) =
      ((a', dst', chunks), Ok ())"
    using i unfolding ingest_ciphertext_def by (auto elim: try_st_cases)
  have "x \<noteq> IngestDone False \<longrightarrow> drained rt (ta_conn (fst st1))" using ingest_loop_drained [OF h l] by simp
  then show ?thesis
    using r process_and_drain_history(3) [OF h, of "fst st1" "fst (snd st1)" "snd (snd st1)" a' dst' chunks "Ok ()"]
    by (auto split: IngestExit.splits if_splits)
qed

lemma egress_facts:
  assumes "egress_plaintext rt src a dst = ((a', dst'), r)"
  shows "(rustls_lawful rt \<longrightarrow> r \<noteq> Panic) \<and> (\<exists>out. dst' = dst @ out)"
proof -
  obtain t w where wr: "rt_write_all rt src (ta_conn a) = (t, w)" by force
  define a1 where "a1 = (if src \<noteq> [] then a\<lparr>ta_conn := t\<rparr> else a)"
  obtain t2 dst2 q where dc: "drain_ciphertext rt (ta_conn a1) dst = ((t2, dst2), q)"
    by (cases "drain_ciphertext rt (ta_conn a1) dst") auto
  have out: "\<exists>out. dst2 = dst @ out" using dc unfolding drain_ciphertext_def by (rule drain_ciphertext_appends)
  have "w \<noteq> Panic" "q \<noteq> Panic" if "rustls_lawful rt"
    using wr dc rustls_lawfulD(6) [OF that, of src "ta_conn a" t] drain_ends(2) [OF that, of "ta_conn a1" dst "(t2, dst2)"] by auto
  then show ?thesis
    using assms out dc wr by (cases w) (auto simp: egress_plaintext_def a1_def split: if_splits)
qed

text \<open>C21. Feeding ciphertext to TLS ends and hides nothing: with a rustls whose buffers are finite, every call
  returns a result; the callback is told every plaintext chunk that rustls hands out during the call, once
  each and in order, and nothing else; every byte rustls writes for the peer is appended to what the caller
  already had; a close notice once seen stays seen; and when the call succeeds, no decrypted plaintext is
  left behind in rustls.  The history of rustls, \<open>pt\<close> and \<open>ct\<close>, says what it handed out and wrote.\<close>

theorem ingest_ciphertext_delivers:
  assumes "rustls_lawful rt" and "rustls_history rt pt ct" and "ingest_ciphertext rt src f (a, dst, s) = ((a', dst', s'), r)"
  shows "r \<noteq> Panic \<and> (received_close_notify a \<longrightarrow> received_close_notify a') \<and>
    (\<exists>chunks. pt (ta_conn a') = pt (ta_conn a) @ chunks \<and> s' = fold f chunks s \<and> [] \<notin> set chunks) \<and>
    (\<exists>out. ct (ta_conn a') = ct (ta_conn a) @ out \<and> dst' = dst @ out) \<and>
    (r = Ok () \<longrightarrow> rt_fill_buf rt (ta_conn a') = WouldBlock \<or> rt_fill_buf rt (ta_conn a') = Chunk [])"
proof -
  obtain chunks where c: "[] \<notin> set chunks" "s' = fold f chunks s" "ingest_ciphertext rt src collect (a, dst, []) = ((a', dst', chunks), r)"
    and n: "r \<noteq> Panic" "received_close_notify a \<longrightarrow> received_close_notify a'"
    using ingest_facts [OF assms(3)] assms(1) by blast
  have "r = Ok () \<longrightarrow> rt_fill_buf rt (ta_conn a') = WouldBlock \<or> rt_fill_buf rt (ta_conn a') = Chunk []"
    using ingest_drained [OF assms(2)] c(3) unfolding drained_def by blast
  then show ?thesis using ingest_history [OF assms(2) c(3)] c(1,2) n by blast
qed

text \<open>A rustls that passes bytes through unchanged.\<close>

definition sample_rustls :: "(bytes \<times> bytes) Rustls" where
  "sample_rustls = \<lparr>rt_server_name_ok = (\<lambda>n. n \<noteq> []), rt_default_config = (\<lambda>_. Ok 0), rt_new = (\<lambda>_ _. Ok ([], [])),
     rt_is_handshaking = (\<lambda>_. False), rt_alpn_protocol = (\<lambda>_. None), rt_send_close_notify = (\<lambda>t. t),
     rt_wants_read = (\<lambda>t. fst t = []), rt_read_tls = (\<lambda>src t. ((src, snd t), Ok (length src))),
     rt_process_new_packets = (\<lambda>t. (t, Ok False)), rt_fill_buf = (\<lambda>t. if fst t = [] then WouldBlock else Chunk (fst t)),
     rt_consume = (\<lambda>n t. (drop n (fst t), snd t)), rt_wants_write = (\<lambda>t. snd t \<noteq> []),
     rt_write_tls = (\<lambda>t. ((fst t, []), Ok (snd t))), rt_write_all = (\<lambda>src t. ((fst t, snd t @ src), Ok ())),
     rt_plain_left = (\<lambda>t. length (fst t)), rt_cipher_left = (\<lambda>t. length (snd t))\<rparr>"

lemma sample_rustls_lawful: "rustls_lawful sample_rustls"
  by (auto simp: rustls_lawful_def sample_rustls_def split: if_splits)

text \<open>A rustls that keeps its history: it reads at most two bytes at a time, passes them through, and answers
  every packet with one byte for the peer.\<close>

record EchoTls =
  et_plain :: bytes
  et_cipher :: bytes
  et_handed :: "bytes list"
  et_written :: bytes

definition echo_rustls :: "EchoTls Rustls" where
  "echo_rustls = \<lparr>rt_server_name_ok = (\<lambda>n. n \<noteq> []), rt_default_config = (\<lambda>_. Ok 0),
     rt_new = (\<lambda>_ _. Ok \<lparr>et_plain = [], et_cipher = [], et_handed = [], et_written = []\<rparr>),
     rt_is_handshaking = (\<lambda>_. False), rt_alpn_protocol = (\<lambda>_. None), rt_send_close_notify = (\<lambda>t. t), rt_wants_read = (\<lambda>t. et_cipher t = []),
     rt_read_tls = (\<lambda>src t. (t\<lparr>et_cipher := take 2 src\<rparr>, Ok (min 2 (length src)))),
     rt_process_new_packets = (\<lambda>t. (t\<lparr>et_plain := et_plain t @ et_cipher t, et_cipher := []\<rparr>, Ok False)),
     rt_fill_buf = (\<lambda>t. if et_plain t = [] then WouldBlock else Chunk (et_plain t)),
     rt_consume = (\<lambda>n t. t\<lparr>et_plain := drop n (et_plain t), et_handed := et_handed t @ [take n (et_plain t)]\<rparr>),
     rt_wants_write = (\<lambda>t. length (et_written t) < length (et_handed t)),
     rt_write_tls = (\<lambda>t. (t\<lparr>et_written := et_written t @ [9]\<rparr>, Ok [9])), rt_write_all = (\<lambda>src t. (t, Ok ())),
     rt_plain_left = (\<lambda>t. length (et_plain t)), rt_cipher_left = (\<lambda>t. length (et_handed t) - length (et_written t))\<rparr>"

lemma echo_lawful: "rustls_lawful echo_rustls" and echo_history: "rustls_history echo_rustls et_handed et_written"
  by (auto simp: rustls_lawful_def rustls_history_def echo_rustls_def split: if_splits)

theorem ingest_ciphertext_delivers_witness:
  "\<exists>a'. ingest_ciphertext echo_rustls [1, 2, 3] (\<lambda>c cs. cs @ [c])
       (\<lparr>ta_conn = \<lparr>et_plain = [], et_cipher = [], et_handed = [], et_written = []\<rparr>, ta_peer_closed_notify = False\<rparr>, [7], []) =
     ((a', [7, 9, 9], [[1, 2], [3]]), Ok ()) \<and> et_handed (ta_conn a') = [[1, 2], [3]] \<and> et_plain (ta_conn a') = []"
proof -
  let ?a = "\<lparr>ta_conn = \<lparr>et_plain = [], et_cipher = [], et_handed = [], et_written = []\<rparr>, ta_peer_closed_notify = False\<rparr>"
  obtain a' where i: "ingest_ciphertext echo_rustls [1, 2, 3] (\<lambda>c cs. cs @ [c]) (?a, [7], []) = ((a', [7, 9, 9], [[1, 2], [3]]), Ok ())"
    by (simp add: ingest_ciphertext_def ingest_loop.simps process_and_drain_def drain_plaintext_def drain_ciphertext_def echo_rustls_def Let_def)
  have app: "fold (\<lambda>c cs. cs @ [c]) chunks cs = cs @ chunks" for chunks cs :: "bytes list"
    by (induction chunks arbitrary: cs) simp_all
  show ?thesis
    using i ingest_ciphertext_delivers [OF echo_lawful echo_history i] by (auto simp: app echo_rustls_def split: if_splits)
qed

end
