(* ===== verification/Conn_Meta.thy ===== *)
theory Conn_Meta
  imports Ws_Marked Buf_Ring Tls
begin

text \<open>
  Public types and configuration of a connection (\<^verbatim>\<open>connection_meta.rs\<close>): receive modes, the driver
  state, connection errors, ingress counters, and the configuration with its builders.
  Connection tokens are in \<open>Proactor_Op\<close>.
\<close>

subsection \<open>Modes, states and errors\<close>

definition DEFAULT_BUF_RING_SLOT_SIZE :: u32 where "DEFAULT_BUF_RING_SLOT_SIZE = 4 * 1024"

definition DEFAULT_BUF_RING_ENTRIES :: u16 where "DEFAULT_BUF_RING_ENTRIES = 256"

datatype RecvMode = Multishot | MultishotBundle

fun recv_mode_fmt :: "RecvMode \<Rightarrow> string" where
  "recv_mode_fmt Multishot = ''multishot''"
| "recv_mode_fmt MultishotBundle = ''multishot-bundle''"

definition recv_mode_from_str :: "string \<Rightarrow> (string, RecvMode) result" where
  "recv_mode_from_str s =
     (if s \<in> {''multishot'', ''multi'', ''recv-multi''} then Ok Multishot
      else if s \<in> {''multishot-bundle'', ''multi-bundle'', ''bundle'', ''recv-bundle''} then Ok MultishotBundle
      else Err s)"

datatype State = StInit | StConnecting | StTlsHandshake | StWsHandshake | StOpen | StClosing | StClosed

datatype ConnectionError =
    CeIo IoError
  | CeDnsEmpty bytes
  | CeProactor ProactorError
  | CeBufRing BufferRingError
  | CeTls TlsError
  | CeWs WsError
  | CeObservability string
  | CeInvalidState State
  | CeConnectFailed IoError
  | CeRecvFailed IoError
  | CeSendFailed IoError
  | CePeerClosed
  | CeUnknownOpKind u64
  | CeIdSpaceExhausted string

record IngressStats =
  is_recv_data_cqes :: u64
  is_recv_bytes :: u64
  is_recv_multishot_rearms :: u64
  is_recv_ring_exhaustions :: u64
  is_plain_recv_batches :: u64
  is_plain_recv_batch_cqes :: u64
  is_plain_recv_copied_batches :: u64
  is_plain_recv_copied_bytes :: u64
  is_plaintext_source_chunks :: u64
  is_plaintext_bytes :: u64
  is_ws_data_drains :: u64
  is_ws_data_drain_skips :: u64
  is_ws_data_events :: u64
  is_ws_text_events :: u64
  is_ws_binary_events :: u64

definition ingress_stats_default :: IngressStats where
  "ingress_stats_default =
     \<lparr>is_recv_data_cqes = 0, is_recv_bytes = 0, is_recv_multishot_rearms = 0, is_recv_ring_exhaustions = 0,
      is_plain_recv_batches = 0, is_plain_recv_batch_cqes = 0, is_plain_recv_copied_batches = 0,
      is_plain_recv_copied_bytes = 0, is_plaintext_source_chunks = 0, is_plaintext_bytes = 0, is_ws_data_drains = 0,
      is_ws_data_drain_skips = 0, is_ws_data_events = 0, is_ws_text_events = 0, is_ws_binary_events = 0\<rparr>"

subsection \<open>Configuration\<close>

record ConnectionConfig =
  cc_host :: bytes
  cc_port :: u16
  cc_path :: bytes
  cc_use_tls :: bool
  cc_tls_config :: "ClientConfigRef option"
  cc_ws_config :: "WsConfig option"
  cc_buf_ring_slot_size :: u32
  cc_buf_ring_entries :: u16
  cc_recv_mode :: RecvMode
  cc_socket_busy_poll_usecs :: "u32 option"
  cc_send_buffer_initial_capacity :: "nat option"
  cc_tls_pending_out_initial_capacity :: "nat option"
  cc_plain_recv_batch_copy_max_bytes :: nat
  cc_track_ingress_stats :: bool
  cc_observability_sample_rate :: ObservabilitySampleRate
  cc_record_observability_histograms :: bool

definition connection_config_new :: "bytes \<Rightarrow> u16 \<Rightarrow> bytes \<Rightarrow> ConnectionConfig" where
  "connection_config_new host port path =
     \<lparr>cc_host = host, cc_port = port, cc_path = path, cc_use_tls = True, cc_tls_config = None, cc_ws_config = None,
      cc_buf_ring_slot_size = DEFAULT_BUF_RING_SLOT_SIZE, cc_buf_ring_entries = DEFAULT_BUF_RING_ENTRIES,
      cc_recv_mode = Multishot, cc_socket_busy_poll_usecs = None, cc_send_buffer_initial_capacity = None,
      cc_tls_pending_out_initial_capacity = None, cc_plain_recv_batch_copy_max_bytes = 0, cc_track_ingress_stats = False,
      cc_observability_sample_rate = always, cc_record_observability_histograms = False\<rparr>"

definition with_tls :: "bool \<Rightarrow> ConnectionConfig \<Rightarrow> ConnectionConfig" where
  "with_tls on c = c\<lparr>cc_use_tls := on\<rparr>"

definition with_tls_config :: "ClientConfigRef \<Rightarrow> ConnectionConfig \<Rightarrow> ConnectionConfig" where
  "with_tls_config config c = c\<lparr>cc_tls_config := Some config\<rparr>"

definition with_buf_ring :: "u32 \<Rightarrow> u16 \<Rightarrow> ConnectionConfig \<Rightarrow> ConnectionConfig" where
  "with_buf_ring slot_size entries c = c\<lparr>cc_buf_ring_slot_size := slot_size, cc_buf_ring_entries := entries\<rparr>"

definition with_ws_config :: "WsConfig \<Rightarrow> ConnectionConfig \<Rightarrow> ConnectionConfig" where
  "with_ws_config config c = c\<lparr>cc_ws_config := Some config\<rparr>"

definition with_recv_mode :: "RecvMode \<Rightarrow> ConnectionConfig \<Rightarrow> ConnectionConfig" where
  "with_recv_mode mode c = c\<lparr>cc_recv_mode := mode\<rparr>"

definition with_socket_busy_poll_usecs :: "u32 \<Rightarrow> ConnectionConfig \<Rightarrow> ConnectionConfig" where
  "with_socket_busy_poll_usecs usecs c = c\<lparr>cc_socket_busy_poll_usecs := Some usecs\<rparr>"

text \<open>The builders of WebSocket options change the configured WebSocket configuration, or one made from
  the endpoint when there is none yet.\<close>

definition ws_config_or_default :: "ConnectionConfig \<Rightarrow> WsConfig" where
  "ws_config_or_default c = (case cc_ws_config c of Some config \<Rightarrow> config | None \<Rightarrow> ws_config_new (cc_host c) (cc_path c))"

definition with_ws_limits :: "nat \<Rightarrow> u64 \<Rightarrow> ConnectionConfig \<Rightarrow> ConnectionConfig" where
  "with_ws_limits max_message_size max_frame_payload c =
     c\<lparr>cc_ws_config := Some ((ws_config_or_default c)\<lparr>cf_max_message_size := max_message_size, cf_max_frame_payload := max_frame_payload\<rparr>)\<rparr>"

definition with_ws_recv_buffer_capacity :: "nat \<Rightarrow> ConnectionConfig \<Rightarrow> ConnectionConfig" where
  "with_ws_recv_buffer_capacity n c =
     c\<lparr>cc_ws_config := Some ((ws_config_or_default c)\<lparr>cf_initial_recv_buffer_capacity := Some n\<rparr>)\<rparr>"

definition with_ws_message_buffer_capacity :: "nat \<Rightarrow> ConnectionConfig \<Rightarrow> ConnectionConfig" where
  "with_ws_message_buffer_capacity n c =
     c\<lparr>cc_ws_config := Some ((ws_config_or_default c)\<lparr>cf_initial_message_buffer_capacity := Some n\<rparr>)\<rparr>"

definition with_ws_tx_buffer_capacity :: "nat \<Rightarrow> ConnectionConfig \<Rightarrow> ConnectionConfig" where
  "with_ws_tx_buffer_capacity n c =
     c\<lparr>cc_ws_config := Some ((ws_config_or_default c)\<lparr>cf_initial_tx_buffer_capacity := Some n\<rparr>)\<rparr>"

definition with_ws_buffer_capacities :: "nat \<Rightarrow> nat \<Rightarrow> nat \<Rightarrow> ConnectionConfig \<Rightarrow> ConnectionConfig" where
  "with_ws_buffer_capacities recv_bytes message_bytes tx_bytes c =
     c\<lparr>cc_ws_config := Some ((ws_config_or_default c)\<lparr>cf_initial_recv_buffer_capacity := Some recv_bytes,
        cf_initial_message_buffer_capacity := Some message_bytes, cf_initial_tx_buffer_capacity := Some tx_bytes\<rparr>)\<rparr>"

definition conn_with_auto_pong :: "bool \<Rightarrow> ConnectionConfig \<Rightarrow> ConnectionConfig" where
  "conn_with_auto_pong on c = c\<lparr>cc_ws_config := Some ((ws_config_or_default c)\<lparr>cf_auto_pong := on\<rparr>)\<rparr>"

definition with_send_buffer_capacity :: "nat \<Rightarrow> ConnectionConfig \<Rightarrow> ConnectionConfig" where
  "with_send_buffer_capacity n c = c\<lparr>cc_send_buffer_initial_capacity := Some n\<rparr>"

definition with_tls_pending_out_capacity :: "nat \<Rightarrow> ConnectionConfig \<Rightarrow> ConnectionConfig" where
  "with_tls_pending_out_capacity n c = c\<lparr>cc_tls_pending_out_initial_capacity := Some n\<rparr>"

definition with_connection_buffer_capacities :: "nat \<Rightarrow> nat \<Rightarrow> ConnectionConfig \<Rightarrow> ConnectionConfig" where
  "with_connection_buffer_capacities send_bytes tls_pending_out_bytes c =
     c\<lparr>cc_send_buffer_initial_capacity := Some send_bytes, cc_tls_pending_out_initial_capacity := Some tls_pending_out_bytes\<rparr>"

definition with_plain_recv_batch_copy_max_bytes :: "nat \<Rightarrow> ConnectionConfig \<Rightarrow> ConnectionConfig" where
  "with_plain_recv_batch_copy_max_bytes n c = c\<lparr>cc_plain_recv_batch_copy_max_bytes := n\<rparr>"

definition with_ingress_stats :: "bool \<Rightarrow> ConnectionConfig \<Rightarrow> ConnectionConfig" where
  "with_ingress_stats on c = c\<lparr>cc_track_ingress_stats := on\<rparr>"

definition with_observability_sample_rate_bps :: "u16 \<Rightarrow> ConnectionConfig \<Rightarrow> ConnectionConfig" where
  "with_observability_sample_rate_bps bps c = c\<lparr>cc_observability_sample_rate := from_basis_points bps\<rparr>"

definition with_observability_histograms :: "bool \<Rightarrow> ConnectionConfig \<Rightarrow> ConnectionConfig" where
  "with_observability_histograms on c = c\<lparr>cc_record_observability_histograms := on\<rparr>"

record AssignedConnectionConfig =
  ac_user :: ConnectionConfig
  ac_identity :: ConnectionRuntimeIdentity

subsection \<open>Names\<close>

text \<open>Every displayed name of a receive mode, crypto provider or cipher preference parses back to the
  value it was displayed for, and a string that is not accepted is reported unchanged.\<close>

lemma option_names_roundtrip:
  "recv_mode_from_str (recv_mode_fmt mode) = Ok mode" "tls_provider_from_str (tls_provider_fmt provider) = Ok provider"
  "cipher_preference_from_str (cipher_preference_fmt preference) = Ok preference"
  "(\<exists>m. recv_mode_from_str s = Ok m) \<or> recv_mode_from_str s = Err s"
  "(\<exists>p. tls_provider_from_str s = Ok p) \<or> tls_provider_from_str s = Err s"
  "(\<exists>p. cipher_preference_from_str s = Ok p) \<or> cipher_preference_from_str s = Err s"
proof -
  show "recv_mode_from_str (recv_mode_fmt mode) = Ok mode" by (cases mode) (simp_all add: recv_mode_from_str_def)
  show "tls_provider_from_str (tls_provider_fmt provider) = Ok provider" by (cases provider) (simp_all add: tls_provider_from_str_def)
  show "cipher_preference_from_str (cipher_preference_fmt preference) = Ok preference"
    by (cases preference) (simp_all add: cipher_preference_from_str_def)
qed (simp_all add: recv_mode_from_str_def tls_provider_from_str_def cipher_preference_from_str_def)

end
