(* ===== verification/Conn_State.thy ===== *)
theory Conn_State
  imports Conn_Meta
begin

text \<open>
  One connection of the pool (\<^verbatim>\<open>connection_state.rs\<close>): its state, the outbound staging buffer, and the
  handlers for connect, send and receive completions.

  What a connection gets from outside is a \<open>World\<close>: random numbers and hash functions (\<^typ>\<open>Env\<close>), the
  clock, the \<^verbatim>\<open>rustls\<close> and \<^verbatim>\<open>hdrhistogram\<close> crates and the socket calls.  The kernel is the
  \<^typ>\<open>'k Uring\<close> of \<open>Proactor\<close>; its state is threaded through every call that submits.

  The source has five copies of the receive handler.  \<^verbatim>\<open>on_recv_cqe\<close> only feeds the WebSocket client;
  the four data handlers differ in how a plaintext chunk is drained and are written once over a
  \<open>Delivery\<close>, with one instance per copy.  What a handler passed to the caller's sink is its output list.
  The counters that the source updates only when ingress statistics are on are local to the handlers and
  only used by the \<^verbatim>\<open>record_\<close> functions, which do nothing when statistics are off; the model always counts.
\<close>

subsection \<open>State\<close>

record ('t, 'h) World =
  wd_env :: Env
  wd_clock :: Clock
  wd_rustls :: "'t Rustls"
  wd_hist :: "'h HistOps"
  wd_libc :: Libc

datatype WsIngressState = Clean | Dirty

record ('t, 'h) ConnectionState =
  cs_socket :: RawFd
  cs_addr :: SockAddr
  cs_tls :: "'t TlsAdapter option"
  cs_ws :: WsClient
  cs_state :: State
  cs_buf_ring :: "BufferRing option"
  cs_send_buf :: bytes
  cs_send_head :: nat
  cs_plain_recv_batch_scratch :: bytes
  cs_tls_pending_out :: bytes
  cs_send_inflight :: bool
  cs_multishot_armed :: bool
  cs_ws_handshake_begun :: bool
  cs_ws_ingress :: WsIngressState
  cs_ingress_stats :: IngressStats
  cs_marked_recv_sequence :: u64
  cs_marked_message_sequence :: u64
  cs_histograms :: "'h LatencyHistograms option"
  cs_identity :: ConnectionRuntimeIdentity
  cs_cfg :: ConnectionConfig
  cs_clock_reads :: nat

type_synonym ('t, 'h, 'k) Conn = "('t, 'h) ConnectionState \<times> 'k"

definition conn_new ::
  "('t, 'h) World \<Rightarrow> AssignedConnectionConfig \<Rightarrow> SocketAddr \<Rightarrow> (ConnectionError, ('t, 'h) ConnectionState) result" where
  "conn_new w assigned addr =
     (let cfg = ac_user assigned; identity = ac_identity assigned; sock_addr = from_std (wd_libc w) addr in
      and_then (map_err CeIo (tcp_socket_new (wd_libc w) (domain_of addr))) (\<lambda>fd.
      and_then (map_err CeIo (set_nodelay (wd_libc w) fd True)) (\<lambda>_.
      and_then (case cc_socket_busy_poll_usecs cfg of
                  Some usecs \<Rightarrow> map_err CeIo (set_busy_poll (wd_libc w) fd usecs)
                | None \<Rightarrow> Ok ()) (\<lambda>_.
      and_then (if cc_use_tls cfg then
                  and_then (map_err CeTls (case cc_tls_config cfg of
                              Some config \<Rightarrow> new_client_with_config (wd_rustls w) (cc_host cfg) config
                            | None \<Rightarrow> tls_new_client (wd_rustls w) (cc_host cfg))) (\<lambda>a. Ok (Some a))
                else Ok None) (\<lambda>tls.
      let ws_cfg = (case cc_ws_config cfg of Some c \<Rightarrow> c | None \<Rightarrow> ws_config_new (cc_host cfg) (cc_path cfg));
          ws_cfg = ws_cfg\<lparr>cf_host := cc_host cfg, cf_path := cc_path cfg\<rparr>
      in and_then (map_err CeWs (new_client (wd_env w) 0 ws_cfg)) (\<lambda>ws.
      and_then (if cc_record_observability_histograms cfg then
                  and_then (map_err CeObservability (hist_new (wd_hist w))) (\<lambda>h. Ok (Some h))
                else Ok None) (\<lambda>histograms.
        let init_cap = unat (cc_buf_ring_slot_size cfg);
            send_cap = (case cc_send_buffer_initial_capacity cfg of Some n \<Rightarrow> n | None \<Rightarrow> init_cap);
            tls_cap = (case cc_tls_pending_out_initial_capacity cfg of Some n \<Rightarrow> n | None \<Rightarrow> init_cap)
        in and_then (vec_with_capacity send_cap) (\<lambda>_.
           and_then (vec_with_capacity tls_cap) (\<lambda>_.
             Ok \<lparr>cs_socket = fd, cs_addr = sock_addr, cs_tls = tls, cs_ws = ws, cs_state = StInit, cs_buf_ring = None, cs_send_buf = [],
                 cs_send_head = 0, cs_plain_recv_batch_scratch = [], cs_tls_pending_out = [], cs_send_inflight = False,
                 cs_multishot_armed = False, cs_ws_handshake_begun = False, cs_ws_ingress = Clean,
                 cs_ingress_stats = ingress_stats_default, cs_marked_recv_sequence = 0, cs_marked_message_sequence = 0,
                 cs_histograms = histograms, cs_identity = identity, cs_cfg = cfg, cs_clock_reads = 0\<rparr>)))))))))"

definition conn_id :: "('t, 'h) ConnectionState \<Rightarrow> u32" where
  "conn_id c = id_conn_id (cs_identity c)"

definition conn_generation :: "('t, 'h) ConnectionState \<Rightarrow> u32" where
  "conn_generation c = id_generation (cs_identity c)"

definition conn_token :: "('t, 'h) ConnectionState \<Rightarrow> u64" where
  "conn_token c = id_token (cs_identity c)"

definition conn_bgid :: "('t, 'h) ConnectionState \<Rightarrow> u16" where
  "conn_bgid c = id_bgid (cs_identity c)"

definition assert_open :: "('t, 'h) ConnectionState \<Rightarrow> (ConnectionError, unit) result" where
  "assert_open c = (if cs_state c = StOpen then Ok () else Err (CeInvalidState (cs_state c)))"

subsection \<open>Counters\<close>

definition record_recv_data :: "nat \<Rightarrow> ('t, 'h) ConnectionState \<Rightarrow> ('t, 'h) ConnectionState" where
  "record_recv_data n c =
     (if \<not> cc_track_ingress_stats (cs_cfg c) then c
      else let s = cs_ingress_stats c
           in c\<lparr>cs_ingress_stats := s\<lparr>is_recv_data_cqes := saturating_add (is_recv_data_cqes s) 1,
                                      is_recv_bytes := saturating_add (is_recv_bytes s) (word_of_nat n)\<rparr>\<rparr>)"

definition record_recv_multishot_rearm :: "('t, 'h) ConnectionState \<Rightarrow> ('t, 'h) ConnectionState" where
  "record_recv_multishot_rearm c =
     (if cc_track_ingress_stats (cs_cfg c) then
        let s = cs_ingress_stats c
        in c\<lparr>cs_ingress_stats := s\<lparr>is_recv_multishot_rearms := saturating_add (is_recv_multishot_rearms s) 1\<rparr>\<rparr>
      else c)"

definition record_recv_ring_exhaustion :: "('t, 'h) ConnectionState \<Rightarrow> ('t, 'h) ConnectionState" where
  "record_recv_ring_exhaustion c =
     (if cc_track_ingress_stats (cs_cfg c) then
        let s = cs_ingress_stats c
        in c\<lparr>cs_ingress_stats := s\<lparr>is_recv_ring_exhaustions := saturating_add (is_recv_ring_exhaustions s) 1\<rparr>\<rparr>
      else c)"

definition record_plain_recv_batch :: "u64 \<Rightarrow> u64 option \<Rightarrow> ('t, 'h) ConnectionState \<Rightarrow> ('t, 'h) ConnectionState" where
  "record_plain_recv_batch cqes copied_bytes c =
     (if cc_track_ingress_stats (cs_cfg c) then
        let s = cs_ingress_stats c;
            s = s\<lparr>is_plain_recv_batches := saturating_add (is_plain_recv_batches s) 1,
                  is_plain_recv_batch_cqes := saturating_add (is_plain_recv_batch_cqes s) cqes\<rparr>;
            s = (case copied_bytes of
                   Some n \<Rightarrow> s\<lparr>is_plain_recv_copied_batches := saturating_add (is_plain_recv_copied_batches s) 1,
                              is_plain_recv_copied_bytes := saturating_add (is_plain_recv_copied_bytes s) n\<rparr>
                 | None \<Rightarrow> s)
        in c\<lparr>cs_ingress_stats := s\<rparr>
      else c)"

definition record_plaintext :: "u64 \<Rightarrow> u64 \<Rightarrow> ('t, 'h) ConnectionState \<Rightarrow> ('t, 'h) ConnectionState" where
  "record_plaintext chunks n c =
     (if cc_track_ingress_stats (cs_cfg c) then
        let s = cs_ingress_stats c
        in c\<lparr>cs_ingress_stats := s\<lparr>is_plaintext_source_chunks := saturating_add (is_plaintext_source_chunks s) chunks,
                                   is_plaintext_bytes := saturating_add (is_plaintext_bytes s) n\<rparr>\<rparr>
      else c)"

definition record_ws_data_drains :: "u64 \<Rightarrow> u64 \<Rightarrow> ('t, 'h) ConnectionState \<Rightarrow> ('t, 'h) ConnectionState" where
  "record_ws_data_drains drains skips c =
     (if cc_track_ingress_stats (cs_cfg c) then
        let s = cs_ingress_stats c
        in c\<lparr>cs_ingress_stats := s\<lparr>is_ws_data_drains := saturating_add (is_ws_data_drains s) drains,
                                   is_ws_data_drain_skips := saturating_add (is_ws_data_drain_skips s) skips\<rparr>\<rparr>
      else c)"

definition record_ws_data_events :: "u64 \<Rightarrow> u64 \<Rightarrow> ('t, 'h) ConnectionState \<Rightarrow> ('t, 'h) ConnectionState" where
  "record_ws_data_events text_events binary_events c =
     (if cc_track_ingress_stats (cs_cfg c) then
        let s = cs_ingress_stats c
        in c\<lparr>cs_ingress_stats := s\<lparr>is_ws_text_events := saturating_add (is_ws_text_events s) text_events,
                                   is_ws_binary_events := saturating_add (is_ws_binary_events s) binary_events,
                                   is_ws_data_events := saturating_add (is_ws_data_events s) (saturating_add text_events binary_events)\<rparr>\<rparr>
      else c)"

definition clear_ws_ingress_dirty :: "('t, 'h) ConnectionState \<Rightarrow> ('t, 'h) ConnectionState" where
  "clear_ws_ingress_dirty c = c\<lparr>cs_ws_ingress := Clean\<rparr>"

definition sync_ws_close_state :: "('t, 'h) ConnectionState \<Rightarrow> ('t, 'h) ConnectionState" where
  "sync_ws_close_state c =
     (if ws_state (cs_ws c) = Closed \<and> cs_state c \<notin> {StClosing, StClosed} then c\<lparr>cs_state := StClosing\<rparr> else c)"

definition sync_ws_open_state :: "('t, 'h) ConnectionState \<Rightarrow> ('t, 'h) ConnectionState" where
  "sync_ws_open_state c =
     (if ws_state (cs_ws c) = Open \<and> cs_state c \<noteq> StOpen then c\<lparr>cs_state := StOpen\<rparr> else c)"

subsection \<open>Submitting\<close>

definition conn_submit_connect ::
  "'k Uring \<Rightarrow> ('t, 'h, 'k) Conn \<Rightarrow> ('t, 'h, 'k) Conn \<times> (ConnectionError, unit) result" where
  "conn_submit_connect io st =
     (case st of (c, k) \<Rightarrow>
        case pr_submit_connect io (cs_socket c) (cs_addr c) (ud_new OpConnect (conn_token c)) SQE_NONE k of
          (k, Ok _) \<Rightarrow> ((c\<lparr>cs_state := StConnecting\<rparr>, k), Ok ())
        | (k, Err e) \<Rightarrow> ((c, k), Err (CeProactor e))
        | (k, Panic) \<Rightarrow> ((c, k), Panic))"

text \<open>\<^verbatim>\<open>drain(..send_head)\<close> panics when the head is past the end.\<close>

definition compact_send_buf_if_needed :: "('t, 'h) ConnectionState \<Rightarrow> ('e, ('t, 'h) ConnectionState) result" where
  "compact_send_buf_if_needed c =
     (if cs_send_head c = 0 then Ok c
      else if cs_send_head c = length (cs_send_buf c) then Ok (c\<lparr>cs_send_buf := [], cs_send_head := 0\<rparr>)
      else if cs_send_head c \<le> length (cs_send_buf c)
      then Ok (c\<lparr>cs_send_buf := drop (cs_send_head c) (cs_send_buf c), cs_send_head := 0\<rparr>)
      else Panic)"

text \<open>The steps of \<^verbatim>\<open>try_submit_send\<close> that fill the staging buffer: ciphertext that waited, the frames of the
  WebSocket client, and what TLS itself wants to send.\<close>

definition stage_tls_pending :: "('t, 'h) ConnectionState \<Rightarrow> ('t, 'h) ConnectionState" where
  "stage_tls_pending c =
     (if cs_tls_pending_out c \<noteq> []
      then c\<lparr>cs_send_buf := cs_send_buf c @ cs_tls_pending_out c, cs_tls_pending_out := []\<rparr> else c)"

definition stage_egress ::
  "('t, 'h) World \<Rightarrow> bytes \<Rightarrow> ('t, 'h) ConnectionState \<Rightarrow> 't TlsAdapter \<Rightarrow> ('t, 'h) ConnectionState \<times> (ConnectionError, unit) result" where
  "stage_egress w src c a =
     (case egress_plaintext (wd_rustls w) src a (cs_send_buf c) of
        ((a, buf), r) \<Rightarrow> (c\<lparr>cs_tls := Some a, cs_send_buf := buf\<rparr>, map_err CeTls r))"

definition stage_ws_tx ::
  "('t, 'h) World \<Rightarrow> ('t, 'h) ConnectionState \<Rightarrow> ('t, 'h) ConnectionState \<times> (ConnectionError, unit) result" where
  "stage_ws_tx w c =
     (let ws_tx_len = length (pending_tx (cs_ws c)) in
      if ws_tx_len > 0 then
        try_st (case cs_tls c of
                  Some a \<Rightarrow> stage_egress w (pending_tx (cs_ws c)) c a
                | None \<Rightarrow> (c\<lparr>cs_send_buf := cs_send_buf c @ pending_tx (cs_ws c)\<rparr>, Ok ()))
          (\<lambda>c _. (c\<lparr>cs_ws := ack_tx (cs_ws c) ws_tx_len\<rparr>, Ok ()))
      else (c, Ok ()))"

definition stage_tls_own ::
  "('t, 'h) World \<Rightarrow> ('t, 'h) ConnectionState \<Rightarrow> ('t, 'h) ConnectionState \<times> (ConnectionError, unit) result" where
  "stage_tls_own w c = (case cs_tls c of Some a \<Rightarrow> stage_egress w [] c a | None \<Rightarrow> (c, Ok ()))"

definition stage_send ::
  "('t, 'h) World \<Rightarrow> ('t, 'h) ConnectionState \<Rightarrow> ('t, 'h) ConnectionState \<times> (ConnectionError, unit) result" where
  "stage_send w c =
     (case compact_send_buf_if_needed c of
        Ok c \<Rightarrow> try_st (stage_ws_tx w (stage_tls_pending c)) (\<lambda>c _. stage_tls_own w c)
      | Err e \<Rightarrow> (c, Err e)
      | Panic \<Rightarrow> (c, Panic))"

definition submit_staged ::
  "'k Uring \<Rightarrow> ('t, 'h, 'k) Conn \<Rightarrow> ('t, 'h, 'k) Conn \<times> (ConnectionError, unit) result" where
  "submit_staged io st =
     (case st of (c, k) \<Rightarrow>
        let pending = length (cs_send_buf c) - cs_send_head c in
        if pending = 0 then ((c, k), Ok ())
        else
          let len = min pending (2 ^ 32 - 1);
              buf = take len (drop (cs_send_head c) (cs_send_buf c))
          in case pr_submit_send io (cs_socket c) buf (ud_new OpSend (conn_token c)) SQE_NONE k of
               (k, Ok _) \<Rightarrow> ((c\<lparr>cs_send_inflight := True\<rparr>, k), Ok ())
             | (k, Err e) \<Rightarrow> ((c, k), Err (CeProactor e))
             | (k, Panic) \<Rightarrow> ((c, k), Panic))"

definition try_submit_send ::
  "('t, 'h) World \<Rightarrow> 'k Uring \<Rightarrow> ('t, 'h, 'k) Conn \<Rightarrow> ('t, 'h, 'k) Conn \<times> (ConnectionError, unit) result" where
  "try_submit_send w io st =
     (case st of (c, k) \<Rightarrow>
        if cs_send_inflight c then (st, Ok ())
        else if cs_state c \<in> {StInit, StConnecting, StClosed} then (st, Ok ())
        else case stage_send w c of
               (c, Ok _) \<Rightarrow> submit_staged io (c, k)
             | (c, r) \<Rightarrow> ((c, k), r))"

definition submit_recv_for_mode ::
  "'k Uring \<Rightarrow> RawFd \<Rightarrow> u16 \<Rightarrow> UserData \<Rightarrow> RecvMode \<Rightarrow> 'k \<Rightarrow> 'k \<times> (ConnectionError, unit) result" where
  "submit_recv_for_mode io fd bgid ud mode k =
     (case mode of
        Multishot \<Rightarrow> (case submit_recv_multishot io fd bgid ud k of (k, r) \<Rightarrow> (k, map_err CeProactor r))
      | MultishotBundle \<Rightarrow>
          if \<not> io_bundle io k then (k, Err (CeProactor (PrInvalidConfig ''kernel does not support IORING_RECVSEND_BUNDLE'')))
          else (case submit_recv_multishot_bundle io fd bgid ud k of (k, r) \<Rightarrow> (k, map_err CeProactor r)))"

definition try_rearm_multishot ::
  "'k Uring \<Rightarrow> ('t, 'h, 'k) Conn \<Rightarrow> ('t, 'h, 'k) Conn \<times> (ConnectionError, unit) result" where
  "try_rearm_multishot io st =
     (case st of (c, k) \<Rightarrow>
        if cs_multishot_armed c then (st, Ok ())
        else if cs_state c \<in> {StInit, StConnecting, StClosed} then (st, Ok ())
        else case cs_buf_ring c of
               None \<Rightarrow> (st, Ok ())
             | Some ring \<Rightarrow>
                 (case submit_recv_for_mode io (cs_socket c) (br_bgid ring) (ud_new OpRecv (conn_token c)) (cc_recv_mode (cs_cfg c)) k of
                    (k, Ok _) \<Rightarrow> ((record_recv_multishot_rearm (c\<lparr>cs_multishot_armed := True\<rparr>), k), Ok ())
                  | (k, r) \<Rightarrow> ((c, k), r)))"

subsection \<open>Connect and send completions\<close>

definition begin_ws ::
  "('t, 'h) ConnectionState \<Rightarrow> ('t, 'h) ConnectionState \<times> (ConnectionError, unit) result" where
  "begin_ws c =
     (case begin_handshake (cs_ws c) of
        (ws, Ok _) \<Rightarrow> (c\<lparr>cs_ws := ws, cs_ws_handshake_begun := True\<rparr>, Ok ())
      | (ws, r) \<Rightarrow> (c\<lparr>cs_ws := ws\<rparr>, map_err CeWs r))"

definition on_connect_cqe ::
  "'k Uring \<Rightarrow> Completion \<Rightarrow> ('t, 'h, 'k) Conn \<Rightarrow> ('t, 'h, 'k) Conn \<times> (ConnectionError, unit) result" where
  "on_connect_cqe io cqe st =
     (case st of (c, k) \<Rightarrow>
        try_st (st, and_then (map_err CeConnectFailed (to_result cqe)) (\<lambda>_. Ok ())) (\<lambda>st _.
        case ring_new io (conn_bgid c) (cc_buf_ring_entries (cs_cfg c)) (cc_buf_ring_slot_size (cs_cfg c)) k of
          (k, Err e) \<Rightarrow> ((c, k), Err (CeBufRing e))
        | (k, Panic) \<Rightarrow> ((c, k), Panic)
        | (k, Ok ring) \<Rightarrow>
            (case submit_recv_for_mode io (cs_socket c) (br_bgid ring) (ud_new OpRecv (conn_token c)) (cc_recv_mode (cs_cfg c)) k of
               (k, Err e) \<Rightarrow> (case ring_unregister io ring k of (k, _, _) \<Rightarrow> ((c, k), Err e))
             | (k, Panic) \<Rightarrow> ((c, k), Panic)
             | (k, Ok _) \<Rightarrow>
                 let c = record_recv_multishot_rearm (c\<lparr>cs_buf_ring := Some ring, cs_multishot_armed := True\<rparr>);
                     c = c\<lparr>cs_state := (if cs_tls c \<noteq> None then StTlsHandshake else StWsHandshake)\<rparr>
                 in if cs_tls c = None \<and> \<not> cs_ws_handshake_begun c then
                      (case begin_ws c of (c, r) \<Rightarrow> ((c, k), r))
                    else ((c, k), Ok ()))))"

definition on_send_cqe ::
  "Completion \<Rightarrow> ('t, 'h) ConnectionState \<Rightarrow> ('t, 'h) ConnectionState \<times> (ConnectionError, unit) result" where
  "on_send_cqe cqe c =
     (let c = c\<lparr>cs_send_inflight := False\<rparr>
      in case to_result cqe of
           Ok n \<Rightarrow>
             (let c = c\<lparr>cs_send_head := cs_send_head c + n\<rparr>
              in if cs_send_head c \<ge> length (cs_send_buf c) then (c\<lparr>cs_send_buf := [], cs_send_head := 0\<rparr>, Ok ())
                 else (c, Ok ()))
         | Err e \<Rightarrow> (c, Err (CeSendFailed e))
         | Panic \<Rightarrow> (c, Panic))"

subsection \<open>Received buffers\<close>

definition ENOBUFS :: int where "ENOBUFS = 105"

definition is_recv_buffer_ring_exhausted :: "IoError \<Rightarrow> bool" where
  "is_recv_buffer_ring_exhausted e \<longleftrightarrow> e = OsError ENOBUFS"

definition div_ceil :: "nat \<Rightarrow> nat \<Rightarrow> ('e, nat) result" where
  "div_ceil a b = (if b = 0 then Panic else Ok ((a + b - 1) div b))"

definition bundle_bid :: "u16 \<Rightarrow> u16 \<Rightarrow> nat \<Rightarrow> u16" where
  "bundle_bid entries start_bid index =
     (start_bid + (if index < 65536 then word_of_nat index else 65535)) AND (entries - 1)"

fun recycle_all :: "u16 list \<Rightarrow> BufferRing \<Rightarrow> ('e, BufferRing) result" where
  "recycle_all [] ring = Ok ring"
| "recycle_all (bid # bids) ring = and_then (ring_recycle ring bid) (recycle_all bids)"

definition recycle_recv_buffers :: "RecvMode \<Rightarrow> u16 \<Rightarrow> nat \<Rightarrow> BufferRing \<Rightarrow> ('e, BufferRing) result" where
  "recycle_recv_buffers mode start_bid total_len ring =
     and_then (case mode of
                 Multishot \<Rightarrow> Ok 1
               | MultishotBundle \<Rightarrow> and_then (div_ceil total_len (unat (br_buf_size ring))) (\<lambda>n. Ok (max n 1))) (\<lambda>n.
       let slice_count = min n (unat (br_entries ring))
       in recycle_all (map (bundle_bid (br_entries ring) start_bid) [0..<slice_count]) ring)"

text \<open>The loop of \<^verbatim>\<open>for_each_recv_slice\<close>: each buffer is handed to \<^verbatim>\<open>on_slice\<close> until one call failed, and
  recycled in any case.\<close>

fun recv_slices ::
  "'k Uring \<Rightarrow> 'k \<Rightarrow> (bytes \<Rightarrow> 's \<Rightarrow> 's \<times> (ConnectionError, unit) result) \<Rightarrow> u16 list \<Rightarrow> nat \<Rightarrow> ConnectionError option \<Rightarrow>
     BufferRing \<times> 's \<Rightarrow> (BufferRing \<times> 's) \<times> (ConnectionError, unit) result" where
  "recv_slices io k on_slice [] remaining first_err st =
     (st, case first_err of None \<Rightarrow> Ok () | Some e \<Rightarrow> Err e)"
| "recv_slices io k on_slice (bid # bids) remaining first_err (ring, s) =
     (let len = min remaining (unat (br_buf_size ring)) in
      case ring_buffer io k ring bid len of
        Ok data \<Rightarrow>
          (case (case first_err of
                   None \<Rightarrow> (case on_slice data s of
                              (s, Ok _) \<Rightarrow> (s, Ok None) | (s, Err e) \<Rightarrow> (s, Ok (Some e)) | (s, Panic) \<Rightarrow> (s, Panic))
                 | Some e \<Rightarrow> (s, Ok (Some e))) of
             (s, Ok first_err) \<Rightarrow>
               (case ring_recycle ring bid of
                  Ok ring \<Rightarrow> recv_slices io k on_slice bids (remaining - len) first_err (ring, s)
                | Err e \<Rightarrow> ((ring, s), Err e)
                | Panic \<Rightarrow> ((ring, s), Panic))
           | (s, Err e) \<Rightarrow> ((ring, s), Err e)
           | (s, Panic) \<Rightarrow> ((ring, s), Panic))
      | Err e \<Rightarrow> ((ring, s), Err e)
      | Panic \<Rightarrow> ((ring, s), Panic))"

definition for_each_recv_slice ::
  "'k Uring \<Rightarrow> 'k \<Rightarrow> RecvMode \<Rightarrow> u16 \<Rightarrow> nat \<Rightarrow> (bytes \<Rightarrow> 's \<Rightarrow> 's \<times> (ConnectionError, unit) result) \<Rightarrow>
     BufferRing \<times> 's \<Rightarrow> (BufferRing \<times> 's) \<times> (ConnectionError, nat) result" where
  "for_each_recv_slice io k mode start_bid total_len on_slice st =
     (case st of (ring, s) \<Rightarrow>
        if total_len = 0 then
          (case ring_recycle ring start_bid of
             Ok ring \<Rightarrow> ((ring, s), Ok 0) | Err e \<Rightarrow> ((ring, s), Err e) | Panic \<Rightarrow> ((ring, s), Panic))
        else
          try_st (st, case mode of
                        Multishot \<Rightarrow>
                          if total_len > unat (br_buf_size ring) then
                            Err (CeRecvFailed (InvalidData ''classic multishot recv CQE exceeded one provided buffer''))
                          else Ok 1
                      | MultishotBundle \<Rightarrow> div_ceil total_len (unat (br_buf_size ring))) (\<lambda>st slice_count.
            if slice_count > unat (br_entries ring) then
              (st, Err (CeRecvFailed (InvalidData ''recv bundle consumed more buffers than the ring contains'')))
            else
              try_st (recv_slices io k on_slice (map (bundle_bid (br_entries ring) start_bid) [0..<slice_count]) total_len None st)
                (\<lambda>st _. (st, Ok slice_count))))"

definition conn_recycle :: "u16 \<Rightarrow> ('t, 'h) ConnectionState \<Rightarrow> ('e, ('t, 'h) ConnectionState) result" where
  "conn_recycle bid c =
     (case cs_buf_ring c of
        None \<Rightarrow> Panic
      | Some ring \<Rightarrow> and_then (ring_recycle ring bid) (\<lambda>ring. Ok (c\<lparr>cs_buf_ring := Some ring\<rparr>)))"

subsection \<open>After close\<close>

definition discard_recv_completion_after_closed ::
  "CqFlags \<Rightarrow> Completion \<Rightarrow> ('t, 'h) ConnectionState \<Rightarrow> ('e, ('t, 'h) ConnectionState) result" where
  "discard_recv_completion_after_closed fl cqe c =
     (let c = (if \<not> has_more fl cqe then c\<lparr>cs_multishot_armed := False\<rparr> else c) in
      case buffer_id fl cqe of
        None \<Rightarrow>
          (case to_result cqe of
             Err e \<Rightarrow> Ok (if is_recv_buffer_ring_exhausted e then record_recv_ring_exhaustion c else c)
           | _ \<Rightarrow> Ok c)
      | Some bid \<Rightarrow>
          let c = (case to_result cqe of
                     Err e \<Rightarrow> if is_recv_buffer_ring_exhausted e
                              then (record_recv_ring_exhaustion c)\<lparr>cs_multishot_armed := False\<rparr> else c
                   | _ \<Rightarrow> c)
          in case cs_buf_ring c of
               None \<Rightarrow> Ok c
             | Some ring \<Rightarrow>
                 (case to_result cqe of
                    Ok n \<Rightarrow> and_then (recycle_recv_buffers (cc_recv_mode (cs_cfg c)) bid n ring) (\<lambda>ring. Ok (c\<lparr>cs_buf_ring := Some ring\<rparr>))
                  | Err _ \<Rightarrow> and_then (ring_recycle ring bid) (\<lambda>ring. Ok (c\<lparr>cs_buf_ring := Some ring\<rparr>))
                  | Panic \<Rightarrow> Panic))"

definition discard_completion_after_closed ::
  "CqFlags \<Rightarrow> OpKind \<Rightarrow> Completion \<Rightarrow> ('t, 'h) ConnectionState \<Rightarrow> ('e, ('t, 'h) ConnectionState) result" where
  "discard_completion_after_closed fl kind cqe c =
     (case kind of
        OpRecv \<Rightarrow> discard_recv_completion_after_closed fl cqe c
      | OpSend \<Rightarrow> Ok (c\<lparr>cs_send_inflight := False, cs_send_buf := [], cs_send_head := 0\<rparr>)
      | OpClose \<Rightarrow> Ok (c\<lparr>cs_state := StClosed\<rparr>)
      | OpConnect \<Rightarrow> Ok c
      | OpNop \<Rightarrow> Ok c)"

subsection \<open>Receive completions: common part\<close>

text \<open>The opening of every receive handler, up to the point where it looks at the received bytes: the value
  is the buffer id and length of data to process, or nothing.\<close>

definition recv_entry ::
  "CqFlags \<Rightarrow> Completion \<Rightarrow> ('t, 'h) ConnectionState \<Rightarrow>
     ('t, 'h) ConnectionState \<times> (ConnectionError, (u16 \<times> nat) option) result" where
  "recv_entry fl cqe c =
     (let c = (if \<not> has_more fl cqe then c\<lparr>cs_multishot_armed := False\<rparr> else c) in
      case buffer_id fl cqe of
        None \<Rightarrow>
          (case to_result cqe of
             Ok n \<Rightarrow> if n = 0 then (c\<lparr>cs_state := StClosed\<rparr>, Err CePeerClosed) else (c, Ok None)
           | Err e \<Rightarrow>
               if is_recv_buffer_ring_exhausted e
               then ((record_recv_ring_exhaustion c)\<lparr>cs_multishot_armed := False\<rparr>, Ok None)
               else (c, Err (CeRecvFailed e))
           | Panic \<Rightarrow> (c, Panic))
      | Some bid \<Rightarrow>
          (case to_result cqe of
             Err e \<Rightarrow> (c, Err (CeRecvFailed e))
           | Panic \<Rightarrow> (c, Panic)
           | Ok n \<Rightarrow>
               if n = 0 then
                 (case conn_recycle bid c :: (ConnectionError, ('t, 'h) ConnectionState) result of
                    Ok c \<Rightarrow> (c\<lparr>cs_state := StClosed\<rparr>, Err CePeerClosed)
                  | _ \<Rightarrow> (c, Panic))
               else (c, Ok (Some (bid, n)))))"

text \<open>After the slices of a TLS connection: the step from TLS to WebSocket handshake, and the peer's close notice.\<close>

definition tls_progress ::
  "('t, 'h) World \<Rightarrow> ('t, 'h) ConnectionState \<Rightarrow> 't TlsAdapter \<Rightarrow> ('t, 'h) ConnectionState \<times> (ConnectionError, unit) result" where
  "tls_progress w c a =
     try_st (if \<not> is_handshaking (wd_rustls w) a \<and> cs_state c = StTlsHandshake \<and> \<not> cs_ws_handshake_begun c then
               try_st (c, map_err CeTls (verify_alpn (wd_rustls w) a)) (\<lambda>c _. begin_ws (c\<lparr>cs_state := StWsHandshake\<rparr>))
             else (c, Ok ())) (\<lambda>c _.
       (if received_close_notify a \<and> cs_state c \<notin> {StClosed, StClosing} then c\<lparr>cs_state := StClosing\<rparr> else c, Ok ()))"

definition on_recv_cqe ::
  "('t, 'h) World \<Rightarrow> 'k Uring \<Rightarrow> 'k \<Rightarrow> Completion \<Rightarrow> ('t, 'h) ConnectionState \<Rightarrow> ('t, 'h) ConnectionState \<times> (ConnectionError, unit) result" where
  "on_recv_cqe w io k cqe c =
     (case recv_entry (io_flags io) cqe c of
        (c, Err e) \<Rightarrow> (c, Err e)
      | (c, Panic) \<Rightarrow> (c, Panic)
      | (c, Ok None) \<Rightarrow> (c, Ok ())
      | (c, Ok (Some (bid, n))) \<Rightarrow>
          let c = record_recv_data n c; mode = cc_recv_mode (cs_cfg c) in
          (case (cs_tls c, cs_buf_ring c) of
             (_, None) \<Rightarrow> (c, Panic)
           | (Some a, Some ring) \<Rightarrow>
               (case for_each_recv_slice io k mode bid n
                       (\<lambda>data s. apsnd (map_err CeTls) (ingest_ciphertext (wd_rustls w) data (\<lambda>plaintext (ws, _). (feed_recv ws plaintext, True)) s))
                       (ring, (a, cs_tls_pending_out c, (cs_ws c, False))) of
                  ((ring, (a, pending, (ws, fed))), r) \<Rightarrow>
                    let c = c\<lparr>cs_buf_ring := Some ring, cs_tls := Some a, cs_tls_pending_out := pending, cs_ws := ws\<rparr>
                    in try_st (c, r) (\<lambda>c _. tls_progress w (if fed then c\<lparr>cs_ws_ingress := Dirty\<rparr> else c) a))
           | (None, Some ring) \<Rightarrow>
               (case for_each_recv_slice io k mode bid n (\<lambda>data ws. (feed_recv ws data, Ok ())) (ring, cs_ws c) of
                  ((ring, ws), r) \<Rightarrow>
                    try_st (c\<lparr>cs_buf_ring := Some ring, cs_ws := ws\<rparr>, r) (\<lambda>c _. (c\<lparr>cs_ws_ingress := Dirty\<rparr>, Ok ())))))"

subsection \<open>Delivering data\<close>

text \<open>The locals of a data handler and the fields it borrows: the client, the sink's calls so far, the first
  WebSocket error, the counters, and the marking state.\<close>

record ('h, 'o) Rx =
  rx_ws :: WsClient
  rx_out :: "'o list"
  rx_fed :: bool
  rx_error :: "WsError option"
  rx_panic :: bool
  rx_chunks :: u64
  rx_bytes :: u64
  rx_drained :: u64
  rx_text :: u64
  rx_binary :: u64
  rx_index :: u16
  rx_sequence :: u64
  rx_hist :: "'h LatencyHistograms option"
  rx_clock :: nat

definition rx_begin :: "('t, 'h) ConnectionState \<Rightarrow> ('h, 'o) Rx" where
  "rx_begin c =
     \<lparr>rx_ws = cs_ws c, rx_out = [], rx_fed = False, rx_error = None, rx_panic = False, rx_chunks = 0, rx_bytes = 0,
      rx_drained = 0, rx_text = 0, rx_binary = 0, rx_index = 0, rx_sequence = cs_marked_message_sequence c,
      rx_hist = cs_histograms c, rx_clock = cs_clock_reads c\<rparr>"

definition rx_end :: "('h, 'o) Rx \<Rightarrow> ('t, 'h) ConnectionState \<Rightarrow> ('t, 'h) ConnectionState" where
  "rx_end rx c = c\<lparr>cs_ws := rx_ws rx, cs_marked_message_sequence := rx_sequence rx, cs_histograms := rx_hist rx, cs_clock_reads := rx_clock rx\<rparr>"

record ('h, 'o) Delivery =
  dl_marked :: bool
  dl_drain :: "Env \<Rightarrow> Clock \<Rightarrow> 'h HistOps \<Rightarrow> DataEventMeta \<Rightarrow> bytes \<Rightarrow> ('h, 'o) Rx \<Rightarrow> ('h, 'o) Rx \<times> (WsError, nat) result"

definition tally :: "nat \<Rightarrow> nat \<Rightarrow> nat \<Rightarrow> 'o \<Rightarrow> ('h, 'o) Rx \<Rightarrow> ('h, 'o) Rx" where
  "tally n text binary o' rx =
     rx\<lparr>rx_out := rx_out rx @ [o'], rx_drained := saturating_add (rx_drained rx) (word_of_nat n),
        rx_text := saturating_add (rx_text rx) (word_of_nat text), rx_binary := saturating_add (rx_binary rx) (word_of_nat binary)\<rparr>"

fun tally_event :: "DataEvent \<Rightarrow> ('h, DataEvent) Rx \<Rightarrow> ('h, DataEvent) Rx" where
  "tally_event (DText t) rx = tally 1 1 0 (DText t) rx"
| "tally_event (DBinary b) rx = tally 1 0 1 (DBinary b) rx"

definition tally_batch :: "DataEventBatch \<Rightarrow> ('h, DataEventBatch) Rx \<Rightarrow> ('h, DataEventBatch) Rx" where
  "tally_batch b rx = tally (length (ba_events b)) (batch_text_count b) (batch_binary_count b) b rx"

definition observe :: "'h HistOps \<Rightarrow> DataEventMeta \<Rightarrow> ('h, 'o) Rx \<Rightarrow> ('h, 'o) Rx" where
  "observe ops meta rx = rx\<lparr>rx_hist := map_option (record_message ops meta) (rx_hist rx)\<rparr>"

fun tally_marked :: "'h HistOps \<Rightarrow> MarkedDataEvent \<Rightarrow> ('h, MarkedDataEvent) Rx \<Rightarrow> ('h, MarkedDataEvent) Rx" where
  "tally_marked ops (MText t m) rx = tally 1 1 0 (MText t m) (observe ops m rx)"
| "tally_marked ops (MBinary b m) rx = tally 1 0 1 (MBinary b m) (observe ops m rx)"

definition tally_marked_batch :: "'h HistOps \<Rightarrow> MarkedDataEventBatch \<Rightarrow> ('h, MarkedDataEventBatch) Rx \<Rightarrow> ('h, MarkedDataEventBatch) Rx" where
  "tally_marked_batch ops b rx =
     tally (length (mb_events b)) (mb_text_count b) (mb_binary_count b) b (fold (\<lambda>e. observe ops (marked_meta e)) (mb_events b) rx)"

definition events_delivery :: "('h, DataEvent) Delivery" where
  "events_delivery = \<lparr>dl_marked = False, dl_drain = (\<lambda>env clk ops base data rx.
     case drain_data_events_from_ingress env (rx_ws rx) data of
       (out, ws, r) \<Rightarrow> (fold tally_event out (rx\<lparr>rx_ws := ws\<rparr>), r))\<rparr>"

definition batches_delivery :: "('h, DataEventBatch) Delivery" where
  "batches_delivery = \<lparr>dl_marked = False, dl_drain = (\<lambda>env clk ops base data rx.
     case drain_data_event_batches_from_ingress env (rx_ws rx) data of
       (out, ws, r) \<Rightarrow> (fold tally_batch out (rx\<lparr>rx_ws := ws\<rparr>), r))\<rparr>"

definition marked_delivery :: "('h, MarkedDataEvent) Delivery" where
  "marked_delivery = \<lparr>dl_marked = True, dl_drain = (\<lambda>env clk ops base data rx.
     case drain_data_events_from_ingress_marked_with_message_sequence env clk (rx_clock rx) data base (rx_sequence rx) (rx_ws rx) of
       ((mk, out), ws, r) \<Rightarrow>
         (fold (tally_marked ops) out (rx\<lparr>rx_ws := ws, rx_sequence := mk_sequence mk, rx_clock := mk_clock mk\<rparr>), r))\<rparr>"

definition marked_batches_delivery :: "('h, MarkedDataEventBatch) Delivery" where
  "marked_batches_delivery = \<lparr>dl_marked = True, dl_drain = (\<lambda>env clk ops base data rx.
     case drain_data_event_batches_from_ingress_marked_with_message_sequence env clk (rx_clock rx) data base (rx_sequence rx) (rx_ws rx) of
       ((mk, _, out), ws, r) \<Rightarrow>
         (fold (tally_marked_batch ops) out (rx\<lparr>rx_ws := ws, rx_sequence := mk_sequence mk, rx_clock := mk_clock mk\<rparr>), r))\<rparr>"

text \<open>One plaintext chunk: drain it, count the chunk for the histograms if it carried a message, keep the first error.\<close>

definition rx_deliver ::
  "('h, 'o) Delivery \<Rightarrow> ('t, 'h) World \<Rightarrow> DataEventMeta \<Rightarrow> bytes \<Rightarrow> ('h, 'o) Rx \<Rightarrow> ('h, 'o) Rx \<times> (WsError, nat) result" where
  "rx_deliver dl w base data rx =
     (case dl_drain dl (wd_env w) (wd_clock w) (wd_hist w) base data rx of
        (rx', r) \<Rightarrow>
          (if dl_marked dl \<and> rx_drained rx < rx_drained rx'
           then rx'\<lparr>rx_hist := map_option (record_plaintext_chunk (wd_hist w) base) (rx_hist rx')\<rparr> else rx', r))"

definition rx_keep_error :: "('h, 'o) Rx \<times> (WsError, nat) result \<Rightarrow> ('h, 'o) Rx" where
  "rx_keep_error res =
     (case res of
        (rx, Ok _) \<Rightarrow> rx
      | (rx, Err e) \<Rightarrow> if rx_error rx = None then rx\<lparr>rx_error := Some e\<rparr> else rx
      | (rx, Panic) \<Rightarrow> rx\<lparr>rx_panic := True\<rparr>)"

definition rx_tls_chunk :: "('h, 'o) Delivery \<Rightarrow> ('t, 'h) World \<Rightarrow> DataEventMeta \<Rightarrow> bytes \<Rightarrow> ('h, 'o) Rx \<Rightarrow> ('h, 'o) Rx" where
  "rx_tls_chunk dl w recv_meta plaintext rx =
     (if rx_error rx \<noteq> None \<or> rx_panic rx then rx
      else
        let rx = rx\<lparr>rx_fed := True, rx_chunks := saturating_add (rx_chunks rx) 1,
                    rx_bytes := saturating_add (rx_bytes rx) (word_of_nat (length plaintext))\<rparr>;
            (base, k) = (if dl_marked dl then plaintext_ready_now (wd_clock w) (rx_clock rx) recv_meta (rx_index rx) else (recv_meta, rx_clock rx));
            rx = rx\<lparr>rx_index := saturating_add (rx_index rx) 1, rx_clock := k\<rparr>
        in rx_keep_error (rx_deliver dl w base plaintext rx))"

definition rx_plain_chunk :: "('h, 'o) Delivery \<Rightarrow> ('t, 'h) World \<Rightarrow> DataEventMeta \<Rightarrow> bytes \<Rightarrow> ('h, 'o) Rx \<Rightarrow> ('h, 'o) Rx" where
  "rx_plain_chunk dl w recv_meta data rx =
     (if rx_error rx \<noteq> None \<or> rx_panic rx then rx
      else
        let base = plaintext_ready_at recv_meta (dm_transport_recv_mono_nanos recv_meta) (rx_index rx);
            rx = rx\<lparr>rx_index := saturating_add (rx_index rx) 1\<rparr>
        in rx_keep_error (rx_deliver dl w base data rx))"

text \<open>The metadata of a receive completion; an unmarked handler neither counts nor reads a clock.\<close>

definition recv_mark ::
  "('h, 'o) Delivery \<Rightarrow> ('t, 'h) World \<Rightarrow> ('t, 'h) ConnectionState \<Rightarrow> DataEventMeta \<times> ('t, 'h) ConnectionState" where
  "recv_mark dl w c =
     (if dl_marked dl then
        let recv_sequence = cs_marked_recv_sequence c;
            sampled = should_sample_sequence (cc_observability_sample_rate (cs_cfg c)) recv_sequence;
            (meta, k) = recv_observed_now (wd_clock w) (cs_clock_reads c) recv_sequence sampled
        in (meta, c\<lparr>cs_marked_recv_sequence := saturating_add recv_sequence 1, cs_clock_reads := k\<rparr>)
      else (fst (recv_observed_now (wd_clock w) 0 0 False), c))"

definition rx_result :: "('h, 'o) Rx \<Rightarrow> (ConnectionError, u64) result" where
  "rx_result rx =
     (if rx_panic rx then Panic else case rx_error rx of Some e \<Rightarrow> Err (CeWs e) | None \<Rightarrow> Ok (rx_drained rx))"

definition on_recv_data ::
  "('h, 'o) Delivery \<Rightarrow> ('t, 'h) World \<Rightarrow> 'k Uring \<Rightarrow> 'k \<Rightarrow> Completion \<Rightarrow> ('t, 'h) ConnectionState \<Rightarrow>
     (('t, 'h) ConnectionState \<times> 'o list) \<times> (ConnectionError, u64) result" where
  "on_recv_data dl w io k cqe c =
     (case recv_entry (io_flags io) cqe c of
        (c, Err e) \<Rightarrow> ((c, []), Err e)
      | (c, Panic) \<Rightarrow> ((c, []), Panic)
      | (c, Ok None) \<Rightarrow> ((c, []), Ok 0)
      | (c, Ok (Some (bid, n))) \<Rightarrow>
          let (recv_meta, c) = recv_mark dl w c; c = record_recv_data n c; mode = cc_recv_mode (cs_cfg c) in
          (case (cs_tls c, cs_buf_ring c) of
             (_, None) \<Rightarrow> ((c, []), Panic)
           | (Some a, Some ring) \<Rightarrow>
               (case for_each_recv_slice io k mode bid n
                       (\<lambda>data s. apsnd (map_err CeTls) (ingest_ciphertext (wd_rustls w) data (rx_tls_chunk dl w recv_meta) s))
                       (ring, (a, cs_tls_pending_out c, rx_begin c)) of
                  ((ring, (a, pending, rx)), r) \<Rightarrow>
                    let c = rx_end rx (c\<lparr>cs_buf_ring := Some ring, cs_tls := Some a, cs_tls_pending_out := pending\<rparr>)
                    in try_st ((c, rx_out rx), if rx_panic rx then Panic else r) (\<lambda>(c, out) _.
                         case tls_progress w c a of
                           (c, Ok _) \<Rightarrow>
                             let c = record_ws_data_drains (rx_chunks rx) (if rx_fed rx then 0 else 1) c;
                                 c = record_plaintext (rx_chunks rx) (rx_bytes rx) c;
                                 c = record_ws_data_events (rx_text rx) (rx_binary rx) c
                             in ((c, out), rx_result rx)
                         | (c, Err e) \<Rightarrow> ((c, out), Err e)
                         | (c, Panic) \<Rightarrow> ((c, out), Panic)))
           | (None, Some ring) \<Rightarrow>
               (case for_each_recv_slice io k mode bid n (\<lambda>data rx. (rx_plain_chunk dl w recv_meta data rx, Ok ())) (ring, rx_begin c) of
                  ((ring, rx), r) \<Rightarrow>
                    let c = rx_end rx (c\<lparr>cs_buf_ring := Some ring\<rparr>)
                    in try_st ((c, rx_out rx), if rx_panic rx then Panic else r) (\<lambda>(c, out) plaintext_chunks.
                         let c = record_ws_data_drains (word_of_nat plaintext_chunks) 0 c;
                             c = record_plaintext (word_of_nat plaintext_chunks) (word_of_nat n) c;
                             c = record_ws_data_events (rx_text rx) (rx_binary rx) c
                         in ((c, out), rx_result rx)))))"

definition on_recv_cqe_data where "on_recv_cqe_data = on_recv_data events_delivery"
definition on_recv_cqe_data_batch where "on_recv_cqe_data_batch = on_recv_data batches_delivery"
definition on_recv_cqe_data_marked where "on_recv_cqe_data_marked = on_recv_data marked_delivery"
definition on_recv_cqe_data_marked_batch where "on_recv_cqe_data_marked_batch = on_recv_data marked_batches_delivery"

subsection \<open>Dispatch of a completion\<close>

definition handle_completion ::
  "('t, 'h) World \<Rightarrow> 'k Uring \<Rightarrow> Completion \<Rightarrow> ('t, 'h, 'k) Conn \<Rightarrow> ('t, 'h, 'k) Conn \<times> (ConnectionError, unit) result" where
  "handle_completion w io cqe st =
     (case st of (c, k) \<Rightarrow>
        case ud_kind (co_user_data cqe) of
          None \<Rightarrow> (st, Err (CeUnknownOpKind (ud_raw (co_user_data cqe))))
        | Some kind \<Rightarrow>
            if cs_state c = StClosed then
              (case discard_completion_after_closed (io_flags io) kind cqe c of
                 Ok c \<Rightarrow> ((c, k), Ok ()) | Err e \<Rightarrow> (st, Err e) | Panic \<Rightarrow> (st, Panic))
            else
              (case kind of
                 OpConnect \<Rightarrow> on_connect_cqe io cqe st
               | OpSend \<Rightarrow> (case on_send_cqe cqe c of (c, r) \<Rightarrow> ((c, k), r))
               | OpRecv \<Rightarrow> (case on_recv_cqe w io k cqe c of (c, r) \<Rightarrow> ((c, k), r))
               | OpClose \<Rightarrow> ((c\<lparr>cs_state := StClosed\<rparr>, k), Ok ())
               | OpNop \<Rightarrow> (st, Ok ())))"

definition no_data :: "('t, 'h, 'k) Conn \<times> (ConnectionError, unit) result \<Rightarrow> (('t, 'h, 'k) Conn \<times> 'o list) \<times> (ConnectionError, u64) result" where
  "no_data res = ((fst res, []), and_then (snd res) (\<lambda>_. Ok 0))"

definition handle_data ::
  "('h, 'o) Delivery \<Rightarrow> ('t, 'h) World \<Rightarrow> 'k Uring \<Rightarrow> Completion \<Rightarrow> ('t, 'h, 'k) Conn \<Rightarrow>
     (('t, 'h, 'k) Conn \<times> 'o list) \<times> (ConnectionError, u64) result" where
  "handle_data dl w io cqe st =
     (case st of (c, k) \<Rightarrow>
        case ud_kind (co_user_data cqe) of
          None \<Rightarrow> ((st, []), Err (CeUnknownOpKind (ud_raw (co_user_data cqe))))
        | Some kind \<Rightarrow>
            if cs_state c = StClosed then
              (case discard_completion_after_closed (io_flags io) kind cqe c of
                 Ok c \<Rightarrow> (((c, k), []), Ok 0) | Err e \<Rightarrow> ((st, []), Err e) | Panic \<Rightarrow> ((st, []), Panic))
            else
              (case kind of
                 OpConnect \<Rightarrow> no_data (on_connect_cqe io cqe st)
               | OpSend \<Rightarrow> no_data (case on_send_cqe cqe c of (c, r) \<Rightarrow> ((c, k), r))
               | OpRecv \<Rightarrow> (case on_recv_data dl w io k cqe c of ((c, out), r) \<Rightarrow> (((c, k), out), r))
               | OpClose \<Rightarrow> (((c\<lparr>cs_state := StClosed\<rparr>, k), []), Ok 0)
               | OpNop \<Rightarrow> ((st, []), Ok 0)))"

definition handle_completion_data where "handle_completion_data = handle_data events_delivery"
definition handle_completion_data_batch where "handle_completion_data_batch = handle_data batches_delivery"
definition handle_completion_data_marked where "handle_completion_data_marked = handle_data marked_delivery"
definition handle_completion_data_marked_batch where "handle_completion_data_marked_batch = handle_data marked_batches_delivery"

subsection \<open>Runs of plain receive completions\<close>

definition can_handle_plain_recv_data_batch :: "CqFlags \<Rightarrow> Completion \<Rightarrow> ('t, 'h) ConnectionState \<Rightarrow> bool" where
  "can_handle_plain_recv_data_batch fl cqe c \<longleftrightarrow>
     cs_tls c = None \<and> cc_recv_mode (cs_cfg c) = Multishot \<and> cs_state c = StOpen \<and>
     ud_kind (co_user_data cqe) = Some OpRecv \<and> 0 < sint (co_result cqe) \<and> buffer_id fl cqe \<noteq> None"

fun batch_copy_total :: "CqFlags \<Rightarrow> nat \<Rightarrow> Completion list \<Rightarrow> nat \<Rightarrow> nat option" where
  "batch_copy_total fl max_bytes [] total_bytes = Some total_bytes"
| "batch_copy_total fl max_bytes (cqe # cqes) total_bytes =
     (if sint (co_result cqe) \<le> 0 \<or> buffer_id fl cqe = None then None
      else
        let total_bytes = total_bytes + nat (sint (co_result cqe))
        in if total_bytes > USIZE_MAX then None
           else if total_bytes > max_bytes then None
           else batch_copy_total fl max_bytes cqes total_bytes)"

definition plain_recv_batch_copy_len :: "CqFlags \<Rightarrow> Completion list \<Rightarrow> ('t, 'h) ConnectionState \<Rightarrow> nat option" where
  "plain_recv_batch_copy_len fl cqes c =
     (let max_bytes = cc_plain_recv_batch_copy_max_bytes (cs_cfg c)
      in if max_bytes = 0 then None else batch_copy_total fl max_bytes cqes 0)"

text \<open>The \<open>n\<close> bytes from the start of buffer \<open>bid\<close> of the connection's ring.\<close>

definition conn_bytes :: "'k Uring \<Rightarrow> 'k \<Rightarrow> u16 \<Rightarrow> nat \<Rightarrow> ('t, 'h) ConnectionState \<Rightarrow> ('e, bytes) result" where
  "conn_bytes io k bid n c = (case cs_buf_ring c of None \<Rightarrow> Panic | Some ring \<Rightarrow> ring_buffer io k ring bid n)"

fun copy_batch ::
  "'k Uring \<Rightarrow> 'k \<Rightarrow> Completion list \<Rightarrow> ('t, 'h) ConnectionState \<times> u64 \<Rightarrow>
     (('t, 'h) ConnectionState \<times> u64) \<times> (ConnectionError, unit) result" where
  "copy_batch io k [] st = (st, Ok ())"
| "copy_batch io k (cqe # cqes) (c, plaintext_chunks) =
     (let c = (if \<not> has_more (io_flags io) cqe then c\<lparr>cs_multishot_armed := False\<rparr> else c) in
      case buffer_id (io_flags io) cqe of
        None \<Rightarrow> ((c, plaintext_chunks), Panic)
      | Some bid \<Rightarrow>
          let n = nat (sint (co_result cqe)); c = record_recv_data n c; plaintext_chunks = saturating_add plaintext_chunks 1 in
          (case conn_bytes io k bid n c :: (ConnectionError, bytes) result of
             Ok data \<Rightarrow>
               (case conn_recycle bid (c\<lparr>cs_plain_recv_batch_scratch := cs_plain_recv_batch_scratch c @ data\<rparr>)
                       :: (ConnectionError, ('t, 'h) ConnectionState) result of
                  Ok c \<Rightarrow> copy_batch io k cqes (c, plaintext_chunks)
                | _ \<Rightarrow> ((c, plaintext_chunks), Panic))
           | _ \<Rightarrow> ((c, plaintext_chunks), Panic)))"

definition plain_batch_copied ::
  "('h, 'o) Delivery \<Rightarrow> ('t, 'h) World \<Rightarrow> 'k Uring \<Rightarrow> 'k \<Rightarrow> Completion list \<Rightarrow> nat \<Rightarrow> ('t, 'h) ConnectionState \<Rightarrow>
     (('t, 'h) ConnectionState \<times> 'o list) \<times> (ConnectionError, u64) result" where
  "plain_batch_copied dl w io k cqes total_bytes c =
     (case copy_batch io k cqes (c\<lparr>cs_plain_recv_batch_scratch := []\<rparr>, 0) of
        ((c, plaintext_chunks), Ok _) \<Rightarrow>
          (case rx_deliver dl w (fst (recv_observed_now (wd_clock w) 0 0 False)) (cs_plain_recv_batch_scratch c) (rx_begin c) of
             (rx, r) \<Rightarrow>
               let c = rx_end rx c;
                   c = record_plaintext plaintext_chunks (word_of_nat total_bytes) c;
                   c = record_ws_data_drains plaintext_chunks 0 c;
                   c = record_ws_data_events (rx_text rx) (rx_binary rx) c
               in ((c, rx_out rx), and_then (map_err CeWs r) (\<lambda>_. Ok (rx_drained rx))))
      | ((c, _), Err e) \<Rightarrow> ((c, []), Err e)
      | ((c, _), Panic) \<Rightarrow> ((c, []), Panic))"

text \<open>One completion of the slice-wise loop; the error slot keeps the first error of the run.\<close>

definition plain_batch_step ::
  "('h, 'o) Delivery \<Rightarrow> ('t, 'h) World \<Rightarrow> 'k Uring \<Rightarrow> 'k \<Rightarrow> Completion \<Rightarrow>
     ('t, 'h) ConnectionState \<times> ('h, 'o) Rx \<times> ConnectionError option \<Rightarrow>
     ('e, ('t, 'h) ConnectionState \<times> ('h, 'o) Rx \<times> ConnectionError option) result" where
  "plain_batch_step dl w io k cqe st =
     (case st of (c, rx, first_err) \<Rightarrow>
        let c = (if \<not> has_more (io_flags io) cqe then c\<lparr>cs_multishot_armed := False\<rparr> else c);
            or_first = (\<lambda>e. if first_err = None then Some e else first_err) in
        case buffer_id (io_flags io) cqe of
          None \<Rightarrow>
            if first_err \<noteq> None then Ok (c, rx, first_err)
            else
              (case to_result cqe of
                 Ok n \<Rightarrow> if n = 0 then Ok (c\<lparr>cs_state := StClosed\<rparr>, rx, Some CePeerClosed)
                         else Ok (c, rx, Some (CeInvalidState (cs_state c)))
               | Err e \<Rightarrow>
                   if is_recv_buffer_ring_exhausted e
                   then Ok ((record_recv_ring_exhaustion c)\<lparr>cs_multishot_armed := False\<rparr>, rx, None)
                   else Ok (c, rx, Some (CeRecvFailed e))
               | Panic \<Rightarrow> Panic)
        | Some bid \<Rightarrow>
            (case to_result cqe of
               Panic \<Rightarrow> Panic
             | Err e \<Rightarrow> and_then (conn_recycle bid c) (\<lambda>c. Ok (c, rx, or_first (CeRecvFailed e)))
             | Ok n \<Rightarrow>
                 if n = 0 then and_then (conn_recycle bid c) (\<lambda>c. Ok (c\<lparr>cs_state := StClosed\<rparr>, rx, or_first CePeerClosed))
                 else
                   let (recv_meta, c) = recv_mark dl w (c\<lparr>cs_clock_reads := rx_clock rx\<rparr>);
                       rx = rx\<lparr>rx_clock := cs_clock_reads c\<rparr>;
                       c = record_recv_data n c in
                   if first_err \<noteq> None then and_then (conn_recycle bid c) (\<lambda>c. Ok (c, rx, first_err))
                   else
                     let rx = rx\<lparr>rx_chunks := saturating_add (rx_chunks rx) 1, rx_bytes := saturating_add (rx_bytes rx) (word_of_nat n)\<rparr>
                     in and_then (conn_bytes io k bid n c) (\<lambda>data.
                          case rx_deliver dl w (plaintext_ready_at recv_meta (dm_transport_recv_mono_nanos recv_meta) 0) data rx of
                            (rx, Panic) \<Rightarrow> Panic
                          | (rx, Err e) \<Rightarrow> and_then (conn_recycle bid c) (\<lambda>c. Ok (c, rx, Some (CeWs e)))
                          | (rx, Ok _) \<Rightarrow> and_then (conn_recycle bid c) (\<lambda>c. Ok (c, rx, None)))))"

fun plain_batch_loop ::
  "('h, 'o) Delivery \<Rightarrow> ('t, 'h) World \<Rightarrow> 'k Uring \<Rightarrow> 'k \<Rightarrow> Completion list \<Rightarrow>
     ('t, 'h) ConnectionState \<times> ('h, 'o) Rx \<times> ConnectionError option \<Rightarrow>
     ('e, ('t, 'h) ConnectionState \<times> ('h, 'o) Rx \<times> ConnectionError option) result" where
  "plain_batch_loop dl w io k [] st = Ok st"
| "plain_batch_loop dl w io k (cqe # cqes) st = and_then (plain_batch_step dl w io k cqe st) (plain_batch_loop dl w io k cqes)"

definition plain_batch_slices ::
  "('h, 'o) Delivery \<Rightarrow> ('t, 'h) World \<Rightarrow> 'k Uring \<Rightarrow> 'k \<Rightarrow> Completion list \<Rightarrow> ('t, 'h) ConnectionState \<Rightarrow>
     (('t, 'h) ConnectionState \<times> 'o list) \<times> (ConnectionError, u64) result" where
  "plain_batch_slices dl w io k cqes c =
     (case plain_batch_loop dl w io k cqes (c, rx_begin c, None)
             :: (unit, ('t, 'h) ConnectionState \<times> ('h, 'o) Rx \<times> ConnectionError option) result of
        Ok (c, rx, first_err) \<Rightarrow>
          let c = rx_end rx c;
              c = record_plaintext (rx_chunks rx) (rx_bytes rx) c;
              c = record_ws_data_drains (rx_chunks rx) 0 c;
              c = record_ws_data_events (rx_text rx) (rx_binary rx) c
          in ((c, rx_out rx), case first_err of None \<Rightarrow> Ok (rx_drained rx) | Some e \<Rightarrow> Err e)
      | _ \<Rightarrow> ((c, []), Panic))"

definition plain_batch ::
  "('h, 'o) Delivery \<Rightarrow> ('t, 'h) World \<Rightarrow> 'k Uring \<Rightarrow> 'k \<Rightarrow> Completion list \<Rightarrow> ('t, 'h) ConnectionState \<Rightarrow>
     (('t, 'h) ConnectionState \<times> 'o list) \<times> (ConnectionError, u64) result" where
  "plain_batch dl w io k cqes c =
     (case (if dl_marked dl then None else plain_recv_batch_copy_len (io_flags io) cqes c) of
        Some total_bytes \<Rightarrow>
          plain_batch_copied dl w io k cqes total_bytes
            (record_plain_recv_batch (word_of_nat (length cqes)) (Some (word_of_nat total_bytes)) c)
      | None \<Rightarrow> plain_batch_slices dl w io k cqes (record_plain_recv_batch (word_of_nat (length cqes)) None c))"

definition handle_plain_recv_data_batch where "handle_plain_recv_data_batch = plain_batch events_delivery"
definition handle_plain_recv_data_event_batches where "handle_plain_recv_data_event_batches = plain_batch batches_delivery"
definition handle_plain_recv_data_batch_marked where "handle_plain_recv_data_batch_marked = plain_batch marked_delivery"
definition handle_plain_recv_data_event_batches_marked where "handle_plain_recv_data_event_batches_marked = plain_batch marked_batches_delivery"

end
