(* ===== verification/Conn_Inv.thy ===== *)
theory Conn_Inv
  imports Conn_State
begin

text \<open>
  What the handlers of a connection leave alone: its identity and configuration always, and the bytes
  handed to the kernel for as long as the kernel reads them; and how outbound bytes reach the socket.
\<close>

subsection \<open>Frame conditions\<close>

text \<open>What identifies a connection, and what the kernel may be reading while a send is in flight.\<close>

definition fixed_part :: "('t, 'h) ConnectionState \<Rightarrow> ConnectionRuntimeIdentity \<times> ConnectionConfig \<times> RawFd" where
  "fixed_part c = (cs_identity c, cs_cfg c, cs_socket c)"

definition send_part :: "('t, 'h) ConnectionState \<Rightarrow> (ConnectionRuntimeIdentity \<times> ConnectionConfig \<times> RawFd) \<times> bytes \<times> nat \<times> bool" where
  "send_part c = (fixed_part c, cs_send_buf c, cs_send_head c, cs_send_inflight c)"

lemma send_part_fixed: "send_part d = send_part c \<Longrightarrow> fixed_part d = fixed_part c"
  by (simp add: send_part_def)

named_theorems conn_frames \<open>what updates of a connection leave alone\<close>

lemma send_part_updates [conn_frames, simp]:
  "send_part (d\<lparr>cs_multishot_armed := v1\<rparr>) = send_part d" "send_part (d\<lparr>cs_state := v2\<rparr>) = send_part d"
  "send_part (d\<lparr>cs_ws := v3\<rparr>) = send_part d" "send_part (d\<lparr>cs_tls := v4\<rparr>) = send_part d"
  "send_part (d\<lparr>cs_buf_ring := v5\<rparr>) = send_part d" "send_part (d\<lparr>cs_tls_pending_out := v6\<rparr>) = send_part d"
  "send_part (d\<lparr>cs_ws_handshake_begun := v7\<rparr>) = send_part d" "send_part (d\<lparr>cs_ws_ingress := v8\<rparr>) = send_part d"
  "send_part (d\<lparr>cs_ingress_stats := v9\<rparr>) = send_part d" "send_part (d\<lparr>cs_marked_recv_sequence := v10\<rparr>) = send_part d"
  "send_part (d\<lparr>cs_marked_message_sequence := v11\<rparr>) = send_part d" "send_part (d\<lparr>cs_histograms := v12\<rparr>) = send_part d"
  "send_part (d\<lparr>cs_clock_reads := v13\<rparr>) = send_part d" "send_part (d\<lparr>cs_plain_recv_batch_scratch := v14\<rparr>) = send_part d"
  by (simp_all add: send_part_def fixed_part_def)

lemmas record_defs = record_recv_data_def record_recv_multishot_rearm_def record_recv_ring_exhaustion_def
  record_plain_recv_batch_def record_plaintext_def record_ws_data_drains_def record_ws_data_events_def
  clear_ws_ingress_dirty_def

lemma send_part_records [conn_frames, simp]:
  "send_part (record_recv_data n d) = send_part d" "send_part (record_recv_multishot_rearm d) = send_part d"
  "send_part (record_recv_ring_exhaustion d) = send_part d" "send_part (record_plain_recv_batch u v d) = send_part d"
  "send_part (record_plaintext x y d) = send_part d" "send_part (record_ws_data_drains x y d) = send_part d"
  "send_part (record_ws_data_events x y d) = send_part d" "send_part (clear_ws_ingress_dirty d) = send_part d"
  "send_part (sync_ws_close_state d) = send_part d" "send_part (sync_ws_open_state d) = send_part d"
  "send_part (rx_end rx d) = send_part d"
  by (simp_all add: record_defs sync_ws_close_state_def sync_ws_open_state_def rx_end_def Let_def)

lemma record_fields [simp]:
  "cs_ws (record_recv_data n d) = cs_ws d" "cs_tls (record_recv_data n d) = cs_tls d" "cs_buf_ring (record_recv_data n d) = cs_buf_ring d"
  "cs_state (record_recv_data n d) = cs_state d" "cs_tls_pending_out (record_recv_data n d) = cs_tls_pending_out d" "cs_send_buf (record_recv_data n d) = cs_send_buf d"
  "cs_send_head (record_recv_data n d) = cs_send_head d" "cs_send_inflight (record_recv_data n d) = cs_send_inflight d" "cs_ws_handshake_begun (record_recv_data n d) = cs_ws_handshake_begun d"
  "cs_cfg (record_recv_data n d) = cs_cfg d" "cs_identity (record_recv_data n d) = cs_identity d" "cs_socket (record_recv_data n d) = cs_socket d"
  "cs_ws (record_recv_multishot_rearm d) = cs_ws d" "cs_tls (record_recv_multishot_rearm d) = cs_tls d" "cs_buf_ring (record_recv_multishot_rearm d) = cs_buf_ring d"
  "cs_state (record_recv_multishot_rearm d) = cs_state d" "cs_tls_pending_out (record_recv_multishot_rearm d) = cs_tls_pending_out d" "cs_send_buf (record_recv_multishot_rearm d) = cs_send_buf d"
  "cs_send_head (record_recv_multishot_rearm d) = cs_send_head d" "cs_send_inflight (record_recv_multishot_rearm d) = cs_send_inflight d" "cs_ws_handshake_begun (record_recv_multishot_rearm d) = cs_ws_handshake_begun d"
  "cs_cfg (record_recv_multishot_rearm d) = cs_cfg d" "cs_identity (record_recv_multishot_rearm d) = cs_identity d" "cs_socket (record_recv_multishot_rearm d) = cs_socket d"
  "cs_ws (record_recv_ring_exhaustion d) = cs_ws d" "cs_tls (record_recv_ring_exhaustion d) = cs_tls d" "cs_buf_ring (record_recv_ring_exhaustion d) = cs_buf_ring d"
  "cs_state (record_recv_ring_exhaustion d) = cs_state d" "cs_tls_pending_out (record_recv_ring_exhaustion d) = cs_tls_pending_out d" "cs_send_buf (record_recv_ring_exhaustion d) = cs_send_buf d"
  "cs_send_head (record_recv_ring_exhaustion d) = cs_send_head d" "cs_send_inflight (record_recv_ring_exhaustion d) = cs_send_inflight d" "cs_ws_handshake_begun (record_recv_ring_exhaustion d) = cs_ws_handshake_begun d"
  "cs_cfg (record_recv_ring_exhaustion d) = cs_cfg d" "cs_identity (record_recv_ring_exhaustion d) = cs_identity d" "cs_socket (record_recv_ring_exhaustion d) = cs_socket d"
  "cs_ws (record_plain_recv_batch u v d) = cs_ws d" "cs_tls (record_plain_recv_batch u v d) = cs_tls d" "cs_buf_ring (record_plain_recv_batch u v d) = cs_buf_ring d"
  "cs_state (record_plain_recv_batch u v d) = cs_state d" "cs_tls_pending_out (record_plain_recv_batch u v d) = cs_tls_pending_out d" "cs_send_buf (record_plain_recv_batch u v d) = cs_send_buf d"
  "cs_send_head (record_plain_recv_batch u v d) = cs_send_head d" "cs_send_inflight (record_plain_recv_batch u v d) = cs_send_inflight d" "cs_ws_handshake_begun (record_plain_recv_batch u v d) = cs_ws_handshake_begun d"
  "cs_cfg (record_plain_recv_batch u v d) = cs_cfg d" "cs_identity (record_plain_recv_batch u v d) = cs_identity d" "cs_socket (record_plain_recv_batch u v d) = cs_socket d"
  "cs_ws (record_plaintext x y d) = cs_ws d" "cs_tls (record_plaintext x y d) = cs_tls d" "cs_buf_ring (record_plaintext x y d) = cs_buf_ring d"
  "cs_state (record_plaintext x y d) = cs_state d" "cs_tls_pending_out (record_plaintext x y d) = cs_tls_pending_out d" "cs_send_buf (record_plaintext x y d) = cs_send_buf d"
  "cs_send_head (record_plaintext x y d) = cs_send_head d" "cs_send_inflight (record_plaintext x y d) = cs_send_inflight d" "cs_ws_handshake_begun (record_plaintext x y d) = cs_ws_handshake_begun d"
  "cs_cfg (record_plaintext x y d) = cs_cfg d" "cs_identity (record_plaintext x y d) = cs_identity d" "cs_socket (record_plaintext x y d) = cs_socket d"
  "cs_ws (record_ws_data_drains x y d) = cs_ws d" "cs_tls (record_ws_data_drains x y d) = cs_tls d" "cs_buf_ring (record_ws_data_drains x y d) = cs_buf_ring d"
  "cs_state (record_ws_data_drains x y d) = cs_state d" "cs_tls_pending_out (record_ws_data_drains x y d) = cs_tls_pending_out d" "cs_send_buf (record_ws_data_drains x y d) = cs_send_buf d"
  "cs_send_head (record_ws_data_drains x y d) = cs_send_head d" "cs_send_inflight (record_ws_data_drains x y d) = cs_send_inflight d" "cs_ws_handshake_begun (record_ws_data_drains x y d) = cs_ws_handshake_begun d"
  "cs_cfg (record_ws_data_drains x y d) = cs_cfg d" "cs_identity (record_ws_data_drains x y d) = cs_identity d" "cs_socket (record_ws_data_drains x y d) = cs_socket d"
  "cs_ws (record_ws_data_events x y d) = cs_ws d" "cs_tls (record_ws_data_events x y d) = cs_tls d" "cs_buf_ring (record_ws_data_events x y d) = cs_buf_ring d"
  "cs_state (record_ws_data_events x y d) = cs_state d" "cs_tls_pending_out (record_ws_data_events x y d) = cs_tls_pending_out d" "cs_send_buf (record_ws_data_events x y d) = cs_send_buf d"
  "cs_send_head (record_ws_data_events x y d) = cs_send_head d" "cs_send_inflight (record_ws_data_events x y d) = cs_send_inflight d" "cs_ws_handshake_begun (record_ws_data_events x y d) = cs_ws_handshake_begun d"
  "cs_cfg (record_ws_data_events x y d) = cs_cfg d" "cs_identity (record_ws_data_events x y d) = cs_identity d" "cs_socket (record_ws_data_events x y d) = cs_socket d"
  "cs_ws (clear_ws_ingress_dirty d) = cs_ws d" "cs_tls (clear_ws_ingress_dirty d) = cs_tls d" "cs_buf_ring (clear_ws_ingress_dirty d) = cs_buf_ring d"
  "cs_state (clear_ws_ingress_dirty d) = cs_state d" "cs_tls_pending_out (clear_ws_ingress_dirty d) = cs_tls_pending_out d" "cs_send_buf (clear_ws_ingress_dirty d) = cs_send_buf d"
  "cs_send_head (clear_ws_ingress_dirty d) = cs_send_head d" "cs_send_inflight (clear_ws_ingress_dirty d) = cs_send_inflight d" "cs_ws_handshake_begun (clear_ws_ingress_dirty d) = cs_ws_handshake_begun d"
  "cs_cfg (clear_ws_ingress_dirty d) = cs_cfg d" "cs_identity (clear_ws_ingress_dirty d) = cs_identity d" "cs_socket (clear_ws_ingress_dirty d) = cs_socket d"
  by (simp_all add: record_defs Let_def)

lemma send_part_recycle: "conn_recycle bid c = Ok d \<Longrightarrow> send_part d = send_part c"
  by (auto simp: conn_recycle_def and_then_iffs split: option.splits)

lemma send_part_entry: "recv_entry fl cqe c = (d, r) \<Longrightarrow> send_part d = send_part c"
  by (auto simp: recv_entry_def Let_def dest!: send_part_recycle split: option.splits result.splits if_splits)

lemma send_part_begin: "begin_ws c = (d, r) \<Longrightarrow> send_part d = send_part c"
  by (auto simp: begin_ws_def split: prod.splits result.splits)

lemma send_part_progress: "tls_progress w c a = (d, r) \<Longrightarrow> send_part d = send_part c"
  by (auto simp: tls_progress_def split: if_splits elim!: try_st_cases dest!: send_part_begin)

lemma send_part_mark: "recv_mark dl w c = (m, d) \<Longrightarrow> send_part d = send_part c"
  by (auto simp: recv_mark_def Let_def split: if_splits prod.splits)

lemma send_part_recv:
  assumes "on_recv_cqe w io k cqe c = (d, r)"
  shows "send_part d = send_part c"
proof -
  obtain c1 q where e: "recv_entry (io_flags io) cqe c = (c1, q)" by force
  have "send_part d = send_part c1"
    using assms unfolding on_recv_cqe_def e Let_def
    by (auto split: result.splits option.splits prod.splits if_splits elim!: try_st_cases dest!: send_part_progress)
  then show ?thesis by (simp add: send_part_entry [OF e])
qed

lemma send_part_data:
  assumes "on_recv_data dl w io k cqe c = ((d, out), r)"
  shows "send_part d = send_part c"
proof -
  obtain c1 q where e: "recv_entry (io_flags io) cqe c = (c1, q)" by force
  obtain m c2 where mk: "recv_mark dl w c1 = (m, c2)" by force
  have c2: "send_part c2 = send_part c1" by (rule send_part_mark [OF mk])
  have "send_part d = send_part c1"
    using assms unfolding on_recv_data_def e mk Let_def prod.case
    by (auto simp: c2 split: result.splits option.splits prod.splits if_splits elim!: try_st_cases dest!: send_part_progress)
  then show ?thesis by (simp add: send_part_entry [OF e])
qed

subsection \<open>Deliveries\<close>

text \<open>What a handler may do to the client between two completions: keep it well-formed, add legal frames to
  its transmit queue, hand out messages; it panics only when the random number generator fails.\<close>

definition rx_good :: "Env \<Rightarrow> ('h, 'o) Rx \<Rightarrow> ('h, 'o) Rx \<Rightarrow> bool" where
  "rx_good env rx rx' \<longleftrightarrow>
     ws_wf (rx_ws rx') \<and> same_setup (rx_ws rx) (rx_ws rx') \<and> (rng_total env \<longrightarrow> rx_panic rx' = rx_panic rx) \<and>
     (\<not> rx_panic rx' \<longrightarrow> \<not> rx_panic rx \<and> tx_step (rx_ws rx) (rx_ws rx')) \<and> (\<exists>new. rx_out rx' = rx_out rx @ new)"

lemma tx_step_refl: "tx_step c c"
  by (simp add: tx_step_quiet)

lemma rx_good_refl: "ws_wf (rx_ws rx) \<Longrightarrow> rx_good env rx rx"
  by (auto simp: rx_good_def same_setup_def intro: tx_step_refl)

lemma rx_good_trans: "rx_good env rx rx' \<Longrightarrow> rx_good env rx' rx'' \<Longrightarrow> rx_good env rx rx''"
  by (auto simp: rx_good_def intro: tx_step_trans same_setup_trans)

lemma rx_good_wf: "rx_good env rx rx' \<Longrightarrow> ws_wf (rx_ws rx')"
  by (simp add: rx_good_def)

text \<open>A delivery drains a chunk into the sink: every copy of the data handler relies on no more than this.\<close>

locale delivery =
  fixes dl :: "('h, 'o) Delivery"
  assumes drain_ok: "\<lbrakk>ws_wf (rx_ws rx); dl_drain dl env clk ops base data rx = (rx', r)\<rbrakk>
      \<Longrightarrow> op_ok env (rx_ws rx) (rx_ws rx') r \<and> rx_error rx' = rx_error rx \<and> rx_panic rx' = rx_panic rx \<and>
          (\<exists>new. rx_out rx' = rx_out rx @ new)"
begin

lemma deliver_ok:
  assumes "ws_wf (rx_ws rx)" and "rx_deliver dl w base data rx = (rx', r)"
  shows "op_ok (wd_env w) (rx_ws rx) (rx_ws rx') r \<and> rx_error rx' = rx_error rx \<and> rx_panic rx' = rx_panic rx \<and>
    (\<exists>new. rx_out rx' = rx_out rx @ new)"
proof -
  obtain rx1 r1 where d: "dl_drain dl (wd_env w) (wd_clock w) (wd_hist w) base data rx = (rx1, r1)" by force
  then have "rx_ws rx' = rx_ws rx1" "rx_error rx' = rx_error rx1" "rx_panic rx' = rx_panic rx1" "rx_out rx' = rx_out rx1" "r = r1"
    using assms(2) by (auto simp: rx_deliver_def split: if_splits)
  then show ?thesis using drain_ok [OF assms(1) d] by simp
qed

lemma keep_error_good:
  assumes "ws_wf (rx_ws rx)" and "\<not> rx_panic rx"
  shows "rx_good (wd_env w) rx (rx_keep_error (rx_deliver dl w base data rx))"
proof -
  obtain rx' r where d: "rx_deliver dl w base data rx = (rx', r)" by force
  show ?thesis
    using deliver_ok [OF assms(1) d] assms(2) unfolding d
    by (cases r) (auto simp: rx_keep_error_def rx_good_def op_ok_def)
qed

lemma tls_chunk_good: "ws_wf (rx_ws rx) \<Longrightarrow> rx_good (wd_env w) rx (rx_tls_chunk dl w m data rx)"
  unfolding rx_tls_chunk_def Let_def
  by (auto simp: rx_good_refl split: prod.split intro!: rx_good_trans [OF _ keep_error_good])
    (auto simp: rx_good_def same_setup_def intro: tx_step_refl)

lemma plain_chunk_good: "ws_wf (rx_ws rx) \<Longrightarrow> rx_good (wd_env w) rx (rx_plain_chunk dl w m data rx)"
  unfolding rx_plain_chunk_def Let_def
  by (auto simp: rx_good_refl intro!: rx_good_trans [OF _ keep_error_good])
    (auto simp: rx_good_def same_setup_def intro: tx_step_refl)

lemma tls_chunks_good:
  "ws_wf (rx_ws rx) \<Longrightarrow> rx_good (wd_env w) rx (fold (rx_tls_chunk dl w m) chunks rx)"
  by (induction chunks arbitrary: rx) (auto simp: rx_good_refl intro: rx_good_trans tls_chunk_good rx_good_wf)

end

lemma tally_simps [simp]:
  "rx_ws (tally n t b x rx) = rx_ws rx" "rx_error (tally n t b x rx) = rx_error rx" "rx_panic (tally n t b x rx) = rx_panic rx"
  "rx_out (tally n t b x rx) = rx_out rx @ [x]"
  by (simp_all add: tally_def)

lemma observe_simps [simp]:
  "rx_ws (observe ops m rx) = rx_ws rx" "rx_error (observe ops m rx) = rx_error rx" "rx_panic (observe ops m rx) = rx_panic rx"
  "rx_out (observe ops m rx) = rx_out rx"
  by (simp_all add: observe_def)

lemma fold_observe [simp]:
  "rx_ws (fold (\<lambda>e. observe ops (g e)) es rx) = rx_ws rx" "rx_error (fold (\<lambda>e. observe ops (g e)) es rx) = rx_error rx"
  "rx_panic (fold (\<lambda>e. observe ops (g e)) es rx) = rx_panic rx" "rx_out (fold (\<lambda>e. observe ops (g e)) es rx) = rx_out rx"
  by (induction es arbitrary: rx) simp_all

lemma fold_tally:
  assumes "\<And>x rx. rx_ws (f x rx) = rx_ws rx \<and> rx_error (f x rx) = rx_error rx \<and> rx_panic (f x rx) = rx_panic rx \<and>
      rx_out (f x rx) = rx_out rx @ [x]"
  shows "rx_ws (fold f out rx) = rx_ws rx \<and> rx_error (fold f out rx) = rx_error rx \<and> rx_panic (fold f out rx) = rx_panic rx \<and>
      rx_out (fold f out rx) = rx_out rx @ out"
  by (induction out arbitrary: rx) (simp_all add: assms)

lemma tally_event_kept:
  "rx_ws (tally_event x rx) = rx_ws rx \<and> rx_error (tally_event x rx) = rx_error rx \<and> rx_panic (tally_event x rx) = rx_panic rx \<and>
   rx_out (tally_event x rx) = rx_out rx @ [x]"
  by (cases x) simp_all

lemma tally_batch_kept:
  "rx_ws (tally_batch x rx) = rx_ws rx \<and> rx_error (tally_batch x rx) = rx_error rx \<and> rx_panic (tally_batch x rx) = rx_panic rx \<and>
   rx_out (tally_batch x rx) = rx_out rx @ [x]"
  by (simp add: tally_batch_def)

lemma tally_marked_kept:
  "rx_ws (tally_marked ops x rx) = rx_ws rx \<and> rx_error (tally_marked ops x rx) = rx_error rx \<and>
   rx_panic (tally_marked ops x rx) = rx_panic rx \<and> rx_out (tally_marked ops x rx) = rx_out rx @ [x]"
  by (cases x) simp_all

lemma tally_marked_batch_kept:
  "rx_ws (tally_marked_batch ops x rx) = rx_ws rx \<and> rx_error (tally_marked_batch ops x rx) = rx_error rx \<and>
   rx_panic (tally_marked_batch ops x rx) = rx_panic rx \<and> rx_out (tally_marked_batch ops x rx) = rx_out rx @ [x]"
  by (simp add: tally_marked_batch_def)

lemmas tally_kept = fold_tally [of tally_event, OF tally_event_kept] fold_tally [of tally_batch, OF tally_batch_kept]
  fold_tally [of "tally_marked ops" for ops, OF tally_marked_kept] fold_tally [of "tally_marked_batch ops" for ops, OF tally_marked_batch_kept]

interpretation events: delivery events_delivery
  by unfold_locales
    (auto simp: events_delivery_def drain_data_events_from_ingress_def tally_kept split: prod.splits dest: op_ok_drain_from_ingress)

interpretation batches: delivery batches_delivery
  by unfold_locales
    (auto simp: batches_delivery_def drain_data_event_batches_from_ingress_def delivered_eq tally_kept split: prod.splits
      dest: op_ok_drain_from_ingress)

interpretation marked_events: delivery marked_delivery
  by unfold_locales
    (auto simp: marked_delivery_def drain_data_events_from_ingress_marked_with_message_sequence_def tally_kept split: prod.splits
      dest: op_ok_drain_from_ingress)

interpretation marked_batches: delivery marked_batches_delivery
  by unfold_locales
    (auto simp: marked_batches_delivery_def drain_data_event_batches_from_ingress_marked_with_message_sequence_def tally_kept
      split: prod.splits dest: op_ok_drain_from_ingress)

subsection \<open>Slices\<close>

text \<open>The fixed part of a ring, and the rings whose buffers can be handed back.\<close>

definition ring_shape :: "BufferRing \<Rightarrow> u16 \<times> u32 \<times> u64 \<times> u16 \<times> bool" where
  "ring_shape r = (br_entries r, br_buf_size r, br_storage r, br_bgid r, br_unregistered r)"

definition ring_sound :: "BufferRing \<Rightarrow> bool" where
  "ring_sound r \<longleftrightarrow> entries_ok (br_entries r) \<and> br_buf_size r \<noteq> 0"

lemma ring_sound_shape: "ring_shape r' = ring_shape r \<Longrightarrow> ring_sound r \<Longrightarrow> ring_sound r'"
  by (simp add: ring_shape_def ring_sound_def)

lemma ring_recycle_cases:
  "(bid < br_entries r \<and> (\<exists>r'. ring_recycle r bid = (Ok r' :: ('e, BufferRing) result) \<and> ring_shape r' = ring_shape r)) \<or>
   (\<not> bid < br_entries r \<and> ring_recycle r bid = (Panic :: ('e, BufferRing) result))"
  by (auto simp: ring_recycle_def ring_shape_def Let_def)

lemma bundle_bid_less: "entries_ok n \<Longrightarrow> bundle_bid n b i < n"
  using entries_dvd [of n] by (simp add: bundle_bid_def word_less_nat_alt slot_word)

lemma recycle_all_ok:
  assumes "\<forall>b \<in> set bids. b < br_entries r"
  shows "\<exists>r'. recycle_all bids r = (Ok r' :: ('e, BufferRing) result) \<and> ring_shape r' = ring_shape r"
  using assms
proof (induction bids arbitrary: r)
  case (Cons b bids)
  then obtain r1 where r1: "ring_recycle r b = (Ok r1 :: ('e, BufferRing) result)" "ring_shape r1 = ring_shape r"
    using ring_recycle_cases [of b r, where ?'e = 'e] by auto
  then have "br_entries r1 = br_entries r" by (simp add: ring_shape_def)
  then obtain r2 where "recycle_all bids r1 = (Ok r2 :: ('e, BufferRing) result)" "ring_shape r2 = ring_shape r1"
    using Cons.IH [of r1] Cons.prems by auto
  then show ?case using r1 by simp
qed simp

lemma ring_buffer_ok: "bid < br_entries r \<Longrightarrow> ring_buffer io k r bid n = Ok (read_memory io k (br_storage r + word_of_nat (unat bid * unat (br_buf_size r))) n)"
  by (simp add: ring_buffer_def)

lemma recv_slices_inv:
  assumes step: "\<And>data s s' q. P s \<Longrightarrow> on_slice data s = (s', q) \<Longrightarrow> P s' \<and> (L \<longrightarrow> q \<noteq> Panic)"
    and "P s" and "\<forall>b \<in> set bids. b < br_entries ring"
    and "recv_slices io k on_slice bids remaining err (ring, s) = ((ring', s'), r)"
  shows "P s' \<and> ring_shape ring' = ring_shape ring \<and> (L \<longrightarrow> r \<noteq> Panic)"
  using assms(2-)
proof (induction bids arbitrary: remaining err ring s)
  case (Cons b bids)
  define len where "len = min remaining (unat (br_buf_size ring))"
  define data where "data = read_memory io k (br_storage ring + word_of_nat (unat b * unat (br_buf_size ring))) len"
  have buf: "ring_buffer io k ring b len = (Ok data :: (ConnectionError, bytes) result)"
    unfolding data_def using Cons.prems(2) by (intro ring_buffer_ok) simp
  obtain ring1 where rec: "ring_recycle ring b = (Ok ring1 :: (ConnectionError, BufferRing) result)" "ring_shape ring1 = ring_shape ring"
    using ring_recycle_cases [of b ring, where ?'e = ConnectionError] Cons.prems(2) by auto
  then have bids: "\<forall>b \<in> set bids. b < br_entries ring1" using Cons.prems(2) by (simp add: ring_shape_def)
  obtain s1 q where on: "on_slice data s = (s1, q)" by force
  show ?case
  proof (cases "err = None")
    case True
    show ?thesis
      using Cons.prems(3) Cons.IH [OF _ bids] step [OF Cons.prems(1) on] rec
      by (cases q) (auto simp: buf on True len_def [symmetric] Let_def)
  next
    case False
    then show ?thesis
      using Cons.prems(3) Cons.IH [OF Cons.prems(1) bids] rec by (auto simp: buf len_def [symmetric] Let_def)
  qed
qed (auto split: option.splits)

lemma slice_bids_less: "ring_sound ring \<Longrightarrow> \<forall>b \<in> set (map (bundle_bid (br_entries ring) start) [0..<n]). b < br_entries ring"
  by (auto simp: ring_sound_def intro: bundle_bid_less)

lemma for_each_inv:
  assumes step: "\<And>data s s' q. P s \<Longrightarrow> on_slice data s = (s', q) \<Longrightarrow> P s' \<and> (L \<longrightarrow> q \<noteq> Panic)"
    and "P s" and "ring_sound ring" and "start_bid < br_entries ring"
    and "for_each_recv_slice io k mode start_bid n on_slice (ring, s) = ((ring', s'), r)"
  shows "P s' \<and> ring_shape ring' = ring_shape ring \<and> (L \<longrightarrow> r \<noteq> Panic)"
proof (cases "n = 0")
  case True
  then show ?thesis
    using assms(2,4,5) ring_recycle_cases [of start_bid ring, where ?'e = ConnectionError] by (auto simp: for_each_recv_slice_def)
next
  case False
  have sl': "P (snd st) \<and> ring_shape (fst st) = ring_shape ring \<and> (L \<longrightarrow> q \<noteq> Panic)"
    if "recv_slices io k on_slice (map (bundle_bid (br_entries ring) start_bid) [0..<m]) n None (ring, s) = (st, q)" for m st q
    using that by (intro recv_slices_inv [where P = P and L = L, OF step assms(2) slice_bids_less [OF assms(3)]]) auto
  have nz: "unat (br_buf_size ring) \<noteq> 0" using assms(3) by (simp add: ring_sound_def unat_eq_zero)
  have "try_st ((ring, s), case mode of
          Multishot \<Rightarrow> if n > unat (br_buf_size ring) then
              Err (CeRecvFailed (InvalidData ''classic multishot recv CQE exceeded one provided buffer'')) else Ok 1
        | MultishotBundle \<Rightarrow> div_ceil n (unat (br_buf_size ring))) (\<lambda>st m.
          if m > unat (br_entries ring) then
            (st, Err (CeRecvFailed (InvalidData ''recv bundle consumed more buffers than the ring contains'')))
          else try_st (recv_slices io k on_slice (map (bundle_bid (br_entries ring) start_bid) [0..<m]) n None st)
                 (\<lambda>st _. (st, Ok m))) = ((ring', s'), r)"
    using assms(5) False unfolding for_each_recv_slice_def by simp
  then show ?thesis
  proof (cases rule: try_st_cases)
    case (ok st m)
    then have st: "st = (ring, s)" by simp
    show ?thesis
    proof (cases "m > unat (br_entries ring)")
      case False
      then have "try_st (recv_slices io k on_slice (map (bundle_bid (br_entries ring) start_bid) [0..<m]) n None (ring, s))
          (\<lambda>st _. (st, Ok m)) = ((ring', s'), r)" using ok(2) st by simp
      then show ?thesis by (cases rule: try_st_cases) (auto dest!: sl')
    qed (use ok(2) st assms(2) in auto)
  qed (use assms(2) nz in \<open>auto simp: div_ceil_def split: RecvMode.splits if_splits\<close>)
qed

subsection \<open>The invariant of a connection\<close>

definition conn_wf :: "('t, 'h) ConnectionState \<Rightarrow> bool" where
  "conn_wf c \<longleftrightarrow>
     ws_wf (cs_ws c) \<and> cs_send_head c \<le> length (cs_send_buf c) \<and> (cs_tls c = None \<longrightarrow> cs_tls_pending_out c = []) \<and>
     (case cs_buf_ring c of
        None \<Rightarrow> cs_state c \<in> {StInit, StConnecting, StClosed} \<and> ws_state (cs_ws c) = Connecting \<and> as_slice (ws_recv_buf (cs_ws c)) = []
      | Some r \<Rightarrow> ring_sound r \<and> br_entries r = cc_buf_ring_entries (cs_cfg c))"

text \<open>The kernel reports only buffers of the ring it was given.\<close>

definition cqe_ok :: "CqFlags \<Rightarrow> Completion \<Rightarrow> ('t, 'h) ConnectionState \<Rightarrow> bool" where
  "cqe_ok fl cqe c \<longleftrightarrow>
     (\<forall>b. buffer_id fl cqe = Some b \<longrightarrow>
        b < cc_buf_ring_entries (cs_cfg c) \<and> (cs_buf_ring c = None \<longrightarrow> cs_state c = StClosed))"

text \<open>The bytes a client has produced: nothing before the handshake, then the upgrade request and legal
  frames, in an order that fits its state.  The frames are those of the accepted sends, in the order of the
  calls, interleaved with the replies the client makes of its own accord.\<close>

definition client_request :: "WsClient \<Rightarrow> bytes" where
  "client_request ws = encode_upgrade_request []
     \<lparr>ur_host = cf_host (ws_config ws), ur_path = cf_path (ws_config ws), ur_key = ws_client_key ws,
      ur_subprotocols = cf_subprotocols (ws_config ws), ur_origin = cf_origin (ws_config ws)\<rparr>"

definition stream_ok :: "WsClient \<Rightarrow> bytes \<Rightarrow> Send list \<Rightarrow> bool" where
  "stream_ok ws log calls \<longleftrightarrow>
     (\<exists>fs replies. log = (if ws_handshake_started ws then client_request ws else []) @ frames_wire fs \<and>
        list_all frame_ok fs \<and> phase_ok (ws_state ws) fs \<and>
        map (\<lambda>(op, key, p). (op, p)) fs \<in> shuffles (map call_frame calls) replies \<and> list_all (\<lambda>r. fst r = Pong \<or> fst r = Close) replies)"

definition evolves :: "WsClient \<Rightarrow> WsClient \<Rightarrow> bool" where
  "evolves ws ws' \<longleftrightarrow>
     ws_wf ws' \<and> (\<exists>new. pending_tx ws' = pending_tx ws @ new \<and>
       (\<forall>log calls. stream_ok ws log calls \<longrightarrow> stream_ok ws' (log @ new) calls))"

lemma evolves_refl: "ws_wf ws \<Longrightarrow> evolves ws ws"
  unfolding evolves_def by (intro conjI exI [of _ "[]"]) simp_all

lemma evolves_trans: "evolves a b \<Longrightarrow> evolves b c \<Longrightarrow> evolves a c"
  unfolding evolves_def by (metis append_assoc)

lemma evolves_wf: "evolves a b \<Longrightarrow> ws_wf b"
  by (simp add: evolves_def)

lemma client_request_setup: "same_setup a b \<Longrightarrow> client_request b = client_request a"
  by (simp add: client_request_def same_setup_def)

text \<open>New frames at the end of the stream: sends, or replies.\<close>

lemma stream_grow:
  assumes "stream_ok ws log calls" and "tx_grow ws ws' fs" and "same_setup ws ws'"
    and "map (\<lambda>(op, key, p). (op, p)) fs = map call_frame new \<or> list_all is_reply fs \<and> new = []"
  shows "stream_ok ws' (log @ frames_wire fs) (calls @ new)"
proof -
  obtain gs replies where gs: "log = (if ws_handshake_started ws then client_request ws else []) @ frames_wire gs" "list_all frame_ok gs"
    "phase_ok (ws_state ws) gs" "map (\<lambda>(op, key, p). (op, p)) gs \<in> shuffles (map call_frame calls) replies"
    "list_all (\<lambda>r. fst r = Pong \<or> fst r = Close) replies" using assms(1) unfolding stream_ok_def by blast
  have head: "log @ frames_wire fs = (if ws_handshake_started ws' then client_request ws' else []) @ frames_wire (gs @ fs)"
    using gs(1) client_request_setup [OF assms(3)] assms(3) by (simp add: same_setup_def)
  have ok: "list_all frame_ok (gs @ fs)" "phase_ok (ws_state ws') (gs @ fs)" using gs(2,3) assms(2) by (simp_all add: tx_grow_def)
  let ?b = "map (\<lambda>(op, key, p). (op, p))"
  have "\<exists>replies'. ?b (gs @ fs) \<in> shuffles (map call_frame (calls @ new)) replies' \<and> list_all (\<lambda>r. fst r = Pong \<or> fst r = Close) replies'"
    using assms(4)
  proof
    assume "?b fs = map call_frame new"
    then show ?thesis using shuffles_append_left [OF gs(4), of "?b fs"] gs(5) by auto
  next
    assume f: "list_all is_reply fs \<and> new = []"
    then have "list_all (\<lambda>r. fst r = Pong \<or> fst r = Close) (?b fs)" by (auto simp: list_all_iff is_reply_def)
    then show ?thesis using shuffles_append_right [OF gs(4), of "?b fs"] gs(5) f by (intro exI [of _ "replies @ ?b fs"]) simp
  qed
  then show ?thesis unfolding stream_ok_def using head ok by blast
qed

lemma evolves_op:
  assumes "op_ok env ws ws' r" and "r \<noteq> Panic"
  shows "evolves ws ws'"
proof -
  have o: "ws_wf ws'" "same_setup ws ws'" "tx_step ws ws'" using assms by (auto simp: op_ok_def)
  obtain fs where fs: "tx_grow ws ws' fs" "list_all is_reply fs" using o(3) unfolding tx_step_def by blast
  have "stream_ok ws' (log @ frames_wire fs) calls" if "stream_ok ws log calls" for log calls
    using stream_grow [OF that fs(1) o(2), of "[]"] fs(2) by simp
  then show ?thesis unfolding evolves_def using o(1) fs(1) by (auto simp: tx_grow_def)
qed

lemma send_stream:
  assumes "send_ok env m ws ws' r" and "r \<noteq> Panic"
  shows "ws_wf ws' \<and> (\<exists>new. pending_tx ws' = pending_tx ws @ new \<and>
    (\<forall>log calls. stream_ok ws log calls \<longrightarrow> stream_ok ws' (log @ new) (calls @ (if r = Ok () \<and> ws_state ws = Open then [m] else []))))"
proof -
  obtain fs where fs: "tx_grow ws ws' fs"
    "map (\<lambda>(op, key, p). (op, p)) fs = map call_frame (if r = Ok () \<and> ws_state ws = Open then [m] else [])"
    using assms unfolding send_ok_def by (auto split: if_splits)
  have o: "ws_wf ws'" "same_setup ws ws'" using assms by (auto simp: send_ok_def)
  show ?thesis
    using o(1) fs(1) stream_grow [OF _ fs(1) o(2)] fs(2) by (auto simp: tx_grow_def)
qed

lemma evolves_tx_step: "ws_wf ws' \<Longrightarrow> same_setup ws ws' \<Longrightarrow> tx_step ws ws' \<Longrightarrow> evolves ws ws'"
  using evolves_op [of undefined ws ws' "Ok ()"] by (simp add: op_ok_def)

lemma evolves_begin:
  assumes "begin_handshake ws = (ws', r)" and "ws_wf ws"
  shows "evolves ws ws' \<and> r \<noteq> Panic"
proof -
  have r: "r \<noteq> Panic" using assms(1) by (auto simp: begin_handshake_def Let_def split: if_splits)
  have cfg: "client_request ws' = client_request ws"
    using assms(1) by (auto simp: begin_handshake_def client_request_def tx_extend_def compact_tx_if_needed_def Let_def split: if_splits)
  show ?thesis
  proof (cases "ws' = ws")
    case False
    then have b: "ws_state ws = Connecting" "ws_state ws' = Connecting" "\<not> ws_handshake_started ws" "ws_handshake_started ws'"
      "ws_wf ws'" "pending_tx ws' = pending_tx ws @ client_request ws"
      using begin_handshake_cases [OF assms] by (auto simp: client_request_def)
    have "stream_ok ws' (log @ client_request ws) calls" if "stream_ok ws log calls" for log calls
      using that b unfolding stream_ok_def by (intro exI [of _ "[]"]) (auto simp: phase_ok_def cfg)
    then show ?thesis unfolding evolves_def using b(5,6) r by blast
  qed (use r evolves_refl assms(2) in simp)
qed

lemma ack_all:
  assumes "ws_wf ws"
  shows "pending_tx (ack_tx ws (length (pending_tx ws))) = []" and "ws_wf (ack_tx ws (length (pending_tx ws)))"
    and "stream_ok (ack_tx ws n) log calls = stream_ok ws log calls"
proof -
  have tx: "tx_wf ws" using assms by (simp add: ws_wf_def)
  show "pending_tx (ack_tx ws (length (pending_tx ws))) = []" using tx by (simp add: ack_tx_view)
  have "keeps ws (ack_tx ws (length (pending_tx ws)))"
    using tx by (auto simp: keeps_def tx_wf_def ack_tx_def pending_tx_def same_rx_def Let_def)
  then show "ws_wf (ack_tx ws (length (pending_tx ws)))" using ws_wf_keeps [OF assms] by blast
  show "stream_ok (ack_tx ws n) log calls = stream_ok ws log calls"
    by (simp add: stream_ok_def client_request_def ack_tx_def Let_def)
qed

text \<open>A client that is still connecting and has received nothing finds nothing when polled.\<close>

lemma poll_fresh:
  assumes "ws_wf ws" and "ws_state ws = Connecting" and "as_slice (ws_recv_buf ws) = []"
  shows "\<exists>d. poll_event env ws = (d, Ok None) \<and> ws_state d = Connecting \<and> as_slice (ws_recv_buf d) = [] \<and> ws_wf d"
proof -
  have p: "poll_event env ws = poll_loop env (cleared ws)" using poll_event_quiet [OF assms(1)] by simp
  have c: "ws_state (cleared ws) = Connecting" "as_slice (ws_recv_buf (cleared ws)) = []"
    using assms(2,3)
    by (auto simp: cleared_def clear_after_emit_def Let_def consume_recv_def cb_consume_def cb_clear_def as_slice_def split: option.split EmitKind.split)
  have "advance env (cleared ws) = (cleared ws, Ok AdvNeedMore)"
    by (simp add: advance_def c advance_handshake_def parse_response_def)
  then have "poll_loop env (cleared ws) = (cleared ws, Ok None)"
    by (subst poll_loop.simps) (simp add: c try_emit_borrowed_data_def fast_blocked_def)
  then show ?thesis using p c poll_event_wf(1) [OF assms(1), of env "cleared ws" "Ok None"] by simp
qed

end
