(* ===== verification/Conn_Safe.thy ===== *)
theory Conn_Safe
  imports Conn_Inv
begin

text \<open>
  The completion handlers of a connection keep its invariant and never panic, whatever the kernel and the
  peer report: receive, connect, send and late completions, and the five dispatchers over them.
\<close>

subsection \<open>Receive completions keep the invariant\<close>

text \<open>One step that leaves the bytes in flight alone: the invariant holds afterwards, the client has only
  evolved, and TLS bytes were only queued behind the waiting ones.\<close>

definition conn_moves :: "('t, 'h) ConnectionState \<Rightarrow> ('t, 'h) ConnectionState \<Rightarrow> bool" where
  "conn_moves c d \<longleftrightarrow>
     conn_wf d \<and> send_part d = send_part c \<and> (cs_tls d = None \<longleftrightarrow> cs_tls c = None) \<and> evolves (cs_ws c) (cs_ws d) \<and>
     (\<exists>new. cs_tls_pending_out d = cs_tls_pending_out c @ new) \<and> (cs_buf_ring c \<noteq> None \<longrightarrow> cs_buf_ring d \<noteq> None)"

lemma conn_moves_refl: "conn_wf c \<Longrightarrow> conn_moves c c"
  by (simp add: conn_moves_def evolves_refl conn_wf_def)

lemma conn_moves_trans: "conn_moves c d \<Longrightarrow> conn_moves d e \<Longrightarrow> conn_moves c e"
  by (auto simp: conn_moves_def intro: evolves_trans)

lemma conn_moves_wf: "conn_moves c d \<Longrightarrow> conn_wf d"
  by (simp add: conn_moves_def)

lemma send_part_fields:
  assumes "send_part d = send_part c"
  shows "cs_send_head d = cs_send_head c" "cs_send_buf d = cs_send_buf c" "cs_send_inflight d = cs_send_inflight c"
    "cs_identity d = cs_identity c" "cs_cfg d = cs_cfg c" "cs_socket d = cs_socket c"
  using assms by (simp_all add: send_part_def fixed_part_def)

text \<open>Updates of fields that the invariant does not read, and of the state of a connection that has a ring.\<close>

lemma conn_wf_updates [simp]:
  "conn_wf (c\<lparr>cs_multishot_armed := b\<rparr>) = conn_wf c" "conn_wf (c\<lparr>cs_ws_handshake_begun := b\<rparr>) = conn_wf c"
  "conn_wf (c\<lparr>cs_ws_ingress := i\<rparr>) = conn_wf c" "conn_wf (c\<lparr>cs_ingress_stats := st\<rparr>) = conn_wf c"
  "conn_wf (c\<lparr>cs_marked_recv_sequence := q\<rparr>) = conn_wf c" "conn_wf (c\<lparr>cs_clock_reads := n\<rparr>) = conn_wf c"
  "conn_wf (c\<lparr>cs_marked_message_sequence := q\<rparr>) = conn_wf c" "conn_wf (c\<lparr>cs_histograms := h\<rparr>) = conn_wf c"
  "conn_wf (c\<lparr>cs_plain_recv_batch_scratch := p\<rparr>) = conn_wf c"
  by (simp_all add: conn_wf_def split: option.split)

lemma conn_wf_records [simp]:
  "conn_wf (record_recv_data n d) = conn_wf d" "conn_wf (record_recv_multishot_rearm d) = conn_wf d"
  "conn_wf (record_recv_ring_exhaustion d) = conn_wf d" "conn_wf (record_plain_recv_batch u v d) = conn_wf d"
  "conn_wf (record_plaintext x y d) = conn_wf d" "conn_wf (record_ws_data_drains x y d) = conn_wf d"
  "conn_wf (record_ws_data_events x y d) = conn_wf d" "conn_wf (clear_ws_ingress_dirty d) = conn_wf d"
  by (simp_all add: conn_wf_def split: option.split)

lemma conn_wf_closed: "conn_wf c \<Longrightarrow> conn_wf (c\<lparr>cs_state := StClosed\<rparr>)"
  by (auto simp: conn_wf_def split: option.splits)

lemma conn_wf_state: "conn_wf c \<Longrightarrow> cs_buf_ring c \<noteq> None \<Longrightarrow> conn_wf (c\<lparr>cs_state := s\<rparr>)"
  by (auto simp: conn_wf_def split: option.splits)

lemma conn_moves_plain:
  assumes "conn_wf c" and "conn_wf d" and "send_part d = send_part c" and "cs_tls d = cs_tls c" and "cs_ws d = cs_ws c"
    and "cs_tls_pending_out d = cs_tls_pending_out c" and "cs_buf_ring c \<noteq> None \<longrightarrow> cs_buf_ring d \<noteq> None"
  shows "conn_moves c d"
  using assms by (simp add: conn_moves_def evolves_refl conn_wf_def)

lemma conn_recycle_ok:
  assumes "conn_wf c" and "cs_buf_ring c = Some r" and "bid < br_entries r"
  shows "\<exists>r'. conn_recycle bid c = (Ok (c\<lparr>cs_buf_ring := Some r'\<rparr>) :: ('e, ('t, 'h) ConnectionState) result) \<and>
    ring_shape r' = ring_shape r \<and> conn_moves c (c\<lparr>cs_buf_ring := Some r'\<rparr>)"
proof -
  obtain r' where r': "ring_recycle r bid = (Ok r' :: ('e, BufferRing) result)" "ring_shape r' = ring_shape r"
    using ring_recycle_cases [of bid r, where ?'e = 'e] assms(3) by auto
  have "conn_wf (c\<lparr>cs_buf_ring := Some r'\<rparr>)"
    using assms(1,2) ring_sound_shape [OF r'(2)] r'(2) by (simp add: conn_wf_def ring_shape_def)
  then have "conn_moves c (c\<lparr>cs_buf_ring := Some r'\<rparr>)" using assms(1) by (intro conn_moves_plain) simp_all
  then show ?thesis using r' assms(2) by (intro exI [of _ r']) (simp add: conn_recycle_def)
qed

lemma to_result_no_panic [simp]: "to_result cqe \<noteq> Panic"
  by (simp add: to_result_def)

lemma entry_moves:
  assumes wf: "conn_wf c" and ok: "cqe_ok fl cqe c" and open_: "cs_state c \<noteq> StClosed" and e: "recv_entry fl cqe c = (d, q)"
  shows "q \<noteq> Panic \<and> conn_moves c d \<and>
    (\<forall>b n. q = Ok (Some (b, n)) \<longrightarrow> (\<exists>r. cs_buf_ring d = Some r \<and> b < br_entries r) \<and> cs_cfg d = cs_cfg c)"
proof -
  define c1 where "c1 = (if \<not> has_more fl cqe then c\<lparr>cs_multishot_armed := False\<rparr> else c)"
  have c1: "conn_wf c1" "conn_moves c c1" "cs_buf_ring c1 = cs_buf_ring c" "cs_cfg c1 = cs_cfg c"
    using wf by (auto simp: c1_def intro!: conn_moves_plain)
  show ?thesis
  proof (cases "buffer_id fl cqe")
    case None
    have "q \<noteq> Panic" "conn_moves c1 d" "\<And>x. q \<noteq> Ok (Some x)"
      using e c1(1) unfolding recv_entry_def c1_def [symmetric] None Let_def
      by (auto split: result.splits if_splits intro!: conn_moves_plain conn_wf_closed)
    then show ?thesis using conn_moves_trans [OF c1(2)] by blast
  next
    case (Some bid)
    obtain r where r: "cs_buf_ring c1 = Some r" "bid < br_entries r"
      using ok open_ Some wf by (auto simp: cqe_ok_def c1(3) conn_wf_def split: option.splits)
    obtain r' where r': "conn_recycle bid c1 = (Ok (c1\<lparr>cs_buf_ring := Some r'\<rparr>) :: (ConnectionError, ('a, 'b) ConnectionState) result)"
      "conn_moves c1 (c1\<lparr>cs_buf_ring := Some r'\<rparr>)"
      using conn_recycle_ok [OF c1(1) r] by blast
    then have closed: "conn_moves c1 (c1\<lparr>cs_buf_ring := Some r', cs_state := StClosed\<rparr>)"
      using conn_moves_trans [OF r'(2) conn_moves_plain [OF conn_moves_wf [OF r'(2)] conn_wf_closed [OF conn_moves_wf [OF r'(2)]]]] by simp
    show ?thesis
      using e conn_moves_trans [OF c1(2) closed] c1(2,4) r
      unfolding recv_entry_def c1_def [symmetric] Some Let_def
      by (auto simp: r'(1) split: result.splits if_splits)
  qed
qed

lemma begin_moves:
  assumes "conn_wf c" and "begin_ws c = (d, r)" and "cs_buf_ring c \<noteq> None"
  shows "r \<noteq> Panic \<and> conn_moves c d"
proof -
  obtain ws q where b: "begin_handshake (cs_ws c) = (ws, q)" by force
  have ev: "evolves (cs_ws c) ws" "q \<noteq> Panic" using evolves_begin [OF b] assms(1) by (simp_all add: conn_wf_def)
  have "conn_moves c (c\<lparr>cs_ws := ws\<rparr>)"
    using assms(1,3) ev(1) evolves_wf [OF ev(1)] by (auto simp: conn_moves_def conn_wf_def)
  then show ?thesis
    using assms(2) ev(2) unfolding begin_ws_def b
    by (cases q) (auto simp: conn_moves_def)
qed

lemma state_moves: "conn_wf c \<Longrightarrow> cs_buf_ring c \<noteq> None \<Longrightarrow> conn_moves c (c\<lparr>cs_state := s\<rparr>)"
  by (rule conn_moves_plain) (simp_all add: conn_wf_state)

lemma begin_keeps_ring: "begin_ws c = (d, r) \<Longrightarrow> cs_buf_ring d = cs_buf_ring c"
  by (auto simp: begin_ws_def split: prod.splits result.splits)

lemma verify_alpn_no_panic: "verify_alpn rt a \<noteq> Panic"
  by (simp add: verify_alpn_def split: option.splits)

lemma progress_moves:
  assumes "conn_wf c" and "cs_buf_ring c \<noteq> None" and "tls_progress w c a = (d, r)"
  shows "r \<noteq> Panic \<and> conn_moves c d"
proof -
  let ?guard = "\<not> is_handshaking (wd_rustls w) a \<and> cs_state c = StTlsHandshake \<and> \<not> cs_ws_handshake_begun c"
  obtain c1 q where s1: "(if ?guard then try_st (c, map_err CeTls (verify_alpn (wd_rustls w) a)) (\<lambda>c _. begin_ws (c\<lparr>cs_state := StWsHandshake\<rparr>))
      else (c, Ok ())) = (c1, q)" by force
  have one: "q \<noteq> Panic \<and> conn_moves c c1 \<and> cs_buf_ring c1 \<noteq> None"
  proof (cases ?guard)
    case True
    then have "try_st (c, map_err CeTls (verify_alpn (wd_rustls w) a)) (\<lambda>c _. begin_ws (c\<lparr>cs_state := StWsHandshake\<rparr>)) = (c1, q)"
      using s1 by simp
    then show ?thesis
    proof (cases rule: try_st_cases)
      case (ok c2 u)
      have st: "conn_moves c (c\<lparr>cs_state := StWsHandshake\<rparr>)" using state_moves assms(1,2) by blast
      have b: "begin_ws (c\<lparr>cs_state := StWsHandshake\<rparr>) = (c1, q)" using ok by simp
      show ?thesis
        using begin_moves [OF conn_moves_wf [OF st] b] conn_moves_trans [OF st] begin_keeps_ring [OF b] assms(2) by auto
    qed (use assms(1,2) conn_moves_refl verify_alpn_no_panic in auto)
  qed (use s1 assms(1,2) conn_moves_refl in auto)
  have "try_st (c1, q) (\<lambda>c _. (if received_close_notify a \<and> cs_state c \<notin> {StClosed, StClosing} then c\<lparr>cs_state := StClosing\<rparr> else c, Ok ())) = (d, r)"
    using assms(3) unfolding tls_progress_def s1 .
  then show ?thesis
    using one conn_moves_trans [of c c1] state_moves [of c1 StClosing] conn_moves_wf [of c c1]
    by (cases rule: try_st_cases) (auto split: if_splits)
qed

text \<open>A connection put back together after its slices went through TLS and the client.\<close>

lemma rebuilt_moves:
  assumes "conn_wf c" and "cs_buf_ring c = Some ring" and "ring_shape ring' = ring_shape ring" and "evolves (cs_ws c) ws'"
    and "cs_tls c = None \<longleftrightarrow> tls' = None" and "pending' = cs_tls_pending_out c @ out" and "tls' = None \<longrightarrow> out = []"
  shows "conn_moves c (c\<lparr>cs_buf_ring := Some ring', cs_tls := tls', cs_tls_pending_out := pending', cs_ws := ws'\<rparr>)"
  using assms ring_sound_shape [OF assms(3)] evolves_wf [OF assms(4)]
  by (simp add: conn_moves_def conn_wf_def ring_shape_def)

lemma evolves_feed: "evolves a ws \<Longrightarrow> evolves a (feed_recv ws data)"
  using evolves_trans evolves_op [OF op_ok_feed [OF evolves_wf]] by (metis result.distinct(3))

lemma evolves_feeds: "evolves a ws \<Longrightarrow> evolves a (fst (fold (\<lambda>plaintext (ws, _). (feed_recv ws plaintext, True)) chunks (ws, fed)))"
  by (induction chunks arbitrary: ws fed) (simp_all add: evolves_feed)

text \<open>What every chunk of plaintext preserves, all slices preserve; TLS only adds to the waiting bytes.\<close>

lemma tls_slices_inv:
  assumes step: "\<And>data s. Q s \<Longrightarrow> Q (g data s)" and "Q s" and "ring_sound ring" and "bid < br_entries ring"
    and f: "for_each_recv_slice io k mode bid n (\<lambda>data s. apsnd (map_err CeTls) (ingest_ciphertext rt data g s)) (ring, (a, pending, s)) =
      ((ring', (a', pending', s')), r)"
  shows "Q s'" and "ring_shape ring' = ring_shape ring" and "\<exists>out. pending' = pending @ out" and "rustls_lawful rt \<Longrightarrow> r \<noteq> Panic"
proof -
  let ?P = "\<lambda>s. Q (snd (snd s)) \<and> (\<exists>out. fst (snd s) = pending @ out)"
  have folds: "Q (fold g chunks x)" if "Q x" for chunks x
    using that by (induction chunks arbitrary: x) (simp_all add: step)
  have one: "?P y' \<and> (rustls_lawful rt \<longrightarrow> q \<noteq> Panic)"
    if y: "?P y" "apsnd (map_err CeTls) (ingest_ciphertext rt data g y) = (y', q)" for data y y' q
  proof -
    obtain x p v where s: "y = (x, p, v)" by (cases y) auto
    obtain x' p' v' q' where i: "ingest_ciphertext rt data g y = ((x', p', v'), q')"
      by (cases "ingest_ciphertext rt data g y") auto
    then have "y' = (x', p', v')" "q = map_err CeTls q'" using y(2) by auto
    then show ?thesis using y(1) ingest_facts [OF i [unfolded s]] folds by (auto simp: s)
  qed
  have "?P (a', pending', s') \<and> ring_shape ring' = ring_shape ring \<and> (rustls_lawful rt \<longrightarrow> r \<noteq> Panic)"
    by (rule for_each_inv [where P = ?P, OF one _ assms(3,4) f]) (use assms(2) in auto)
  then show "Q s'" and "ring_shape ring' = ring_shape ring" and "\<exists>out. pending' = pending @ out" and "rustls_lawful rt \<Longrightarrow> r \<noteq> Panic"
    by auto
qed

lemma conn_moves_records [simp]:
  "conn_moves c (record_recv_data n d) = conn_moves c d" "conn_moves c (record_recv_multishot_rearm d) = conn_moves c d"
  "conn_moves c (record_recv_ring_exhaustion d) = conn_moves c d" "conn_moves c (record_plain_recv_batch u v d) = conn_moves c d"
  "conn_moves c (record_plaintext x y d) = conn_moves c d" "conn_moves c (record_ws_data_drains x y d) = conn_moves c d"
  "conn_moves c (record_ws_data_events x y d) = conn_moves c d"
  by (simp_all add: conn_moves_def)

lemma conn_moves_updates [simp]:
  "conn_moves c (d\<lparr>cs_multishot_armed := b\<rparr>) = conn_moves c d" "conn_moves c (d\<lparr>cs_ws_ingress := i\<rparr>) = conn_moves c d"
  by (simp_all add: conn_moves_def)

lemma slices_exhaust:
  obtains ring a pending ws fed r where "x = ((ring, (a, pending, (ws, fed))), r)"
  by (cases x) auto

lemma rebuilt_plain_moves:
  assumes "conn_wf c" and "cs_buf_ring c = Some ring" and "ring_shape ring' = ring_shape ring" and "evolves (cs_ws c) ws'"
  shows "conn_moves c (c\<lparr>cs_buf_ring := Some ring', cs_ws := ws'\<rparr>)"
  using assms ring_sound_shape [OF assms(3)] evolves_wf [OF assms(4)]
  by (simp add: conn_moves_def conn_wf_def ring_shape_def)

lemma recv_moves:
  assumes wf: "conn_wf c" and ok: "cqe_ok (io_flags io) cqe c" and open_: "cs_state c \<noteq> StClosed"
    and r: "on_recv_cqe w io k cqe c = (d, r)"
  shows "conn_moves c d" and "rustls_lawful (wd_rustls w) \<Longrightarrow> r \<noteq> Panic"
proof -
  obtain c0 q where e: "recv_entry (io_flags io) cqe c = (c0, q)" by force
  note entry = entry_moves [OF wf ok open_ e]
  have "conn_moves c d \<and> (rustls_lawful (wd_rustls w) \<longrightarrow> r \<noteq> Panic)"
  proof (cases "\<exists>bid n. q = Ok (Some (bid, n))")
    case False
    then show ?thesis using r entry unfolding on_recv_cqe_def e by (auto split: result.splits option.splits)
  next
    case True
    then obtain bid n where q: "q = Ok (Some (bid, n))" by blast
    define c1 where "c1 = record_recv_data n c0"
    have c1: "conn_moves c c1" using entry by (simp add: c1_def)
    note c1 = c1 conn_moves_wf [OF c1]
    obtain ring where ring: "cs_buf_ring c1 = Some ring" "bid < br_entries ring" using entry q by (auto simp: c1_def)
    have snd: "ring_sound ring" "evolves (cs_ws c1) (cs_ws c1)" using c1(2) ring(1) by (auto simp: conn_wf_def intro: evolves_refl)
    have "conn_moves c1 d \<and> (rustls_lawful (wd_rustls w) \<longrightarrow> r \<noteq> Panic)"
    proof (cases "cs_tls c1")
      case None
      obtain ring' ws' p where f: "for_each_recv_slice io k (cc_recv_mode (cs_cfg c1)) bid n (\<lambda>data ws. (feed_recv ws data, Ok ())) (ring, cs_ws c1) = ((ring', ws'), p)"
        by (metis surj_pair)
      have ev: "evolves (cs_ws c1) ws' \<and> ring_shape ring' = ring_shape ring \<and> (True \<longrightarrow> p \<noteq> Panic)"
        by (rule for_each_inv [where P = "evolves (cs_ws c1)", OF _ snd(2,1) ring(2) f]) (auto intro: evolves_feed)
      have m: "conn_moves c1 (c1\<lparr>cs_buf_ring := Some ring', cs_ws := ws'\<rparr>)"
        using rebuilt_plain_moves [OF c1(2) ring(1)] ev by blast
      have "try_st (c1\<lparr>cs_buf_ring := Some ring', cs_ws := ws'\<rparr>, p) (\<lambda>c _. (c\<lparr>cs_ws_ingress := Dirty\<rparr>, Ok ())) = (d, r)"
        using r f None ring unfolding on_recv_cqe_def e q c1_def by (simp add: Let_def)
      then show ?thesis using ev m by (cases rule: try_st_cases) (auto simp: conn_moves_def)
    next
      case (Some a)
      define res where "res = for_each_recv_slice io k (cc_recv_mode (cs_cfg c1)) bid n
          (\<lambda>data s. apsnd (map_err CeTls) (ingest_ciphertext (wd_rustls w) data (\<lambda>plaintext (ws, _). (feed_recv ws plaintext, True)) s))
          (ring, (a, cs_tls_pending_out c1, (cs_ws c1, False)))"
      obtain ring' a' pending' ws' fed p where res: "res = ((ring', (a', pending', (ws', fed))), p)"
        by (rule slices_exhaust [of res])
      note f = res [unfolded res_def]
      have fd: "evolves (cs_ws c1) (fst ((\<lambda>(ws, _). (feed_recv ws data, True)) s))" if "evolves (cs_ws c1) (fst s)" for data and s :: "WsClient \<times> bool"
        using that by (cases s) (simp add: evolves_feed)
      note inv = tls_slices_inv [where Q = "\<lambda>s. evolves (cs_ws c1) (fst s)", OF fd _ snd(1) ring(2) f]
      have inv': "evolves (cs_ws c1) ws'" "ring_shape ring' = ring_shape ring" "\<exists>out. pending' = cs_tls_pending_out c1 @ out"
        "rustls_lawful (wd_rustls w) \<longrightarrow> p \<noteq> Panic"
        using inv snd(2) by auto
      define c2 where "c2 = c1\<lparr>cs_buf_ring := Some ring', cs_tls := Some a', cs_tls_pending_out := pending', cs_ws := ws'\<rparr>"
      have m: "conn_moves c1 c2" unfolding c2_def using inv' rebuilt_moves [OF c1(2) ring(1)] Some by auto
      have m': "conn_moves c1 (if fed then c2\<lparr>cs_ws_ingress := Dirty\<rparr> else c2)" using m by (simp add: conn_moves_def)
      have "try_st (c2, p) (\<lambda>c _. tls_progress w (if fed then c\<lparr>cs_ws_ingress := Dirty\<rparr> else c) a') = (d, r)"
        using r f Some ring unfolding on_recv_cqe_def e q c1_def c2_def by (simp add: Let_def)
      then show ?thesis
      proof (cases rule: try_st_cases)
        case (ok c3 u)
        then have pr: "tls_progress w (if fed then c2\<lparr>cs_ws_ingress := Dirty\<rparr> else c2) a' = (d, r)" by (auto split: if_splits)
        show ?thesis using progress_moves [OF conn_moves_wf [OF m'] _ pr] conn_moves_trans [OF m'] by (auto simp: c2_def)
      qed (use m inv'(4) in auto)
    qed
    then show ?thesis using conn_moves_trans [OF c1(1)] by blast
  qed
  then show "conn_moves c d" and "rustls_lawful (wd_rustls w) \<Longrightarrow> r \<noteq> Panic" by blast+
qed

subsection \<open>The data handlers\<close>

lemma rx_good_evolves:
  "rng_total env \<Longrightarrow> rx_good env rx rx' \<Longrightarrow> \<not> rx_panic rx \<Longrightarrow> evolves (rx_ws rx) (rx_ws rx') \<and> \<not> rx_panic rx'"
  by (auto simp: rx_good_def intro: evolves_tx_step)

lemma rx_end_moves: "conn_moves c (rx_end rx d) = conn_moves c (d\<lparr>cs_ws := rx_ws rx\<rparr>)"
  by (simp add: rx_end_def conn_moves_def)

lemma rx_begin_simps [simp]: "rx_ws (rx_begin c) = cs_ws c" "\<not> rx_panic (rx_begin c)" "rx_out (rx_begin c) = []" "rx_error (rx_begin c) = None"
  by (simp_all add: rx_begin_def)

lemma rx_end_ring [simp]: "cs_buf_ring (rx_end rx d) = cs_buf_ring d"
  by (simp add: rx_end_def)

lemma mark_moves: "recv_mark dl w c = (m, d) \<Longrightarrow> conn_moves b d = conn_moves b c \<and> cs_buf_ring d = cs_buf_ring c \<and> cs_tls d = cs_tls c"
  by (auto simp: recv_mark_def conn_moves_def Let_def split: if_splits prod.splits)

lemma rx_result_no_panic: "\<not> rx_panic rx \<Longrightarrow> rx_result rx \<noteq> Panic"
  by (simp add: rx_result_def split: option.split)

text \<open>The tail of a TLS data handler, after the slices.\<close>

lemma data_tail_moves:
  assumes m: "conn_moves c c2" and ring: "cs_buf_ring c2 \<noteq> None" and rx: "\<not> rx_panic rx" and p: "p \<noteq> Panic"
    and t: "try_st ((c2, rx_out rx), if rx_panic rx then Panic else p) (\<lambda>(c, out) _.
      case tls_progress w c a of
        (c, Ok _) \<Rightarrow>
          ((record_ws_data_events (rx_text rx) (rx_binary rx) (record_plaintext (rx_chunks rx) (rx_bytes rx)
             (record_ws_data_drains (rx_chunks rx) (if rx_fed rx then 0 else 1) c)), out), rx_result rx)
      | (c, Err e) \<Rightarrow> ((c, out), Err e)
      | (c, Panic) \<Rightarrow> ((c, out), Panic)) = ((d, out), r)"
  shows "conn_moves c d \<and> r \<noteq> Panic"
proof -
  obtain c3 q where pr: "tls_progress w c2 a = (c3, q)" by force
  have c3: "q \<noteq> Panic" "conn_moves c c3"
    using progress_moves [OF conn_moves_wf [OF m] ring pr] conn_moves_trans [OF m] by auto
  show ?thesis
    using t m rx p c3 rx_result_no_panic [OF rx] by (cases rule: try_st_cases) (auto simp: pr Let_def split: result.splits)
qed

context delivery
begin

lemma tls_data_moves:
  assumes rng: "rng_total (wd_env w)" and law: "rustls_lawful (wd_rustls w)"
    and wf: "conn_wf c" and ring: "cs_buf_ring c = Some ring" "bid < br_entries ring" and tls: "cs_tls c = Some a"
    and f: "for_each_recv_slice io k mode bid n
      (\<lambda>data s. apsnd (map_err CeTls) (ingest_ciphertext (wd_rustls w) data (rx_tls_chunk dl w m) s))
      (ring, (a, cs_tls_pending_out c, rx_begin c)) = ((ring', (a', pending', rx)), p)"
  shows "conn_moves c (rx_end rx (c\<lparr>cs_buf_ring := Some ring', cs_tls := Some a', cs_tls_pending_out := pending'\<rparr>)) \<and>
    \<not> rx_panic rx \<and> p \<noteq> Panic"
proof -
  let ?Q = "rx_good (wd_env w) (rx_begin c)"
  have snd: "ring_sound ring" "?Q (rx_begin c)" using wf ring(1) by (auto simp: conn_wf_def intro: rx_good_refl)
  have step: "?Q (rx_tls_chunk dl w m data s)" if "?Q s" for data s
    using rx_good_trans [OF that tls_chunk_good] rx_good_wf [OF that] by blast
  note inv = tls_slices_inv [where Q = ?Q, OF step snd(2,1) ring(2) f]
  have ev: "evolves (cs_ws c) (rx_ws rx)" "\<not> rx_panic rx" using rx_good_evolves [OF rng inv(1)] by auto
  show ?thesis
    using rebuilt_moves [OF wf ring(1) inv(2) ev(1), of "Some a'" pending'] inv(3,4) ev(2) tls law by (auto simp: rx_end_moves)
qed

lemma plain_data_moves:
  assumes rng: "rng_total (wd_env w)"
    and wf: "conn_wf c" and ring: "cs_buf_ring c = Some ring" "bid < br_entries ring"
    and f: "for_each_recv_slice io k mode bid n (\<lambda>data rx. (rx_plain_chunk dl w m data rx, Ok ())) (ring, rx_begin c) = ((ring', rx), p)"
  shows "conn_moves c (rx_end rx (c\<lparr>cs_buf_ring := Some ring'\<rparr>)) \<and> \<not> rx_panic rx \<and> p \<noteq> Panic"
proof -
  let ?Q = "rx_good (wd_env w) (rx_begin c)"
  have snd: "ring_sound ring" "?Q (rx_begin c)" using wf ring(1) by (auto simp: conn_wf_def intro: rx_good_refl)
  have step: "?Q s' \<and> (True \<longrightarrow> q \<noteq> Panic)" if "?Q s" "(rx_plain_chunk dl w m data s, Ok ()) = (s', q)" for data s s' and q :: "(ConnectionError, unit) result"
    using rx_good_trans [OF that(1) plain_chunk_good] rx_good_wf [OF that(1)] that(2) by auto
  have inv: "?Q rx \<and> ring_shape ring' = ring_shape ring \<and> (True \<longrightarrow> p \<noteq> Panic)"
    by (rule for_each_inv [where P = ?Q, OF step snd(2,1) ring(2) f])
  have ev: "evolves (cs_ws c) (rx_ws rx)" "\<not> rx_panic rx" using rx_good_evolves [OF rng, of "rx_begin c" rx] inv by auto
  show ?thesis
    using rebuilt_plain_moves [OF wf ring(1) _ ev(1)] inv ev(2) by (simp add: rx_end_moves)
qed

lemma data_moves:
  assumes rng: "rng_total (wd_env w)" and law: "rustls_lawful (wd_rustls w)"
    and wf: "conn_wf c" and ok: "cqe_ok (io_flags io) cqe c" and open_: "cs_state c \<noteq> StClosed"
    and r: "on_recv_data dl w io k cqe c = ((d, out), r)"
  shows "conn_moves c d \<and> r \<noteq> Panic"
proof -
  obtain c0 q where e: "recv_entry (io_flags io) cqe c = (c0, q)" by force
  note entry = entry_moves [OF wf ok open_ e]
  show ?thesis
  proof (cases "\<exists>bid n. q = Ok (Some (bid, n))")
    case False
    then show ?thesis using r entry unfolding on_recv_data_def e by (auto split: result.splits option.splits)
  next
    case True
    then obtain bid n where q: "q = Ok (Some (bid, n))" by blast
    obtain m c' where mk: "recv_mark dl w c0 = (m, c')" by force
    define c1 where "c1 = record_recv_data n c'"
    have c1: "conn_moves c c1" using entry mark_moves [OF mk, of c] by (simp add: c1_def)
    obtain ring where ring: "cs_buf_ring c1 = Some ring" "bid < br_entries ring" using entry q mark_moves [OF mk, of c] by (auto simp: c1_def)
    note slices = conn_moves_wf [OF c1] ring
    have "conn_moves c1 d \<and> r \<noteq> Panic"
    proof (cases "cs_tls c1")
      case None
      obtain ring' rx p where f: "for_each_recv_slice io k (cc_recv_mode (cs_cfg c1)) bid n (\<lambda>data rx. (rx_plain_chunk dl w m data rx, Ok ())) (ring, rx_begin c1) = ((ring', rx), p)"
        by (metis surj_pair)
      note moved = plain_data_moves [OF rng slices f]
      have "try_st ((rx_end rx (c1\<lparr>cs_buf_ring := Some ring'\<rparr>), rx_out rx), if rx_panic rx then Panic else p) (\<lambda>(c, out) plaintext_chunks.
             let c = record_ws_data_drains (word_of_nat plaintext_chunks) 0 c;
                 c = record_plaintext (word_of_nat plaintext_chunks) (word_of_nat n) c;
                 c = record_ws_data_events (rx_text rx) (rx_binary rx) c
             in ((c, out), rx_result rx)) = ((d, out), r)"
        using r f None ring unfolding on_recv_data_def e q c1_def by (simp add: Let_def mk)
      then show ?thesis
        using moved rx_result_no_panic [of rx] by (cases rule: try_st_cases) (auto simp: Let_def)
    next
      case (Some a)
      define res where "res = for_each_recv_slice io k (cc_recv_mode (cs_cfg c1)) bid n
          (\<lambda>data s. apsnd (map_err CeTls) (ingest_ciphertext (wd_rustls w) data (rx_tls_chunk dl w m) s))
          (ring, (a, cs_tls_pending_out c1, rx_begin c1))"
      obtain ring' a' pending' rx p where res: "res = ((ring', (a', pending', rx)), p)" by (cases res) auto
      note moved = tls_data_moves [OF rng law slices Some res [unfolded res_def]]
      show ?thesis
        by (rule data_tail_moves [of c1 "rx_end rx (c1\<lparr>cs_buf_ring := Some ring', cs_tls := Some a', cs_tls_pending_out := pending'\<rparr>)" rx p w a' d out r])
          (use r res [unfolded res_def] Some ring moved in \<open>simp_all add: on_recv_data_def e q c1_def Let_def mk split del: if_split\<close>)
    qed
    then show ?thesis using conn_moves_trans [OF c1] by blast
  qed
qed

end

subsection \<open>Connect, send and late completions\<close>

text \<open>System calls come back, with a value or an error number.\<close>

definition uring_sane :: "'k Uring \<Rightarrow> bool" where
  "uring_sane io \<longleftrightarrow>
     (\<forall>addr n bgid k. snd (io_register io addr n bgid k) \<noteq> Panic) \<and> (\<forall>bgid k. snd (io_unregister io bgid k) \<noteq> Panic) \<and>
     (\<forall>k. snd (io_submit io k) \<noteq> Panic) \<and> (\<forall>n k. snd (io_submit_and_wait io n k) \<noteq> Panic)"

lemma ring_new_sound:
  assumes "uring_sane io" and "ring_new io bgid entries buf_size k = (k', r)"
  shows "r \<noteq> Panic \<and> (\<forall>ring. r = Ok ring \<longrightarrow> ring_sound ring \<and> br_entries ring = entries \<and> br_bgid ring = bgid \<and> \<not> br_unregistered ring)"
proof -
  have "snd (io_register io a n b k1) \<noteq> Panic" for a n b k1 using assms(1) by (simp add: uring_sane_def)
  then have reg: "register_buf_ring io a n b k1 \<noteq> (k2, Panic)" for a n b k1 k2
    by (cases "io_register io a n b k1") (simp add: register_buf_ring_def, metis snd_conv)
  have "entries_ok entries" if "is_power_of_two entries" using that by (simp add: is_power_of_two_iff entries_ok_def)
  then show ?thesis
    using assms(2) by (auto simp: ring_new_def ring_sound_def Let_def reg split: if_splits option.splits prod.splits result.splits)
qed

lemma push_sqe_no_panic: "push_sqe io sqe k \<noteq> (k', Panic)"
  by (simp add: push_sqe_def split: option.split)

lemmas submits = pr_submit_connect_def pr_submit_send_def pr_submit_close_raw_def submit_recv_multishot_def submit_recv_multishot_bundle_def

lemma submit_recv_no_panic: "submit_recv_for_mode io fd bgid ud mode k \<noteq> (k', Panic)"
  by (auto simp: submit_recv_for_mode_def submits push_sqe_no_panic split: RecvMode.split prod.split)

lemma connect_moves:
  assumes io: "uring_sane io" and wf: "conn_wf c" and r: "on_connect_cqe io cqe (c, k) = ((d, k'), r)"
  shows "conn_moves c d \<and> r \<noteq> Panic"
proof (cases "to_result cqe")
  case (Err e)
  then show ?thesis using r conn_moves_refl [OF wf] by (auto simp: on_connect_cqe_def)
next
  case (Ok n)
  obtain k1 q where n: "ring_new io (conn_bgid c) (cc_buf_ring_entries (cs_cfg c)) (cc_buf_ring_slot_size (cs_cfg c)) k = (k1, q)" by force
  note new = ring_new_sound [OF io n]
  show ?thesis
  proof (cases q)
    case (Ok ring)
    define c1 where "c1 = record_recv_multishot_rearm (c\<lparr>cs_buf_ring := Some ring, cs_multishot_armed := True\<rparr>)"
    have c1: "conn_moves c c1" using wf new Ok by (auto simp: c1_def conn_moves_def conn_wf_def evolves_refl)
    have c2: "conn_moves c (c1\<lparr>cs_state := s\<rparr>)" for s
      using conn_moves_trans [OF c1 state_moves [OF conn_moves_wf [OF c1]]] by (simp add: c1_def)
    have c3: "conn_moves c e \<and> b \<noteq> Panic" if "begin_ws (c1\<lparr>cs_state := s\<rparr>) = (e, b)" for s e b
      using begin_moves [OF conn_moves_wf [OF c2] that] conn_moves_trans [OF c2] by (auto simp: c1_def)
    obtain k2 p where s: "submit_recv_for_mode io (cs_socket c) (br_bgid ring) (ud_new OpRecv (conn_token c)) (cc_recv_mode (cs_cfg c)) k1 = (k2, p)"
      by force
    have p: "p \<noteq> Panic" using submit_recv_no_panic s by metis
    show ?thesis
      using r p c2 conn_moves_refl [OF wf] unfolding on_connect_cqe_def \<open>to_result cqe = Ok n\<close>
      by (cases p) (auto simp: n Ok s c1_def [symmetric] Let_def split: if_splits prod.splits dest: c3)
  qed (use r new n conn_moves_refl [OF wf] in \<open>auto simp: on_connect_cqe_def Ok\<close>)
qed simp

lemma send_keeps:
  assumes "conn_wf c" and "on_send_cqe cqe c = (d, r)"
  shows "conn_wf d \<and> fixed_part d = fixed_part c \<and> r \<noteq> Panic"
proof -
  have "conn_wf (c\<lparr>cs_send_inflight := False, cs_send_buf := [], cs_send_head := 0\<rparr>)" "conn_wf (c\<lparr>cs_send_inflight := False\<rparr>)"
    and "m \<le> length (cs_send_buf c) \<Longrightarrow> conn_wf (c\<lparr>cs_send_inflight := False, cs_send_head := m\<rparr>)" for m
    using assms(1) by (simp_all add: conn_wf_def split: option.splits)
  then show ?thesis
    using assms(2) by (cases "to_result cqe") (auto simp: on_send_cqe_def fixed_part_def Let_def split: if_splits)
qed

lemma recycle_recv_ok:
  assumes "ring_sound ring"
  shows "\<exists>r'. recycle_recv_buffers mode bid n ring = (Ok r' :: ('e, BufferRing) result) \<and> ring_shape r' = ring_shape ring"
proof -
  have "unat (br_buf_size ring) \<noteq> 0" using assms by (simp add: ring_sound_def unat_eq_zero)
  then show ?thesis
    by (cases mode) (simp_all add: recycle_recv_buffers_def div_ceil_def Let_def recycle_all_ok [OF slice_bids_less [OF assms]])
qed

lemma discard_recv_moves:
  assumes wf: "conn_wf c" and ok: "cqe_ok fl cqe c"
  shows "\<exists>d. discard_recv_completion_after_closed fl cqe c = (Ok d :: ('e, ('t, 'h) ConnectionState) result) \<and>
    conn_moves c d \<and> cs_state d = cs_state c"
proof -
  define c1 where "c1 = (if \<not> has_more fl cqe then c\<lparr>cs_multishot_armed := False\<rparr> else c)"
  define c2 where "c2 = (case to_result cqe of Err e \<Rightarrow> if is_recv_buffer_ring_exhausted e
      then (record_recv_ring_exhaustion c1)\<lparr>cs_multishot_armed := False\<rparr> else c1 | _ \<Rightarrow> c1)"
  have c1: "conn_moves c c1" "cs_buf_ring c1 = cs_buf_ring c" "cs_state c1 = cs_state c" using conn_moves_refl [OF wf] by (simp_all add: c1_def)
  have c2: "conn_moves c c2" "cs_buf_ring c2 = cs_buf_ring c" "cs_state c2 = cs_state c"
    using c1 by (simp_all add: c2_def split: result.split)
  have unf: "discard_recv_completion_after_closed fl cqe c =
    (case buffer_id fl cqe of
       None \<Rightarrow> (case to_result cqe of Err e \<Rightarrow> Ok (if is_recv_buffer_ring_exhausted e then record_recv_ring_exhaustion c1 else c1) | _ \<Rightarrow> Ok c1)
     | Some bid \<Rightarrow>
         (case cs_buf_ring c2 of
            None \<Rightarrow> Ok c2
          | Some ring \<Rightarrow>
              (case to_result cqe of
                 Ok n \<Rightarrow> and_then (recycle_recv_buffers (cc_recv_mode (cs_cfg c2)) bid n ring) (\<lambda>ring. Ok (c2\<lparr>cs_buf_ring := Some ring\<rparr>))
               | Err _ \<Rightarrow> and_then (ring_recycle ring bid) (\<lambda>ring. Ok (c2\<lparr>cs_buf_ring := Some ring\<rparr>))
               | Panic \<Rightarrow> Panic)))"
    unfolding discard_recv_completion_after_closed_def c1_def [symmetric] c2_def [symmetric] Let_def ..
  show ?thesis
  proof (cases "buffer_id fl cqe = None \<or> cs_buf_ring c = None")
    case True
    then show ?thesis using c1 c2 by (auto simp: unf split: option.split result.split)
  next
    case False
    then obtain bid ring where b: "buffer_id fl cqe = Some bid" "cs_buf_ring c = Some ring" by auto
    have snd: "ring_sound ring" using wf b by (simp add: conn_wf_def)
    have "bid < br_entries ring" using ok b wf by (simp add: cqe_ok_def conn_wf_def)
    then obtain r1 where r1: "ring_recycle ring bid = (Ok r1 :: ('e, BufferRing) result)" "ring_shape r1 = ring_shape ring"
      using ring_recycle_cases [of bid ring, where ?'e = 'e] by auto
    have put: "conn_moves c (c2\<lparr>cs_buf_ring := Some r'\<rparr>)" if r': "ring_shape r' = ring_shape ring" for r'
    proof -
      have wf2: "conn_wf c2" by (rule conn_moves_wf [OF c2(1)])
      then have "conn_wf (c2\<lparr>cs_buf_ring := Some r'\<rparr>)"
        using c2(2) b(2) r' ring_sound_shape [OF r' snd] by (simp add: conn_wf_def ring_shape_def)
      then show ?thesis using wf2 by (intro conn_moves_trans [OF c2(1) conn_moves_plain]) simp_all
    qed
    obtain r2 where r2: "recycle_recv_buffers (cc_recv_mode (cs_cfg c2)) bid n ring = (Ok (r2 n) :: ('e, BufferRing) result)"
      "ring_shape (r2 n) = ring_shape ring" for n
      using recycle_recv_ok [OF snd, where ?'e = 'e] by metis
    show ?thesis
      using put r1 r2 c2 b by (cases "to_result cqe") (simp_all add: unf)
  qed
qed

lemma discard_keeps:
  assumes wf: "conn_wf c" and ok: "cqe_ok fl cqe c"
  shows "\<exists>d. discard_completion_after_closed fl kind cqe c = (Ok d :: ('e, ('t, 'h) ConnectionState) result) \<and>
    conn_wf d \<and> fixed_part d = fixed_part c \<and> (kind \<noteq> OpSend \<longrightarrow> conn_moves c d) \<and> cs_state d = (if kind = OpClose then StClosed else cs_state c)"
proof (cases "kind = OpRecv")
  case False
  have "conn_wf (c\<lparr>cs_send_inflight := False, cs_send_buf := [], cs_send_head := 0\<rparr>)"
    using wf by (simp add: conn_wf_def split: option.splits)
  then show ?thesis
    using False wf conn_moves_refl [OF wf] conn_moves_plain [OF wf conn_wf_closed [OF wf]] conn_wf_closed [OF wf]
    by (cases kind) (simp_all add: discard_completion_after_closed_def fixed_part_def)
next
  case True
  obtain d where d: "discard_recv_completion_after_closed fl cqe c = (Ok d :: ('e, ('t, 'h) ConnectionState) result)"
    "conn_moves c d" "cs_state d = cs_state c"
    using discard_recv_moves [OF assms, where ?'e = 'e] by blast
  have "conn_wf d" "fixed_part d = fixed_part c" using d(2) unfolding conn_moves_def by (blast intro: send_part_fixed)+
  then show ?thesis using d True by (simp add: discard_completion_after_closed_def)
qed

subsection \<open>The dispatchers\<close>

text \<open>What a completion may do to a connection: the invariant, identity, configuration and socket stay; the
  staging buffer, its head and the in-flight mark change only with a send completion.\<close>

definition conn_kept :: "Completion \<Rightarrow> ('t, 'h) ConnectionState \<Rightarrow> ('t, 'h) ConnectionState \<Rightarrow> bool" where
  "conn_kept cqe c d \<longleftrightarrow>
     conn_wf d \<and> fixed_part d = fixed_part c \<and> (ud_kind (co_user_data cqe) \<noteq> Some OpSend \<longrightarrow> send_part d = send_part c)"

definition data_safe :: "Completion \<Rightarrow> ('t, 'h) ConnectionState \<Rightarrow> (('t, 'h, 'k) Conn \<times> 'o list) \<times> (ConnectionError, u64) result \<Rightarrow> bool" where
  "data_safe cqe c res \<longleftrightarrow> snd res \<noteq> Panic \<and> conn_kept cqe c (fst (fst (fst res)))"

lemma moves_kept: "conn_moves c d \<Longrightarrow> conn_kept cqe c d"
  unfolding conn_moves_def conn_kept_def by (blast intro: send_part_fixed)

lemma send_kept: "conn_wf d \<and> fixed_part d = fixed_part c \<Longrightarrow> ud_kind (co_user_data cqe) = Some OpSend \<Longrightarrow> conn_kept cqe c d"
  by (simp add: conn_kept_def)

lemma completion_moves:
  assumes io: "uring_sane io" and law: "rustls_lawful (wd_rustls w)" and wf: "conn_wf c" and ok: "cqe_ok (io_flags io) cqe c"
    and h: "handle_completion w io cqe (c, k) = ((d, k'), r)" and kind: "ud_kind (co_user_data cqe) \<noteq> Some OpSend"
  shows "conn_moves c d \<and> r \<noteq> Panic"
proof (cases "ud_kind (co_user_data cqe)")
  case None
  then show ?thesis using h conn_moves_refl [OF wf] by (auto simp: handle_completion_def)
next
  case (Some kd)
  show ?thesis
  proof (cases "cs_state c = StClosed")
    case True
    then show ?thesis
      using h Some kind discard_keeps [OF wf ok, of kd, where ?'e = ConnectionError] by (auto simp: handle_completion_def)
  next
    case False
    then show ?thesis
      using h Some kind connect_moves [OF io wf] recv_moves [OF wf ok False] law conn_moves_refl [OF wf]
        conn_moves_plain [OF wf conn_wf_closed [OF wf]]
      by (cases kd) (auto simp: handle_completion_def split: prod.splits)
  qed
qed

lemma completion_keeps:
  assumes io: "uring_sane io" and law: "rustls_lawful (wd_rustls w)" and wf: "conn_wf c" and ok: "cqe_ok (io_flags io) cqe c"
    and h: "handle_completion w io cqe (c, k) = ((d, k'), r)"
  shows "conn_kept cqe c d \<and> r \<noteq> Panic"
proof (cases "ud_kind (co_user_data cqe) = Some OpSend")
  case True
  obtain d1 q where s: "on_send_cqe cqe c = (d1, q)" by force
  show ?thesis
    using h True send_keeps [OF wf s] discard_keeps [OF wf ok, of OpSend, where ?'e = ConnectionError]
    by (auto simp: handle_completion_def s intro: send_kept split: if_splits)
next
  case False
  then show ?thesis using completion_moves [OF io law wf ok h] moves_kept by blast
qed

text \<open>The data handlers differ from \<^verbatim>\<open>handle_completion\<close> only for receive completions of a live connection.\<close>

lemma handle_data_other:
  assumes "ud_kind (co_user_data cqe) \<noteq> Some OpRecv \<or> cs_state c = StClosed"
  shows "handle_data dl w io cqe (c, k) = no_data (handle_completion w io cqe (c, k))"
  using assms by (auto simp: handle_data_def handle_completion_def no_data_def split: option.split OpKind.split result.split prod.split)

context delivery
begin

lemma handle_data_safe:
  assumes "rng_total (wd_env w)" and io: "uring_sane io" and "rustls_lawful (wd_rustls w)"
    and "conn_wf c" and "cqe_ok (io_flags io) cqe c"
  shows "data_safe cqe c (handle_data dl w io cqe (c, k))"
proof (cases "ud_kind (co_user_data cqe) \<noteq> Some OpRecv \<or> cs_state c = StClosed")
  case True
  obtain d k' r where h: "handle_completion w io cqe (c, k) = ((d, k'), r)" by (metis surj_pair)
  show ?thesis
    using completion_keeps [OF io assms(3-5) h] unfolding handle_data_other [OF True] data_safe_def no_data_def h
    by (cases r) simp_all
next
  case False
  obtain d out r where h: "on_recv_data dl w io k cqe c = ((d, out), r)" by (metis surj_pair)
  show ?thesis
    using data_moves [OF assms(1,3-5) _ h] False by (auto simp: data_safe_def handle_data_def h intro: moves_kept)
qed

end

text \<open>C7. The five completion handlers are safe: on a well-formed connection none of them panics, whatever the
  kernel reports in a completion whose buffer belongs to the ring and whatever bytes arrived, whether
  or not the connection was closed before; they keep the connection well-formed and its identity,
  configuration and socket; and only a send completion changes the staging buffer, so the kernel may
  read the bytes in flight throughout.  The random generator must not fail, TLS must make progress, and
  system calls must return.\<close>

theorem conn_completions_safe:
  assumes "rng_total (wd_env w)" and "uring_sane io" and "rustls_lawful (wd_rustls w)"
    and "conn_wf c" and "cqe_ok (io_flags io) cqe c"
  shows "snd (handle_completion w io cqe (c, k)) \<noteq> Panic \<and> conn_kept cqe c (fst (fst (handle_completion w io cqe (c, k)))) \<and>
    data_safe cqe c (handle_completion_data w io cqe (c, k)) \<and>
    data_safe cqe c (handle_completion_data_batch w io cqe (c, k)) \<and>
    data_safe cqe c (handle_completion_data_marked w io cqe (c, k)) \<and>
    data_safe cqe c (handle_completion_data_marked_batch w io cqe (c, k))"
proof -
  obtain d k' r where h: "handle_completion w io cqe (c, k) = ((d, k'), r)" by (metis surj_pair)
  show ?thesis
    using completion_keeps [OF assms(2-5) h] events.handle_data_safe [OF assms] batches.handle_data_safe [OF assms]
      marked_events.handle_data_safe [OF assms] marked_batches.handle_data_safe [OF assms]
    by (simp add: h handle_completion_data_def handle_completion_data_batch_def handle_completion_data_marked_def
        handle_completion_data_marked_batch_def)
qed

text \<open>A world and a plain open connection with a ring of two buffers.\<close>

definition sample_libc :: Libc where
  "sample_libc = \<lparr>lc_big_endian = False, lc_storage_size = 128, lc_AF_INET = 2, lc_AF_INET6 = 10, lc_SOCK_STREAM = 1,
     lc_SOCK_CLOEXEC = 0x80000, lc_IPPROTO_TCP = 6, lc_TCP_NODELAY = 1, lc_SOL_SOCKET = 1, lc_SO_BUSY_POLL = 46,
     lc_SO_REUSEADDR = 2, lc_socket = (\<lambda>_ _ _. (3, 0)), lc_setsockopt = (\<lambda>_ _ _ _ _. (0, 0))\<rparr>"

definition sample_addr :: SocketAddr where
  "sample_addr = AddrV4 0x7F000001 80"

definition sample_world :: "(bytes \<times> bytes, u64 list) World" where
  "sample_world = \<lparr>wd_env = sample_env, wd_clock = \<lparr>ck_elapsed = (\<lambda>k. k), ck_epoch = Some\<rparr>, wd_rustls = sample_rustls,
     wd_hist = list_hist, wd_libc = sample_libc\<rparr>"

definition sample_ring :: BufferRing where
  "sample_ring = \<lparr>br_ring_mem = map (ring_entry 8192 16) [0, 1], br_tail = 2, br_storage = 8192, br_entries = 2, br_buf_size = 16,
     br_bgid = 0, br_local_tail = 2, br_unregistered = False\<rparr>"

definition sample_conn :: "(bytes \<times> bytes, u64 list) ConnectionState" where
  "sample_conn = \<lparr>cs_socket = 3, cs_addr = from_std sample_libc sample_addr, cs_tls = None, cs_ws = sample_client, cs_state = StOpen, cs_buf_ring = Some sample_ring,
     cs_send_buf = [1, 2, 3], cs_send_head = 1, cs_plain_recv_batch_scratch = [], cs_tls_pending_out = [], cs_send_inflight = True,
     cs_multishot_armed = True, cs_ws_handshake_begun = True, cs_ws_ingress = Clean, cs_ingress_stats = ingress_stats_default,
     cs_marked_recv_sequence = 0, cs_marked_message_sequence = 0, cs_histograms = None,
     cs_identity = \<lparr>id_conn_id = 0, id_generation = 0, id_bgid = 0\<rparr>, cs_cfg = with_buf_ring 16 2 (with_tls False (connection_config_new (str ''h'') 80 (str ''/''))),
     cs_clock_reads = 0\<rparr>"

lemma sample_conn_facts:
  "rng_total (wd_env sample_world)" "uring_sane sample_uring" "rustls_lawful (wd_rustls sample_world)" "conn_wf sample_conn"
proof -
  have "entries_ok 2" unfolding entries_ok_def by (intro exI [of _ 1]) simp
  then show "conn_wf sample_conn" by (simp add: conn_wf_def sample_conn_def sample_ring_def ring_sound_def sample_client_wf with_buf_ring_def)
qed (simp_all add: sample_world_def sample_client_facts sample_rustls_lawful uring_sane_def sample_uring_def)

text \<open>Eight bytes in buffer 1.\<close>

definition sample_cqe :: Completion where
  "sample_cqe = \<lparr>co_user_data = ud_new OpRecv 0, co_result = 8, co_flags = 0x10003\<rparr>"

theorem conn_completions_safe_witness:
  "buffer_id (io_flags sample_uring) sample_cqe = Some 1 \<and> cs_send_inflight sample_conn \<and>
   snd (handle_completion sample_world sample_uring sample_cqe (sample_conn, [])) \<noteq> Panic \<and>
   data_safe sample_cqe sample_conn (handle_completion_data sample_world sample_uring sample_cqe (sample_conn, []))"
proof -
  have b: "buffer_id (io_flags sample_uring) sample_cqe = Some 1"
    by (simp add: buffer_id_def sample_uring_def sample_cqe_def drop_bit_eq_div)
  then have "cqe_ok (io_flags sample_uring) sample_cqe sample_conn"
    by (simp add: cqe_ok_def sample_conn_def with_buf_ring_def)
  then show ?thesis using conn_completions_safe [OF sample_conn_facts] b by (simp add: sample_conn_def)
qed

end
