(* ===== verification/Conn_Stream.thy ===== *)
theory Conn_Stream
  imports Conn_Safe
begin

text \<open>
  Batches of plain receive completions, and the outbound byte stream of a plain connection: what reaches
  the socket is what the WebSocket client produced, in order, whatever completions, calls and errors are
  interleaved.
\<close>

subsection \<open>Batches of receive completions\<close>

text \<open>A connection in the middle of a batch: it differs from the one at the start by what a handler may do,
  its client is still the one at the start (the current one is in the locals), and it has its ring.\<close>

definition mid_batch :: "u16 \<Rightarrow> ('t, 'h) ConnectionState \<Rightarrow> ('t, 'h) ConnectionState \<Rightarrow> bool" where
  "mid_batch n c0 c \<longleftrightarrow> conn_moves c0 c \<and> cs_ws c = cs_ws c0 \<and> (\<exists>ring. cs_buf_ring c = Some ring \<and> br_entries ring = n)"

lemma mid_batch_updates [simp]:
  "mid_batch n c0 (c\<lparr>cs_multishot_armed := b\<rparr>) = mid_batch n c0 c" "mid_batch n c0 (c\<lparr>cs_clock_reads := x\<rparr>) = mid_batch n c0 c"
  "mid_batch n c0 (record_recv_data y c) = mid_batch n c0 c" "mid_batch n c0 (record_recv_ring_exhaustion c) = mid_batch n c0 c"
  "mid_batch n c0 (c\<lparr>cs_plain_recv_batch_scratch := p\<rparr>) = mid_batch n c0 c"
  by (simp_all add: mid_batch_def conn_moves_def)

lemma mid_batch_closed: "mid_batch n c0 c \<Longrightarrow> mid_batch n c0 (c\<lparr>cs_state := StClosed\<rparr>)"
  by (auto simp: mid_batch_def intro!: conn_moves_trans [OF _ state_moves] dest: conn_moves_wf)

lemma mid_batch_mark: "recv_mark dl w c = (m, d) \<Longrightarrow> mid_batch n c0 d = mid_batch n c0 c"
  by (auto simp: recv_mark_def mid_batch_def conn_moves_def Let_def split: if_splits prod.splits)

lemma mid_batch_recycle:
  assumes "mid_batch n c0 c" and "bid < n"
  shows "\<exists>d. conn_recycle bid c = (Ok d :: ('e, ('t, 'h) ConnectionState) result) \<and> mid_batch n c0 d"
proof -
  obtain ring where ring: "cs_buf_ring c = Some ring" "br_entries ring = n" using assms(1) by (auto simp: mid_batch_def)
  obtain r' where r': "conn_recycle bid c = (Ok (c\<lparr>cs_buf_ring := Some r'\<rparr>) :: ('e, ('t, 'h) ConnectionState) result)"
    "ring_shape r' = ring_shape ring" "conn_moves c (c\<lparr>cs_buf_ring := Some r'\<rparr>)"
    using conn_recycle_ok [of c ring bid, where ?'e = 'e] assms ring by (auto simp: mid_batch_def conn_moves_wf)
  have "mid_batch n c0 (c\<lparr>cs_buf_ring := Some r'\<rparr>)"
    using assms(1) ring r'(2) conn_moves_trans [OF _ r'(3), of c0] by (simp add: mid_batch_def ring_shape_def)
  then show ?thesis using r'(1) by blast
qed

lemma mid_batch_bytes:
  assumes "mid_batch n c0 c" and "bid < n"
  shows "\<exists>data. conn_bytes io k bid len c = (Ok data :: ('e, bytes) result)"
  using assms by (auto simp: mid_batch_def conn_bytes_def ring_buffer_def)

text \<open>The buffers a batch refers to.\<close>

definition batch_ok :: "CqFlags \<Rightarrow> u16 \<Rightarrow> Completion list \<Rightarrow> bool" where
  "batch_ok fl n cqes \<longleftrightarrow> (\<forall>cqe \<in> set cqes. \<forall>b. buffer_id fl cqe = Some b \<longrightarrow> b < n)"

context delivery
begin

lemma batch_step_ok:
  assumes rng: "rng_total (wd_env w)" and mid: "mid_batch n c0 c" and good: "rx_good (wd_env w) (rx_begin c0) rx"
    and bid: "\<forall>b. buffer_id (io_flags io) cqe = Some b \<longrightarrow> b < n"
  shows "\<exists>d rx' e'. plain_batch_step dl w io k cqe (c, rx, e) = (Ok (d, rx', e') :: ('e, _) result) \<and>
    mid_batch n c0 d \<and> rx_good (wd_env w) (rx_begin c0) rx'"
proof (cases "buffer_id (io_flags io) cqe")
  case None
  define c1 where "c1 = (if \<not> has_more (io_flags io) cqe then c\<lparr>cs_multishot_armed := False\<rparr> else c)"
  have c1: "mid_batch n c0 c1" using mid by (simp add: c1_def)
  show ?thesis
    using c1 good mid_batch_closed [OF c1] unfolding plain_batch_step_def prod.case c1_def [symmetric] Let_def None option.case
    by (cases "to_result cqe") auto
next
  case (Some b)
  define c1 where "c1 = (if \<not> has_more (io_flags io) cqe then c\<lparr>cs_multishot_armed := False\<rparr> else c)"
  have c1: "mid_batch n c0 c1" using mid by (simp add: c1_def)
  have b: "b < n" using bid Some by blast
  obtain c2 where c2: "conn_recycle b c1 = (Ok c2 :: ('e, _) result)" "mid_batch n c0 c2"
    using mid_batch_recycle [OF c1 b, where ?'e = 'e] by blast
  show ?thesis
  proof (cases "\<exists>m. to_result cqe = Ok m \<and> m \<noteq> 0")
    case False
    then show ?thesis
      using c2 good mid_batch_closed [OF c2(2)] unfolding plain_batch_step_def prod.case c1_def [symmetric] Let_def Some option.case
      by (cases "to_result cqe") auto
  next
    case True
    then obtain m where m: "to_result cqe = Ok m" "m \<noteq> 0" by blast
    obtain meta c3 where mk: "recv_mark dl w (c1\<lparr>cs_clock_reads := rx_clock rx\<rparr>) = (meta, c3)" by force
    define c4 where "c4 = record_recv_data m c3"
    have c4: "mid_batch n c0 c4" using c1 mid_batch_mark [OF mk, of n c0] by (simp add: c4_def)
    obtain c5 where c5: "conn_recycle b c4 = (Ok c5 :: ('e, _) result)" "mid_batch n c0 c5"
      using mid_batch_recycle [OF c4 b, where ?'e = 'e] by blast
    obtain data where data: "conn_bytes io k b m c4 = (Ok data :: ('e, _) result)"
      using mid_batch_bytes [OF c4 b, of io k m, where ?'e = 'e] by blast
    define rx1 where "rx1 = rx\<lparr>rx_clock := cs_clock_reads c3\<rparr>"
    define rx2 where "rx2 = rx1\<lparr>rx_chunks := saturating_add (rx_chunks rx1) 1, rx_bytes := saturating_add (rx_bytes rx1) (word_of_nat m)\<rparr>"
    have rx: "rx_good (wd_env w) (rx_begin c0) rx1" "rx_good (wd_env w) (rx_begin c0) rx2"
      using good by (simp_all add: rx1_def rx2_def rx_good_def)
    obtain rx3 r where d: "rx_deliver dl w (plaintext_ready_at meta (dm_transport_recv_mono_nanos meta) 0) data rx2 = (rx3, r)" by force
    have ok: "op_ok (wd_env w) (rx_ws rx2) (rx_ws rx3) r \<and> rx_panic rx3 = rx_panic rx2 \<and> (\<exists>new. rx_out rx3 = rx_out rx2 @ new)"
      using deliver_ok [OF rx_good_wf [OF rx(2)] d] by blast
    then have "r \<noteq> Panic" using rng by (simp add: op_ok_def)
    moreover from this have "rx_good (wd_env w) rx2 rx3"
      using ok rx_good_evolves [OF rng rx(2)] by (auto simp: rx_good_def op_ok_def)
    ultimately have r: "r \<noteq> Panic" "rx_good (wd_env w) (rx_begin c0) rx3" using rx_good_trans [OF rx(2)] by auto
    show ?thesis
      using m c5(2) rx(1) r unfolding plain_batch_step_def prod.case c1_def [symmetric] Let_def Some option.case mk rx1_def [symmetric]
      by (cases r) (auto simp: data [unfolded c4_def] d [unfolded rx2_def] c5(1) [unfolded c4_def])
  qed
qed

lemma batch_loop_ok:
  assumes rng: "rng_total (wd_env w)"
  shows "mid_batch n c0 c \<Longrightarrow> rx_good (wd_env w) (rx_begin c0) rx \<Longrightarrow> batch_ok (io_flags io) n cqes \<Longrightarrow>
    \<exists>d rx' e'. plain_batch_loop dl w io k cqes (c, rx, e) = (Ok (d, rx', e') :: ('e, _) result) \<and>
      mid_batch n c0 d \<and> rx_good (wd_env w) (rx_begin c0) rx'"
proof (induction cqes arbitrary: c rx e)
  case (Cons cqe cqes)
  obtain d rx' e' where s: "plain_batch_step dl w io k cqe (c, rx, e) = (Ok (d, rx', e') :: ('e, _) result)"
    "mid_batch n c0 d" "rx_good (wd_env w) (rx_begin c0) rx'"
    using batch_step_ok [OF rng Cons.prems(1,2), of io cqe k e, where ?'e = 'e] Cons.prems(3) by (auto simp: batch_ok_def)
  show ?case using Cons.IH [OF s(2,3)] Cons.prems(3) s(1) by (simp add: batch_ok_def)
qed simp

text \<open>Closing a batch: the client of the locals goes back into the connection.\<close>

lemma batch_end_moves:
  assumes "rng_total (wd_env w)" and "mid_batch n c0 d" and "rx_good (wd_env w) (rx_begin c0) rx"
  shows "conn_moves c0 (rx_end rx d)"
proof -
  obtain ring where ring: "cs_buf_ring d = Some ring" using assms(2) by (auto simp: mid_batch_def)
  have wf: "conn_wf d" "conn_moves c0 d" "evolves (cs_ws d) (rx_ws rx)"
    using assms rx_good_evolves [OF assms(1,3)] by (auto simp: mid_batch_def conn_moves_wf)
  have "conn_moves d (d\<lparr>cs_ws := rx_ws rx\<rparr>)"
    using wf ring evolves_wf [OF wf(3)] by (simp add: conn_moves_def conn_wf_def)
  then show ?thesis using conn_moves_trans [OF wf(2)] by (simp add: rx_end_moves)
qed

lemma slices_moves:
  assumes rng: "rng_total (wd_env w)" and wf: "conn_wf c" and ring: "cs_buf_ring c = Some ring"
    and ok: "batch_ok (io_flags io) (br_entries ring) cqes"
    and r: "plain_batch_slices dl w io k cqes c = ((d, out), r)"
  shows "conn_moves c d \<and> r \<noteq> Panic"
proof -
  have mid: "mid_batch (br_entries ring) c c" using conn_moves_refl [OF wf] ring by (simp add: mid_batch_def)
  have good: "rx_good (wd_env w) (rx_begin c) (rx_begin c)" using wf by (intro rx_good_refl) (simp add: conn_wf_def)
  obtain d1 rx e where l: "plain_batch_loop dl w io k cqes (c, rx_begin c, None) = (Ok (d1, rx, e) :: (unit, _) result)"
    "mid_batch (br_entries ring) c d1" "rx_good (wd_env w) (rx_begin c) rx"
    using batch_loop_ok [OF rng mid good ok, of k None, where ?'e = unit] by blast
  show ?thesis
    using r batch_end_moves [OF rng l(2,3)] by (auto simp: plain_batch_slices_def l(1) Let_def split: option.splits)
qed

lemma copy_ok:
  assumes "batch_ok (io_flags io) n cqes" and "\<forall>cqe \<in> set cqes. buffer_id (io_flags io) cqe \<noteq> None" and "mid_batch n c0 c"
  shows "\<exists>d m'. copy_batch io k cqes (c, m) = ((d, m'), Ok ()) \<and> mid_batch n c0 d"
  using assms
proof (induction cqes arbitrary: c m)
  case (Cons cqe cqes)
  define c1 where "c1 = (if \<not> has_more (io_flags io) cqe then c\<lparr>cs_multishot_armed := False\<rparr> else c)"
  obtain b where b: "buffer_id (io_flags io) cqe = Some b" "b < n" using Cons.prems(1,2) by (auto simp: batch_ok_def)
  define c2 where "c2 = record_recv_data (nat (sint (co_result cqe))) c1"
  have c2: "mid_batch n c0 c2" using Cons.prems(3) by (simp add: c2_def c1_def)
  obtain data where data: "conn_bytes io k b (nat (sint (co_result cqe))) c2 = (Ok data :: (ConnectionError, bytes) result)"
    using mid_batch_bytes [OF c2 b(2), of io k "nat (sint (co_result cqe))", where ?'e = ConnectionError] by blast
  obtain c3 where c3: "conn_recycle b (c2\<lparr>cs_plain_recv_batch_scratch := cs_plain_recv_batch_scratch c2 @ data\<rparr>) =
      (Ok c3 :: (ConnectionError, _) result)" "mid_batch n c0 c3"
    using mid_batch_recycle [of n c0 "c2\<lparr>cs_plain_recv_batch_scratch := cs_plain_recv_batch_scratch c2 @ data\<rparr>" b, where ?'e = ConnectionError] c2 b(2)
    by auto
  have "batch_ok (io_flags io) n cqes" using Cons.prems(1) by (simp add: batch_ok_def)
  then show ?case
    using Cons.IH [OF _ _ c3(2)] Cons.prems(2)
    by (simp add: b(1) c1_def [symmetric] Let_def data [unfolded c2_def] c3(1) [unfolded c2_def])
qed simp

lemma batch_copy_total_ids: "batch_copy_total fl mx cqes total_bytes = Some t \<Longrightarrow> \<forall>cqe \<in> set cqes. buffer_id fl cqe \<noteq> None"
  by (induction cqes arbitrary: total_bytes) (auto simp: Let_def split: if_splits)

lemma copied_moves:
  assumes rng: "rng_total (wd_env w)" and wf: "conn_wf c" and ring: "cs_buf_ring c = Some ring"
    and ok: "batch_ok (io_flags io) (br_entries ring) cqes" and ids: "\<forall>cqe \<in> set cqes. buffer_id (io_flags io) cqe \<noteq> None"
    and r: "plain_batch_copied dl w io k cqes t c = ((d, out), r)"
  shows "conn_moves c d \<and> r \<noteq> Panic"
proof -
  have "mid_batch (br_entries ring) c c" using conn_moves_refl [OF wf] ring by (simp add: mid_batch_def)
  then have mid: "mid_batch (br_entries ring) c (c\<lparr>cs_plain_recv_batch_scratch := []\<rparr>)" by simp
  obtain d1 m where cp: "copy_batch io k cqes (c\<lparr>cs_plain_recv_batch_scratch := []\<rparr>, 0) = ((d1, m), Ok ())" "mid_batch (br_entries ring) c d1"
    using copy_ok [OF ok ids mid] by blast
  have ws: "cs_ws d1 = cs_ws c" "ws_wf (cs_ws c)" using cp(2) wf by (auto simp: mid_batch_def conn_wf_def)
  obtain rx q where dv: "rx_deliver dl w (fst (recv_observed_now (wd_clock w) 0 0 False)) (cs_plain_recv_batch_scratch d1) (rx_begin d1) = (rx, q)"
    by force
  have del: "op_ok (wd_env w) (cs_ws c) (rx_ws rx) q" "\<not> rx_panic rx" using deliver_ok [OF _ dv] ws by auto
  have q: "q \<noteq> Panic" using rng del(1) by (simp add: op_ok_def)
  have "rx_good (wd_env w) (rx_begin c) (rx\<lparr>rx_out := []\<rparr>)" using del q by (auto simp: rx_good_def op_ok_def)
  from batch_end_moves [OF rng cp(2) this] have "conn_moves c (rx_end rx d1)" by (simp add: rx_end_moves)
  then show ?thesis
    using r q by (cases q) (auto simp: plain_batch_copied_def cp(1) dv Let_def)
qed

lemma plain_batch_moves:
  assumes "rng_total (wd_env w)" and wf: "conn_wf c" and ring: "cs_buf_ring c = Some ring"
    and "batch_ok (io_flags io) (br_entries ring) cqes" and r: "plain_batch dl w io k cqes c = ((d, out), r)"
  shows "conn_moves c d \<and> r \<noteq> Panic"
proof -
  define c1 where "c1 = (\<lambda>n v. record_plain_recv_batch n v c)"
  have c1: "conn_wf (c1 n v)" "conn_moves c (c1 n v)" "cs_buf_ring (c1 n v) = Some ring" for n v
    using wf conn_moves_refl [OF wf] ring by (simp_all add: c1_def)
  show ?thesis
  proof (cases "if dl_marked dl then None else plain_recv_batch_copy_len (io_flags io) cqes c")
    case None
    then show ?thesis
      using r slices_moves [OF assms(1) c1(1,3) assms(4)] conn_moves_trans [OF c1(2)] unfolding plain_batch_def
      by (simp add: c1_def) blast
  next
    case (Some t)
    then have "\<forall>cqe \<in> set cqes. buffer_id (io_flags io) cqe \<noteq> None"
      by (auto simp: plain_recv_batch_copy_len_def Let_def split: if_splits dest: batch_copy_total_ids)
    then show ?thesis
      using r Some copied_moves [OF assms(1) c1(1,3) assms(4)] conn_moves_trans [OF c1(2)] unfolding plain_batch_def
      by (simp add: c1_def) blast
  qed
qed

end

subsection \<open>Sending\<close>

text \<open>What is staged for the kernel and what is still to be sent on a plain connection; the sends the kernel holds
  for it, according to the connection's own books.\<close>

definition staged :: "('t, 'h) ConnectionState \<Rightarrow> bytes" where
  "staged c = drop (cs_send_head c) (cs_send_buf c)"

definition unsent :: "('t, 'h) ConnectionState \<Rightarrow> bytes" where
  "unsent c = staged c @ pending_tx (cs_ws c)"

definition in_flight :: "('t, 'h) ConnectionState \<Rightarrow> (UserData \<times> bytes) list" where
  "in_flight c = (if cs_send_inflight c then [(ud_new OpSend (conn_token c), take (2 ^ 32 - 1) (staged c))] else [])"

text \<open>The account of the bytes that have left the staging buffer: taken by the kernel, or thrown away.\<close>

datatype Segment = Taken bytes | Dropped bytes

fun segment_bytes :: "Segment \<Rightarrow> bytes" where
  "segment_bytes (Taken bs) = bs"
| "segment_bytes (Dropped bs) = bs"

fun taken_bytes :: "Segment \<Rightarrow> bytes" where
  "taken_bytes (Taken bs) = bs"
| "taken_bytes (Dropped bs) = []"

definition accounted :: "Segment list \<Rightarrow> bytes" where
  "accounted log = concat (map segment_bytes log)"

definition wire :: "Segment list \<Rightarrow> bytes" where
  "wire log = concat (map taken_bytes log)"

lemma accounted_simps [simp]:
  "accounted [] = []" "accounted (xs @ ys) = accounted xs @ accounted ys" "accounted (s # xs) = segment_bytes s @ accounted xs"
  by (simp_all add: accounted_def)

lemma wire_accounted: "\<forall>bs. Dropped bs \<notin> set log \<Longrightarrow> wire log = accounted log"
proof (induction log)
  case (Cons s log)
  then show ?case by (cases s) (auto simp: wire_def accounted_def)
qed (simp add: wire_def)

definition log_ok :: "(UserData \<times> bytes) list \<Rightarrow> Segment list \<Rightarrow> Send list \<Rightarrow> ('t, 'h) ConnectionState \<Rightarrow> bool" where
  "log_ok outs log calls c \<longleftrightarrow>
     conn_wf c \<and> cs_tls c = None \<and> stream_ok (cs_ws c) (accounted log @ unsent c) calls \<and> outs = in_flight c"

lemma moves_log:
  assumes "log_ok outs log calls c" and "conn_moves c d"
  shows "log_ok outs log calls d"
proof -
  obtain new where new: "pending_tx (cs_ws d) = pending_tx (cs_ws c) @ new"
    "\<And>log calls. stream_ok (cs_ws c) log calls \<Longrightarrow> stream_ok (cs_ws d) (log @ new) calls"
    using assms(2) unfolding conn_moves_def evolves_def by blast
  have f: "staged d = staged c" "in_flight d = in_flight c"
    using assms(2) send_part_fields [of d c] by (auto simp: conn_moves_def staged_def in_flight_def conn_token_def)
  then have "accounted log @ unsent d = (accounted log @ unsent c) @ new" by (simp add: unsent_def new(1))
  then have "stream_ok (cs_ws d) (accounted log @ unsent d) calls"
    using new(2) [of "accounted log @ unsent c"] assms(1) by (simp add: log_ok_def)
  then show ?thesis using assms f(2) by (simp add: log_ok_def conn_moves_def)
qed

text \<open>Staging on a plain connection moves the client's bytes behind those not yet taken by the kernel.\<close>

lemma stage_send_plain:
  assumes wf: "conn_wf c" and tls: "cs_tls c = None" and s: "stage_send w c = (d, r)"
  shows "r = Ok () \<and> unsent d = unsent c \<and> conn_wf d \<and> cs_tls d = None \<and> pending_tx (cs_ws d) = [] \<and>
    (\<forall>log calls. stream_ok (cs_ws d) log calls = stream_ok (cs_ws c) log calls) \<and> fixed_part d = fixed_part c \<and>
    cs_send_inflight d = cs_send_inflight c \<and> cs_state d = cs_state c \<and> ws_state (cs_ws d) = ws_state (cs_ws c) \<and>
    ws_handshake_started (cs_ws d) = ws_handshake_started (cs_ws c)"
proof -
  obtain c1 where cp: "compact_send_buf_if_needed c = (Ok c1 :: (ConnectionError, _) result)" "c1 = c\<lparr>cs_send_buf := drop (cs_send_head c) (cs_send_buf c), cs_send_head := 0\<rparr>"
    using wf by (cases "cs_send_head c = 0"; cases "cs_send_head c = length (cs_send_buf c)")
      (auto simp: compact_send_buf_if_needed_def conn_wf_def)
  have ws: "ws_wf (cs_ws c)" and pend: "cs_tls_pending_out c1 = []" and t1: "cs_tls c1 = None" using wf tls cp(2) by (auto simp: conn_wf_def)
  have ack_state: "ws_state (ack_tx (cs_ws c) n) = ws_state (cs_ws c)" "ws_recv_buf (ack_tx (cs_ws c) n) = ws_recv_buf (cs_ws c)"
    "ws_handshake_started (ack_tx (cs_ws c) n) = ws_handshake_started (cs_ws c)" for n
    by (simp_all add: ack_tx_def Let_def)
  define c2 where "c2 = (if pending_tx (cs_ws c1) = [] then c1
    else c1\<lparr>cs_send_buf := cs_send_buf c1 @ pending_tx (cs_ws c1), cs_ws := ack_tx (cs_ws c1) (length (pending_tx (cs_ws c1)))\<rparr>)"
  have "stage_ws_tx w c1 = (c2, Ok ())" by (simp add: stage_ws_tx_def c2_def t1 Let_def)
  moreover have t2: "cs_tls c2 = None" using t1 by (simp add: c2_def)
  ultimately have d: "d = c2" "r = Ok ()"
    using s pend by (auto simp: stage_send_def cp(1) stage_tls_pending_def stage_tls_own_def)
  show ?thesis
    unfolding d using wf tls ack_all [OF ws] ack_state
    by (auto simp: c2_def cp(2) unsent_def staged_def conn_wf_def fixed_part_def split: option.splits)
qed

text \<open>The entry pushed for a send carries exactly the staged bytes, as many as the length field can say.\<close>

lemma submit_staged_hands:
  assumes rec: "records io sq" and idle: "\<not> cs_send_inflight c" and s: "submit_staged io (c, k) = ((d, k'), r)"
  shows "handed sq (cs_socket c) k k' = in_flight d \<and> d = c\<lparr>cs_send_inflight := cs_send_inflight d\<rparr> \<and> r \<noteq> Panic \<and>
    (staged c = [] \<longrightarrow> d = c \<and> r = Ok ()) \<and> (staged c \<noteq> [] \<longrightarrow> cs_send_inflight d = (r = Ok ()))"
proof (cases "staged c = []")
  case True
  then have "length (cs_send_buf c) - cs_send_head c = 0" by (simp add: staged_def)
  then show ?thesis using s idle True by (auto simp: submit_staged_def in_flight_def)
next
  case False
  have len: "length (cs_send_buf c) - cs_send_head c = length (staged c)" by (simp add: staged_def)
  have buf: "take (min (length (staged c)) (2 ^ 32 - 1)) (drop (cs_send_head c) (cs_send_buf c)) = take (2 ^ 32 - 1) (staged c)"
    by (simp add: staged_def min_def)
  obtain k1 q where p: "pr_submit_send io (cs_socket c) (take (2 ^ 32 - 1) (staged c)) (ud_new OpSend (conn_token c)) SQE_NONE k = (k1, q)" by force
  note h = send_handed [OF rec p]
  have q: "q \<noteq> Panic" using push_records [OF rec, of _ k k1 q] p by (auto simp: pr_submit_send_def)
  have "submit_staged io (c, k) = (case q of Ok _ \<Rightarrow> ((c\<lparr>cs_send_inflight := True\<rparr>, k1), Ok ()) | Err e \<Rightarrow> ((c, k1), Err (CeProactor e)) | Panic \<Rightarrow> ((c, k1), Panic))"
    using False unfolding submit_staged_def prod.case Let_def len buf p by (simp split: result.split)
  then show ?thesis
    using s h q idle False by (cases q) (auto simp: in_flight_def conn_token_def staged_def)
qed

lemma flush_log:
  assumes log: "log_ok outs log calls c" and rec: "records io sq" and f: "try_submit_send w io (c, k) = ((d, k'), r)"
  shows "log_ok (outs @ handed sq (cs_socket c) k k') log calls d"
proof (cases "cs_send_inflight c \<or> cs_state c \<in> {StInit, StConnecting, StClosed}")
  case True
  then have "try_submit_send w io (c, k) = ((c, k), Ok ())" unfolding try_submit_send_def by (simp split: if_split) blast
  then show ?thesis using f log by auto
next
  case False
  obtain c1 q where s: "stage_send w c = (c1, q)" by force
  note st = stage_send_plain [OF _ _ s]
  have c1: "q = Ok ()" "log_ok outs log calls c1" "cs_socket c1 = cs_socket c" "\<not> cs_send_inflight c1" "outs = []"
    using log st False by (simp_all add: log_ok_def fixed_part_def in_flight_def)
  have sub: "submit_staged io (c1, k) = ((d, k'), r)" using f False s c1(1) by (simp add: try_submit_send_def)
  note h = submit_staged_hands [OF rec c1(4) sub]
  have "log_ok (in_flight (c1\<lparr>cs_send_inflight := b\<rparr>)) log calls (c1\<lparr>cs_send_inflight := b\<rparr>)" for b
    using c1(2) by (simp add: log_ok_def unsent_def staged_def conn_wf_def split: option.splits)
  then have "log_ok (in_flight d) log calls d" using h by metis
  then show ?thesis using h c1(3,5) by simp
qed

lemma sent_log:
  assumes log: "log_ok outs log calls c" and infl: "cs_send_inflight c" and s: "on_send_cqe cqe c = (d, r)"
  shows "\<lbrakk>to_result cqe = Ok n; n \<le> length (staged c)\<rbrakk> \<Longrightarrow> log_ok [] (log @ [Taken (take n (staged c))]) calls d"
    and "to_result cqe = Err e \<Longrightarrow> log_ok [] log calls d"
proof -
  have wf: "conn_wf d" using send_keeps [OF _ s] log by (simp add: log_ok_def)
  have tls: "cs_tls d = None" "cs_ws d = cs_ws c" "in_flight d = []"
    using s log by (auto simp: on_send_cqe_def log_ok_def in_flight_def Let_def split: result.splits if_splits)
  { assume n: "to_result cqe = Ok n" "n \<le> length (staged c)"
    have "staged d = drop n (staged c)" using s n by (auto simp: on_send_cqe_def staged_def Let_def add.commute split: if_splits)
    then have "accounted (log @ [Taken (take n (staged c))]) @ unsent d = accounted log @ unsent c"
      unfolding unsent_def tls(2) by simp
    then show "log_ok [] (log @ [Taken (take n (staged c))]) calls d" using wf tls log by (simp add: log_ok_def del: accounted_simps) }
  { assume "to_result cqe = Err e"
    then have "unsent d = unsent c" using s by (auto simp: on_send_cqe_def unsent_def staged_def Let_def)
    then show "log_ok [] log calls d" using wf tls log by (simp add: log_ok_def) }
qed

text \<open>A send completion of a closed connection throws the staging buffer away.\<close>

lemma discarded_log:
  assumes "log_ok outs log calls c"
  shows "log_ok [] (log @ [Taken (take n (staged c)), Dropped (drop n (staged c))]) calls
    (c\<lparr>cs_send_inflight := False, cs_send_buf := [], cs_send_head := 0\<rparr>)"
proof -
  let ?d = "c\<lparr>cs_send_inflight := False, cs_send_buf := [], cs_send_head := 0\<rparr>"
  have "accounted (log @ [Taken (take n (staged c)), Dropped (drop n (staged c))]) @ unsent ?d = accounted log @ unsent c"
    by (simp add: unsent_def staged_def [of ?d])
  moreover have "conn_wf ?d" using assms by (simp add: log_ok_def conn_wf_def split: option.splits)
  ultimately show ?thesis using assms by (simp add: log_ok_def in_flight_def del: accounted_simps)
qed

subsection \<open>The life of a plain connection\<close>

text \<open>One completion at a connection, by the handler of any of the five kinds of pump; and a run of plain receive
  completions, by one of the four batch handlers.\<close>

inductive handles ::
  "('t, 'h) World \<Rightarrow> 'k Uring \<Rightarrow> Completion \<Rightarrow> ('t, 'h, 'k) Conn \<Rightarrow> ('t, 'h, 'k) Conn \<Rightarrow> bool" for w io cqe st where
  completion: "handle_completion w io cqe st = (st', r) \<Longrightarrow> handles w io cqe st st'"
| data: "handle_completion_data w io cqe st = ((st', evs), q) \<Longrightarrow> handles w io cqe st st'"
| data_batch: "handle_completion_data_batch w io cqe st = ((st', bats), q) \<Longrightarrow> handles w io cqe st st'"
| data_marked: "handle_completion_data_marked w io cqe st = ((st', mevs), q) \<Longrightarrow> handles w io cqe st st'"
| data_marked_batch: "handle_completion_data_marked_batch w io cqe st = ((st', mbats), q) \<Longrightarrow> handles w io cqe st st'"

inductive handles_batch ::
  "('t, 'h) World \<Rightarrow> 'k Uring \<Rightarrow> 'k \<Rightarrow> Completion list \<Rightarrow> ('t, 'h) ConnectionState \<Rightarrow> ('t, 'h) ConnectionState \<Rightarrow> bool" for w io k cqes c where
  events: "handle_plain_recv_data_batch w io k cqes c = ((d, evs), q) \<Longrightarrow> handles_batch w io k cqes c d"
| batches: "handle_plain_recv_data_event_batches w io k cqes c = ((d, bats), q) \<Longrightarrow> handles_batch w io k cqes c d"
| marked: "handle_plain_recv_data_batch_marked w io k cqes c = ((d, mevs), q) \<Longrightarrow> handles_batch w io k cqes c d"
| marked_batches: "handle_plain_recv_data_event_batches_marked w io k cqes c = ((d, mbats), q) \<Longrightarrow> handles_batch w io k cqes c d"

text \<open>Everything that happens to a connection, in any order.  \<open>outs\<close> are the sends on its socket that were pushed
  to the submission queue and have not completed, as the history \<open>sq\<close> of the queue shows them: each step
  that has the ring in hand adds what it pushed.  \<open>log\<close> is the account of the bytes: a completion reports
  how many of the bytes of the entry it belongs to the kernel took, and when it meets a closed connection,
  whose handler empties the staging buffer, the rest of that buffer is entered as dropped.  \<open>calls\<close> are the
  sends the client accepted.  The ring may be any other at each step: it is shared.\<close>

inductive conn_run ::
  "('t, 'h) World \<Rightarrow> 'k Uring \<Rightarrow> ('k \<Rightarrow> Sqe list) \<Rightarrow> ('t, 'h) ConnectionState \<Rightarrow> (UserData \<times> bytes) list \<Rightarrow> Segment list \<Rightarrow> Send list \<Rightarrow> bool"
  for w io sq where
  start: "conn_new w assigned addr = Ok c \<Longrightarrow> \<not> cc_use_tls (ac_user assigned) \<Longrightarrow> conn_run w io sq c [] [] []"
| connect: "conn_run w io sq c outs log calls \<Longrightarrow> conn_submit_connect io (c, k) = ((d, k'), r) \<Longrightarrow>
    conn_run w io sq d (outs @ handed sq (cs_socket c) k k') log calls"
| send: "conn_run w io sq c outs log calls \<Longrightarrow> client_send (wd_env w) (cs_ws c) m = (ws, r) \<Longrightarrow> send_size m < 2 ^ 63 \<Longrightarrow> r \<noteq> Panic \<Longrightarrow>
    conn_run w io sq (c\<lparr>cs_ws := ws\<rparr>) outs log (calls @ (if r = Ok () \<and> ws_state (cs_ws c) = Open then [m] else []))"
| poll: "conn_run w io sq c outs log calls \<Longrightarrow> poll_event (wd_env w) (cs_ws c) = (ws, r) \<Longrightarrow> r \<noteq> Panic \<Longrightarrow>
    conn_run w io sq (c\<lparr>cs_ws := ws\<rparr>) outs log calls"
| receive: "conn_run w io sq c outs log calls \<Longrightarrow> cs_buf_ring c \<noteq> None \<Longrightarrow> ws_recv_step (wd_env w) (cs_ws c) ws \<Longrightarrow>
    conn_run w io sq (c\<lparr>cs_ws := ws\<rparr>) outs log calls"
| flush: "conn_run w io sq c outs log calls \<Longrightarrow> try_submit_send w io (c, k) = ((d, k'), r) \<Longrightarrow>
    conn_run w io sq d (outs @ handed sq (cs_socket c) k k') log calls"
| rearm: "conn_run w io sq c outs log calls \<Longrightarrow> try_rearm_multishot io (c, k) = ((d, k'), r) \<Longrightarrow>
    conn_run w io sq d (outs @ handed sq (cs_socket c) k k') log calls"
| sync_open: "conn_run w io sq c outs log calls \<Longrightarrow> conn_run w io sq (sync_ws_open_state c) outs log calls"
| sync_close: "conn_run w io sq c outs log calls \<Longrightarrow> conn_run w io sq (sync_ws_close_state c) outs log calls"
| closing: "conn_run w io sq c outs log calls \<Longrightarrow> cs_state c = StOpen \<Longrightarrow> conn_run w io sq (c\<lparr>cs_state := StClosing\<rparr>) outs log calls"
| fail: "conn_run w io sq c outs log calls \<Longrightarrow> conn_run w io sq (c\<lparr>cs_state := StClosed\<rparr>) outs log calls"
| completion: "conn_run w io sq c outs log calls \<Longrightarrow> cqe_ok (io_flags io) cqe c \<Longrightarrow> ud_kind (co_user_data cqe) \<noteq> Some OpSend \<Longrightarrow>
    handles w io cqe (c, k) (d, k') \<Longrightarrow> conn_run w io sq d (outs @ handed sq (cs_socket c) k k') log calls"
| batch: "conn_run w io sq c outs log calls \<Longrightarrow> cs_buf_ring c = Some ring \<Longrightarrow> batch_ok (io_flags io) (br_entries ring) cqes \<Longrightarrow>
    handles_batch w io k cqes c d \<Longrightarrow> conn_run w io sq d outs log calls"
| sent: "conn_run w io sq c (xs @ (ud, data) # ys) log calls \<Longrightarrow> co_user_data cqe = ud \<Longrightarrow> to_result cqe = Ok n \<Longrightarrow> n \<le> length data \<Longrightarrow>
    handles w io cqe (c, k) (d, k') \<Longrightarrow>
    conn_run w io sq d (xs @ ys @ handed sq (cs_socket c) k k')
      (log @ Taken (take n data) # (if cs_state c = StClosed then [Dropped (drop n (staged c))] else [])) calls"
| send_failed: "conn_run w io sq c (xs @ (ud, data) # ys) log calls \<Longrightarrow> co_user_data cqe = ud \<Longrightarrow> to_result cqe = Err e \<Longrightarrow>
    handles w io cqe (c, k) (d, k') \<Longrightarrow>
    conn_run w io sq d (xs @ ys @ handed sq (cs_socket c) k k')
      (log @ (if cs_state c = StClosed then [Dropped (staged c)] else [])) calls"

subsection \<open>Which handlers send\<close>

text \<open>None of them pushes a send: only \<^verbatim>\<open>try_submit_send\<close> does.\<close>

lemma submit_recv_no_sends: "records io sq \<Longrightarrow> submit_recv_for_mode io fd bgid ud mode k = (k', r) \<Longrightarrow> no_sends sq k k'"
  by (auto simp: submit_recv_for_mode_def submits sends_of_def split: RecvMode.splits prod.splits if_splits intro: push_no_sends)

lemma ring_new_no_sends:
  assumes "records io sq" and "ring_new io bgid entries buf_size k = (k', r)"
  shows "no_sends sq k k'"
proof -
  have "sq k1 = sq k" if "io_alloc_zeroed io n k = (x, k1)" for n x k1 using assms(1) that by (metis records_def snd_conv)
  moreover have "sq k2 = sq k1" if "io_boxed_slice io n k1 = (x, k2)" for n x k1 k2 using assms(1) that by (metis records_def snd_conv)
  moreover have "sq k3 = sq k2" if "register_buf_ring io a n b k2 = (k3, x)" for a n b k2 k3 x
    using assms(1) that by (cases "io_register io a n b k2") (auto simp: register_buf_ring_def, metis records_def fst_conv)
  ultimately have "sq k' = sq k"
    using assms(2) unfolding ring_new_def Let_def
    by (auto split: if_splits option.splits prod.splits result.splits)
  then show ?thesis by (rule no_sends_same)
qed

lemma ring_unregister_no_sends:
  assumes "records io sq" and "ring_unregister io ring k = (k', x)"
  shows "no_sends sq k k'"
proof -
  have "sq k1 = sq k" if "unregister_buf_ring io b k = (k1, y)" for b k1 y
    using assms(1) that by (cases "io_unregister io b k") (auto simp: unregister_buf_ring_def, metis records_def fst_conv)
  then have "sq k' = sq k" using assms(2) by (auto simp: ring_unregister_def split: if_splits prod.splits result.splits)
  then show ?thesis by (rule no_sends_same)
qed

lemma connect_no_sends:
  assumes rec: "records io sq" and h: "on_connect_cqe io cqe (c, k) = ((d, k'), r)"
  shows "no_sends sq k k'"
proof -
  obtain k1 q where n: "ring_new io (conn_bgid c) (cc_buf_ring_entries (cs_cfg c)) (cc_buf_ring_slot_size (cs_cfg c)) k = (k1, q)" by force
  note k1 = ring_new_no_sends [OF rec n]
  have sub: "no_sends sq k k2" if "submit_recv_for_mode io fd b ud mode k1 = (k2, x)" for fd b ud mode k2 x
    using no_sends_trans [OF k1 submit_recv_no_sends [OF rec that]] .
  have unreg: "no_sends sq k k3" if "submit_recv_for_mode io fd b ud mode k1 = (k2, x)" "ring_unregister io ring k2 = (k3, y)" for fd b ud mode k2 x ring k3 y
    using no_sends_trans [OF sub [OF that(1)] ring_unregister_no_sends [OF rec that(2)]] .
  show ?thesis
    using h k1 unfolding on_connect_cqe_def
    by (cases "to_result cqe") (auto simp: n Let_def split: result.splits prod.splits if_splits dest: sub unreg)
qed

lemma completion_no_sends: "records io sq \<Longrightarrow> handle_completion w io cqe (c, k) = ((d, k'), r) \<Longrightarrow> no_sends sq k k'"
  by (auto simp: handle_completion_def split: option.splits if_splits OpKind.splits result.splits prod.splits dest: connect_no_sends)

lemma data_no_sends:
  assumes rec: "records io sq" and h: "handle_data dl w io cqe (c, k) = (((d, k'), out), r)"
  shows "no_sends sq k k'"
proof (cases "ud_kind (co_user_data cqe) \<noteq> Some OpRecv \<or> cs_state c = StClosed")
  case True
  obtain d1 k1 q where hc: "handle_completion w io cqe (c, k) = ((d1, k1), q)" by (metis surj_pair)
  then have "k' = k1" using h handle_data_other [OF True, of dl w io k] by (simp add: no_data_def)
  then show ?thesis using completion_no_sends [OF rec hc] by simp
next
  case False
  then show ?thesis using h by (auto simp: handle_data_def split: prod.splits)
qed

lemmas data_handlers = handle_completion_data_def handle_completion_data_batch_def handle_completion_data_marked_def
  handle_completion_data_marked_batch_def

lemma handles_no_sends:
  assumes "handles w io cqe (c, k) (d, k')" and rec: "records io sq"
  shows "no_sends sq k k'"
  using assms(1) by (cases rule: handles.cases) (auto simp: data_handlers intro: completion_no_sends [OF rec] data_no_sends [OF rec])

lemma handles_send:
  assumes "handles w io cqe (c, k) (d, k')" and "ud_kind (co_user_data cqe) = Some OpSend"
  shows "d = (if cs_state c = StClosed then c\<lparr>cs_send_inflight := False, cs_send_buf := [], cs_send_head := 0\<rparr> else fst (on_send_cqe cqe c))"
proof -
  obtain d1 k1 q where hc: "handle_completion w io cqe (c, k) = ((d1, k1), q)" by (metis surj_pair)
  have other: "handle_data dl w io cqe (c, k) = no_data (handle_completion w io cqe (c, k))" for dl :: "('b, 'o) Delivery"
    using assms(2) by (intro handle_data_other) simp
  have "d = d1" using assms(1) by (cases rule: handles.cases) (auto simp: data_handlers other hc no_data_def)
  then show ?thesis
    using hc assms(2) by (auto simp: handle_completion_def discard_completion_after_closed_def split: prod.splits)
qed

context delivery
begin

lemma handle_data_moves:
  assumes rng: "rng_total (wd_env w)" and io: "uring_sane io" and law: "rustls_lawful (wd_rustls w)"
    and wf: "conn_wf c" and ok: "cqe_ok (io_flags io) cqe c" and kind: "ud_kind (co_user_data cqe) \<noteq> Some OpSend"
    and h: "handle_data dl w io cqe (c, k) = (((d, k'), out), r)"
  shows "conn_moves c d"
proof (cases "ud_kind (co_user_data cqe) \<noteq> Some OpRecv \<or> cs_state c = StClosed")
  case True
  obtain d1 k1 q where hc: "handle_completion w io cqe (c, k) = ((d1, k1), q)" by (metis surj_pair)
  have "d = d1" using h handle_data_other [OF True, of dl w io k] by (simp add: hc no_data_def)
  then show ?thesis using completion_moves [OF io law wf ok hc kind] by simp
next
  case False
  then show ?thesis using h data_moves [OF rng law wf ok] by (auto simp: handle_data_def split: prod.splits)
qed

end

lemma handles_moves:
  assumes rng: "rng_total (wd_env w)" and io: "uring_sane io" and law: "rustls_lawful (wd_rustls w)"
    and wf: "conn_wf c" and ok: "cqe_ok (io_flags io) cqe c" and kind: "ud_kind (co_user_data cqe) \<noteq> Some OpSend"
    and h: "handles w io cqe (c, k) (d, k')"
  shows "conn_moves c d"
  using h
proof (cases rule: handles.cases)
  case (completion r)
  then show ?thesis using completion_moves [OF io law wf ok _ kind] by blast
next
  case (data evs q)
  then show ?thesis using events.handle_data_moves [OF assms(1-6)] by (metis handle_completion_data_def)
next
  case (data_batch bats q)
  then show ?thesis using batches.handle_data_moves [OF assms(1-6)] by (metis handle_completion_data_batch_def)
next
  case (data_marked mevs q)
  then show ?thesis using marked_events.handle_data_moves [OF assms(1-6)] by (metis handle_completion_data_marked_def)
next
  case (data_marked_batch mbats q)
  then show ?thesis using marked_batches.handle_data_moves [OF assms(1-6)] by (metis handle_completion_data_marked_batch_def)
qed

lemma handles_batch_moves:
  assumes "rng_total (wd_env w)" and "conn_wf c" and "cs_buf_ring c = Some ring" and "batch_ok (io_flags io) (br_entries ring) cqes"
    and "handles_batch w io k cqes c d"
  shows "conn_moves c d"
  using assms(5)
proof (cases rule: handles_batch.cases)
  case (events evs q)
  then show ?thesis using events.plain_batch_moves [OF assms(1-4)] by (metis handle_plain_recv_data_batch_def)
next
  case (batches bats q)
  then show ?thesis using batches.plain_batch_moves [OF assms(1-4)] by (metis handle_plain_recv_data_event_batches_def)
next
  case (marked mevs q)
  then show ?thesis using marked_events.plain_batch_moves [OF assms(1-4)] by (metis handle_plain_recv_data_batch_marked_def)
next
  case (marked_batches mbats q)
  then show ?thesis using marked_batches.plain_batch_moves [OF assms(1-4)] by (metis handle_plain_recv_data_event_batches_marked_def)
qed

subsection \<open>Every step keeps the account\<close>

lemma conn_new_log:
  assumes "conn_new w assigned addr = Ok c" and "\<not> cc_use_tls (ac_user assigned)"
  shows "log_ok [] [] [] c"
proof -
  obtain cfg where n: "new_client (wd_env w) 0 cfg = Ok (cs_ws c)"
    and f: "cs_tls c = None" "cs_buf_ring c = None" "cs_state c = StInit" "cs_send_buf c = []" "cs_send_head c = 0" "cs_tls_pending_out c = []"
      "\<not> cs_send_inflight c"
    using assms unfolding conn_new_def Let_def
    by (auto simp: and_then_eq_Ok_iff split: option.splits)
  note new = new_client_wf [OF n]
  have "as_slice (ws_recv_buf (cs_ws c)) = []" using new_client_Ok [OF n] by (auto simp: with_capacity_def as_slice_def)
  moreover have "stream_ok (cs_ws c) [] []" unfolding stream_ok_def using new by (intro exI [of _ "[]"]) (simp add: phase_ok_def)
  ultimately show ?thesis using f new by (simp add: log_ok_def conn_wf_def unsent_def staged_def in_flight_def)
qed

lemma state_log: "log_ok outs log calls c \<Longrightarrow> conn_wf (c\<lparr>cs_state := s\<rparr>) \<Longrightarrow> log_ok outs log calls (c\<lparr>cs_state := s\<rparr>)"
  by (simp add: log_ok_def unsent_def staged_def in_flight_def conn_token_def)

lemma open_ring: "conn_wf c \<Longrightarrow> cs_state c \<notin> {StInit, StConnecting, StClosed} \<or> ws_state (cs_ws c) \<noteq> Connecting \<Longrightarrow> cs_buf_ring c \<noteq> None"
  by (auto simp: conn_wf_def split: option.splits)

lemma sync_log:
  assumes "log_ok outs log calls c"
  shows "log_ok outs log calls (sync_ws_open_state c)" and "log_ok outs log calls (sync_ws_close_state c)"
  using assms state_log [OF assms] conn_wf_state [of c] open_ring [of c]
  by (auto simp: sync_ws_open_state_def sync_ws_close_state_def log_ok_def)

lemma connect_log:
  assumes "log_ok outs log calls c" and "records io sq" and "conn_submit_connect io (c, k) = ((d, k'), r)"
  shows "log_ok (outs @ handed sq (cs_socket c) k k') log calls d"
proof -
  obtain k1 q where p: "pr_submit_connect io (cs_socket c) (cs_addr c) (ud_new OpConnect (conn_token c)) SQE_NONE k = (k1, q)" by force
  have "no_sends sq k k1" using push_no_sends [OF assms(2)] p by (simp add: pr_submit_connect_def sends_of_def)
  then have "handed sq (cs_socket c) k k1 = []" by (rule handed_no_sends)
  moreover have "conn_wf (c\<lparr>cs_state := StConnecting\<rparr>)" using assms(1) by (simp add: log_ok_def conn_wf_def split: option.splits)
  ultimately show ?thesis
    using assms(1,3) state_log [OF assms(1)] by (cases q) (auto simp: conn_submit_connect_def p)
qed

lemma rearm_moves:
  assumes "conn_wf c" and "try_rearm_multishot io (c, k) = ((d, k'), r)"
  shows "conn_moves c d"
  using assms conn_moves_refl [OF assms(1)]
  by (auto simp: try_rearm_multishot_def split: if_splits option.splits result.splits prod.splits)

lemma rearm_no_sends: "records io sq \<Longrightarrow> try_rearm_multishot io (c, k) = ((d, k'), r) \<Longrightarrow> no_sends sq k k'"
  by (auto simp: try_rearm_multishot_def split: if_splits option.splits result.splits prod.splits dest: submit_recv_no_sends)

lemma client_log:
  assumes "log_ok outs log calls c" and "pending_tx ws = pending_tx (cs_ws c) @ new"
    and "stream_ok (cs_ws c) (accounted log @ unsent c) calls \<Longrightarrow> stream_ok ws ((accounted log @ unsent c) @ new) calls'"
    and "conn_wf (c\<lparr>cs_ws := ws\<rparr>)"
  shows "log_ok outs log calls' (c\<lparr>cs_ws := ws\<rparr>)"
  using assms by (simp add: log_ok_def unsent_def staged_def in_flight_def conn_token_def)

lemma send_log:
  assumes log: "log_ok outs log calls c" and s: "client_send env (cs_ws c) m = (ws, r)" "send_size m < 2 ^ 63" "r \<noteq> Panic"
  shows "log_ok outs log (calls @ (if r = Ok () \<and> ws_state (cs_ws c) = Open then [m] else [])) (c\<lparr>cs_ws := ws\<rparr>)"
proof -
  have wf: "conn_wf c" "ws_wf (cs_ws c)" using log by (auto simp: log_ok_def conn_wf_def)
  obtain new where new: "ws_wf ws" "pending_tx ws = pending_tx (cs_ws c) @ new"
    "\<And>l. stream_ok (cs_ws c) l calls \<Longrightarrow> stream_ok ws (l @ new) (calls @ (if r = Ok () \<and> ws_state (cs_ws c) = Open then [m] else []))"
    using send_stream [OF send_ok_send [OF wf(2) s(1,2)] s(3)] by blast
  have "ws = cs_ws c" if "cs_buf_ring c = None"
    using that wf(1) send_not_open [of "cs_ws c" env m] s(1) by (simp add: conn_wf_def)
  then have "conn_wf (c\<lparr>cs_ws := ws\<rparr>)" using wf new(1) by (auto simp: conn_wf_def split: option.splits)
  then show ?thesis using client_log [OF log new(2) new(3)] by blast
qed

lemma recv_log:
  assumes log: "log_ok outs log calls c" and op: "op_ok env (cs_ws c) ws r" "r \<noteq> Panic" and wf: "conn_wf (c\<lparr>cs_ws := ws\<rparr>)"
  shows "log_ok outs log calls (c\<lparr>cs_ws := ws\<rparr>)"
  using evolves_op [OF op] client_log [OF log _ _ wf] unfolding evolves_def by blast

lemma poll_log:
  assumes log: "log_ok outs log calls c" and p: "poll_event env (cs_ws c) = (ws, r)" "r \<noteq> Panic"
  shows "log_ok outs log calls (c\<lparr>cs_ws := ws\<rparr>)"
proof -
  have wf: "conn_wf c" "ws_wf (cs_ws c)" using log by (auto simp: log_ok_def conn_wf_def)
  note op = op_ok_poll [OF wf(2) p(1)]
  have "conn_wf (c\<lparr>cs_ws := ws\<rparr>)"
  proof (cases "cs_buf_ring c")
    case None
    then show ?thesis using wf poll_fresh [of "cs_ws c" env] p(1) by (auto simp: conn_wf_def)
  qed (use wf op in \<open>simp add: conn_wf_def op_ok_def\<close>)
  then show ?thesis by (rule recv_log [OF log op p(2)])
qed

lemma receive_log:
  assumes log: "log_ok outs log calls c" and ring: "cs_buf_ring c \<noteq> None" and s: "ws_recv_step env (cs_ws c) ws"
  shows "log_ok outs log calls (c\<lparr>cs_ws := ws\<rparr>)"
proof -
  have wf: "conn_wf c" "ws_wf (cs_ws c)" using log by (auto simp: log_ok_def conn_wf_def)
  note op = op_ok_recv_step [OF s wf(2)]
  have "conn_wf (c\<lparr>cs_ws := ws\<rparr>)" using wf ring op by (auto simp: conn_wf_def op_ok_def)
  then show ?thesis using recv_log [OF log op] by simp
qed

text \<open>The completion of a send: it is the one in flight, and its bytes are the staged ones.\<close>

lemma in_flight_one:
  assumes "log_ok (xs @ (ud, data) # ys) log calls c"
  shows "cs_send_inflight c" "xs = []" "ys = []" "ud = ud_new OpSend (conn_token c)" "data = take (2 ^ 32 - 1) (staged c)"
proof -
  have e: "xs @ (ud, data) # ys = in_flight c" using assms by (simp add: log_ok_def)
  then show i: "cs_send_inflight c" by (auto simp: in_flight_def split: if_splits)
  then have "xs @ (ud, data) # ys = [(ud_new OpSend (conn_token c), take (2 ^ 32 - 1) (staged c))]" using e by (simp add: in_flight_def)
  then show "xs = []" "ys = []" "ud = ud_new OpSend (conn_token c)" "data = take (2 ^ 32 - 1) (staged c)"
    by (auto simp: append_eq_Cons_conv)
qed

lemma sent_step:
  assumes log: "log_ok (xs @ (ud, data) # ys) log calls c" and rec: "records io sq"
    and cqe: "co_user_data cqe = ud" "to_result cqe = Ok n" "n \<le> length data" and h: "handles w io cqe (c, k) (d, k')"
  shows "log_ok (xs @ ys @ handed sq (cs_socket c) k k')
    (log @ Taken (take n data) # (if cs_state c = StClosed then [Dropped (drop n (staged c))] else [])) calls d"
proof -
  note one = in_flight_one [OF log] and h0 = handed_no_sends [OF handles_no_sends [OF h rec]]
  have n: "n \<le> length (staged c)" "take n data = take n (staged c)" using cqe(3) one(5) by auto
  have d: "d = (if cs_state c = StClosed then c\<lparr>cs_send_inflight := False, cs_send_buf := [], cs_send_head := 0\<rparr> else fst (on_send_cqe cqe c))"
    using handles_send [OF h] cqe(1) one(4) by simp
  show ?thesis
    using discarded_log [OF log, of n] sent_log(1) [OF log one(1) surjective_pairing cqe(2) n(1)] one(2,3) h0 n(2) d by simp
qed

lemma failed_step:
  assumes log: "log_ok (xs @ (ud, data) # ys) log calls c" and rec: "records io sq"
    and cqe: "co_user_data cqe = ud" "to_result cqe = Err e" and h: "handles w io cqe (c, k) (d, k')"
  shows "log_ok (xs @ ys @ handed sq (cs_socket c) k k') (log @ (if cs_state c = StClosed then [Dropped (staged c)] else [])) calls d"
proof -
  note one = in_flight_one [OF log] and h0 = handed_no_sends [OF handles_no_sends [OF h rec]]
  have d: "d = (if cs_state c = StClosed then c\<lparr>cs_send_inflight := False, cs_send_buf := [], cs_send_head := 0\<rparr> else fst (on_send_cqe cqe c))"
    using handles_send [OF h] cqe(1) one(4) by simp
  have "log_ok [] (log @ [Dropped (staged c)]) calls (c\<lparr>cs_send_inflight := False, cs_send_buf := [], cs_send_head := 0\<rparr>)"
    using discarded_log [OF log, of 0] by (simp add: log_ok_def)
  then show ?thesis using sent_log(2) [OF log one(1) surjective_pairing cqe(2)] one(2,3) h0 d by simp
qed

lemma conn_run_log:
  assumes "conn_run w io sq c outs log calls" and rng: "rng_total (wd_env w)" and io: "uring_sane io" and law: "rustls_lawful (wd_rustls w)"
    and rec: "records io sq"
  shows "log_ok outs log calls c"
  using assms(1)
proof (induction rule: conn_run.induct)
  case (rearm c outs log calls k d k' r)
  then show ?case using rearm_moves moves_log handed_no_sends [OF rearm_no_sends [OF rec]] by (metis append_Nil2 log_ok_def)
next
  case (closing c outs log calls)
  then have wf: "conn_wf c" by (simp add: log_ok_def)
  have "cs_buf_ring c \<noteq> None" using open_ring [OF wf] closing.hyps(2) by simp
  then show ?case using state_log [OF closing.IH conn_wf_state [OF wf]] by blast
next
  case (fail c outs log calls)
  then show ?case using state_log conn_wf_closed by (metis log_ok_def)
next
  case (completion c outs log calls cqe k d k')
  then show ?case
    using handles_moves [OF rng io law _ completion.hyps(2-4)] moves_log handed_no_sends [OF handles_no_sends [OF completion.hyps(4) rec]]
    by (metis append_Nil2 log_ok_def)
next
  case (batch c outs log calls ring cqes k d)
  then show ?case using handles_batch_moves [OF rng _ batch.hyps(2-4)] moves_log by (metis log_ok_def)
qed (blast intro: conn_new_log connect_log [OF _ rec] send_log poll_log receive_log flush_log [OF _ rec] sync_log sent_step [OF _ rec] failed_step [OF _ rec])+

text \<open>C1. The outbound stream of a plain connection, through every interleaving of submissions, completions, errors,
  client calls, closing and reopening.  The sends the kernel holds are none, or one that carries exactly the
  staged bytes, from the first not yet taken, and the connection's user data.  The bytes the kernel took of
  the submission entries, the bytes dropped, the staged ones and those the client still holds, one after
  the other, are the upgrade request and then complete, legal, masked frames, which fit the state of the
  client; a server reads them back as the frames of the accepted sends, in the order of the calls, with
  nothing but the client's own pongs and Closes in between.  As long as no send completion meets a closed
  connection nothing is dropped, and the bytes the kernel took are that stream up to the staged bytes: a
  partial send, a failed send, a re-submission or a compaction never loses, repeats or reorders a byte.  (A
  send completion that meets a closed connection drops what is staged.)\<close>

theorem socket_stream:
  assumes "conn_run w io sq c outs log calls" and "rng_total (wd_env w)" and "uring_sane io" and "rustls_lawful (wd_rustls w)"
    and "records io sq"
  shows "conn_wf c \<and>
    outs = (if cs_send_inflight c
      then [(ud_new OpSend (conn_token c), take (2 ^ 32 - 1) (drop (cs_send_head c) (cs_send_buf c)))] else []) \<and>
    (\<exists>fs replies. accounted log @ drop (cs_send_head c) (cs_send_buf c) @ pending_tx (cs_ws c) =
        (if ws_handshake_started (cs_ws c) then client_request (cs_ws c) else []) @ frames_wire fs \<and>
      list_all frame_ok fs \<and> phase_ok (ws_state (cs_ws c)) fs \<and>
      server_stream (frames_wire fs) \<in> shuffles (map call_frame calls) replies \<and> list_all (\<lambda>r. fst r = Pong \<or> fst r = Close) replies) \<and>
    ((\<forall>bs. Dropped bs \<notin> set log) \<longrightarrow> wire log = accounted log)"
proof -
  have l: "log_ok outs log calls c" by (rule conn_run_log [OF assms])
  obtain fs replies where fs: "accounted log @ unsent c = (if ws_handshake_started (cs_ws c) then client_request (cs_ws c) else []) @ frames_wire fs"
    "list_all frame_ok fs" "phase_ok (ws_state (cs_ws c)) fs"
    "map (\<lambda>(op, key, p). (op, p)) fs \<in> shuffles (map call_frame calls) replies" "list_all (\<lambda>r. fst r = Pong \<or> fst r = Close) replies"
    using l unfolding log_ok_def stream_ok_def by blast
  have "server_stream (frames_wire fs) \<in> shuffles (map call_frame calls) replies" using fs(4) server_stream_wire [OF fs(2)] by simp
  then show ?thesis
    using l fs wire_accounted [of log] unfolding log_ok_def in_flight_def unsent_def staged_def by blast
qed

subsection \<open>A connection that sends its request\<close>

text \<open>A plain connected connection with a free send slot: submitting puts everything it has in flight.\<close>

definition sending :: "('t, 'h) ConnectionState \<Rightarrow> bool" where
  "sending c \<longleftrightarrow> conn_wf c \<and> cs_tls c = None \<and> cs_state c \<notin> {StInit, StConnecting, StClosed} \<and> \<not> cs_send_inflight c"

lemma to_result_small: "n < 2 ^ 31 \<Longrightarrow> to_result \<lparr>co_user_data = ud, co_result = word_of_nat n, co_flags = fl\<rparr> = Ok n"
proof -
  assume n: "n < 2 ^ 31"
  have "sint (word_of_nat n :: 32 word) = int n"
    using n by (simp add: signed_of_nat signed_take_bit_int_eq_self_iff)
  then show ?thesis by (simp add: to_result_def)
qed

lemma flush_plain:
  assumes s: "sending c" and push: "\<And>e k. io_push io e k \<noteq> None" and rec: "records io sq"
  shows "\<exists>d k'. try_submit_send w io (c, k) = ((d, k'), Ok ()) \<and> conn_wf d \<and> cs_tls d = None \<and> cs_state d = cs_state c \<and>
    ws_state (cs_ws d) = ws_state (cs_ws c) \<and> ws_handshake_started (cs_ws d) = ws_handshake_started (cs_ws c) \<and>
    staged d = unsent c \<and> pending_tx (cs_ws d) = [] \<and> cs_send_inflight d = (unsent c \<noteq> []) \<and>
    handed sq (cs_socket c) k k' = in_flight d"
proof -
  obtain c1 q where st: "stage_send w c = (c1, q)" by force
  have c1: "q = Ok ()" "unsent c1 = unsent c" "conn_wf c1" "cs_tls c1 = None" "pending_tx (cs_ws c1) = []" "\<not> cs_send_inflight c1"
    "cs_state c1 = cs_state c" "cs_socket c1 = cs_socket c" "ws_state (cs_ws c1) = ws_state (cs_ws c)"
    "ws_handshake_started (cs_ws c1) = ws_handshake_started (cs_ws c)"
    using stage_send_plain [OF _ _ st] s by (simp_all add: sending_def fixed_part_def)
  have buf: "staged c1 = unsent c" using c1(2,5) by (simp add: unsent_def)
  obtain d k' r where sub: "submit_staged io (c1, k) = ((d, k'), r)" by (metis surj_pair)
  have f: "try_submit_send w io (c, k) = ((d, k'), r)" using s st c1(1) sub by (simp add: try_submit_send_def sending_def)
  note h = submit_staged_hands [OF rec c1(6) sub]
  have r: "r = Ok ()" using sub by (auto simp: submit_staged_def pr_submit_send_def push_sqe_def push Let_def split: if_splits option.splits)
  obtain b where b: "d = c1\<lparr>cs_send_inflight := b\<rparr>" using h by blast
  have d: "conn_wf d" "staged d = unsent c" "cs_tls d = None" "cs_state d = cs_state c" "pending_tx (cs_ws d) = []"
    "ws_state (cs_ws d) = ws_state (cs_ws c)" "ws_handshake_started (cs_ws d) = ws_handshake_started (cs_ws c)"
    using c1 buf by (simp_all add: b conn_wf_def staged_def split: option.splits)
  have "cs_send_inflight d = (unsent c \<noteq> [])" using h r buf c1(6) by auto
  then show ?thesis using f r d h c1(8) by auto
qed

text \<open>The sample connection at its start, and the completion that reports the connected socket.\<close>

definition sample_config :: AssignedConnectionConfig where
  "sample_config = \<lparr>ac_user = with_tls False (connection_config_new (str ''h'') 80 (str ''/'')),
     ac_identity = \<lparr>id_conn_id = 0, id_generation = 0, id_bgid = 0\<rparr>\<rparr>"

lemma sample_conn_new: "\<exists>c. conn_new sample_world sample_config sample_addr = Ok c"
  using sample_new
  by (auto simp: conn_new_def sample_world_def sample_libc_def tcp_socket_new_def set_nodelay_def set_option_def sample_config_def with_tls_def connection_config_new_def ws_config_new_def
      vec_with_capacity_def DEFAULT_BUF_RING_SLOT_SIZE_def Let_def)

text \<open>The sample kernel keeps the entries pushed as its state, so its history is that state.\<close>

lemma sample_records: "records sample_uring (\<lambda>k. k)"
  by (simp add: records_def sample_uring_def)

lemma sample_push: "io_push sample_uring e k \<noteq> None"
  by (simp add: sample_uring_def)

lemma sample_conn_connected:
  "\<exists>c. conn_run sample_world sample_uring (\<lambda>k. k) c [] [] [] \<and> ws_handshake_started (cs_ws c) \<and> ws_state (cs_ws c) = Connecting \<and>
     cs_state c = StWsHandshake"
proof -
  define cqe where "cqe = \<lparr>co_user_data = ud_new OpConnect 0, co_result = 0, co_flags = 0\<rparr>"
  obtain c where c: "conn_new sample_world sample_config sample_addr = Ok c" using sample_conn_new by blast
  have plain: "\<not> cc_use_tls (ac_user sample_config)" by (simp add: sample_config_def with_tls_def)
  have run: "conn_run sample_world sample_uring (\<lambda>k. k) c [] [] []" by (rule conn_run.start [OF c plain])
  obtain cfg where n: "new_client (wd_env sample_world) 0 cfg = Ok (cs_ws c)"
    and f: "cs_tls c = None" "cs_state c = StInit" "\<not> cs_ws_handshake_begun c" "cs_cfg c = ac_user sample_config"
    using c plain unfolding conn_new_def Let_def by (auto simp: and_then_eq_Ok_iff split: option.splits)
  note new = new_client_wf [OF n]
  obtain d k' r where h: "handle_completion sample_world sample_uring cqe (c, []) = ((d, k'), r)" by (metis surj_pair)
  have kind: "ud_kind (co_user_data cqe) = Some OpConnect" by (simp add: cqe_def)
  have ok: "cqe_ok (io_flags sample_uring) cqe c" by (simp add: cqe_ok_def buffer_id_def cqe_def sample_uring_def)
  have hd: "handles sample_world sample_uring cqe (c, []) (d, k')" by (rule handles.completion [OF h])
  have "conn_run sample_world sample_uring (\<lambda>k. k) d ([] @ handed (\<lambda>k. k) (cs_socket c) [] k') [] []"
    by (rule conn_run.completion [OF run ok _ hd]) (simp add: kind)
  then have run': "conn_run sample_world sample_uring (\<lambda>k. k) d [] [] []"
    using handed_no_sends [OF handles_no_sends [OF hd sample_records]] by simp
  obtain ws q where b: "begin_handshake (cs_ws c) = (ws, q)" by force
  have ws: "ws_handshake_started ws" "ws_state ws = Connecting" "\<exists>u. q = Ok u"
    using b new by (auto simp: begin_handshake_def Let_def tx_extend_def compact_tx_if_needed_def)
  have "cs_ws d = ws" "cs_state d = StWsHandshake"
    using h f kind b ws(3)
    by (auto simp: handle_completion_def on_connect_cqe_def to_result_def cqe_def ring_new_def sample_uring_def is_power_of_two_def upt_rec
        register_buf_ring_def submit_recv_for_mode_def submits push_sqe_def begin_ws_def sample_config_def with_tls_def
        connection_config_new_def DEFAULT_BUF_RING_ENTRIES_def DEFAULT_BUF_RING_SLOT_SIZE_def Let_def ENTRY_SIZE_def ISIZE_MAX_def PAGE_SIZE_def
        record_recv_multishot_rearm_def)
  then show ?thesis using run' ws by blast
qed

text \<open>The connected sample connection submits its request, of which the kernel takes four bytes.\<close>

theorem socket_stream_witness:
  "\<exists>c. conn_run sample_world sample_uring (\<lambda>k. k) c [] [Taken (str ''GET '')] [] \<and>
     str ''GET '' @ drop (cs_send_head c) (cs_send_buf c) @ pending_tx (cs_ws c) = client_request (cs_ws c)"
proof -
  note stream = socket_stream [OF _ sample_conn_facts(1-3) sample_records]
  obtain c where c: "conn_run sample_world sample_uring (\<lambda>k. k) c [] [] []" "ws_handshake_started (cs_ws c)" "ws_state (cs_ws c) = Connecting"
    "cs_state c = StWsHandshake" using sample_conn_connected by blast
  have l: "log_ok [] [] [] c" by (rule conn_run_log [OF c(1) sample_conn_facts(1-3) sample_records])
  have uns: "unsent c = client_request (cs_ws c)" using stream [OF c(1)] c(2,3) by (auto simp: phase_ok_def unsent_def staged_def)
  have get: "client_request ws = str ''GET '' @ drop 4 (client_request ws)" for ws
    by (simp add: client_request_def encode_upgrade_request_def encode_request_def str_def)
  have send: "sending c" using l c(4) by (auto simp: sending_def log_ok_def in_flight_def split: if_splits)
  obtain d k1 where fl: "try_submit_send sample_world sample_uring (c, []) = ((d, k1), Ok ())"
    and d: "cs_state d = cs_state c" "staged d = unsent c" "pending_tx (cs_ws d) = []" "cs_send_inflight d = (unsent c \<noteq> [])"
      "handed (\<lambda>k. k) (cs_socket c) [] k1 = in_flight d" "ws_state (cs_ws d) = Connecting" "ws_handshake_started (cs_ws d)"
    using flush_plain [OF send sample_push sample_records, of sample_world "[]"] c(2,3) by auto
  define data where "data = take (2 ^ 32 - 1) (staged d)"
  have len: "4 \<le> length (client_request ws)" and head: "take 4 (client_request ws) = str ''GET ''" for ws
    using arg_cong [OF get [of ws], of length] arg_cong [OF get [of ws], of "take 4"] by (simp_all add: str_def)
  have bytes: "take 4 data = str ''GET ''" "4 \<le> length data"
    using len [of "cs_ws c"] head [of "cs_ws c"] unfolding data_def d(2) uns by simp_all
  have "in_flight d = [(ud_new OpSend (conn_token d), data)]" using d(4) len [of "cs_ws c"] uns by (auto simp: in_flight_def data_def)
  then have run: "conn_run sample_world sample_uring (\<lambda>k. k) d ([] @ (ud_new OpSend (conn_token d), data) # []) [] []"
    using conn_run.flush [OF c(1) fl] d(5) by simp
  define cqe where "cqe = \<lparr>co_user_data = ud_new OpSend (conn_token d), co_result = word_of_nat 4 :: 32 word, co_flags = 0\<rparr>"
  have res: "to_result cqe = Ok 4" unfolding cqe_def by (rule to_result_small) simp
  obtain e k2 r where h: "handle_completion sample_world sample_uring cqe (d, k1) = ((e, k2), r)" by (metis surj_pair)
  have hd: "handles sample_world sample_uring cqe (d, k1) (e, k2)" by (rule handles.completion [OF h])
  have "conn_run sample_world sample_uring (\<lambda>k. k) e ([] @ [] @ handed (\<lambda>k. k) (cs_socket d) k1 k2)
      ([] @ Taken (take 4 data) # (if cs_state d = StClosed then [Dropped (drop 4 (staged d))] else [])) []"
    by (rule conn_run.sent [OF run _ res bytes(2) hd]) (simp add: cqe_def)
  then have fin: "conn_run sample_world sample_uring (\<lambda>k. k) e [] [Taken (str ''GET '')] []"
    using handed_no_sends [OF handles_no_sends [OF hd sample_records]] bytes(1) d(1) c(4) by simp
  have "cs_ws e = cs_ws d" using handles_send [OF hd] d(1) c(4) by (auto simp: cqe_def on_send_cqe_def Let_def split: result.splits)
  then show ?thesis using stream [OF fin] fin d(6,7) by (auto simp: phase_ok_def accounted_def)
qed

end
