(* ===== verification/Pool.thy ===== *)
theory Pool
  imports Conn_Stream
begin

text \<open>
  The connection pool (\<^verbatim>\<open>pool.rs\<close>): the slot table with its generations, the identities handed to
  connections, sending and closing through handles, and the pumps that submit work, wait, route
  completions to connections and hand events to the caller.

  The kernel is threaded through every call.  What a connection gets from outside is a function of its
  token.  A pump returns the calls of the caller's sink as a list.  The four data pumps of the source
  differ in how a connection delivers and in the shortest run that is taken as a batch; they are written
  once over a \<open>Delivery\<close> and that length.  When something panics, the state beside \<^const>\<open>Panic\<close> is what
  unwinding leaves behind and nothing is claimed of it.  \<^verbatim>\<open>completions_buf\<close> is cleared before each use and is the list of
  completions here.  \<^verbatim>\<open>Vec::push\<close> and \<^verbatim>\<open>Vec::pop\<close> work at the end of the list.
\<close>

subsection \<open>Configuration and handles\<close>

definition DEFAULT_POOL_INITIAL_CONN_CAPACITY :: nat where "DEFAULT_POOL_INITIAL_CONN_CAPACITY = 0"
definition DEFAULT_POOL_COMPLETION_BATCH_CAPACITY :: nat where "DEFAULT_POOL_COMPLETION_BATCH_CAPACITY = 64"
definition DEFAULT_POOL_POST_PROGRESS_SPIN_ITERS :: nat where "DEFAULT_POOL_POST_PROGRESS_SPIN_ITERS = 0"

record PoolConfig =
  pcf_proactor :: ProactorConfig
  pcf_initial_conn_capacity :: nat
  pcf_completion_batch_capacity :: nat
  pcf_post_progress_spin_iters :: nat

definition pool_config_new :: "ProactorConfig \<Rightarrow> PoolConfig" where
  "pool_config_new proactor =
     \<lparr>pcf_proactor = proactor, pcf_initial_conn_capacity = DEFAULT_POOL_INITIAL_CONN_CAPACITY,
      pcf_completion_batch_capacity = DEFAULT_POOL_COMPLETION_BATCH_CAPACITY,
      pcf_post_progress_spin_iters = DEFAULT_POOL_POST_PROGRESS_SPIN_ITERS\<rparr>"

definition with_initial_conn_capacity :: "nat \<Rightarrow> PoolConfig \<Rightarrow> PoolConfig" where
  "with_initial_conn_capacity capacity c = c\<lparr>pcf_initial_conn_capacity := capacity\<rparr>"

definition with_completion_batch_capacity :: "nat \<Rightarrow> PoolConfig \<Rightarrow> PoolConfig" where
  "with_completion_batch_capacity capacity c = c\<lparr>pcf_completion_batch_capacity := capacity\<rparr>"

definition with_post_progress_spin_iters :: "nat \<Rightarrow> PoolConfig \<Rightarrow> PoolConfig" where
  "with_post_progress_spin_iters iters c = c\<lparr>pcf_post_progress_spin_iters := iters\<rparr>"

definition pool_config_default :: PoolConfig where
  "pool_config_default = pool_config_new proactor_config_default"

datatype ConnHandle = ConnHandle (as_u64: u64)

definition as_u32 :: "ConnHandle \<Rightarrow> u32" where "as_u32 h = token_conn_id (as_u64 h)"
definition handle_generation :: "ConnHandle \<Rightarrow> u32" where "handle_generation h = token_generation (as_u64 h)"
definition from_parts :: "u32 \<Rightarrow> u32 \<Rightarrow> ConnHandle" where "from_parts cid generation = ConnHandle (encode_conn_token cid generation)"
definition from_conn :: "('t, 'h) ConnectionState \<Rightarrow> ConnHandle" where "from_conn c = ConnHandle (conn_token c)"

subsection \<open>The pool\<close>

type_synonym ('t, 'h) Slots = "('t, 'h) ConnectionState option list"
type_synonym ('t, 'h) Worlds = "u64 \<Rightarrow> ('t, 'h) World"

record ('t, 'h, 'k) Pool =
  po_proactor :: 'k
  po_conns :: "('t, 'h) Slots"
  po_generations :: "u32 list"
  po_free_conn_ids :: "u32 list"
  po_free_bgids :: "u16 list"
  po_active_count :: u32
  po_next_conn_id :: u32
  po_next_bgid :: u16
  po_post_progress_spin_iters :: nat

type_synonym ('t, 'h, 'k, 'r) PoolOp = "('t, 'h, 'k) Pool \<Rightarrow> ('t, 'h, 'k) Pool \<times> (ConnectionError, 'r) result"

definition pool_new :: "'k Uring \<Rightarrow> PoolConfig \<Rightarrow> (ProactorError, ('t, 'h, 'k) Pool) result" where
  "pool_new io cfg =
     and_then (proactor_new io (pcf_proactor cfg)) (\<lambda>proactor.
     and_then (vec_with_capacity (pcf_initial_conn_capacity cfg)) (\<lambda>_.
     and_then (vec_with_capacity (pcf_completion_batch_capacity cfg)) (\<lambda>_.
       Ok \<lparr>po_proactor = proactor, po_conns = [], po_generations = [], po_free_conn_ids = [], po_free_bgids = [],
           po_active_count = 0, po_next_conn_id = 0, po_next_bgid = 0,
           po_post_progress_spin_iters = pcf_post_progress_spin_iters cfg\<rparr>)))"

text \<open>\<^verbatim>\<open>get(i).and_then(Option::as_ref)\<close> on the slot table.\<close>

definition slot_at :: "('t, 'h) Slots \<Rightarrow> u32 \<Rightarrow> ('t, 'h) ConnectionState option" where
  "slot_at conns cid = (if unat cid < length conns then conns ! unat cid else None)"

subsection \<open>Identities\<close>

definition reserve_conn_id :: "('t, 'h, 'k, u32) PoolOp" where
  "reserve_conn_id p =
     (if po_free_conn_ids p \<noteq> [] then
        (p\<lparr>po_free_conn_ids := butlast (po_free_conn_ids p)\<rparr>, Ok (last (po_free_conn_ids p)))
      else
        let cid = po_next_conn_id p in
        if cid > ucast CONN_ID_MASK then (p, Err (CeIdSpaceExhausted ''conn_id''))
        else (p\<lparr>po_next_conn_id := cid + 1, po_conns := po_conns p @ [None], po_generations := po_generations p @ [0]\<rparr>, Ok cid))"

definition reserve_bgid :: "('t, 'h, 'k, u16) PoolOp" where
  "reserve_bgid p =
     (if po_free_bgids p \<noteq> [] then (p\<lparr>po_free_bgids := butlast (po_free_bgids p)\<rparr>, Ok (last (po_free_bgids p)))
      else
        let bgid = po_next_bgid p in
        if bgid = 65535 then (p, Err (CeIdSpaceExhausted ''bgid''))
        else (p\<lparr>po_next_bgid := bgid + 1\<rparr>, Ok bgid))"

definition release_bgid :: "u16 \<Rightarrow> ('t, 'h, 'k) Pool \<Rightarrow> ('t, 'h, 'k) Pool" where
  "release_bgid bgid p = p\<lparr>po_free_bgids := po_free_bgids p @ [bgid]\<rparr>"

definition release_reserved_identity :: "ConnectionRuntimeIdentity \<Rightarrow> ('t, 'h, 'k) Pool \<Rightarrow> ('t, 'h, 'k) Pool" where
  "release_reserved_identity identity p =
     release_bgid (id_bgid identity) (p\<lparr>po_free_conn_ids := po_free_conn_ids p @ [id_conn_id identity]\<rparr>)"

definition reserve_runtime_identity :: "('t, 'h, 'k, ConnectionRuntimeIdentity) PoolOp" where
  "reserve_runtime_identity p =
     try_st (reserve_bgid p) (\<lambda>p bgid.
       case reserve_conn_id p of
         (p, Ok cid) \<Rightarrow>
           if unat cid < length (po_generations p)
           then (p, Ok \<lparr>id_conn_id = cid, id_generation = po_generations p ! unat cid, id_bgid = bgid\<rparr>)
           else (p, Panic)
       | (p, Err e) \<Rightarrow> (release_bgid bgid p, Err e)
       | (p, Panic) \<Rightarrow> (p, Panic))"

subsection \<open>Connecting\<close>

text \<open>A failed \<^verbatim>\<open>submit_connect\<close> drops the new connection, which closes its socket.\<close>

definition submit_connect_to :: "('t, 'h) Worlds \<Rightarrow> 'k Uring \<Rightarrow> ConnectionConfig \<Rightarrow> SocketAddr \<Rightarrow> ('t, 'h, 'k, ConnHandle) PoolOp" where
  "submit_connect_to ws io cfg addr p =
     try_st (reserve_runtime_identity p) (\<lambda>p identity.
       case conn_new (ws (id_token identity)) \<lparr>ac_user = cfg, ac_identity = identity\<rparr> addr of
         Err e \<Rightarrow> (release_reserved_identity identity p, Err e)
       | Panic \<Rightarrow> (p, Panic)
       | Ok conn \<Rightarrow>
           (case conn_submit_connect io (conn, po_proactor p) of
              ((_, k), Err e) \<Rightarrow> (release_reserved_identity identity (p\<lparr>po_proactor := k\<rparr>), Err e)
            | ((_, k), Panic) \<Rightarrow> (p\<lparr>po_proactor := k\<rparr>, Panic)
            | ((conn, k), Ok _) \<Rightarrow>
                let p = p\<lparr>po_proactor := k\<rparr> in
                if unat (id_conn_id identity) < length (po_conns p) then
                  (p\<lparr>po_conns := (po_conns p)[unat (id_conn_id identity) := Some conn], po_active_count := po_active_count p + 1\<rparr>,
                   Ok (from_parts (id_conn_id identity) (id_generation identity)))
                else (p, Panic)))"

definition conn_is_active :: "('t, 'h) ConnectionState \<Rightarrow> bool" where
  "conn_is_active c \<longleftrightarrow> cs_state c \<noteq> StClosed"

definition recycle_conn_slot :: "u32 \<Rightarrow> ('t, 'h, 'k) Pool \<Rightarrow> ('t, 'h, 'k) Pool" where
  "recycle_conn_slot cid p =
     (if \<not> unat cid < length (po_generations p) then p
      else
        let g = po_generations p ! unat cid in
        if ucast g \<ge> CONN_GENERATION_MASK then p
        else p\<lparr>po_generations := (po_generations p)[unat cid := g + 1], po_free_conn_ids := po_free_conn_ids p @ [cid]\<rparr>)"

text \<open>The ring of the retired connection is unregistered; dropping the connection then closes its socket.\<close>

definition retire_ring :: "'k Uring \<Rightarrow> ('t, 'h) ConnectionState \<Rightarrow> 'k \<Rightarrow> 'k \<times> ('e, bool) result" where
  "retire_ring io dead k =
     (case cs_buf_ring dead of
        None \<Rightarrow> (k, Ok True)
      | Some ring \<Rightarrow>
          (case ring_unregister io ring k of
             (k, _, Ok _) \<Rightarrow> (k, Ok True) | (k, _, Err _) \<Rightarrow> (k, Ok False) | (k, _, Panic) \<Rightarrow> (k, Panic)))"

definition retire_slot :: "'k Uring \<Rightarrow> u32 \<Rightarrow> u32 option \<Rightarrow> ('t, 'h, 'k, bool) PoolOp" where
  "retire_slot io cid expected_generation p =
     (case slot_at (po_conns p) cid of
        None \<Rightarrow> (p, Ok False)
      | Some dead \<Rightarrow>
          if (case expected_generation of Some expected \<Rightarrow> expected \<noteq> conn_generation dead | None \<Rightarrow> False) then (p, Ok False)
          else
            let p = p\<lparr>po_conns := (po_conns p)[unat cid := None]\<rparr> in
            (case retire_ring io dead (po_proactor p) of
               (k, Ok recycle_bgid) \<Rightarrow>
                 let p = p\<lparr>po_proactor := k\<rparr>;
                     p = (if conn_is_active dead then p\<lparr>po_active_count := saturating_sub (po_active_count p) 1\<rparr> else p);
                     p = recycle_conn_slot cid p
                 in ((if recycle_bgid then release_bgid (conn_bgid dead) p else p), Ok True)
             | (k, Err e) \<Rightarrow> (p\<lparr>po_proactor := k\<rparr>, Err e)
             | (k, Panic) \<Rightarrow> (p\<lparr>po_proactor := k\<rparr>, Panic)))"

definition remove_conn :: "'k Uring \<Rightarrow> ConnHandle \<Rightarrow> ('t, 'h, 'k, unit) PoolOp" where
  "remove_conn io h p =
     try_st (retire_slot io (as_u32 h) (Some (handle_generation h)) p) (\<lambda>p retired.
       (p, if retired then Ok () else Err (CeInvalidState StClosed)))"

definition submit_reconnect_to ::
  "('t, 'h) Worlds \<Rightarrow> 'k Uring \<Rightarrow> ConnHandle \<Rightarrow> ConnectionConfig \<Rightarrow> SocketAddr \<Rightarrow> ('t, 'h, 'k, ConnHandle) PoolOp" where
  "submit_reconnect_to ws io old cfg addr p = try_st (remove_conn io old p) (\<lambda>p _. submit_connect_to ws io cfg addr p)"

text \<open>Name resolution is a parameter: an error, or the addresses found.\<close>

type_synonym Dns = "bytes \<Rightarrow> u16 \<Rightarrow> (IoError, SocketAddr list) result"

definition resolve_addr :: "Dns \<Rightarrow> ConnectionConfig \<Rightarrow> (ConnectionError, SocketAddr) result" where
  "resolve_addr dns cfg =
     and_then (map_err CeIo (dns (cc_host cfg) (cc_port cfg))) (\<lambda>addrs.
       case addrs of [] \<Rightarrow> Err (CeDnsEmpty (cc_host cfg)) | addr # _ \<Rightarrow> Ok addr)"

definition submit_connect ::
  "Dns \<Rightarrow> ('t, 'h) Worlds \<Rightarrow> 'k Uring \<Rightarrow> ConnectionConfig \<Rightarrow> ('t, 'h, 'k, ConnHandle) PoolOp" where
  "submit_connect dns ws io cfg p = try_st (p, resolve_addr dns cfg) (\<lambda>p addr. submit_connect_to ws io cfg addr p)"

definition submit_reconnect ::
  "Dns \<Rightarrow> ('t, 'h) Worlds \<Rightarrow> 'k Uring \<Rightarrow> ConnHandle \<Rightarrow> ConnectionConfig \<Rightarrow>
     ('t, 'h, 'k, ConnHandle) PoolOp" where
  "submit_reconnect dns ws io old cfg p = try_st (p, resolve_addr dns cfg) (\<lambda>p addr. submit_reconnect_to ws io old cfg addr p)"

subsection \<open>Using a connection\<close>

definition conn_mut :: "ConnHandle \<Rightarrow> ('t, 'h, 'k) Pool \<Rightarrow> (ConnectionError, ('t, 'h) ConnectionState) result" where
  "conn_mut h p =
     (case slot_at (po_conns p) (as_u32 h) of
        None \<Rightarrow> Err (CeInvalidState StClosed)
      | Some conn \<Rightarrow> if conn_token conn = as_u64 h then Ok conn else Err (CeInvalidState StClosed))"

definition pool_state :: "ConnHandle \<Rightarrow> ('t, 'h, 'k) Pool \<Rightarrow> State option" where
  "pool_state h p =
     (case slot_at (po_conns p) (as_u32 h) of
        None \<Rightarrow> None | Some conn \<Rightarrow> if conn_token conn = as_u64 h then Some (cs_state conn) else None)"

definition conn_count :: "('t, 'h, 'k) Pool \<Rightarrow> nat" where
  "conn_count p = unat (po_active_count p)"

definition pool_ingress_stats :: "ConnHandle \<Rightarrow> ('t, 'h, 'k) Pool \<Rightarrow> IngressStats option" where
  "pool_ingress_stats h p =
     (case slot_at (po_conns p) (as_u32 h) of
        None \<Rightarrow> None | Some conn \<Rightarrow> if conn_token conn = as_u64 h then Some (cs_ingress_stats conn) else None)"

text \<open>The four sends share their shape: look up, require an open connection, queue on its client.\<close>

definition put_conn :: "ConnHandle \<Rightarrow> ('t, 'h) ConnectionState \<Rightarrow> ('t, 'h, 'k) Pool \<Rightarrow> ('t, 'h, 'k) Pool" where
  "put_conn h c p = p\<lparr>po_conns := (po_conns p)[unat (as_u32 h) := Some c]\<rparr>"

definition send_with ::
  "('t, 'h) Worlds \<Rightarrow> (Env \<Rightarrow> WsClient \<Rightarrow> WsClient \<times> (WsError, unit) result) \<Rightarrow> ConnHandle \<Rightarrow> ('t, 'h, 'k, unit) PoolOp" where
  "send_with ws send h p =
     try_st (p, conn_mut h p) (\<lambda>p conn.
     try_st (p, assert_open conn) (\<lambda>p _.
       case send (wd_env (ws (as_u64 h))) (cs_ws conn) of
         (client, r) \<Rightarrow> (put_conn h (conn\<lparr>cs_ws := client\<rparr>) p, map_err CeWs r)))"

definition pool_send_text where "pool_send_text ws h payload = send_with ws (\<lambda>env c. Ws_Client.send_text env c payload) h"
definition pool_send_binary where "pool_send_binary ws h payload = send_with ws (\<lambda>env c. Ws_Client.send_binary env c payload) h"
definition pool_send_ping where "pool_send_ping ws h payload = send_with ws (\<lambda>env c. Ws_Client.send_ping env c payload) h"
definition pool_send_pong where "pool_send_pong ws h payload = send_with ws (\<lambda>env c. Ws_Client.send_pong env c payload) h"

definition initiate_close :: "('t, 'h) Worlds \<Rightarrow> ConnHandle \<Rightarrow> u16 \<Rightarrow> bytes \<Rightarrow> ('t, 'h, 'k, unit) PoolOp" where
  "initiate_close ws h code reason p =
     try_st (p, conn_mut h p) (\<lambda>p conn.
       if cs_state conn \<in> {StClosed, StClosing} then (p, Ok ())
       else
         case Ws_Client.send_close (wd_env (ws (as_u64 h))) (cs_ws conn) code reason of
           (client, Ok _) \<Rightarrow>
             let conn = conn\<lparr>cs_ws := client\<rparr>;
                 conn = (if cs_state conn = StOpen then conn\<lparr>cs_state := StClosing\<rparr> else conn)
             in (put_conn h conn p, Ok ())
         | (client, r) \<Rightarrow> (put_conn h (conn\<lparr>cs_ws := client\<rparr>) p, map_err CeWs r))"

subsection \<open>Failures and accounting\<close>

text \<open>The fields of the pool a round of work borrows beside the slots.\<close>

record 'k Shared =
  sh_proactor :: 'k
  sh_active_count :: u32
  sh_first_err :: "ConnectionError option"

definition fail_conn :: "ConnectionError \<Rightarrow> ('t, 'h) ConnectionState \<times> 'k Shared \<Rightarrow> (('t, 'h) ConnectionState \<times> 'k Shared) \<times> bool" where
  "fail_conn err st =
     (case st of (conn, sh) \<Rightarrow>
        ((conn\<lparr>cs_state := StClosed\<rparr>, sh\<lparr>sh_first_err := (if sh_first_err sh = None then Some err else sh_first_err sh)\<rparr>),
         conn_is_active conn))"

definition account_closed_transition :: "bool \<Rightarrow> ('t, 'h) ConnectionState \<Rightarrow> 'k Shared \<Rightarrow> 'k Shared" where
  "account_closed_transition was_active conn sh =
     (if was_active \<and> \<not> conn_is_active conn then sh\<lparr>sh_active_count := saturating_sub (sh_active_count sh) 1\<rparr> else sh)"

definition fail_conn_and_account ::
  "ConnectionError \<Rightarrow> bool \<Rightarrow> ('t, 'h) ConnectionState \<times> 'k Shared \<Rightarrow> ('t, 'h) ConnectionState \<times> 'k Shared" where
  "fail_conn_and_account err was_active st =
     (case fail_conn err st of
        ((conn, sh), failed_active) \<Rightarrow>
          (conn, if was_active \<or> failed_active then sh\<lparr>sh_active_count := saturating_sub (sh_active_count sh) 1\<rparr> else sh))"

definition finish_conn_result ::
  "(ConnectionError, 'r) result \<Rightarrow> bool \<Rightarrow> ('t, 'h) ConnectionState \<times> 'k Shared \<Rightarrow>
     (('t, 'h) ConnectionState \<times> 'k Shared) \<times> (ConnectionError, unit) result" where
  "finish_conn_result result was_active st =
     (case st of (conn, sh) \<Rightarrow>
        case result of
          Ok _ \<Rightarrow>
            let conn = sync_ws_close_state (sync_ws_open_state conn)
            in ((conn, account_closed_transition was_active conn sh), Ok ())
        | Err e \<Rightarrow> (fail_conn_and_account e was_active st, Ok ())
        | Panic \<Rightarrow> (st, Panic))"

subsection \<open>Submitting work\<close>

text \<open>\<^verbatim>\<open>for slot in conns.iter_mut()\<close> over the occupied slots.\<close>

fun each_conn ::
  "(('t, 'h) ConnectionState \<Rightarrow> 's \<Rightarrow> (('t, 'h) ConnectionState \<times> 's) \<times> ('e, unit) result) \<Rightarrow> ('t, 'h) Slots \<Rightarrow> 's \<Rightarrow>
     (('t, 'h) Slots \<times> 's) \<times> ('e, unit) result" where
  "each_conn f [] s = (([], s), Ok ())"
| "each_conn f (None # slots) s = (case each_conn f slots s of ((slots, s), r) \<Rightarrow> ((None # slots, s), r))"
| "each_conn f (Some conn # slots) s =
     (case f conn s of
        ((conn, s), Ok _) \<Rightarrow> (case each_conn f slots s of ((slots, s), r) \<Rightarrow> ((Some conn # slots, s), r))
      | ((conn, s), r) \<Rightarrow> ((Some conn # slots, s), r))"

definition submit_conn_op ::
  "('t, 'h) Worlds \<Rightarrow> 'k Uring \<Rightarrow> ('t, 'h) ConnectionState \<Rightarrow> 'k Shared \<Rightarrow> (('t, 'h) ConnectionState \<times> 'k Shared) \<times> (ConnectionError, unit) result" where
  "submit_conn_op ws io conn sh =
     (let was_active = conn_is_active conn in
      case try_submit_send (ws (conn_token conn)) io (conn, sh_proactor sh) of
        ((conn, k), Err e) \<Rightarrow> (fail_conn_and_account e was_active (conn, sh\<lparr>sh_proactor := k\<rparr>), Ok ())
      | ((conn, k), Panic) \<Rightarrow> ((conn, sh\<lparr>sh_proactor := k\<rparr>), Panic)
      | ((conn, k), Ok _) \<Rightarrow>
          (case try_rearm_multishot io (conn, k) of
             ((conn, k), Err e) \<Rightarrow> (fail_conn_and_account e was_active (conn, sh\<lparr>sh_proactor := k\<rparr>), Ok ())
           | ((conn, k), r) \<Rightarrow> ((conn, sh\<lparr>sh_proactor := k\<rparr>), r)))"

definition submit_conn_ops ::
  "('t, 'h) Worlds \<Rightarrow> 'k Uring \<Rightarrow> ('t, 'h) Slots \<Rightarrow> 'k Shared \<Rightarrow> (('t, 'h) Slots \<times> 'k Shared) \<times> (ConnectionError, unit) result" where
  "submit_conn_ops ws io = each_conn (submit_conn_op ws io)"

text \<open>A round of work: the slots and the shared fields.  Every pump starts by submitting; the ones that wait
  then wait for completions, and all take them off the queue.\<close>

type_synonym ('t, 'h, 'k) Round = "('t, 'h) Slots \<times> 'k Shared"

definition round_begin :: "('t, 'h, 'k) Pool \<Rightarrow> ('t, 'h, 'k) Round" where
  "round_begin p = (po_conns p, \<lparr>sh_proactor = po_proactor p, sh_active_count = po_active_count p, sh_first_err = None\<rparr>)"

definition round_end :: "('t, 'h, 'k) Round \<Rightarrow> ('t, 'h, 'k) Pool \<Rightarrow> ('t, 'h, 'k) Pool" where
  "round_end st p = p\<lparr>po_proactor := sh_proactor (snd st), po_conns := fst st, po_active_count := sh_active_count (snd st)\<rparr>"

definition on_proactor ::
  "('k \<Rightarrow> 'k \<times> (ProactorError, 'r) result) \<Rightarrow> ('t, 'h, 'k) Round \<Rightarrow> ('t, 'h, 'k) Round \<times> (ConnectionError, 'r) result" where
  "on_proactor f st =
     (case st of (slots, sh) \<Rightarrow> case f (sh_proactor sh) of (k, r) \<Rightarrow> ((slots, sh\<lparr>sh_proactor := k\<rparr>), map_err CeProactor r))"

definition start_round ::
  "('t, 'h) Worlds \<Rightarrow> 'k Uring \<Rightarrow> ('t, 'h, 'k) Pool \<Rightarrow> ('t, 'h, 'k) Round \<times> (ConnectionError, nat) result" where
  "start_round ws io p =
     try_st (case round_begin p of (slots, sh) \<Rightarrow> submit_conn_ops ws io slots sh) (\<lambda>st _. on_proactor (pr_submit io) st)"

definition take_completions :: "'k Uring \<Rightarrow> ('t, 'h, 'k) Round \<Rightarrow> ('t, 'h, 'k) Round \<times> (ConnectionError, Completion list) result" where
  "take_completions io st =
     on_proactor (\<lambda>k. case drain_completions io k of (cqes, _, k) \<Rightarrow> (k, Ok cqes)) st"

subsection \<open>Routing completions\<close>

definition completion_token :: "Completion \<Rightarrow> u64" where
  "completion_token cqe = ud_token (co_user_data cqe)"

definition conn_for_completion :: "('t, 'h) Slots \<Rightarrow> Completion \<Rightarrow> (nat \<times> ('t, 'h) ConnectionState) option" where
  "conn_for_completion slots cqe =
     (let token = completion_token cqe; cid = token_conn_id token in
      case slot_at slots cid of
        None \<Rightarrow> None
      | Some conn \<Rightarrow> if conn_token conn = token then Some (unat cid, conn) else None)"

text \<open>One completion, or one batch of them, at its connection: \<open>handle\<close> is the handler of the pump.\<close>

definition at_conn ::
  "(('t, 'h, 'k) Conn \<Rightarrow> (('t, 'h, 'k) Conn \<times> 'o list) \<times> (ConnectionError, 'r) result) \<Rightarrow> nat \<Rightarrow> ('t, 'h) ConnectionState \<Rightarrow>
     ('t, 'h, 'k) Round \<times> (ConnHandle \<times> 'o) list \<Rightarrow> (('t, 'h, 'k) Round \<times> (ConnHandle \<times> 'o) list) \<times> (ConnectionError, unit) result" where
  "at_conn handle i conn st =
     (case st of ((slots, sh), out) \<Rightarrow>
        let was_active = conn_is_active conn; h = from_conn conn in
        case handle (conn, sh_proactor sh) of
          (((conn, k), new), r) \<Rightarrow>
            (case finish_conn_result r was_active (conn, sh\<lparr>sh_proactor := k\<rparr>) of
               ((conn, sh), q) \<Rightarrow> (((slots[i := Some conn], sh), out @ map (Pair h) new), q)))"

fun route_completions ::
  "('t, 'h) Worlds \<Rightarrow> 'k Uring \<Rightarrow> Completion list \<Rightarrow> ('t, 'h, 'k) Round \<times> (ConnHandle \<times> 'o) list \<Rightarrow>
     (('t, 'h, 'k) Round \<times> (ConnHandle \<times> 'o) list) \<times> (ConnectionError, unit) result" where
  "route_completions ws io [] st = (st, Ok ())"
| "route_completions ws io (cqe # cqes) st =
     (case conn_for_completion (fst (fst st)) cqe of
        None \<Rightarrow> route_completions ws io cqes st
      | Some (i, conn) \<Rightarrow>
          try_st (at_conn (\<lambda>c. case handle_completion (ws (conn_token conn)) io cqe c of (c, r) \<Rightarrow> ((c, []), r)) i conn st)
            (\<lambda>st _. route_completions ws io cqes st))"

text \<open>The data dispatchers: a run of plain receive completions of one connection is handled as a batch, if it
  is at least \<open>min_run\<close> long.\<close>

definition batch_run :: "CqFlags \<Rightarrow> ('t, 'h) ConnectionState \<Rightarrow> Completion \<Rightarrow> Completion list \<Rightarrow> Completion list" where
  "batch_run fl conn cqe cqes =
     takeWhile (\<lambda>next. completion_token next = completion_token cqe \<and> can_handle_plain_recv_data_batch fl next conn) cqes"

function dispatch_data ::
  "('h, 'o) Delivery \<Rightarrow> nat \<Rightarrow> ('t, 'h) Worlds \<Rightarrow> 'k Uring \<Rightarrow> Completion list \<Rightarrow> ('t, 'h, 'k) Round \<times> (ConnHandle \<times> 'o) list \<Rightarrow>
     (('t, 'h, 'k) Round \<times> (ConnHandle \<times> 'o) list) \<times> (ConnectionError, unit) result" where
  "dispatch_data dl min_run ws io [] st = (st, Ok ())"
| "dispatch_data dl min_run ws io (cqe # cqes) st =
     (case conn_for_completion (fst (fst st)) cqe of
        None \<Rightarrow> dispatch_data dl min_run ws io cqes st
      | Some (i, conn) \<Rightarrow>
          let w = ws (conn_token conn); run = batch_run (io_flags io) conn cqe cqes in
          if can_handle_plain_recv_data_batch (io_flags io) cqe conn \<and> min_run \<le> Suc (length run) then
            try_st (at_conn (\<lambda>(c, k). case plain_batch dl w io k (cqe # run) c of ((c, out), r) \<Rightarrow> (((c, k), out), r)) i conn st)
              (\<lambda>st _. dispatch_data dl min_run ws io (drop (length run) cqes) st)
          else
            try_st (at_conn (handle_data dl w io cqe) i conn st) (\<lambda>st _. dispatch_data dl min_run ws io cqes st))"
  by pat_completeness auto

termination dispatch_data
  by (relation "measure (\<lambda>(dl, n, ws, io, cqes, st). length cqes)") simp_all

definition dispatch_conn_completions_data where "dispatch_conn_completions_data = dispatch_data events_delivery 2"
definition dispatch_conn_completions_data_marked where "dispatch_conn_completions_data_marked = dispatch_data marked_delivery 2"
definition dispatch_conn_completions_data_batches where "dispatch_conn_completions_data_batches = dispatch_data batches_delivery 1"
definition dispatch_conn_completions_data_marked_batches where
  "dispatch_conn_completions_data_marked_batches = dispatch_data marked_batches_delivery 1"

subsection \<open>Data pumps\<close>

text \<open>The first error of a round is its result.\<close>

definition round_result :: "('t, 'h, 'k) Round \<Rightarrow> 'r \<Rightarrow> (ConnectionError, 'r) result" where
  "round_result st v = (case sh_first_err (snd st) of None \<Rightarrow> Ok v | Some e \<Rightarrow> Err e)"

definition pool_round ::
  "('t, 'h, 'k) Pool \<Rightarrow> (('t, 'h, 'k) Round \<times> 'o list) \<times> (ConnectionError, 'r) result \<Rightarrow>
     (('t, 'h, 'k) Pool \<times> 'o list) \<times> (ConnectionError, 'r) result" where
  "pool_round p res = (case res of ((st, out), r) \<Rightarrow> ((round_end st p, out), r))"

definition with_out :: "'o list \<Rightarrow> 's \<times> ('e, 'r) result \<Rightarrow> ('s \<times> 'o list) \<times> ('e, 'r) result" where
  "with_out out res = ((fst res, out), snd res)"

definition pump_data_with ::
  "('h, 'o) Delivery \<Rightarrow> nat \<Rightarrow> ('t, 'h) Worlds \<Rightarrow> 'k Uring \<Rightarrow> nat \<Rightarrow> ('t, 'h, 'k) Pool \<Rightarrow>
     (('t, 'h, 'k) Pool \<times> (ConnHandle \<times> 'o) list) \<times> (ConnectionError, unit) result" where
  "pump_data_with dl min_run ws io wait_nr p =
     pool_round p (
       try_st (with_out [] (start_round ws io p)) (\<lambda>(st, out) _.
       try_st (with_out out (on_proactor (wait_for_cqe io wait_nr) st)) (\<lambda>(st, out) _.
       try_st (with_out out (take_completions io st)) (\<lambda>st cqes.
       try_st (dispatch_data dl min_run ws io cqes st) (\<lambda>st _. (st, round_result (fst st) ()))))))"

definition pump_data_impl where "pump_data_impl = pump_data_with events_delivery 2"
definition pump_data_marked_impl where "pump_data_marked_impl = pump_data_with marked_delivery 2"
definition pump_data_batches_impl where "pump_data_batches_impl = pump_data_with batches_delivery 1"
definition pump_data_marked_batches_impl where "pump_data_marked_batches_impl = pump_data_with marked_batches_delivery 1"

definition pump_data where "pump_data ws io = pump_data_impl ws io 1"
definition pump_data_nowait where "pump_data_nowait ws io = pump_data_impl ws io 0"
definition pump_data_marked where "pump_data_marked ws io = pump_data_marked_impl ws io 1"
definition pump_data_marked_nowait where "pump_data_marked_nowait ws io = pump_data_marked_impl ws io 0"
definition pump_data_batches where "pump_data_batches ws io = pump_data_batches_impl ws io 1"
definition pump_data_batches_nowait where "pump_data_batches_nowait ws io = pump_data_batches_impl ws io 0"
definition pump_data_marked_batches where "pump_data_marked_batches ws io = pump_data_marked_batches_impl ws io 1"
definition pump_data_marked_batches_nowait where "pump_data_marked_batches_nowait ws io = pump_data_marked_batches_impl ws io 0"

definition drain_data ::
  "('h, 'o) Delivery \<Rightarrow> nat \<Rightarrow> ('t, 'h) Worlds \<Rightarrow> 'k Uring \<Rightarrow> ('t, 'h, 'k) Round \<times> (ConnHandle \<times> 'o) list \<Rightarrow>
     (('t, 'h, 'k) Round \<times> (ConnHandle \<times> 'o) list) \<times> (ConnectionError, nat) result" where
  "drain_data dl min_run ws io st =
     try_st (with_out (snd st) (take_completions io (fst st))) (\<lambda>st cqes.
     try_st (dispatch_data dl min_run ws io cqes st) (\<lambda>st _. (st, Ok (length cqes))))"

definition drain_conn_completions_data where "drain_conn_completions_data = drain_data events_delivery 2"
definition drain_conn_completions_data_marked where "drain_conn_completions_data_marked = drain_data marked_delivery 2"
definition drain_conn_completions_data_batches where "drain_conn_completions_data_batches = drain_data batches_delivery 1"
definition drain_conn_completions_data_marked_batches where
  "drain_conn_completions_data_marked_batches = drain_data marked_batches_delivery 1"

text \<open>\<^verbatim>\<open>drain_post_progress\<close>: at most so many further drains, until one has left an error.\<close>

fun drain_post_progress :: "nat \<Rightarrow> ('s \<Rightarrow> bool) \<Rightarrow> ('s \<Rightarrow> 's \<times> ('e, 'r) result) \<Rightarrow> 's \<Rightarrow> 's \<times> ('e, unit) result" where
  "drain_post_progress 0 failed drain_once s = (s, Ok ())"
| "drain_post_progress (Suc n) failed drain_once s =
     try_st (drain_once s) (\<lambda>s _. if failed s then (s, Ok ()) else drain_post_progress n failed drain_once s)"

definition round_failed :: "('t, 'h, 'k) Round \<times> 'o \<Rightarrow> bool" where
  "round_failed st \<longleftrightarrow> sh_first_err (snd (fst st)) \<noteq> None"

text \<open>The busy-polling loop: \<open>iters\<close> counts the iterations after this one.\<close>

fun spin_data ::
  "('h, 'o) Delivery \<Rightarrow> nat \<Rightarrow> ('t, 'h) Worlds \<Rightarrow> 'k Uring \<Rightarrow> nat \<Rightarrow> nat \<Rightarrow> ('t, 'h, 'k) Round \<times> (ConnHandle \<times> 'o) list \<Rightarrow>
     (('t, 'h, 'k) Round \<times> (ConnHandle \<times> 'o) list) \<times> (ConnectionError, bool) result" where
  "spin_data dl min_run ws io post iters st =
     try_st (drain_data dl min_run ws io st) (\<lambda>st cqes.
       if cqes > 0 then
         try_st (drain_post_progress post round_failed (drain_data dl min_run ws io) st) (\<lambda>st _. (st, round_result (fst st) True))
       else if round_failed st then (st, round_result (fst st) False)
       else (case iters of 0 \<Rightarrow> (st, round_result (fst st) False) | Suc n \<Rightarrow> spin_data dl min_run ws io post n st))"

definition pump_data_spin_with ::
  "('h, 'o) Delivery \<Rightarrow> nat \<Rightarrow> ('t, 'h) Worlds \<Rightarrow> 'k Uring \<Rightarrow> nat \<Rightarrow> ('t, 'h, 'k) Pool \<Rightarrow>
     (('t, 'h, 'k) Pool \<times> (ConnHandle \<times> 'o) list) \<times> (ConnectionError, bool) result" where
  "pump_data_spin_with dl min_run ws io spin_iters p =
     pool_round p (
       try_st (with_out [] (start_round ws io p)) (\<lambda>st _.
         spin_data dl min_run ws io (po_post_progress_spin_iters p) spin_iters st))"

definition pump_data_spin_impl where "pump_data_spin_impl = pump_data_spin_with events_delivery 2"
definition pump_data_spin_marked_impl where "pump_data_spin_marked_impl = pump_data_spin_with marked_delivery 2"
definition pump_data_spin_batches_impl where "pump_data_spin_batches_impl = pump_data_spin_with batches_delivery 1"
definition pump_data_spin_marked_batches_impl where "pump_data_spin_marked_batches_impl = pump_data_spin_with marked_batches_delivery 1"

definition pump_data_spin where "pump_data_spin = pump_data_spin_impl"
definition pump_data_spin_marked where "pump_data_spin_marked = pump_data_spin_marked_impl"
definition pump_data_spin_batches where "pump_data_spin_batches = pump_data_spin_batches_impl"
definition pump_data_spin_marked_batches where "pump_data_spin_marked_batches = pump_data_spin_marked_batches_impl"

subsection \<open>Event pumps\<close>

text \<open>\<^verbatim>\<open>while let Some(res) = conn.ws.poll_event()\<close>, up to the first error.\<close>

function poll_events :: "Env \<Rightarrow> WsClient \<Rightarrow> WsEvent list \<Rightarrow> WsClient \<times> WsEvent list \<times> (WsError, unit) result" where
  "poll_events env c evs =
     (case poll_event env c of
        (d, Ok (Some ev)) \<Rightarrow> poll_events env d (evs @ [ev])
      | (d, Ok None) \<Rightarrow> (d, evs, Ok ())
      | (d, Err e) \<Rightarrow> (d, evs, Err e)
      | (d, Panic) \<Rightarrow> (d, evs, Panic))"
  by pat_completeness auto

termination poll_events
  by (relation "measure (\<lambda>(env, c, evs). rx_measure (cleared c))") (simp_all, metis poll_event_decreases)

declare poll_events.simps [simp del]

definition drain_conn_events ::
  "('t, 'h) Worlds \<Rightarrow> ('t, 'h) ConnectionState \<Rightarrow> 'k Shared \<times> (ConnHandle \<times> WsEvent) list \<times> bool \<Rightarrow>
     (('t, 'h) ConnectionState \<times> 'k Shared \<times> (ConnHandle \<times> WsEvent) list \<times> bool) \<times> (ConnectionError, unit) result" where
  "drain_conn_events ws conn st =
     (case st of (sh, out, progressed) \<Rightarrow>
        if cs_state conn = StClosed then ((clear_ws_ingress_dirty conn, st), Ok ())
        else
          case poll_events (wd_env (ws (conn_token conn))) (cs_ws conn) [] of
            (client, evs, r) \<Rightarrow>
              let out = out @ map (Pair (from_conn conn)) evs;
                  progressed = (progressed \<or> evs \<noteq> [] \<or> r \<noteq> Ok ());
                  conn = conn\<lparr>cs_ws := client\<rparr>
              in if r = Panic then ((conn, sh, out, progressed), Panic)
                 else
                   let (conn, sh) = (case r of Err e \<Rightarrow> fail_conn_and_account (CeWs e) (conn_is_active conn) (conn, sh) | _ \<Rightarrow> (conn, sh));
                       conn = clear_ws_ingress_dirty (sync_ws_close_state (sync_ws_open_state conn))
                   in ((conn, sh, out, progressed), Ok ()))"

definition drain_events ::
  "('t, 'h) Worlds \<Rightarrow> ('t, 'h, 'k) Round \<times> (ConnHandle \<times> WsEvent) list \<Rightarrow>
     (('t, 'h, 'k) Round \<times> (ConnHandle \<times> WsEvent) list) \<times> (ConnectionError, bool) result" where
  "drain_events ws st =
     (case st of ((slots, sh), out) \<Rightarrow>
        case each_conn (drain_conn_events ws) slots (sh, out, False) of
          ((slots, sh, out, progressed), r) \<Rightarrow> (((slots, sh), out), and_then r (\<lambda>_. Ok progressed)))"

definition drain_conn_completions ::
  "('t, 'h) Worlds \<Rightarrow> 'k Uring \<Rightarrow> ('t, 'h, 'k) Round \<times> (ConnHandle \<times> WsEvent) list \<Rightarrow>
     (('t, 'h, 'k) Round \<times> (ConnHandle \<times> WsEvent) list) \<times> (ConnectionError, nat) result" where
  "drain_conn_completions ws io st =
     try_st (with_out (snd st) (take_completions io (fst st))) (\<lambda>st cqes.
     try_st (route_completions ws io cqes st) (\<lambda>st _. (st, Ok (length cqes))))"

definition pump_impl ::
  "('t, 'h) Worlds \<Rightarrow> 'k Uring \<Rightarrow> nat \<Rightarrow> ('t, 'h, 'k) Pool \<Rightarrow>
     (('t, 'h, 'k) Pool \<times> (ConnHandle \<times> WsEvent) list) \<times> (ConnectionError, unit) result" where
  "pump_impl ws io wait_nr p =
     pool_round p (
       try_st (with_out [] (start_round ws io p)) (\<lambda>(st, out) _.
       try_st (with_out out (on_proactor (wait_for_cqe io wait_nr) st)) (\<lambda>st _.
       try_st (drain_conn_completions ws io st) (\<lambda>st _.
       try_st (drain_events ws st) (\<lambda>st _. (st, round_result (fst st) ()))))))"

definition pump where "pump ws io = pump_impl ws io 1"
definition pump_nowait where "pump_nowait ws io = pump_impl ws io 0"

fun spin_events ::
  "('t, 'h) Worlds \<Rightarrow> 'k Uring \<Rightarrow> nat \<Rightarrow> ('t, 'h, 'k) Round \<times> (ConnHandle \<times> WsEvent) list \<Rightarrow>
     (('t, 'h, 'k) Round \<times> (ConnHandle \<times> WsEvent) list) \<times> (ConnectionError, bool) result" where
  "spin_events ws io iters st =
     try_st (drain_conn_completions ws io st) (\<lambda>st cqes.
     try_st (drain_events ws st) (\<lambda>st polled.
       let progressed = (cqes > 0 \<or> polled) in
       if progressed \<or> round_failed st then (st, round_result (fst st) progressed)
       else (case iters of 0 \<Rightarrow> (st, round_result (fst st) progressed) | Suc n \<Rightarrow> spin_events ws io n st)))"

definition pump_spin_impl ::
  "('t, 'h) Worlds \<Rightarrow> 'k Uring \<Rightarrow> nat \<Rightarrow> ('t, 'h, 'k) Pool \<Rightarrow>
     (('t, 'h, 'k) Pool \<times> (ConnHandle \<times> WsEvent) list) \<times> (ConnectionError, bool) result" where
  "pump_spin_impl ws io spin_iters p =
     pool_round p (try_st (with_out [] (start_round ws io p)) (\<lambda>st _. spin_events ws io spin_iters st))"

definition pump_spin where "pump_spin = pump_spin_impl"

subsection \<open>Blocking connect\<close>

definition drive_open_once :: "('t, 'h) Worlds \<Rightarrow> 'k Uring \<Rightarrow> nat \<Rightarrow> ('t, 'h, 'k, unit) PoolOp" where
  "drive_open_once ws io wait_nr p =
     (case pool_round p (
         try_st (with_out [] (start_round ws io p)) (\<lambda>(st, out) _.
         try_st (with_out out (on_proactor (wait_for_cqe io wait_nr) st)) (\<lambda>st _.
         try_st (drain_conn_completions ws io st) (\<lambda>st _. (st, round_result (fst st) ()))))) of
        ((p, _), r) \<Rightarrow> (p, r))"

definition drive_target_handshake_event :: "('t, 'h) Worlds \<Rightarrow> u32 \<Rightarrow> ('t, 'h, 'k, unit) PoolOp" where
  "drive_target_handshake_event ws cid p =
     (case slot_at (po_conns p) cid of
        None \<Rightarrow> (p, Panic)
      | Some conn \<Rightarrow>
          if cs_state conn \<in> {StOpen, StClosed} then (p, Ok ())
          else
            let was_active = conn_is_active conn;
                put = (\<lambda>conn sh. p\<lparr>po_conns := (po_conns p)[unat cid := Some conn], po_active_count := sh_active_count sh\<rparr>);
                sh = snd (round_begin p)
            in case poll_event (wd_env (ws (conn_token conn))) (cs_ws conn) of
                 (client, Err e) \<Rightarrow>
                   (case fail_conn_and_account (CeWs e) was_active (conn\<lparr>cs_ws := client\<rparr>, sh) of
                      (conn, sh) \<Rightarrow> (put conn sh, case sh_first_err sh of Some e \<Rightarrow> Err e | None \<Rightarrow> Panic))
               | (client, Panic) \<Rightarrow> (put (conn\<lparr>cs_ws := client\<rparr>) sh, Panic)
               | (client, Ok _) \<Rightarrow>
                   let conn = sync_ws_close_state (sync_ws_open_state (conn\<lparr>cs_ws := client\<rparr>))
                   in (put conn (account_closed_transition was_active conn sh), Ok ()))"

text \<open>The loop of \<^verbatim>\<open>drive_conn_until_open\<close> waits for the peer and need not end: \<open>fuel\<close> bounds the number of
  iterations, and the value is \<^const>\<open>None\<close> when it is used up.\<close>

fun drive_conn_until_open ::
  "('t, 'h) Worlds \<Rightarrow> 'k Uring \<Rightarrow> u32 \<Rightarrow> nat \<Rightarrow> ('t, 'h, 'k) Pool \<Rightarrow> (('t, 'h, 'k) Pool \<times> (ConnectionError, unit) result) option" where
  "drive_conn_until_open ws io cid 0 p = None"
| "drive_conn_until_open ws io cid (Suc fuel) p =
     (case try_st (drive_open_once ws io 1 p) (\<lambda>p _. drive_target_handshake_event ws cid p) of
        (p, Err e) \<Rightarrow> Some (p, Err e)
      | (p, Panic) \<Rightarrow> Some (p, Panic)
      | (p, Ok _) \<Rightarrow>
          (case slot_at (po_conns p) cid of
             None \<Rightarrow> Some (p, Panic)
           | Some conn \<Rightarrow>
               let conn = sync_ws_open_state conn; p = p\<lparr>po_conns := (po_conns p)[unat cid := Some conn]\<rparr>
               in if cs_state conn = StOpen then Some (p, Ok ())
                  else if cs_state conn = StClosed then Some (p, Err CePeerClosed)
                  else drive_conn_until_open ws io cid fuel p))"

definition open_or_retire ::
  "('t, 'h) Worlds \<Rightarrow> 'k Uring \<Rightarrow> nat \<Rightarrow> ('t, 'h, 'k) Pool \<times> (ConnectionError, ConnHandle) result \<Rightarrow>
     (('t, 'h, 'k) Pool \<times> (ConnectionError, ConnHandle) result) option" where
  "open_or_retire ws io fuel res =
     (case res of
        (p, Ok h) \<Rightarrow>
          (case drive_conn_until_open ws io (as_u32 h) fuel p of
             None \<Rightarrow> None
           | Some (p, Ok _) \<Rightarrow> Some (p, Ok h)
           | Some (p, Err e) \<Rightarrow>
               Some (case retire_slot io (as_u32 h) (Some (handle_generation h)) p of (p, Panic) \<Rightarrow> (p, Panic) | (p, _) \<Rightarrow> (p, Err e))
           | Some (p, Panic) \<Rightarrow> Some (p, Panic))
      | (p, Err e) \<Rightarrow> Some (p, Err e)
      | (p, Panic) \<Rightarrow> Some (p, Panic))"

definition connect_blocking_to where
  "connect_blocking_to ws io cfg addr fuel p = open_or_retire ws io fuel (submit_connect_to ws io cfg addr p)"

definition reconnect_to where
  "reconnect_to ws io old cfg addr fuel p = open_or_retire ws io fuel (submit_reconnect_to ws io old cfg addr p)"

definition connect_blocking where
  "connect_blocking dns ws io cfg fuel p =
     (case resolve_addr dns cfg of
        Ok addr \<Rightarrow> connect_blocking_to ws io cfg addr fuel p | Err e \<Rightarrow> Some (p, Err e) | Panic \<Rightarrow> Some (p, Panic))"

definition reconnect where
  "reconnect dns ws io old cfg fuel p =
     (case resolve_addr dns cfg of
        Ok addr \<Rightarrow> reconnect_to ws io old cfg addr fuel p | Err e \<Rightarrow> Some (p, Err e) | Panic \<Rightarrow> Some (p, Panic))"

subsection \<open>Dropping the pool\<close>

text \<open>Every ring is taken from its connection and unregistered before the proactor goes; the outcome of its own
  drop is what then happens to its memory.\<close>

definition drop_conn ::
  "'k Uring \<Rightarrow> ('t, 'h) ConnectionState \<Rightarrow> 'k \<times> DropOutcome list \<Rightarrow> (('t, 'h) ConnectionState \<times> 'k \<times> DropOutcome list) \<times> ('e, unit) result" where
  "drop_conn io conn st =
     (case st of (k, outcomes) \<Rightarrow>
        case cs_buf_ring conn of
          None \<Rightarrow> ((conn, st), Ok ())
        | Some ring \<Rightarrow>
            (case ring_unregister io ring k of
               (k, ring, r) \<Rightarrow>
                 ((conn\<lparr>cs_buf_ring := None\<rparr>, k, outcomes @ [ring_drop ring]), if r = Panic then Panic else Ok ())))"

definition pool_drop :: "'k Uring \<Rightarrow> ('t, 'h, 'k) Pool \<Rightarrow> (('t, 'h) Slots \<times> 'k \<times> DropOutcome list) \<times> ('e, unit) result" where
  "pool_drop io p = each_conn (drop_conn io) (po_conns p) (po_proactor p, [])"

end
