(* ===== verification/Pool_Rounds.thy ===== *)
theory Pool_Rounds
  imports Pool
begin

text \<open>
  Rounds of work in the pool: handlers keep what identifies a connection, a round touches only the
  connections its completions belong to, and what it hands out carries their handles.
\<close>

subsection \<open>Handlers keep what identifies a connection\<close>

lemma fixed_recycle: "conn_recycle bid c = Ok d \<Longrightarrow> fixed_part d = fixed_part c"
  by (rule send_part_fixed) (rule send_part_recycle)

lemma fixed_begin: "begin_ws c = (d, r) \<Longrightarrow> fixed_part d = fixed_part c"
  by (rule send_part_fixed) (rule send_part_begin)

lemma fixed_updates [simp]:
  "fixed_part (c\<lparr>cs_state := s\<rparr>) = fixed_part c" "fixed_part (c\<lparr>cs_multishot_armed := b\<rparr>) = fixed_part c"
  "fixed_part (c\<lparr>cs_buf_ring := ring\<rparr>) = fixed_part c" "fixed_part (c\<lparr>cs_ws := client\<rparr>) = fixed_part c"
  "fixed_part (c\<lparr>cs_send_inflight := b\<rparr>) = fixed_part c" "fixed_part (c\<lparr>cs_send_head := n\<rparr>) = fixed_part c"
  "fixed_part (c\<lparr>cs_send_buf := bs\<rparr>) = fixed_part c" "fixed_part (c\<lparr>cs_tls := tls\<rparr>) = fixed_part c"
  "fixed_part (c\<lparr>cs_tls_pending_out := bs\<rparr>) = fixed_part c" "fixed_part (c\<lparr>cs_clock_reads := n\<rparr>) = fixed_part c"
  "fixed_part (c\<lparr>cs_plain_recv_batch_scratch := bs\<rparr>) = fixed_part c"
  by (simp_all add: fixed_part_def)

lemma fixed_records [simp]:
  "fixed_part (record_recv_data n c) = fixed_part c" "fixed_part (record_recv_multishot_rearm c) = fixed_part c"
  "fixed_part (record_recv_ring_exhaustion c) = fixed_part c" "fixed_part (record_plain_recv_batch u v c) = fixed_part c"
  "fixed_part (record_plaintext x y c) = fixed_part c" "fixed_part (record_ws_data_drains x y c) = fixed_part c"
  "fixed_part (record_ws_data_events x y c) = fixed_part c" "fixed_part (clear_ws_ingress_dirty c) = fixed_part c"
  "fixed_part (sync_ws_close_state c) = fixed_part c" "fixed_part (sync_ws_open_state c) = fixed_part c"
  "fixed_part (rx_end rx c) = fixed_part c"
  by (rule send_part_fixed, simp)+

lemma fixed_token: "fixed_part d = fixed_part c \<Longrightarrow> conn_token d = conn_token c"
  by (simp add: fixed_part_def conn_token_def)

lemma fixed_connect: "on_connect_cqe io cqe (c, k) = ((d, k'), r) \<Longrightarrow> fixed_part d = fixed_part c"
  by (auto simp: on_connect_cqe_def Let_def dest!: fixed_begin elim!: try_st_cases
      split: prod.splits result.splits if_splits)

lemma fixed_send: "on_send_cqe cqe c = (d, r) \<Longrightarrow> fixed_part d = fixed_part c"
  by (auto simp: on_send_cqe_def Let_def split: result.splits if_splits)

lemma fixed_discard: "discard_completion_after_closed fl kind cqe c = Ok d \<Longrightarrow> fixed_part d = fixed_part c"
  by (auto simp: discard_completion_after_closed_def discard_recv_completion_after_closed_def Let_def and_then_eq_Ok_iff
      split: OpKind.splits option.splits result.splits if_splits)

lemma fixed_completion: "handle_completion w io cqe (c, k) = ((d, k'), r) \<Longrightarrow> fixed_part d = fixed_part c"
  by (auto simp: handle_completion_def
      dest: fixed_connect fixed_send send_part_recv [THEN send_part_fixed] fixed_discard
      split: option.splits result.splits if_splits OpKind.splits prod.splits)

lemma fixed_data: "handle_data dl w io cqe (c, k) = (((d, k'), out), r) \<Longrightarrow> fixed_part d = fixed_part c"
proof (cases "ud_kind (co_user_data cqe) \<noteq> Some OpRecv \<or> cs_state c = StClosed")
  case True
  moreover assume "handle_data dl w io cqe (c, k) = (((d, k'), out), r)"
  ultimately show ?thesis
    by (cases "handle_completion w io cqe (c, k)") (auto simp: handle_data_other no_data_def dest: fixed_completion)
next
  case False
  moreover assume "handle_data dl w io cqe (c, k) = (((d, k'), out), r)"
  ultimately show ?thesis
    by (auto simp: handle_data_def dest: send_part_data [THEN send_part_fixed] split: prod.splits)
qed

lemma fixed_batch_step:
  assumes "plain_batch_step dl w io k cqe (c, rx, e) = (Ok (d, rx', e') :: ('e, _) result)"
  shows "fixed_part d = fixed_part c"
proof -
  define c1 where "c1 = (if \<not> has_more (io_flags io) cqe then c\<lparr>cs_multishot_armed := False\<rparr> else c)"
  have c1: "fixed_part c1 = fixed_part c" by (simp add: c1_def)
  obtain m c2 where mk: "recv_mark dl w (c1\<lparr>cs_clock_reads := rx_clock rx\<rparr>) = (m, c2)" by force
  have c2: "fixed_part c2 = fixed_part c" using send_part_fixed [OF send_part_mark [OF mk]] c1 by simp
  show ?thesis
  proof (cases "\<exists>b n. buffer_id (io_flags io) cqe = Some b \<and> to_result cqe = Ok n \<and> n \<noteq> 0 \<and> e = None")
    case False
    then have "fixed_part d = fixed_part c1 \<or> fixed_part d = fixed_part c2"
      using assms unfolding plain_batch_step_def prod.case c1_def [symmetric] Let_def mk
      by (auto simp: and_then_eq_Ok_iff dest!: fixed_recycle split: option.split_asm result.split_asm if_split_asm)
    then show ?thesis using c1 c2 by auto
  next
    case True
    then obtain b n where b: "buffer_id (io_flags io) cqe = Some b" "to_result cqe = Ok n" "n \<noteq> 0" "e = None" by blast
    define c3 where "c3 = record_recv_data n c2"
    obtain data where data: "conn_bytes io k b n c3 = (Ok data :: ('e, bytes) result)"
      using assms b unfolding plain_batch_step_def prod.case c1_def [symmetric] Let_def mk
      by (auto simp: and_then_eq_Ok_iff c3_def)
    define rx1 where "rx1 = rx\<lparr>rx_clock := cs_clock_reads c2\<rparr>"
    obtain rx3 q where dv: "rx_deliver dl w (plaintext_ready_at m (dm_transport_recv_mono_nanos m) 0) data
        (rx1\<lparr>rx_chunks := saturating_add (rx_chunks rx1) 1, rx_bytes := saturating_add (rx_bytes rx1) (word_of_nat n)\<rparr>) = (rx3, q)"
      by force
    have "fixed_part d = fixed_part c3"
      using assms b data dv unfolding plain_batch_step_def prod.case c1_def [symmetric] Let_def mk rx1_def [symmetric] c3_def
      by (cases q) (auto simp: and_then_eq_Ok_iff dest!: fixed_recycle)
    then show ?thesis using c2 by (simp add: c3_def)
  qed
qed

lemma fixed_batch_loop: "plain_batch_loop dl w io k cqes (c, rx, e) = Ok (d, rx', e') \<Longrightarrow> fixed_part d = fixed_part c"
proof (induction cqes arbitrary: c rx e)
  case (Cons cqe cqes)
  then show ?case by (auto simp: and_then_eq_Ok_iff dest!: fixed_batch_step)
qed simp

lemma fixed_copy: "copy_batch io k cqes (c, n) = ((d, n'), r) \<Longrightarrow> fixed_part d = fixed_part c"
proof (induction cqes arbitrary: c n)
  case (Cons cqe cqes)
  then show ?case
    by (auto simp: Let_def dest!: fixed_recycle split: option.splits result.splits if_splits)
qed simp

lemma fixed_batch: "plain_batch dl w io k cqes c = ((d, out), r) \<Longrightarrow> fixed_part d = fixed_part c"
  unfolding plain_batch_def plain_batch_copied_def plain_batch_slices_def
  by (auto simp: Let_def dest!: fixed_copy fixed_batch_loop split: option.splits result.splits prod.splits)

lemma fixed_flush: "try_submit_send w io (c, k) = ((d, k'), r) \<Longrightarrow> fixed_part d = fixed_part c \<and> cs_state d = cs_state c"
proof -
  have eg: "fixed_part e = fixed_part b \<and> cs_state e = cs_state b" if "stage_egress w src b a = (e, q)" for b e a src q
    using that by (auto simp: stage_egress_def split: prod.splits)
  have own: "fixed_part e = fixed_part b \<and> cs_state e = cs_state b" if "stage_tls_own w b = (e, q)" for b e q
    using that by (auto simp: stage_tls_own_def dest: eg split: option.splits)
  have tx: "fixed_part e = fixed_part b \<and> cs_state e = cs_state b" if "stage_ws_tx w b = (e, q)" for b e q
    using that by (auto simp: stage_ws_tx_def Let_def elim!: try_st_cases dest!: eg split: option.splits if_splits)
  have st: "fixed_part e = fixed_part b \<and> cs_state e = cs_state b" if "stage_send w b = (e, q)" for b e q
    using that
    by (auto simp: stage_send_def compact_send_buf_if_needed_def stage_tls_pending_def elim!: try_st_cases dest!: tx own
        split: result.splits if_splits)
  have sub: "fixed_part e = fixed_part b \<and> cs_state e = cs_state b" if "submit_staged io (b, k) = ((e, k2), q)" for b e k k2 q
    using that by (auto simp: submit_staged_def Let_def split: if_splits prod.splits result.splits)
  assume f: "try_submit_send w io (c, k) = ((d, k'), r)"
  obtain c1 q where s: "stage_send w c = (c1, q)" by force
  show ?thesis
    using f st [OF s] sub [of c1 k d k' r] unfolding try_submit_send_def by (cases q) (auto simp: s split: if_splits)
qed

lemma fixed_rearm: "try_rearm_multishot io (c, k) = ((d, k'), r) \<Longrightarrow> fixed_part d = fixed_part c \<and> cs_state d = cs_state c"
  by (auto simp: try_rearm_multishot_def split: if_splits option.splits result.splits prod.splits)

subsection \<open>What a round leaves of the slot table\<close>

definition table :: "('t, 'h) Slots \<Rightarrow> (ConnectionRuntimeIdentity \<times> ConnectionConfig \<times> RawFd) option list" where
  "table slots = map (map_option fixed_part) slots"

text \<open>A step that touches only connections with a token in \<open>T\<close>: the others stay as they are, and no connection
  appears, disappears or changes its identity.\<close>

definition touches :: "u64 set \<Rightarrow> ('t, 'h) Slots \<Rightarrow> ('t, 'h) Slots \<Rightarrow> bool" where
  "touches T slots slots' \<longleftrightarrow>
     table slots' = table slots \<and> (\<forall>j c. j < length slots \<and> slots ! j = Some c \<and> conn_token c \<notin> T \<longrightarrow> slots' ! j = Some c)"

lemma length_table [simp]: "length (table slots) = length slots"
  by (simp add: table_def)

lemma table_length: "table slots' = table slots \<Longrightarrow> length slots' = length slots"
  by (metis length_table)

lemma table_nth: "table slots' = table slots \<Longrightarrow> j < length slots \<Longrightarrow> map_option fixed_part (slots' ! j) = map_option fixed_part (slots ! j)"
  using table_length [of slots' slots] unfolding table_def by (metis nth_map)

lemma table_SomeD:
  assumes "table slots' = table slots" and "j < length slots" and "slots' ! j = Some d"
  shows "\<exists>c. slots ! j = Some c \<and> fixed_part d = fixed_part c"
  using table_nth [OF assms(1,2)] assms(3) by (auto simp: map_option_case split: option.splits)

lemma touches_refl [simp]: "touches T slots slots"
  by (simp add: touches_def)

lemma touches_trans: "touches T a b \<Longrightarrow> touches T b c \<Longrightarrow> touches T a c"
  unfolding touches_def using table_length by metis

lemma touches_mono: "touches T a b \<Longrightarrow> T \<subseteq> U \<Longrightarrow> touches U a b"
  unfolding touches_def by blast

lemma touches_update:
  assumes "i < length slots" and "slots ! i = Some c" and "fixed_part d = fixed_part c" and "conn_token c \<in> T"
  shows "touches T slots (slots[i := Some d])"
proof -
  have "table (slots[i := Some d]) = table slots"
    unfolding table_def using assms(1-3) by (intro nth_equalityI) (auto simp: nth_list_update)
  then show ?thesis using assms unfolding touches_def by (metis nth_list_update_neq option.inject)
qed

lemma conn_for_completionD:
  assumes "conn_for_completion slots cqe = Some (i, c)"
  shows "i < length slots" "slots ! i = Some c" "conn_token c = completion_token cqe" "i = unat (token_conn_id (completion_token cqe))"
  using assms by (auto simp: conn_for_completion_def slot_at_def Let_def split: option.splits if_splits)

lemma each_conn_table:
  assumes "\<And>c s d s' r. f c s = ((d, s'), r) \<Longrightarrow> fixed_part d = fixed_part c"
  shows "each_conn f slots s = ((slots', s'), r) \<Longrightarrow> table slots' = table slots"
proof (induction slots arbitrary: s slots' s' r)
  case (Cons slot slots)
  show ?case
  proof (cases slot)
    case None
    then show ?thesis using Cons by (auto simp: table_def split: prod.splits)
  next
    case (Some conn)
    obtain d s1 q where f: "f conn s = ((d, s1), q)" by (metis surj_pair)
    then show ?thesis
      using Cons Some assms [OF f] by (cases q) (auto simp: table_def split: prod.splits)
  qed
qed (simp add: table_def)

text \<open>Handlers that keep the identity of their connection.\<close>

definition keeps_identity :: "(('t, 'h, 'k) Conn \<Rightarrow> (('t, 'h, 'k) Conn \<times> 'o list) \<times> (ConnectionError, 'r) result) \<Rightarrow> bool" where
  "keeps_identity handle \<longleftrightarrow> (\<forall>c k d k' new r. handle (c, k) = (((d, k'), new), r) \<longrightarrow> fixed_part d = fixed_part c)"

lemma keeps_identity_handlers:
  "keeps_identity (\<lambda>c. case handle_completion w io cqe c of (c, r) \<Rightarrow> ((c, []), r))"
  "keeps_identity (handle_data dl w io cqe)"
  "keeps_identity (\<lambda>(c, k). case plain_batch dl w io k cqes c of ((c, out), r) \<Rightarrow> (((c, k), out), r))"
  unfolding keeps_identity_def by (auto dest: fixed_completion fixed_data fixed_batch split: prod.splits)

lemma finish_fixed: "finish_conn_result q was (c, sh) = ((d, sh'), r) \<Longrightarrow> fixed_part d = fixed_part c"
  by (auto simp: finish_conn_result_def fail_conn_and_account_def fail_conn_def Let_def split: result.splits)

text \<open>Handles of the given tokens, paired with what was handed out.\<close>

definition outputs_of :: "u64 set \<Rightarrow> (ConnHandle \<times> 'o) list \<Rightarrow> (ConnHandle \<times> 'o) list \<Rightarrow> bool" where
  "outputs_of T out out' \<longleftrightarrow> (\<exists>new. out' = out @ new \<and> (\<forall>(h, x) \<in> set new. as_u64 h \<in> T))"

lemma outputs_of_refl [simp]: "outputs_of T out out"
  by (simp add: outputs_of_def)

lemma outputs_of_trans: "outputs_of T a b \<Longrightarrow> outputs_of T b c \<Longrightarrow> outputs_of T a c"
  unfolding outputs_of_def by fastforce

lemma outputs_of_mono: "outputs_of T a b \<Longrightarrow> T \<subseteq> U \<Longrightarrow> outputs_of U a b"
  unfolding outputs_of_def by blast

lemma at_conn_touches:
  assumes keeps: "keeps_identity handle"
    and f: "conn_for_completion slots cqe = Some (i, conn)"
    and a: "at_conn handle i conn ((slots, sh), out) = (((slots', sh'), out'), r)"
  shows "touches {completion_token cqe} slots slots'" and "outputs_of {completion_token cqe} out out'"
proof -
  note f' = conn_for_completionD [OF f]
  obtain d k new q where h: "handle (conn, sh_proactor sh) = (((d, k), new), q)" by (metis surj_pair)
  obtain e sh2 r2 where fin: "finish_conn_result q (conn_is_active conn) (d, sh\<lparr>sh_proactor := k\<rparr>) = ((e, sh2), r2)" by (metis surj_pair)
  have "fixed_part e = fixed_part conn" using finish_fixed [OF fin] keeps h unfolding keeps_identity_def by metis
  then have "touches {completion_token cqe} slots (slots[i := Some e])" using touches_update [OF f'(1,2)] f'(3) by simp
  moreover have "slots' = slots[i := Some e]" "out' = out @ map (Pair (ConnHandle (completion_token cqe))) new"
    using a by (auto simp: at_conn_def h fin Let_def from_conn_def f'(3))
  ultimately show "touches {completion_token cqe} slots slots'" and "outputs_of {completion_token cqe} out out'"
    by (auto simp: outputs_of_def)
qed

text \<open>The tokens of completions that belong to a connection of the table.\<close>

definition tokens :: "('t, 'h) Slots \<Rightarrow> u64 set" where
  "tokens slots = {conn_token c | c. Some c \<in> set slots}"

definition matched :: "('t, 'h) Slots \<Rightarrow> Completion list \<Rightarrow> u64 set" where
  "matched slots cqes = completion_token ` set cqes \<inter> tokens slots"

lemma tokens_table:
  fixes slots slots' :: "('t, 'h) Slots"
  shows "table slots' = table slots \<Longrightarrow> tokens slots' = tokens slots"
proof -
  have "tokens b \<subseteq> tokens a" if t: "table b = table a" for a b :: "('t, 'h) Slots"
  proof
    fix x assume "x \<in> tokens b"
    then obtain d j where d: "b ! j = Some d" "j < length b" "x = conn_token d" by (auto simp: tokens_def in_set_conv_nth)
    moreover have "j < length a" using d(2) table_length [OF t] by simp
    ultimately obtain c where "a ! j = Some c" "conn_token d = conn_token c" using table_SomeD [OF t] fixed_token by blast
    then show "x \<in> tokens a" using \<open>j < length a\<close> d(3) unfolding tokens_def by (metis (mono_tags, lifting) mem_Collect_eq nth_mem)
  qed
  then show "table slots' = table slots \<Longrightarrow> tokens slots' = tokens slots" by (metis subset_antisym)
qed

lemma touches_step:
  assumes "touches {completion_token cqe} slots slots1 \<and> outputs_of {completion_token cqe} out out1"
    and "touches (matched slots1 cqes) slots1 slots' \<and> outputs_of (matched slots1 cqes) out1 out'"
    and "set cqes \<subseteq> set more_cqes" and "conn_for_completion slots cqe = Some ic"
  shows "touches (matched slots (cqe # more_cqes)) slots slots' \<and> outputs_of (matched slots (cqe # more_cqes)) out out'"
proof -
  have "tokens slots1 = tokens slots" using assms(1) tokens_table unfolding touches_def by metis
  then have sub: "matched slots1 cqes \<subseteq> matched slots (cqe # more_cqes)" using assms(3) by (auto simp: matched_def)
  obtain i conn where "conn_for_completion slots cqe = Some (i, conn)" using assms(4) by (cases ic) simp
  then have "Some conn \<in> set slots" "conn_token conn = completion_token cqe"
    using conn_for_completionD [of slots cqe i conn] by (metis nth_mem)+
  then have here: "{completion_token cqe} \<subseteq> matched slots (cqe # more_cqes)" unfolding matched_def tokens_def by force
  show ?thesis
    using touches_trans [OF touches_mono [OF conjunct1 [OF assms(1)] here] touches_mono [OF conjunct1 [OF assms(2)] sub]]
      outputs_of_trans [OF outputs_of_mono [OF conjunct2 [OF assms(1)] here] outputs_of_mono [OF conjunct2 [OF assms(2)] sub]]
    by (rule conjI)
qed

lemma touches_skip:
  assumes "touches (matched slots cqes) slots slots' \<and> outputs_of (matched slots cqes) out out'"
  shows "touches (matched slots (cqe # cqes)) slots slots' \<and> outputs_of (matched slots (cqe # cqes)) out out'"
proof -
  have "matched slots cqes \<subseteq> matched slots (cqe # cqes)" by (auto simp: matched_def)
  then show ?thesis using assms touches_mono outputs_of_mono by blast
qed

lemma route_touches:
  "route_completions ws io cqes ((slots, sh), out) = (((slots', sh'), out'), r) \<Longrightarrow>
     touches (matched slots cqes) slots slots' \<and> outputs_of (matched slots cqes) out out'"
proof (induction cqes arbitrary: slots sh out)
  case (Cons cqe cqes)
  show ?case
  proof (cases "conn_for_completion slots cqe")
    case None
    then have "route_completions ws io cqes ((slots, sh), out) = (((slots', sh'), out'), r)" using Cons.prems by simp
    from touches_skip [OF Cons.IH [OF this]] show ?thesis .
  next
    case (Some ic)
    obtain i conn where ic: "ic = (i, conn)" by force
    let ?h = "\<lambda>c. case handle_completion (ws (conn_token conn)) io cqe c of (c, r) \<Rightarrow> ((c, []), r)"
    obtain slots1 sh1 out1 q where a: "at_conn ?h i conn ((slots, sh), out) = (((slots1, sh1), out1), q)" by (metis surj_pair)
    have one: "touches {completion_token cqe} slots slots1 \<and> outputs_of {completion_token cqe} out out1"
      using at_conn_touches [OF keeps_identity_handlers(1) Some [unfolded ic] a] by simp
    have go: "try_st (((slots1, sh1), out1), q) (\<lambda>st _. route_completions ws io cqes st) = (((slots', sh'), out'), r)"
      using Cons.prems a Some ic by simp
    show ?thesis
    proof (cases q)
      case (Ok u)
      then have "route_completions ws io cqes ((slots1, sh1), out1) = (((slots', sh'), out'), r)" using go by simp
      from touches_step [OF one Cons.IH [OF this] subset_refl Some] show ?thesis .
    qed (use go touches_step [OF one, of "[]" slots1 out1 cqes ic] Some in simp_all)
  qed
qed simp

lemma dispatch_touches:
  "dispatch_data dl min_run ws io cqes ((slots, sh), out) = (((slots', sh'), out'), r) \<Longrightarrow>
     touches (matched slots cqes) slots slots' \<and> outputs_of (matched slots cqes) out out'"
proof (induction "length cqes" arbitrary: cqes slots sh out rule: less_induct)
  case less
  show ?case
  proof (cases cqes)
    case Nil
    then show ?thesis using less.prems by simp
  next
    case (Cons cqe rest)
    have again: "touches (matched slots1 later) slots1 slots' \<and> outputs_of (matched slots1 later) out1 out'"
      if "dispatch_data dl min_run ws io later ((slots1, sh1), out1) = (((slots', sh'), out'), r)" "length later \<le> length rest"
      for later slots1 sh1 out1
      using less.hyps [OF _ that(1)] that(2) Cons by simp
    show ?thesis
    proof (cases "conn_for_completion slots cqe")
      case None
      then have "dispatch_data dl min_run ws io rest ((slots, sh), out) = (((slots', sh'), out'), r)" using less.prems Cons by simp
      from touches_skip [OF again [OF this order_refl], of cqe] show ?thesis using Cons by simp
    next
      case (Some ic)
      obtain i conn where ic: "ic = (i, conn)" by force
      note found = Some [unfolded ic]
      let ?w = "ws (conn_token conn)" and ?run = "batch_run (io_flags io) conn cqe rest"
      define batch where "batch = (can_handle_plain_recv_data_batch (io_flags io) cqe conn \<and> min_run \<le> Suc (length ?run))"
      define handle where "handle = (if batch
        then (\<lambda>(c, k). case plain_batch dl ?w io k (cqe # ?run) c of ((c, out), r) \<Rightarrow> (((c, k), out), r)) else handle_data dl ?w io cqe)"
      define later where "later = (if batch then drop (length ?run) rest else rest)"
      have keeps: "keeps_identity handle" by (simp add: handle_def keeps_identity_handlers)
      obtain slots1 sh1 out1 q where a: "at_conn handle i conn ((slots, sh), out) = (((slots1, sh1), out1), q)" by (metis surj_pair)
      have go: "try_st (((slots1, sh1), out1), q) (\<lambda>st _. dispatch_data dl min_run ws io later st) = (((slots', sh'), out'), r)"
        using less.prems a found by (auto simp: Cons Let_def later_def handle_def batch_def split: if_splits)
      have one: "touches {completion_token cqe} slots slots1 \<and> outputs_of {completion_token cqe} out out1"
        using at_conn_touches [OF keeps found a] by simp
      have later: "set later \<subseteq> set rest" "length later \<le> length rest"
        by (auto simp: later_def dest: in_set_dropD)
      show ?thesis
      proof (cases q)
        case (Ok u)
        then have "dispatch_data dl min_run ws io later ((slots1, sh1), out1) = (((slots', sh'), out'), r)" using go by simp
        from touches_step [OF one again [OF this later(2)] later(1) found] show ?thesis by (simp add: Cons)
      qed (use go touches_step [OF one, of "[]" slots1 out1 rest] found in \<open>simp_all add: Cons\<close>)
    qed
  qed
qed

subsection \<open>Counting active connections\<close>

definition weight :: "('t, 'h) ConnectionState \<Rightarrow> nat" where
  "weight c = (if conn_is_active c then 1 else 0)"

fun active :: "('t, 'h) Slots \<Rightarrow> nat" where
  "active [] = 0"
| "active (None # slots) = active slots"
| "active (Some c # slots) = weight c + active slots"

lemma active_append [simp]: "active (a @ b) = active a + active b"
  by (induction a rule: active.induct) simp_all

lemma active_put: "i < length slots \<Longrightarrow> active (slots[i := Some d]) + active [slots ! i] = active slots + weight d"
proof -
  assume i: "i < length slots"
  have s: "slots = take i slots @ [slots ! i] @ drop (Suc i) slots" using i by (simp add: id_take_nth_drop)
  have "slots[i := Some d] = take i slots @ [Some d] @ drop (Suc i) slots" using i by (simp add: upd_conv_take_nth_drop)
  then show ?thesis using arg_cong [OF s, of active] by (simp only: active_append active.simps)
qed

lemma active_take: "i < length slots \<Longrightarrow> active (slots[i := None]) + active [slots ! i] = active slots"
proof -
  assume i: "i < length slots"
  have s: "slots = take i slots @ [slots ! i] @ drop (Suc i) slots" using i by (simp add: id_take_nth_drop)
  have "slots[i := None] = take i slots @ [None] @ drop (Suc i) slots" using i by (simp add: upd_conv_take_nth_drop)
  then show ?thesis using arg_cong [OF s, of active] by (simp only: active_append active.simps)
qed

text \<open>One connection goes from \<open>c\<close> to \<open>d\<close>: beside \<open>n\<close> other active ones, the count does not get ahead.\<close>

definition accounted :: "nat \<Rightarrow> u32 \<Rightarrow> nat \<Rightarrow> u32 \<Rightarrow> bool" where
  "accounted m act m' act' \<longleftrightarrow> (\<forall>n. unat act \<le> n + m \<longrightarrow> unat act' \<le> n + m')"

lemma accounted_keep: "m \<le> m' \<Longrightarrow> accounted m act m' act"
  by (auto simp: accounted_def)

lemma accounted_pred: "m \<le> Suc m' \<Longrightarrow> accounted m act m' (saturating_sub act 1)"
  by (auto simp: accounted_def unat_saturating_sub)

lemma weight_le: "weight c \<le> 1" "weight c = 0 \<longleftrightarrow> \<not> conn_is_active c"
  by (simp_all add: weight_def)

lemma fail_accounted:
  assumes "fail_conn_and_account e was (c, sh) = (d, sh')" and "was = conn_is_active b"
  shows "accounted (weight b) (sh_active_count sh) (weight d) (sh_active_count sh')"
  using assms
  by (auto simp: fail_conn_and_account_def fail_conn_def weight_def intro!: accounted_keep accounted_pred split: if_splits)

lemma finish_accounted:
  assumes "finish_conn_result q was (c, sh) = ((d, sh'), r)" and "was = conn_is_active b" and "r \<noteq> Panic"
  shows "accounted (weight b) (sh_active_count sh) (weight d) (sh_active_count sh')"
proof (cases q)
  case (Ok v)
  then show ?thesis
    using assms by (auto simp: finish_conn_result_def Let_def account_closed_transition_def weight_def intro!: accounted_keep accounted_pred split: if_splits)
next
  case (Err e)
  then show ?thesis using assms fail_accounted [of e was c sh d sh' b] by (simp add: finish_conn_result_def)
qed (use assms in \<open>simp add: finish_conn_result_def\<close>)

text \<open>What a round keeps: the table, and that the count stays within the number of active connections.\<close>

definition round_keeps :: "('t, 'h, 'k) Round \<Rightarrow> ('t, 'h, 'k) Round \<Rightarrow> bool" where
  "round_keeps st st' \<longleftrightarrow>
     table (fst st') = table (fst st) \<and>
     (unat (sh_active_count (snd st)) \<le> active (fst st) \<longrightarrow> unat (sh_active_count (snd st')) \<le> active (fst st'))"

lemma round_keeps_refl [simp]: "round_keeps st st"
  by (simp add: round_keeps_def)

lemma round_keeps_trans: "round_keeps a b \<Longrightarrow> round_keeps b c \<Longrightarrow> round_keeps a c"
  by (simp add: round_keeps_def)

lemma round_keeps_put:
  assumes "i < length slots" and "slots ! i = Some c" and "fixed_part d = fixed_part c"
    and "accounted (weight c) (sh_active_count sh) (weight d) (sh_active_count sh')"
  shows "round_keeps (slots, sh) (slots[i := Some d], sh')"
proof -
  have t: "table (slots[i := Some d]) = table slots"
    using touches_update [OF assms(1-3), of UNIV] by (simp add: touches_def)
  have a: "active (slots[i := Some d]) + weight c = active slots + weight d" using active_put [OF assms(1), of d] assms(2) by simp
  have "unat (sh_active_count sh') \<le> active (slots[i := Some d])" if "unat (sh_active_count sh) \<le> active slots"
  proof -
    have "unat (sh_active_count sh) \<le> (active slots - weight c) + weight c" using that by simp
    then have "unat (sh_active_count sh') \<le> (active slots - weight c) + weight d" using assms(4) unfolding accounted_def by blast
    moreover have "weight c \<le> active slots" using active_take [OF assms(1)] assms(2) by simp
    ultimately show ?thesis using a by simp
  qed
  then show ?thesis using t by (simp add: round_keeps_def)
qed

lemma at_conn_keeps:
  assumes keeps: "keeps_identity handle"
    and f: "conn_for_completion slots cqe = Some (i, conn)"
    and a: "at_conn handle i conn ((slots, sh), out) = ((st', out'), r)" and "r \<noteq> Panic"
  shows "round_keeps (slots, sh) st'"
proof -
  note f' = conn_for_completionD [OF f]
  obtain d k new q where h: "handle (conn, sh_proactor sh) = (((d, k), new), q)" by (metis surj_pair)
  obtain e sh2 r2 where fin: "finish_conn_result q (conn_is_active conn) (d, sh\<lparr>sh_proactor := k\<rparr>) = ((e, sh2), r2)" by (metis surj_pair)
  have e: "fixed_part e = fixed_part conn" using finish_fixed [OF fin] keeps h unfolding keeps_identity_def by metis
  have st': "st' = (slots[i := Some e], sh2)" "r2 = r" using a by (auto simp: at_conn_def h fin Let_def)
  have "accounted (weight conn) (sh_active_count sh) (weight e) (sh_active_count sh2)"
    using finish_accounted [OF fin refl] assms(4) st'(2) by simp
  then show ?thesis using round_keeps_put [OF f'(1,2) e] st'(1) by simp
qed

text \<open>Composition along \<^const>\<open>try_st\<close>.\<close>

definition keeps_round :: "('t, 'h, 'k) Round \<Rightarrow> (('t, 'h, 'k) Round \<times> 'o) \<times> ('e, 'r) result \<Rightarrow> bool" where
  "keeps_round st res \<longleftrightarrow> (snd res \<noteq> Panic \<longrightarrow> round_keeps st (fst (fst res)))"

lemma keeps_round_try:
  assumes "keeps_round st m" and "\<And>st' v. m = (st', Ok v) \<Longrightarrow> keeps_round (fst st') (f st' v)"
  shows "keeps_round st (try_st m f)"
proof (cases "(m, f)" rule: try_st.cases)
  case (1 st1 v g)
  then have "round_keeps st (fst st1)" "keeps_round (fst st1) (f st1 v)" using assms by (auto simp: keeps_round_def)
  then show ?thesis using 1 round_keeps_trans [of st "fst st1"] by (auto simp: keeps_round_def)
qed (use assms(1) in \<open>auto simp: keeps_round_def\<close>)

lemma keeps_round_eq: "keeps_round st m" if "\<And>st' out r. m = ((st', out), r) \<Longrightarrow> r \<noteq> Panic \<Longrightarrow> round_keeps st st'"
  using that unfolding keeps_round_def by (metis prod.collapse)

lemma route_keeps: "keeps_round (fst st) (route_completions ws io cqes st)"
proof (induction cqes arbitrary: st)
  case (Cons cqe cqes)
  obtain slots sh out where st: "st = ((slots, sh), out)" by (metis surj_pair)
  show ?case
  proof (cases "conn_for_completion slots cqe")
    case None
    then show ?thesis using Cons [of st] st by simp
  next
    case (Some ic)
    obtain i conn where ic: "ic = (i, conn)" by force
    let ?m = "at_conn (\<lambda>c. case handle_completion (ws (conn_token conn)) io cqe c of (c, r) \<Rightarrow> ((c, []), r)) i conn st"
    have "keeps_round (fst st) ?m"
      using at_conn_keeps [OF keeps_identity_handlers(1) Some [unfolded ic]] st by (intro keeps_round_eq) simp
    from keeps_round_try [OF this Cons] show ?thesis using st Some ic by simp
  qed
qed (simp add: keeps_round_def)

lemma dispatch_keeps: "keeps_round (fst st) (dispatch_data dl min_run ws io cqes st)"
proof (induction "length cqes" arbitrary: cqes st rule: less_induct)
  case less
  obtain slots sh out where st: "st = ((slots, sh), out)" by (metis surj_pair)
  show ?case
  proof (cases cqes)
    case (Cons cqe rest)
    show ?thesis
    proof (cases "conn_for_completion slots cqe")
      case None
      then show ?thesis using less.hyps [of rest st] st Cons by simp
    next
      case (Some ic)
      obtain i conn where ic: "ic = (i, conn)" by force
      have first: "keeps_identity handle \<Longrightarrow> keeps_round (fst st) (at_conn handle i conn st)" for handle
        using at_conn_keeps [OF _ Some [unfolded ic]] st by (intro keeps_round_eq) simp
      have again: "length later \<le> length rest \<Longrightarrow> keeps_round (fst st') (dispatch_data dl min_run ws io later st')" for later st'
        using less.hyps Cons by simp
      show ?thesis using st Some ic Cons
        by (auto simp: Let_def intro!: keeps_round_try again first [unfolded st, simplified] keeps_identity_handlers)
    qed
  qed (simp add: keeps_round_def)
qed

subsection \<open>Whole rounds\<close>

lemma each_conn_keeps:
  assumes "\<And>c s d s' r. f c s = ((d, s'), r) \<Longrightarrow> r \<noteq> Panic \<Longrightarrow>
             fixed_part d = fixed_part c \<and> accounted (weight c) (n s) (weight d) (n s')"
  shows "each_conn f slots s = ((slots', s'), r) \<Longrightarrow> r \<noteq> Panic \<Longrightarrow>
           table slots' = table slots \<and> accounted (active slots) (n s) (active slots') (n s')"
proof (induction slots arbitrary: s slots' s' r)
  case Nil
  then show ?case by (simp add: accounted_def)
next
  case (Cons slot slots)
  show ?case
  proof (cases slot)
    case None
    then show ?thesis using Cons by (auto simp: table_def split: prod.splits)
  next
    case (Some conn)
    obtain d s1 q where f: "f conn s = ((d, s1), q)" by (metis surj_pair)
    obtain slots2 s2 r2 where rest: "each_conn f slots s1 = ((slots2, s2), r2)" by (metis surj_pair)
    have q: "q \<noteq> Panic" using Cons.prems Some f by auto
    note one = assms [OF f q]
    show ?thesis
    proof (cases q)
      case (Ok u)
      then have r: "slots' = Some d # slots2" "s' = s2" "r = r2" using Cons.prems Some f rest by auto
      note two = Cons.IH [OF rest, unfolded r(3) [symmetric], OF Cons.prems(2)]
      have "unat (n s2) \<le> k + (weight d + active slots2)" if "unat (n s) \<le> k + (weight conn + active slots)" for k
      proof -
        have "unat (n s1) \<le> (k + active slots) + weight d"
          using one that unfolding accounted_def by (metis (no_types, opaque_lifting) add.assoc add.commute)
        then have "unat (n s1) \<le> (k + weight d) + active slots" by simp
        then have "unat (n s2) \<le> (k + weight d) + active slots2" using two unfolding accounted_def by blast
        then show ?thesis by simp
      qed
      then show ?thesis using one two r Some by (auto simp: table_def accounted_def)
    next
      case (Err e)
      then have r: "slots' = Some d # slots" "s' = s1" using Cons.prems Some f by auto
      have "unat (n s1) \<le> k + (weight d + active slots)" if "unat (n s) \<le> k + (weight conn + active slots)" for k
        using one that unfolding accounted_def by (metis (no_types, opaque_lifting) add.assoc add.commute)
      then show ?thesis using one r Some by (auto simp: table_def accounted_def)
    qed (use q in simp)
  qed
qed

lemma submit_conn_op_accounted:
  assumes "submit_conn_op ws io c sh = ((d, sh'), r)" and "r \<noteq> Panic"
  shows "fixed_part d = fixed_part c \<and> accounted (weight c) (sh_active_count sh) (weight d) (sh_active_count sh')"
proof -
  obtain c1 k1 q where f: "try_submit_send (ws (conn_token c)) io (c, sh_proactor sh) = ((c1, k1), q)" by (metis surj_pair)
  obtain c2 k2 q2 where g: "try_rearm_multishot io (c1, k1) = ((c2, k2), q2)" by (metis surj_pair)
  have frame: "fixed_part c1 = fixed_part c" "weight c1 = weight c" "fixed_part c2 = fixed_part c" "weight c2 = weight c"
    using fixed_flush [OF f] fixed_rearm [OF g] by (auto simp: weight_def conn_is_active_def)
  have fail: "fixed_part d = fixed_part c \<and> accounted (weight c) (sh_active_count sh) (weight d) (sh_active_count sh')"
    if "fail_conn_and_account e (conn_is_active c) (b, sh\<lparr>sh_proactor := k\<rparr>) = (d, sh')" "fixed_part b = fixed_part c" for e b k
    using fail_accounted [OF that(1) refl] that by (auto simp: fail_conn_and_account_def fail_conn_def)
  show ?thesis
  proof (cases q)
    case (Ok u)
    then show ?thesis
      using assms f g frame fail by (cases q2) (auto simp: submit_conn_op_def intro: accounted_keep)
  qed (use assms f frame fail in \<open>auto simp: submit_conn_op_def\<close>)
qed

lemma drain_conn_events_accounted:
  assumes "drain_conn_events ws c (sh, out, b) = ((d, sh', out', b'), r)" and "r \<noteq> Panic"
  shows "fixed_part d = fixed_part c \<and> accounted (weight c) (sh_active_count sh) (weight d) (sh_active_count sh')"
proof (cases "cs_state c = StClosed")
  case True
  then show ?thesis using assms by (auto simp: drain_conn_events_def weight_def conn_is_active_def intro!: accounted_keep)
next
  case False
  obtain client evs q where p: "poll_events (wd_env (ws (conn_token c))) (cs_ws c) [] = (client, evs, q)" by (metis surj_pair)
  define settle where "settle e = clear_ws_ingress_dirty (sync_ws_close_state (sync_ws_open_state e))" for e :: "('a, 'b) ConnectionState"
  have settle: "fixed_part (settle e) = fixed_part e" "weight e \<le> weight (settle e)" for e
    by (auto simp: settle_def weight_def conn_is_active_def sync_ws_open_state_def sync_ws_close_state_def)
  have up: "accounted m n m'' n'" if "accounted m n m' n'" "m' \<le> m''" for m m' m'' n n'
    using that by (fastforce simp: accounted_def)
  show ?thesis
  proof (cases q)
    case (Ok u)
    have "weight c \<le> weight d" using settle(2) [of "c\<lparr>cs_ws := client\<rparr>"] assms p Ok False
      by (auto simp: drain_conn_events_def Let_def settle_def weight_def conn_is_active_def)
    then show ?thesis using assms p Ok False settle(1) [of "c\<lparr>cs_ws := client\<rparr>"]
      by (auto simp: drain_conn_events_def Let_def settle_def intro!: accounted_keep)
  next
    case (Err e)
    obtain e1 sh1 where fl: "fail_conn_and_account (CeWs e) (conn_is_active c) (c\<lparr>cs_ws := client\<rparr>, sh) = (e1, sh1)" by force
    have d: "d = settle e1" "sh' = sh1" using assms p Err False fl
      by (auto simp: drain_conn_events_def Let_def settle_def conn_is_active_def)
    have "fixed_part e1 = fixed_part c" using fl by (auto simp: fail_conn_and_account_def fail_conn_def)
    then show ?thesis using d settle(1) up [OF fail_accounted [OF fl refl] settle(2)] by simp
  qed (use assms p False in \<open>simp add: drain_conn_events_def Let_def\<close>)
qed

lemma keeps_round_with_out: "keeps_round st (with_out out res)" if "snd res \<noteq> Panic \<Longrightarrow> round_keeps st (fst res)"
  using that by (simp add: keeps_round_def with_out_def)

lemma accounted_round:
  "table slots' = table slots \<and> accounted (active slots) (sh_active_count sh) (active slots') (sh_active_count sh') \<Longrightarrow>
     round_keeps (slots, sh) (slots', sh')"
  by (auto simp: round_keeps_def accounted_def) (metis add_0)

lemma submit_keeps:
  "submit_conn_ops ws io slots sh = ((slots', sh'), r) \<Longrightarrow> r \<noteq> Panic \<Longrightarrow> round_keeps (slots, sh) (slots', sh')"
  unfolding submit_conn_ops_def
  by (rule accounted_round) (rule each_conn_keeps [of "submit_conn_op ws io" sh_active_count, OF submit_conn_op_accounted])

lemma on_proactor_keeps: "round_keeps st (fst (on_proactor f st))"
  by (auto simp: on_proactor_def round_keeps_def split: prod.splits)

lemma start_keeps: "keeps_round (round_begin p) (with_out out (start_round ws io p))"
proof (rule keeps_round_with_out)
  assume a: "snd (start_round ws io p) \<noteq> Panic"
  obtain slots sh where b: "round_begin p = (slots, sh)" by force
  obtain slots1 sh1 q where s: "submit_conn_ops ws io slots sh = ((slots1, sh1), q)" by (metis surj_pair)
  have "q \<noteq> Panic" using a b s by (auto simp: start_round_def)
  then have one: "round_keeps (slots, sh) (slots1, sh1)" using submit_keeps [OF s] by simp
  show "round_keeps (round_begin p) (fst (start_round ws io p))"
    using one round_keeps_trans [OF one on_proactor_keeps, of "pr_submit io"] b s by (cases q) (auto simp: start_round_def)
qed

lemma wait_keeps: "keeps_round st (with_out out (on_proactor f st))"
  by (rule keeps_round_with_out) (rule on_proactor_keeps)

lemma take_keeps: "keeps_round st (with_out out (take_completions io st))"
  unfolding take_completions_def by (rule wait_keeps)

lemma keeps_round_done [simp]: "keeps_round (fst st) (st, r)"
  by (simp add: keeps_round_def)

lemma drain_data_keeps: "keeps_round (fst st) (drain_data dl min_run ws io st)"
  unfolding drain_data_def by (intro keeps_round_try take_keeps dispatch_keeps keeps_round_done)

lemma drain_keeps: "keeps_round (fst st) (drain_conn_completions ws io st)"
  unfolding drain_conn_completions_def by (intro keeps_round_try take_keeps route_keeps keeps_round_done)

lemma drain_events_keeps: "keeps_round (fst st) (drain_events ws st)"
proof -
  obtain slots sh out where st: "st = ((slots, sh), out)" by (metis surj_pair)
  obtain slots' sh' out' b r where e: "each_conn (drain_conn_events ws) slots (sh, out, False) = ((slots', sh', out', b), r)"
    by (metis surj_pair)
  have "round_keeps (slots, sh) (slots', sh')" if "r \<noteq> Panic"
  proof (rule accounted_round)
    have step: "fixed_part d = fixed_part c \<and> accounted (weight c) (sh_active_count (fst s)) (weight d) (sh_active_count (fst s'))"
      if "drain_conn_events ws c s = ((d, s'), r)" "r \<noteq> Panic" for c s d s' r
      using that drain_conn_events_accounted by (metis prod.collapse)
    show "table slots' = table slots \<and> accounted (active slots) (sh_active_count sh) (active slots') (sh_active_count sh')"
      using each_conn_keeps [of "drain_conn_events ws" "\<lambda>s. sh_active_count (fst s)", OF step e that] by simp
  qed
  then show ?thesis using st e by (cases r) (auto simp: keeps_round_def drain_events_def)
qed

lemma post_progress_keeps:
  assumes "\<And>st. keeps_round (fst st) (step st)"
  shows "keeps_round (fst st) (drain_post_progress n failed step st)"
proof (induction n arbitrary: st)
  case (Suc n)
  show ?case unfolding drain_post_progress.simps by (rule keeps_round_try [OF assms]) (use Suc in simp)
qed simp

declare spin_data.simps [simp del] spin_events.simps [simp del]

lemma spin_data_keeps: "keeps_round (fst st) (spin_data dl min_run ws io post iters st)"
proof (induction iters arbitrary: st)
  case 0
  show ?case by (subst spin_data.simps, rule keeps_round_try [OF drain_data_keeps])
      (simp add: keeps_round_try [OF post_progress_keeps [OF drain_data_keeps]])
next
  case (Suc iters)
  show ?case by (subst spin_data.simps, rule keeps_round_try [OF drain_data_keeps])
      (simp add: keeps_round_try [OF post_progress_keeps [OF drain_data_keeps]] Suc)
qed

lemma spin_events_keeps: "keeps_round (fst st) (spin_events ws io iters st)"
proof (induction iters arbitrary: st)
  case 0
  show ?case by (subst spin_events.simps, rule keeps_round_try [OF drain_keeps])
      (simp add: Let_def keeps_round_try [OF drain_events_keeps])
next
  case (Suc iters)
  show ?case by (subst spin_events.simps, rule keeps_round_try [OF drain_keeps])
      (simp add: Let_def keeps_round_try [OF drain_events_keeps] Suc)
qed

subsection \<open>Pumps\<close>

definition pool_keeps :: "('t, 'h, 'k) Pool \<Rightarrow> ('t, 'h, 'k) Pool \<Rightarrow> bool" where
  "pool_keeps p p' \<longleftrightarrow> (\<exists>st. p' = round_end st p \<and> round_keeps (round_begin p) st)"

lemma pool_round_keeps:
  "pool_round p res = ((p', out), r) \<Longrightarrow> keeps_round (round_begin p) res \<Longrightarrow> r \<noteq> Panic \<Longrightarrow> pool_keeps p p'"
  by (auto simp: keeps_round_def pool_round_def pool_keeps_def split: prod.splits)

lemmas keeps_rounds = keeps_round_try start_keeps wait_keeps take_keeps dispatch_keeps drain_keeps drain_events_keeps
  spin_data_keeps spin_events_keeps keeps_round_done

lemma pump_data_keeps: "pump_data_with dl min_run ws io wait_nr p = ((p', out), r) \<Longrightarrow> r \<noteq> Panic \<Longrightarrow> pool_keeps p p'"
  unfolding pump_data_with_def case_prod_beta by (erule pool_round_keeps) (rule keeps_rounds | assumption)+

lemma pump_data_spin_keeps: "pump_data_spin_with dl min_run ws io iters p = ((p', out), r) \<Longrightarrow> r \<noteq> Panic \<Longrightarrow> pool_keeps p p'"
  unfolding pump_data_spin_with_def by (erule pool_round_keeps) (rule keeps_rounds | assumption)+

lemma pump_keeps: "pump_impl ws io wait_nr p = ((p', out), r) \<Longrightarrow> r \<noteq> Panic \<Longrightarrow> pool_keeps p p'"
  unfolding pump_impl_def case_prod_beta by (erule pool_round_keeps) (rule keeps_rounds | assumption)+

lemma pump_spin_keeps: "pump_spin_impl ws io iters p = ((p', out), r) \<Longrightarrow> r \<noteq> Panic \<Longrightarrow> pool_keeps p p'"
  unfolding pump_spin_impl_def by (erule pool_round_keeps) (rule keeps_rounds | assumption)+

lemma pool_round_keeps_fst:
  "(fst (fst (pool_round p res)), snd (pool_round p res)) = (p', r) \<Longrightarrow> keeps_round (round_begin p) res \<Longrightarrow> r \<noteq> Panic \<Longrightarrow> pool_keeps p p'"
  by (rule pool_round_keeps [of p res p' "snd (fst (pool_round p res))" r]) auto

lemma drive_open_once_keeps: "drive_open_once ws io wait_nr p = (p', r) \<Longrightarrow> r \<noteq> Panic \<Longrightarrow> pool_keeps p p'"
  unfolding drive_open_once_def case_prod_beta by (erule pool_round_keeps_fst) (rule keeps_rounds | assumption)+

subsection \<open>Isolation\<close>

text \<open>C9. Connections do not get at each other in a round: whatever completions are dispatched or routed, and
  whatever fails on the way, a connection with no completion among them stays exactly as it was; no
  connection appears, disappears or changes identity, configuration or socket; and all that is handed
  to the caller is handed out under the handle of a connection of the pool that has a completion in
  this round, after what was handed out before.\<close>

theorem pool_isolation:
  assumes "dispatch_data dl min_run ws io cqes ((slots, sh), out) = (((slots', sh'), out'), r) \<or>
           route_completions ws io cqes ((slots, sh), out) = (((slots', sh'), out'), r)"
  shows "length slots' = length slots \<and>
    (\<forall>j < length slots. map_option fixed_part (slots' ! j) = map_option fixed_part (slots ! j)) \<and>
    (\<forall>j c. j < length slots \<longrightarrow> slots ! j = Some c \<longrightarrow> conn_token c \<notin> completion_token ` set cqes \<longrightarrow> slots' ! j = Some c) \<and>
    (\<exists>new. out' = out @ new \<and> (\<forall>(h, x) \<in> set new.
       \<exists>j c. j < length slots \<and> slots ! j = Some c \<and> h = from_conn c \<and> conn_token c \<in> completion_token ` set cqes))"
proof -
  have t: "touches (matched slots cqes) slots slots'" and o: "outputs_of (matched slots cqes) out out'"
    using assms dispatch_touches [of dl min_run ws io cqes slots sh out slots' sh' out' r]
      route_touches [of ws io cqes slots sh out slots' sh' out' r] by blast+
  have tab: "table slots' = table slots" using t by (simp add: touches_def)
  obtain new where new: "out' = out @ new" "\<forall>(h, x) \<in> set new. as_u64 h \<in> matched slots cqes"
    using o unfolding outputs_of_def by blast
  have "\<exists>j c. j < length slots \<and> slots ! j = Some c \<and> h = from_conn c \<and> conn_token c \<in> completion_token ` set cqes"
    if hx: "(h, x) \<in> set new" for h x
  proof -
    have m: "as_u64 h \<in> matched slots cqes" using new(2) hx by blast
    obtain c where c: "as_u64 h = conn_token c" "Some c \<in> set slots" using m by (auto simp: matched_def tokens_def)
    moreover obtain j where "j < length slots" "slots ! j = Some c" using c(2) by (auto simp: in_set_conv_nth)
    ultimately show ?thesis using m unfolding from_conn_def matched_def by (metis ConnHandle.collapse Int_iff)
  qed
  then have "\<forall>(h, x) \<in> set new. \<exists>j c. j < length slots \<and> slots ! j = Some c \<and> h = from_conn c \<and> conn_token c \<in> completion_token ` set cqes"
    by blast
  then show ?thesis
    using new(1) t table_length [OF tab] table_nth [OF tab] unfolding touches_def by (auto simp: matched_def)
qed

definition sample_peer :: "(bytes \<times> bytes, u64 list) ConnectionState" where
  "sample_peer = sample_conn\<lparr>cs_identity := \<lparr>id_conn_id = 1, id_generation = 0, id_bgid = 1\<rparr>\<rparr>"

definition sample_shared :: "Sqe list Shared" where
  "sample_shared = \<lparr>sh_proactor = [], sh_active_count = 2, sh_first_err = None\<rparr>"

lemma sample_tokens: "conn_token sample_conn = 0" "conn_token sample_peer = 1"
  by (simp_all add: conn_token_def id_token_def encode_conn_token_def sample_peer_def sample_conn_def)

text \<open>A send of the second connection has completed: the first one does not notice.\<close>

theorem pool_isolation_witness:
  "let cqe = \<lparr>co_user_data = ud_new OpSend 1, co_result = 2, co_flags = 0\<rparr>; slots = [Some sample_conn, Some sample_peer] in
   conn_for_completion slots cqe = Some (1, sample_peer) \<and>
   (case dispatch_data events_delivery 2 (\<lambda>_. sample_world) sample_uring [cqe] ((slots, sample_shared), []) of
      (((slots', sh'), out'), r) \<Rightarrow> slots' ! 0 = Some sample_conn)"
proof -
  define cqe where "cqe = \<lparr>co_user_data = ud_new OpSend 1, co_result = 2, co_flags = 0\<rparr>"
  define slots where "slots = [Some sample_conn, Some sample_peer]"
  obtain slots' sh' out' r where d: "dispatch_data events_delivery 2 (\<lambda>_. sample_world) sample_uring [cqe] ((slots, sample_shared), []) =
      (((slots', sh'), out'), r)" by (metis surj_pair)
  have tok: "completion_token cqe = 1" by (simp add: completion_token_def cqe_def ud_token_new)
  have "token_conn_id 1 = 1" by (simp add: token_conn_id_def CONN_ID_MASK_def)
  then have "conn_for_completion slots cqe = Some (1, sample_peer)"
    by (simp add: conn_for_completion_def tok slot_at_def slots_def sample_tokens)
  moreover have "slots' ! 0 = Some sample_conn"
    using pool_isolation [OF disjI1 [OF d]] by (simp add: slots_def sample_tokens tok)
  ultimately show ?thesis unfolding Let_def cqe_def [symmetric] slots_def [symmetric] d by simp
qed

end
