(* ===== verification/Metrics.thy ===== *)
theory Metrics
  imports Pool
begin

text \<open>
  The Prometheus exposition: the writers of \<^verbatim>\<open>observability.rs\<close> for the latency histograms, those of
  \<^verbatim>\<open>connection_state.rs\<close> for one connection, and those of \<^verbatim>\<open>pool.rs\<close> for all live connections, with the
  variant that resets the interval histograms on the way.

  A \<^verbatim>\<open>fmt::Write\<close> of the caller is a parameter of type \<open>'w Writer\<close>: what one \<^verbatim>\<open>write_fmt\<close> call, given its formatted
  text, does to the writer and returns.  A \<^verbatim>\<open>writeln!\<close> is one such call.  The readers of the crate
  \<^verbatim>\<open>hdrhistogram\<close> are the record \<open>HistRead\<close>.  The program only passes its quantiles on, so a
  floating-point literal is the literal: its digits and the number of decimal places.

  The reference is \<open>exposition\<close>, the list of lines of a pool; shown is that every writer is given these
  lines in order up to its first failure, and which histograms have been reset by then.
\<close>

subsection \<open>Formatting\<close>

datatype FmtError = FmtError

type_synonym 'w Writer = "string \<Rightarrow> 'w \<Rightarrow> 'w \<times> (FmtError, unit) result"

text \<open>The \<^verbatim>\<open>Display\<close> of unsigned integers.\<close>

fun show_nat :: "nat \<Rightarrow> string" where
  "show_nat n = (if n < 10 then [char_of (48 + n)] else show_nat (n div 10) @ [char_of (48 + n mod 10)])"

declare show_nat.simps [simp del]

definition show_word :: "'a::len word \<Rightarrow> string" where
  "show_word w = show_nat (unat w)"

definition NEWLINE :: string where "NEWLINE = [CHR 0x0A]"

definition writeln :: "'w Writer \<Rightarrow> string \<Rightarrow> 'w \<Rightarrow> 'w \<times> (FmtError, unit) result" where
  "writeln wr line out = wr (line @ NEWLINE) out"

text \<open>Several \<^verbatim>\<open>writeln!(..)?\<close> in a row.\<close>

fun write_lines :: "'w Writer \<Rightarrow> string list \<Rightarrow> 'w \<Rightarrow> 'w \<times> (FmtError, unit) result" where
  "write_lines wr [] out = (out, Ok ())"
| "write_lines wr (l # ls) out = try_st (writeln wr l out) (\<lambda>out _. write_lines wr ls out)"

text \<open>A sample in the text format, \<^verbatim>\<open>name{key="value",...} number\<close>.\<close>

fun label_list :: "(string \<times> string) list \<Rightarrow> string" where
  "label_list [] = []"
| "label_list [(k, v)] = k @ ''='' @ [CHR 0x22] @ v @ [CHR 0x22]"
| "label_list ((k, v) # l # ls) = k @ ''='' @ [CHR 0x22] @ v @ [CHR 0x22] @ '','' @ label_list (l # ls)"

definition sample_line :: "string \<Rightarrow> (string \<times> string) list \<Rightarrow> u64 \<Rightarrow> string" where
  "sample_line name labels v = name @ ''{'' @ label_list labels @ ''} '' @ show_word v"

subsection \<open>Latency histograms\<close>

type_synonym f64_literal = "nat \<times> nat"

record 'h HistRead =
  hr_is_empty :: "'h \<Rightarrow> bool"
  hr_value_at_quantile :: "f64_literal \<Rightarrow> 'h \<Rightarrow> u64"
  hr_len :: "'h \<Rightarrow> u64"
  hr_max :: "'h \<Rightarrow> u64"

definition PROMETHEUS_QUANTILES :: "(f64_literal \<times> string) list" where
  "PROMETHEUS_QUANTILES =
     [((50, 2), ''0.5''), ((90, 2), ''0.9''), ((95, 2), ''0.95''), ((99, 2), ''0.99''), ((999, 3), ''0.999''), ((9999, 4), ''0.9999'')]"

definition latency_help_lines :: "string list" where
  "latency_help_lines =
     [''# HELP talaris_ws_latency_quantile_ns HdrHistogram client-side quantiles for sampled WebSocket data-message latency stages.'',
      ''# TYPE talaris_ws_latency_quantile_ns gauge'',
      ''# HELP talaris_ws_latency_samples Sample count for local HdrHistogram latency stages.'',
      ''# TYPE talaris_ws_latency_samples gauge'',
      ''# HELP talaris_ws_latency_sum_ns Sum of sampled WebSocket data-message latency in nanoseconds.'',
      ''# TYPE talaris_ws_latency_sum_ns gauge'',
      ''# HELP talaris_ws_latency_max_ns Maximum sampled WebSocket data-message latency in nanoseconds.'',
      ''# TYPE talaris_ws_latency_max_ns gauge'']"

definition write_prometheus_help :: "'w Writer \<Rightarrow> 'w \<Rightarrow> 'w \<times> (FmtError, unit) result" where
  "write_prometheus_help wr out = write_lines wr latency_help_lines out"

definition stage_labels :: "u32 \<Rightarrow> string \<Rightarrow> string \<Rightarrow> string \<Rightarrow> string \<Rightarrow> (string \<times> string) list" where
  "stage_labels cid window scope stage chunk_position =
     [(''conn_id'', show_word cid), (''window'', window), (''scope'', scope), (''stage'', stage), (''chunk_position'', chunk_position)]"

fun write_quantiles ::
  "'h HistRead \<Rightarrow> 'w Writer \<Rightarrow> (string \<times> string) list \<Rightarrow> 'h \<Rightarrow> (f64_literal \<times> string) list \<Rightarrow> 'w \<Rightarrow> 'w \<times> (FmtError, unit) result" where
  "write_quantiles rd wr labels hist [] out = (out, Ok ())"
| "write_quantiles rd wr labels hist ((quantile, quantile_label) # qs) out =
     (let v = (if hr_is_empty rd hist then 0 else hr_value_at_quantile rd quantile hist)
      in try_st (writeln wr (sample_line ''talaris_ws_latency_quantile_ns'' (labels @ [(''quantile'', quantile_label)]) v) out)
           (\<lambda>out _. write_quantiles rd wr labels hist qs out))"

definition stage_write_prometheus ::
  "'h HistRead \<Rightarrow> 'w Writer \<Rightarrow> u32 \<Rightarrow> string \<Rightarrow> string \<Rightarrow> string \<Rightarrow> string \<Rightarrow> 'h StageHistogram \<Rightarrow> 'w \<Rightarrow> 'w \<times> (FmtError, unit) result" where
  "stage_write_prometheus rd wr cid window scope stage chunk_position s out =
     (let labels = stage_labels cid window scope stage chunk_position in
      try_st (write_quantiles rd wr labels (sh_hist s) PROMETHEUS_QUANTILES out) (\<lambda>out _.
      try_st (writeln wr (sample_line ''talaris_ws_latency_samples'' labels (hr_len rd (sh_hist s))) out) (\<lambda>out _.
      try_st (writeln wr (sample_line ''talaris_ws_latency_sum_ns'' labels (sh_total_nanos s)) out) (\<lambda>out _.
        let mx = (if hr_is_empty rd (sh_hist s) then 0 else hr_max rd (sh_hist s))
        in writeln wr (sample_line ''talaris_ws_latency_max_ns'' labels mx) out))))"

fun write_positions ::
  "'h HistRead \<Rightarrow> 'w Writer \<Rightarrow> u32 \<Rightarrow> string \<Rightarrow> string \<Rightarrow> (string \<times> 'h StageHistogram) list \<Rightarrow> 'w \<Rightarrow> 'w \<times> (FmtError, unit) result" where
  "write_positions rd wr cid window stage [] out = (out, Ok ())"
| "write_positions rd wr cid window stage ((chunk_position, histogram) # hs) out =
     try_st (stage_write_prometheus rd wr cid window ''message'' stage chunk_position histogram out)
       (\<lambda>out _. write_positions rd wr cid window stage hs out)"

definition write_message_position_stage ::
  "'h HistRead \<Rightarrow> 'w Writer \<Rightarrow> u32 \<Rightarrow> string \<Rightarrow> string \<Rightarrow> 'h StageHistogram list \<Rightarrow> 'w \<Rightarrow> 'w \<times> (FmtError, unit) result" where
  "write_message_position_stage rd wr cid window stage histograms out =
     write_positions rd wr cid window stage (zip [''all'', ''first'', ''queued''] histograms) out"

definition set_write_prometheus ::
  "'h HistRead \<Rightarrow> 'w Writer \<Rightarrow> u32 \<Rightarrow> string \<Rightarrow> 'h LatencyHistogramSet \<Rightarrow> 'w \<Rightarrow> 'w \<times> (FmtError, unit) result" where
  "set_write_prometheus rd wr cid window s out =
     try_st (stage_write_prometheus rd wr cid window ''chunk'' ''recv_to_plaintext'' ''chunk'' (lh_recv_to_plaintext s) out) (\<lambda>out _.
     try_st (write_message_position_stage rd wr cid window ''plaintext_to_ws''
       [lh_plaintext_to_ws_all s, lh_plaintext_to_ws_first s, lh_plaintext_to_ws_queued s] out) (\<lambda>out _.
     try_st (write_message_position_stage rd wr cid window ''plaintext_to_ws_excluding_prior_sink''
       [lh_plaintext_to_ws_excl_all s, lh_plaintext_to_ws_excl_first s, lh_plaintext_to_ws_excl_queued s] out) (\<lambda>out _.
     try_st (write_message_position_stage rd wr cid window ''recv_to_ws''
       [lh_recv_to_ws_all s, lh_recv_to_ws_first s, lh_recv_to_ws_queued s] out) (\<lambda>out _.
     try_st (write_message_position_stage rd wr cid window ''recv_to_ws_excluding_prior_sink''
       [lh_recv_to_ws_excl_all s, lh_recv_to_ws_excl_first s, lh_recv_to_ws_excl_queued s] out) (\<lambda>out _.
       stage_write_prometheus rd wr cid window ''message'' ''chunk_prior_sink_service'' ''queued'' (lh_chunk_prior_queued s) out)))))"

definition write_prometheus_cumulative ::
  "'h HistRead \<Rightarrow> 'w Writer \<Rightarrow> u32 \<Rightarrow> 'h LatencyHistograms \<Rightarrow> 'w \<Rightarrow> 'w \<times> (FmtError, unit) result" where
  "write_prometheus_cumulative rd wr cid h out = set_write_prometheus rd wr cid ''cumulative'' (lh_cumulative h) out"

definition write_prometheus_interval ::
  "'h HistRead \<Rightarrow> 'w Writer \<Rightarrow> u32 \<Rightarrow> 'h LatencyHistograms \<Rightarrow> 'w \<Rightarrow> 'w \<times> (FmtError, unit) result" where
  "write_prometheus_interval rd wr cid h out = set_write_prometheus rd wr cid ''interval'' (lh_interval h) out"

definition write_prometheus_interval_and_reset ::
  "'h HistOps \<Rightarrow> 'h HistRead \<Rightarrow> 'w Writer \<Rightarrow> u32 \<Rightarrow> 'h LatencyHistograms \<times> 'w \<Rightarrow> ('h LatencyHistograms \<times> 'w) \<times> (FmtError, unit) result" where
  "write_prometheus_interval_and_reset ops rd wr cid st =
     (case st of (h, out) \<Rightarrow>
        case write_prometheus_interval rd wr cid h out of
          (out, Ok _) \<Rightarrow> ((interval_reset ops h, out), Ok ())
        | (out, r) \<Rightarrow> ((h, out), r))"

subsection \<open>One connection\<close>

definition ingress_lines :: "('t, 'h) ConnectionState \<Rightarrow> string list" where
  "ingress_lines c =
     (let cid = id_conn_id (cs_identity c); stats = cs_ingress_stats c in
      map (\<lambda>(name, v). sample_line name [(''conn_id'', show_word cid)] v)
     [(''talaris_ingress_recv_data_cqes_total'', is_recv_data_cqes stats),
      (''talaris_ingress_recv_bytes_total'', is_recv_bytes stats),
      (''talaris_ingress_recv_multishot_rearms_total'', is_recv_multishot_rearms stats),
      (''talaris_ingress_recv_ring_exhaustions_total'', is_recv_ring_exhaustions stats),
      (''talaris_ingress_plain_recv_batches_total'', is_plain_recv_batches stats),
      (''talaris_ingress_plain_recv_batch_cqes_total'', is_plain_recv_batch_cqes stats),
      (''talaris_ingress_plain_recv_copied_batches_total'', is_plain_recv_copied_batches stats),
      (''talaris_ingress_plain_recv_copied_bytes_total'', is_plain_recv_copied_bytes stats),
      (''talaris_ingress_plaintext_chunks_total'', is_plaintext_source_chunks stats),
      (''talaris_ingress_plaintext_bytes_total'', is_plaintext_bytes stats),
      (''talaris_ingress_ws_data_drains_total'', is_ws_data_drains stats),
      (''talaris_ingress_ws_data_drain_skips_total'', is_ws_data_drain_skips stats),
      (''talaris_ingress_ws_data_events_total'', is_ws_data_events stats),
      (''talaris_ingress_ws_text_events_total'', is_ws_text_events stats),
      (''talaris_ingress_ws_binary_events_total'', is_ws_binary_events stats)])"

definition write_ingress_prometheus_metrics :: "'w Writer \<Rightarrow> ('t, 'h) ConnectionState \<Rightarrow> 'w \<Rightarrow> 'w \<times> (FmtError, unit) result" where
  "write_ingress_prometheus_metrics wr c out = write_lines wr (ingress_lines c) out"

definition conn_write_prometheus_metrics ::
  "'h HistRead \<Rightarrow> 'w Writer \<Rightarrow> ('t, 'h) ConnectionState \<Rightarrow> 'w \<Rightarrow> 'w \<times> (FmtError, unit) result" where
  "conn_write_prometheus_metrics rd wr c out =
     (let cid = id_conn_id (cs_identity c) in
      try_st (case cs_histograms c of Some h \<Rightarrow> write_prometheus_cumulative rd wr cid h out | None \<Rightarrow> (out, Ok ()))
        (\<lambda>out _. write_ingress_prometheus_metrics wr c out))"

definition conn_write_prometheus_metrics_and_reset_interval ::
  "('t, 'h) World \<Rightarrow> 'h HistRead \<Rightarrow> 'w Writer \<Rightarrow> ('t, 'h) ConnectionState \<times> 'w \<Rightarrow>
   (('t, 'h) ConnectionState \<times> 'w) \<times> (FmtError, unit) result" where
  "conn_write_prometheus_metrics_and_reset_interval w rd wr st =
     (case st of (c, out) \<Rightarrow>
      let cid = id_conn_id (cs_identity c) in
      try_st (case cs_histograms c of
                Some h \<Rightarrow>
                  (case write_prometheus_interval_and_reset (wd_hist w) rd wr cid (h, out) of
                     ((h, out), r) \<Rightarrow> ((c\<lparr>cs_histograms := Some h\<rparr>, out), r))
              | None \<Rightarrow> ((c, out), Ok ()))
        (\<lambda>(c, out) _. case write_ingress_prometheus_metrics wr c out of (out, r) \<Rightarrow> ((c, out), r)))"

subsection \<open>The pool\<close>

definition ingress_help_lines :: "string list" where
  "ingress_help_lines =
     [''# HELP talaris_ingress_recv_data_cqes_total Positive-length recv data CQEs handled by a connection.'',
      ''# TYPE talaris_ingress_recv_data_cqes_total counter'',
      ''# HELP talaris_ingress_recv_bytes_total Bytes carried by positive-length recv data CQEs. For TLS these are ciphertext bytes; for plain TCP these are plaintext bytes.'',
      ''# TYPE talaris_ingress_recv_bytes_total counter'',
      ''# HELP talaris_ingress_recv_multishot_rearms_total Recv multishot SQEs submitted or rearmed.'',
      ''# TYPE talaris_ingress_recv_multishot_rearms_total counter'',
      ''# HELP talaris_ingress_recv_ring_exhaustions_total Recv multishot terminations caused by provided-buffer ring exhaustion.'',
      ''# TYPE talaris_ingress_recv_ring_exhaustions_total counter'',
      ''# HELP talaris_ingress_plain_recv_batches_total Consecutive plain TCP recv CQE runs handled by the data-pump batch path.'',
      ''# TYPE talaris_ingress_plain_recv_batches_total counter'',
      ''# HELP talaris_ingress_plain_recv_batch_cqes_total Total recv CQEs included in plain TCP data-pump batch runs.'',
      ''# TYPE talaris_ingress_plain_recv_batch_cqes_total counter'',
      ''# HELP talaris_ingress_plain_recv_copied_batches_total Plain TCP data-pump batch runs parsed through the reusable copy scratch buffer.'',
      ''# TYPE talaris_ingress_plain_recv_copied_batches_total counter'',
      ''# HELP talaris_ingress_plain_recv_copied_bytes_total Bytes copied into the reusable plain TCP data-pump batch scratch buffer.'',
      ''# TYPE talaris_ingress_plain_recv_copied_bytes_total counter'',
      ''# HELP talaris_ingress_plaintext_chunks_total Plaintext source chunks made available to WebSocket receive processing. TLS counts rustls plaintext slices; plain TCP counts recv/provided-buffer slices before optional copy batching.'',
      ''# TYPE talaris_ingress_plaintext_chunks_total counter'',
      ''# HELP talaris_ingress_plaintext_bytes_total Plaintext bytes fed into the WebSocket parser.'',
      ''# TYPE talaris_ingress_plaintext_bytes_total counter'',
      ''# HELP talaris_ingress_ws_data_drains_total Data-pump plaintext source chunks that reached WebSocket receive processing.'',
      ''# TYPE talaris_ingress_ws_data_drains_total counter'',
      ''# HELP talaris_ingress_ws_data_drain_skips_total Data-pump drain attempts skipped because no plaintext arrived.'',
      ''# TYPE talaris_ingress_ws_data_drain_skips_total counter'',
      ''# HELP talaris_ingress_ws_data_events_total Text/Binary data messages emitted to the user's data sink.'',
      ''# TYPE talaris_ingress_ws_data_events_total counter'',
      ''# HELP talaris_ingress_ws_text_events_total Text messages emitted to the user's data sink.'',
      ''# TYPE talaris_ingress_ws_text_events_total counter'',
      ''# HELP talaris_ingress_ws_binary_events_total Binary messages emitted to the user's data sink.'',
      ''# TYPE talaris_ingress_ws_binary_events_total counter'']"

definition write_ingress_prometheus_help :: "'w Writer \<Rightarrow> 'w \<Rightarrow> 'w \<times> (FmtError, unit) result" where
  "write_ingress_prometheus_help wr out = write_lines wr ingress_help_lines out"

text \<open>The loops over \<^verbatim>\<open>conns.iter().flatten()\<close>.\<close>

fun write_slots :: "'h HistRead \<Rightarrow> 'w Writer \<Rightarrow> ('t, 'h) Slots \<Rightarrow> 'w \<Rightarrow> 'w \<times> (FmtError, unit) result" where
  "write_slots rd wr [] out = (out, Ok ())"
| "write_slots rd wr (None # slots) out = write_slots rd wr slots out"
| "write_slots rd wr (Some c # slots) out =
     try_st (conn_write_prometheus_metrics rd wr c out) (\<lambda>out _. write_slots rd wr slots out)"

fun write_slots_and_reset ::
  "('t, 'h) Worlds \<Rightarrow> 'h HistRead \<Rightarrow> 'w Writer \<Rightarrow> ('t, 'h) Slots \<times> 'w \<Rightarrow> (('t, 'h) Slots \<times> 'w) \<times> (FmtError, unit) result" where
  "write_slots_and_reset ws rd wr ([], out) = (([], out), Ok ())"
| "write_slots_and_reset ws rd wr (None # slots, out) =
     (case write_slots_and_reset ws rd wr (slots, out) of ((slots, out), r) \<Rightarrow> ((None # slots, out), r))"
| "write_slots_and_reset ws rd wr (Some c # slots, out) =
     (case conn_write_prometheus_metrics_and_reset_interval (ws (conn_token c)) rd wr (c, out) of
        ((c, out), Ok _) \<Rightarrow>
          (case write_slots_and_reset ws rd wr (slots, out) of ((slots, out), r) \<Rightarrow> ((Some c # slots, out), r))
      | ((c, out), r) \<Rightarrow> ((Some c # slots, out), r))"

definition write_prometheus_metrics ::
  "'h HistRead \<Rightarrow> 'w Writer \<Rightarrow> ('t, 'h, 'k) Pool \<Rightarrow> 'w \<Rightarrow> 'w \<times> (FmtError, unit) result" where
  "write_prometheus_metrics rd wr p out =
     try_st (write_prometheus_help wr out) (\<lambda>out _.
     try_st (write_ingress_prometheus_help wr out) (\<lambda>out _.
       write_slots rd wr (po_conns p) out))"

definition write_prometheus_metrics_and_reset_interval ::
  "('t, 'h) Worlds \<Rightarrow> 'h HistRead \<Rightarrow> 'w Writer \<Rightarrow> ('t, 'h, 'k) Pool \<times> 'w \<Rightarrow> (('t, 'h, 'k) Pool \<times> 'w) \<times> (FmtError, unit) result" where
  "write_prometheus_metrics_and_reset_interval ws rd wr st =
     (case st of (p, out) \<Rightarrow>
        case try_st (write_prometheus_help wr out) (\<lambda>out _. write_ingress_prometheus_help wr out) of
          (out, Ok _) \<Rightarrow>
            (case write_slots_and_reset ws rd wr (po_conns p, out) of
               ((slots, out), r) \<Rightarrow> ((p\<lparr>po_conns := slots\<rparr>, out), r))
        | (out, r) \<Rightarrow> ((p, out), r))"

text \<open>Writing to a \<^verbatim>\<open>String\<close> appends; the callers \<^verbatim>\<open>expect\<close> that it succeeds.\<close>

definition string_writer :: "string Writer" where
  "string_writer s out = (out @ s, Ok ())"

definition prometheus_metrics :: "'h HistRead \<Rightarrow> ('t, 'h, 'k) Pool \<Rightarrow> (FmtError, string) result" where
  "prometheus_metrics rd p =
     (case write_prometheus_metrics rd string_writer p [] of (out, Ok _) \<Rightarrow> Ok out | _ \<Rightarrow> Panic)"

definition prometheus_metrics_and_reset_interval ::
  "('t, 'h) Worlds \<Rightarrow> 'h HistRead \<Rightarrow> ('t, 'h, 'k) Pool \<Rightarrow> ('t, 'h, 'k) Pool \<times> (FmtError, string) result" where
  "prometheus_metrics_and_reset_interval ws rd p =
     (case write_prometheus_metrics_and_reset_interval ws rd string_writer (p, []) of
        ((p, out), Ok _) \<Rightarrow> (p, Ok out)
      | ((p, out), _) \<Rightarrow> (p, Panic))"

subsection \<open>The reference exposition\<close>

definition stage_lines :: "'h HistRead \<Rightarrow> u32 \<Rightarrow> string \<Rightarrow> string \<times> string \<times> string \<times> 'h StageHistogram \<Rightarrow> string list" where
  "stage_lines rd cid window row =
     (case row of (scope, stage, chunk_position, s) \<Rightarrow>
      let labels = stage_labels cid window scope stage chunk_position;
          shown = (\<lambda>f. if hr_is_empty rd (sh_hist s) then 0 else f (sh_hist s))
      in map (\<lambda>(q, l). sample_line ''talaris_ws_latency_quantile_ns'' (labels @ [(''quantile'', l)]) (shown (hr_value_at_quantile rd q)))
           PROMETHEUS_QUANTILES @
         [sample_line ''talaris_ws_latency_samples'' labels (hr_len rd (sh_hist s)),
          sample_line ''talaris_ws_latency_sum_ns'' labels (sh_total_nanos s),
          sample_line ''talaris_ws_latency_max_ns'' labels (shown (hr_max rd))])"

text \<open>The fourteen stages with their scope, name and position.\<close>

definition stage_rows :: "'h LatencyHistogramSet \<Rightarrow> (string \<times> string \<times> string \<times> 'h StageHistogram) list" where
  "stage_rows s =
     (''chunk'', ''recv_to_plaintext'', ''chunk'', lh_recv_to_plaintext s) #
     concat (map (\<lambda>(stage, a, f, q). [(''message'', stage, ''all'', a), (''message'', stage, ''first'', f), (''message'', stage, ''queued'', q)])
       [(''plaintext_to_ws'', lh_plaintext_to_ws_all s, lh_plaintext_to_ws_first s, lh_plaintext_to_ws_queued s),
        (''plaintext_to_ws_excluding_prior_sink'', lh_plaintext_to_ws_excl_all s, lh_plaintext_to_ws_excl_first s, lh_plaintext_to_ws_excl_queued s),
        (''recv_to_ws'', lh_recv_to_ws_all s, lh_recv_to_ws_first s, lh_recv_to_ws_queued s),
        (''recv_to_ws_excluding_prior_sink'', lh_recv_to_ws_excl_all s, lh_recv_to_ws_excl_first s, lh_recv_to_ws_excl_queued s)]) @
     [(''message'', ''chunk_prior_sink_service'', ''queued'', lh_chunk_prior_queued s)]"

definition latency_lines :: "'h HistRead \<Rightarrow> u32 \<Rightarrow> string \<Rightarrow> 'h LatencyHistogramSet \<Rightarrow> string list" where
  "latency_lines rd cid window s = concat (map (stage_lines rd cid window) (stage_rows s))"

definition conn_lines :: "'h HistRead \<Rightarrow> string \<Rightarrow> ('h LatencyHistograms \<Rightarrow> 'h LatencyHistogramSet) \<Rightarrow> ('t, 'h) ConnectionState \<Rightarrow> string list" where
  "conn_lines rd window sel c =
     (case cs_histograms c of Some h \<Rightarrow> latency_lines rd (id_conn_id (cs_identity c)) window (sel h) | None \<Rightarrow> []) @ ingress_lines c"

definition slot_lines :: "'h HistRead \<Rightarrow> string \<Rightarrow> ('h LatencyHistograms \<Rightarrow> 'h LatencyHistogramSet) \<Rightarrow> ('t, 'h) Slots \<Rightarrow> string list" where
  "slot_lines rd window sel slots = concat (map (\<lambda>slot. case slot of Some c \<Rightarrow> conn_lines rd window sel c | None \<Rightarrow> []) slots)"

definition exposition :: "'h HistRead \<Rightarrow> string \<Rightarrow> ('h LatencyHistograms \<Rightarrow> 'h LatencyHistogramSet) \<Rightarrow> ('t, 'h, 'k) Pool \<Rightarrow> string list" where
  "exposition rd window sel p = latency_help_lines @ ingress_help_lines @ slot_lines rd window sel (po_conns p)"

definition unlines :: "string list \<Rightarrow> string" where
  "unlines ls = concat (map (\<lambda>l. l @ NEWLINE) ls)"

text \<open>The interval histograms of a connection, and of the connections of the first \<open>n\<close> slots, emptied.\<close>

definition reset_conn :: "('t, 'h) World \<Rightarrow> ('t, 'h) ConnectionState \<Rightarrow> ('t, 'h) ConnectionState" where
  "reset_conn w c = c\<lparr>cs_histograms := map_option (interval_reset (wd_hist w)) (cs_histograms c)\<rparr>"

definition reset_slots :: "('t, 'h) Worlds \<Rightarrow> nat \<Rightarrow> ('t, 'h) Slots \<Rightarrow> ('t, 'h) Slots" where
  "reset_slots ws n slots = map (map_option (\<lambda>c. reset_conn (ws (conn_token c)) c)) (take n slots) @ drop n slots"

text \<open>The rows are the stages of the recorder, each under a name of its own.\<close>

lemma stage_rows_stages:
  "map (\<lambda>(_, _, _, st). st) (stage_rows s) = stages s" "distinct (map (\<lambda>(scope, stage, position, _). (scope, stage, position)) (stage_rows s))"
  by (simp_all add: stage_rows_def stages_def)

subsection \<open>Numbers\<close>

lemma show_nat_reads_back: "foldl (\<lambda>a d. 10 * a + (of_char d - 48)) 0 (show_nat n) = n"
proof (induction n rule: show_nat.induct)
  case (1 n)
  then show ?case by (subst show_nat.simps) (auto simp: of_char_of)
qed

lemma show_word_inject: "show_word v = show_word w \<longleftrightarrow> v = w"
  unfolding show_word_def by (metis show_nat_reads_back word_unat_eq_iff)

subsection \<open>Writers and lines\<close>

lemma try_st_done [simp]: "try_st m (\<lambda>s _. (s, Ok ())) = m"
  by (cases m; cases "snd m") auto

lemma write_lines_append: "write_lines wr (xs @ ys) out = try_st (write_lines wr xs out) (\<lambda>out _. write_lines wr ys out)"
  by (induction xs arbitrary: out) (simp_all add: try_st_assoc)

lemma write_quantiles_lines:
  "write_quantiles rd wr labels hist qs out =
     write_lines wr (map (\<lambda>(q, l). sample_line ''talaris_ws_latency_quantile_ns'' (labels @ [(''quantile'', l)])
       (if hr_is_empty rd hist then 0 else hr_value_at_quantile rd q hist)) qs) out"
  by (induction qs arbitrary: out) (auto simp: Let_def)

lemma stage_write_lines:
  "stage_write_prometheus rd wr cid window scope stage pos s out = write_lines wr (stage_lines rd cid window (scope, stage, pos, s)) out"
  by (simp add: stage_write_prometheus_def stage_lines_def write_quantiles_lines write_lines_append Let_def split del: if_split)

lemma set_write_lines: "set_write_prometheus rd wr cid window s out = write_lines wr (latency_lines rd cid window s) out"
  by (simp add: set_write_prometheus_def write_message_position_stage_def latency_lines_def stage_rows_def stage_write_lines
      write_lines_append try_st_assoc)

lemma conn_write_lines: "conn_write_prometheus_metrics rd wr c out = write_lines wr (conn_lines rd ''cumulative'' lh_cumulative c) out"
  by (simp add: conn_write_prometheus_metrics_def conn_lines_def write_prometheus_cumulative_def set_write_lines
      write_ingress_prometheus_metrics_def write_lines_append Let_def split: option.split)

lemma write_slots_lines: "write_slots rd wr slots out = write_lines wr (slot_lines rd ''cumulative'' lh_cumulative slots) out"
  by (induction rd wr slots out rule: write_slots.induct) (simp_all add: slot_lines_def conn_write_lines write_lines_append)

lemma write_metrics_lines: "write_prometheus_metrics rd wr p out = write_lines wr (exposition rd ''cumulative'' lh_cumulative p) out"
  by (simp add: write_prometheus_metrics_def write_prometheus_help_def write_ingress_prometheus_help_def write_slots_lines
      exposition_def write_lines_append)

lemma write_lines_string: "write_lines string_writer ls out = (out @ unlines ls, Ok ())"
  by (induction ls arbitrary: out) (simp_all add: writeln_def string_writer_def unlines_def)

subsection \<open>Resetting on the way\<close>

lemma ingress_lines_reset [simp]: "ingress_lines (c\<lparr>cs_histograms := h\<rparr>) = ingress_lines c"
  by (simp add: ingress_lines_def)

lemma reset_slots_simps [simp]:
  "reset_slots ws 0 slots = slots" "reset_slots ws n [] = []"
  "reset_slots ws (Suc n) (None # slots) = None # reset_slots ws n slots"
  "reset_slots ws (Suc n) (Some c # slots) = Some (reset_conn (ws (conn_token c)) c) # reset_slots ws n slots"
  by (simp_all add: reset_slots_def)

text \<open>The latency lines come first; once they are written the interval is emptied, whatever happens to the
  counters after them.\<close>

lemma conn_write_reset:
  "conn_write_prometheus_metrics_and_reset_interval w rd wr (c, out) =
     (let (out', r) = write_lines wr (conn_lines rd ''interval'' lh_interval c) out;
          latency = (case cs_histograms c of Some h \<Rightarrow> latency_lines rd (id_conn_id (cs_identity c)) ''interval'' (lh_interval h) | None \<Rightarrow> [])
      in ((if snd (write_lines wr latency out) = Ok () then reset_conn w c else c, out'), r))"
proof (cases "cs_histograms c")
  case None
  then show ?thesis
    by (simp add: conn_write_prometheus_metrics_and_reset_interval_def conn_lines_def reset_conn_def
        write_ingress_prometheus_metrics_def split: prod.split)
next
  case (Some h)
  obtain out1 r1 where o: "write_lines wr (latency_lines rd (id_conn_id (cs_identity c)) ''interval'' (lh_interval h)) out = (out1, r1)"
    by force
  then show ?thesis using Some
    by (cases r1) (simp_all add: conn_write_prometheus_metrics_and_reset_interval_def conn_lines_def reset_conn_def
        write_prometheus_interval_and_reset_def write_prometheus_interval_def set_write_lines
        write_ingress_prometheus_metrics_def write_lines_append split: prod.split)
qed

lemma conn_reset_cases:
  assumes "conn_write_prometheus_metrics_and_reset_interval w rd wr (c, out) = ((c', out'), r)"
  shows "write_lines wr (conn_lines rd ''interval'' lh_interval c) out = (out', r)"
    and "c' = c \<or> c' = reset_conn w c" and "r = Ok u \<Longrightarrow> c' = reset_conn w c"
  using assms by (auto simp: conn_write_reset Let_def conn_lines_def write_lines_append fst_try_st
      elim!: try_st_cases split: prod.splits if_splits)

lemma slots_write_reset:
  "write_slots_and_reset ws rd wr (slots, out) = ((slots', out'), r) \<Longrightarrow>
     write_lines wr (slot_lines rd ''interval'' lh_interval slots) out = (out', r) \<and>
     (\<exists>n \<le> length slots. slots' = reset_slots ws n slots) \<and> (r = Ok () \<longrightarrow> slots' = reset_slots ws (length slots) slots)"
proof (induction slots arbitrary: out slots' out' r)
  case Nil
  then show ?case by (auto simp: slot_lines_def)
next
  case (Cons slot slots)
  show ?case
  proof (cases slot)
    case None
    obtain s1 o1 r1 where rest: "write_slots_and_reset ws rd wr (slots, out) = ((s1, o1), r1)" by (metis surj_pair)
    then obtain n where "n \<le> length slots" "s1 = reset_slots ws n slots" using Cons.IH by blast
    then show ?thesis using Cons.IH [OF rest] Cons.prems rest None
      by (auto simp: slot_lines_def intro!: exI [of _ "Suc n"])
  next
    case (Some c)
    obtain c1 o1 r1 where conn: "conn_write_prometheus_metrics_and_reset_interval (ws (conn_token c)) rd wr (c, out) = ((c1, o1), r1)"
      by (metis surj_pair)
    note written = conn_reset_cases [OF conn]
    show ?thesis
    proof (cases "r1 = Ok ()")
      case True
      obtain s2 o2 r2 where rest: "write_slots_and_reset ws rd wr (slots, o1) = ((s2, o2), r2)" by (metis surj_pair)
      then obtain n where "n \<le> length slots" "s2 = reset_slots ws n slots" using Cons.IH by blast
      then show ?thesis using Cons.IH [OF rest] Cons.prems rest Some conn True written
        by (auto simp: slot_lines_def write_lines_append intro!: exI [of _ "Suc n"])
    next
      case False
      then have "slots' = Some c1 # slots" "out' = o1" "r = r1" using Cons.prems Some conn by (cases r1; simp)+
      moreover have "\<exists>n \<le> Suc (length slots). Some c1 # slots = reset_slots ws n (Some c # slots)"
        using written(2) by (auto intro: exI [of _ 0] exI [of _ "Suc 0"])
      ultimately show ?thesis using False Some written(1)
        by (cases r1) (auto simp: slot_lines_def write_lines_append)
    qed
  qed
qed

text \<open>What a scrape with any writer does to the pool and to the writer.\<close>

lemma scrape_cases:
  assumes "write_prometheus_metrics_and_reset_interval ws rd wr (p, out) = ((p', out'), r)"
  shows "write_lines wr (exposition rd ''interval'' lh_interval p) out = (out', r)"
    and "\<exists>n \<le> length (po_conns p). p' = p\<lparr>po_conns := reset_slots ws n (po_conns p)\<rparr>"
    and "r = Ok () \<Longrightarrow> p' = p\<lparr>po_conns := reset_slots ws (length (po_conns p)) (po_conns p)\<rparr>"
proof -
  obtain o1 r1 where heads: "write_lines wr (latency_help_lines @ ingress_help_lines) out = (o1, r1)" by force
  obtain s2 o2 r2 where rest: "write_slots_and_reset ws rd wr (po_conns p, o1) = ((s2, o2), r2)" by (metis surj_pair)
  have lines: "write_lines wr (exposition rd ''interval'' lh_interval p) out =
      try_st (o1, r1) (\<lambda>out _. write_lines wr (slot_lines rd ''interval'' lh_interval (po_conns p)) out)"
    using heads by (simp add: exposition_def write_lines_append flip: append_assoc)
  have res: "((p', out'), r) = (if r1 = Ok () then ((p\<lparr>po_conns := s2\<rparr>, o2), r2) else ((p, o1), r1))"
    using assms heads rest
    by (cases r1) (auto simp: write_prometheus_metrics_and_reset_interval_def write_prometheus_help_def
        write_ingress_prometheus_help_def simp flip: write_lines_append)
  have same: "p = p\<lparr>po_conns := reset_slots ws 0 (po_conns p)\<rparr>" by simp
  note slots = slots_write_reset [OF rest]
  show "write_lines wr (exposition rd ''interval'' lh_interval p) out = (out', r)"
    using res slots lines by (cases r1) (auto split: if_splits)
  show "\<exists>n \<le> length (po_conns p). p' = p\<lparr>po_conns := reset_slots ws n (po_conns p)\<rparr>"
    using res slots same by (auto split: if_splits)
  assume "r = Ok ()"
  then show "p' = p\<lparr>po_conns := reset_slots ws (length (po_conns p)) (po_conns p)\<rparr>"
    using res slots by (auto split: if_splits)
qed

text \<open>A writer that takes a number of lines and then fails.\<close>

definition quota :: "nat Writer" where
  "quota s n = (if n = 0 then (0, Err FmtError) else (n - 1, Ok ()))"

lemma write_lines_quota: "write_lines quota ls n = (if length ls \<le> n then (n - length ls, Ok ()) else (0, Err FmtError))"
  by (induction ls arbitrary: n) (auto simp: writeln_def quota_def)

lemma ingress_lines_nonempty: "ingress_lines c \<noteq> []"
  by (simp add: ingress_lines_def Let_def)

text \<open>A scrape that fails after the latency lines of the first connection has emptied its interval histograms: the
  caller gets an error, and the samples are in no later interval.\<close>

lemma failed_scrape_resets:
  "\<exists>n out. write_prometheus_metrics_and_reset_interval ws rd quota (p\<lparr>po_conns := Some c # slots\<rparr>, n) =
    ((p\<lparr>po_conns := Some (reset_conn (ws (conn_token c)) c) # slots\<rparr>, out), Err FmtError)"
proof -
  define latency where "latency = (case cs_histograms c of
    Some h \<Rightarrow> latency_lines rd (id_conn_id (cs_identity c)) ''interval'' (lh_interval h) | None \<Rightarrow> [])"
  define n where "n = length (latency_help_lines @ ingress_help_lines) + length latency"
  have conn: "conn_write_prometheus_metrics_and_reset_interval (ws (conn_token c)) rd quota (c, length latency) =
      ((reset_conn (ws (conn_token c)) c, 0), Err FmtError)"
    using ingress_lines_nonempty [of c] by (simp add: conn_write_reset conn_lines_def write_lines_quota flip: latency_def)
  have "try_st (write_prometheus_help quota n) (\<lambda>out _. write_ingress_prometheus_help quota out) = (length latency, Ok ())"
    by (simp add: write_prometheus_help_def write_ingress_prometheus_help_def write_lines_quota n_def flip: write_lines_append)
  then show ?thesis
    using conn by (intro exI [of _ n] exI [of _ 0]) (simp add: write_prometheus_metrics_and_reset_interval_def)
qed

subsection \<open>Properties\<close>

text \<open>C34. A scrape.  The snapshot of a pool is the text of the reference exposition: help lines, then for each live
  connection in slot order its latency stages and its counters.  The scrape of the interval gives the text
  of the state before it, empties the interval histograms of all live connections and changes nothing
  else; neither panics.  Any other writer is given the same lines in the same order up to its first
  failure, and whatever it does, the interval histograms of a prefix of the slots are emptied and nothing else changes.
  The prefix includes a connection whose counters could not be written: with a writer that stops there, the call
  fails and the interval samples of the connection are gone.\<close>

theorem interval_scrape:
  "prometheus_metrics rd p = Ok (unlines (exposition rd ''cumulative'' lh_cumulative p)) \<and>
   prometheus_metrics_and_reset_interval ws rd p =
     (p\<lparr>po_conns := map (map_option (\<lambda>c. reset_conn (ws (conn_token c)) c)) (po_conns p)\<rparr>,
      Ok (unlines (exposition rd ''interval'' lh_interval p))) \<and>
   write_prometheus_metrics rd wr p out = write_lines wr (exposition rd ''cumulative'' lh_cumulative p) out \<and>
   (\<exists>n out' r. write_prometheus_metrics_and_reset_interval ws rd wr (p, out) =
        ((p\<lparr>po_conns := reset_slots ws n (po_conns p)\<rparr>, out'), r) \<and>
      write_lines wr (exposition rd ''interval'' lh_interval p) out = (out', r)) \<and>
   (\<exists>n out. write_prometheus_metrics_and_reset_interval ws rd quota (p\<lparr>po_conns := Some c # slots\<rparr>, n) =
      ((p\<lparr>po_conns := Some (reset_conn (ws (conn_token c)) c) # slots\<rparr>, out), Err FmtError))"
proof (intro conjI)
  show "prometheus_metrics rd p = Ok (unlines (exposition rd ''cumulative'' lh_cumulative p))"
    by (simp add: prometheus_metrics_def write_metrics_lines write_lines_string)
  obtain p1 o1 r1 where w: "write_prometheus_metrics_and_reset_interval ws rd string_writer (p, []) = ((p1, o1), r1)"
    by (metis surj_pair)
  then show "prometheus_metrics_and_reset_interval ws rd p =
     (p\<lparr>po_conns := map (map_option (\<lambda>c. reset_conn (ws (conn_token c)) c)) (po_conns p)\<rparr>,
      Ok (unlines (exposition rd ''interval'' lh_interval p)))"
    using scrape_cases(1,3) [OF w] by (auto simp: prometheus_metrics_and_reset_interval_def write_lines_string reset_slots_def)
  show "write_prometheus_metrics rd wr p out = write_lines wr (exposition rd ''cumulative'' lh_cumulative p) out"
    by (rule write_metrics_lines)
  obtain p2 o2 r2 where v: "write_prometheus_metrics_and_reset_interval ws rd wr (p, out) = ((p2, o2), r2)"
    by (metis surj_pair)
  then show "\<exists>n out' r. write_prometheus_metrics_and_reset_interval ws rd wr (p, out) =
        ((p\<lparr>po_conns := reset_slots ws n (po_conns p)\<rparr>, out'), r) \<and>
      write_lines wr (exposition rd ''interval'' lh_interval p) out = (out', r)"
    using scrape_cases(1,2) [OF v] by auto
qed (rule failed_scrape_resets)

end
