(* ===== verification/Pool_Ids.thy ===== *)
theory Pool_Ids
  imports Pool_Rounds Metrics
begin

text \<open>
  Identities in the pool: the invariant of slot numbers, generations and buffer groups, that every
  public operation keeps it in every order of calls, and that the handle of a removed connection is dead
  from then on.
\<close>

subsection \<open>The invariant\<close>

text \<open>The slot table as identities, and the invariant over it: slot numbers and generations fit the token, free
  slots are vacant and listed once, a connection carries the number and generation of its slot, and no
  buffer group is shared or handed out twice.\<close>

definition occupant :: "('t, 'h, 'k) Pool \<Rightarrow> u32 \<Rightarrow> ConnectionRuntimeIdentity option" where
  "occupant p cid = map_option cs_identity (slot_at (po_conns p) cid)"

definition ids_ok :: "('t, 'h, 'k) Pool \<Rightarrow> bool" where
  "ids_ok p \<longleftrightarrow>
     length (po_generations p) = length (po_conns p) \<and> unat (po_next_conn_id p) = length (po_conns p) \<and>
     length (po_conns p) \<le> 2 ^ 28 \<and> (\<forall>g \<in> set (po_generations p). token_fits g) \<and>
     distinct (po_free_conn_ids p) \<and> (\<forall>cid \<in> set (po_free_conn_ids p). unat cid < length (po_conns p) \<and> occupant p cid = None) \<and>
     (\<forall>cid i. occupant p cid = Some i \<longrightarrow> id_conn_id i = cid \<and> id_generation i = po_generations p ! unat cid) \<and>
     distinct (po_free_bgids p) \<and> (\<forall>b \<in> set (po_free_bgids p). b < po_next_bgid p) \<and>
     (\<forall>cid i. occupant p cid = Some i \<longrightarrow> id_bgid i < po_next_bgid p \<and> id_bgid i \<notin> set (po_free_bgids p)) \<and>
     (\<forall>cid i cid' i'. occupant p cid = Some i \<longrightarrow> occupant p cid' = Some i' \<longrightarrow> id_bgid i = id_bgid i' \<longrightarrow> cid = cid')"

lemma occupant_less: "occupant p cid = Some i \<Longrightarrow> unat cid < length (po_conns p)"
  by (auto simp: occupant_def slot_at_def split: if_splits)

text \<open>A slot number and generation that will never be those of a connection again: the slot has moved on, or it
  is vacant and off the free list.\<close>

definition spent :: "u32 \<Rightarrow> u32 \<Rightarrow> ('t, 'h, 'k) Pool \<Rightarrow> bool" where
  "spent cid g p \<longleftrightarrow> unat cid < length (po_conns p) \<and>
     (g < po_generations p ! unat cid \<or> occupant p cid = None \<and> cid \<notin> set (po_free_conn_ids p))"

text \<open>Every operation keeps the invariant, and what is spent stays spent.\<close>

definition ids_move :: "('t, 'h, 'k) Pool \<Rightarrow> ('t, 'h, 'k) Pool \<Rightarrow> bool" where
  "ids_move p p' \<longleftrightarrow> (ids_ok p \<longrightarrow> ids_ok p' \<and> (\<forall>cid g. spent cid g p \<longrightarrow> spent cid g p'))"

lemma ids_move_refl [simp]: "ids_move p p"
  by (simp add: ids_move_def)

lemma ids_move_trans: "ids_move p q \<Longrightarrow> ids_move q r \<Longrightarrow> ids_move p r"
  by (simp add: ids_move_def)

text \<open>Operations that only work inside connections.\<close>

definition same_ids :: "('t, 'h, 'k) Pool \<Rightarrow> ('t, 'h, 'k) Pool \<Rightarrow> bool" where
  "same_ids p p' \<longleftrightarrow> table (po_conns p') = table (po_conns p) \<and> po_generations p' = po_generations p \<and>
     po_free_conn_ids p' = po_free_conn_ids p \<and> po_free_bgids p' = po_free_bgids p \<and>
     po_next_conn_id p' = po_next_conn_id p \<and> po_next_bgid p' = po_next_bgid p"

lemma occupant_table: "table (po_conns p') = table (po_conns p) \<Longrightarrow> occupant p' cid = occupant p cid"
proof -
  assume t: "table (po_conns p') = table (po_conns p)"
  have "occupant q cid = (if unat cid < length (table (po_conns q)) then map_option fst (table (po_conns q) ! unat cid) else None)"
    for q :: "('x, 'y, 'z) Pool"
    by (auto simp: occupant_def slot_at_def table_def option.map_comp fixed_part_def comp_def)
  then show ?thesis using t by metis
qed

lemma same_ids_move: "same_ids p p' \<Longrightarrow> ids_move p p'"
proof -
  assume s: "same_ids p p'"
  then have "occupant p' = occupant p" "length (po_conns p') = length (po_conns p)"
    using occupant_table table_length unfolding same_ids_def by (blast intro: ext)+
  then show ?thesis using s unfolding ids_move_def ids_ok_def spent_def same_ids_def by simp
qed

lemma pool_keeps_ids: "pool_keeps p p' \<Longrightarrow> same_ids p p'"
  by (auto simp: pool_keeps_def same_ids_def round_end_def round_keeps_def round_begin_def)

subsection \<open>Reserving and releasing\<close>

text \<open>An identity taken from the pool and not yet in the table.\<close>

definition reserved :: "ConnectionRuntimeIdentity \<Rightarrow> ('t, 'h, 'k) Pool \<Rightarrow> bool" where
  "reserved i p \<longleftrightarrow>
     unat (id_conn_id i) < length (po_conns p) \<and> occupant p (id_conn_id i) = None \<and> id_conn_id i \<notin> set (po_free_conn_ids p) \<and>
     id_generation i = po_generations p ! unat (id_conn_id i) \<and>
     id_bgid i < po_next_bgid p \<and> id_bgid i \<notin> set (po_free_bgids p) \<and> (\<forall>cid j. occupant p cid = Some j \<longrightarrow> id_bgid j \<noteq> id_bgid i)"

lemma last_butlast_distinct: "xs \<noteq> [] \<Longrightarrow> distinct xs \<Longrightarrow> last xs \<notin> set (butlast xs) \<and> set xs = insert (last xs) (set (butlast xs))"
  by (induction xs rule: rev_induct) auto

definition free_bgid :: "u16 \<Rightarrow> ('t, 'h, 'k) Pool \<Rightarrow> bool" where
  "free_bgid b p \<longleftrightarrow> b < po_next_bgid p \<and> b \<notin> set (po_free_bgids p) \<and> (\<forall>cid j. occupant p cid = Some j \<longrightarrow> id_bgid j \<noteq> b)"

lemma occupant_simps [simp]:
  "occupant (p\<lparr>po_free_bgids := x\<rparr>) = occupant p" "occupant (p\<lparr>po_next_bgid := b\<rparr>) = occupant p"
  "occupant (p\<lparr>po_free_conn_ids := y\<rparr>) = occupant p" "occupant (p\<lparr>po_proactor := k\<rparr>) = occupant p"
  "occupant (p\<lparr>po_active_count := n\<rparr>) = occupant p" "occupant (p\<lparr>po_next_conn_id := c\<rparr>) = occupant p"
  "occupant (p\<lparr>po_generations := gs\<rparr>) = occupant p"
  by (simp_all add: occupant_def fun_eq_iff)

lemma unat_succ: "(x :: 'a::len word) \<noteq> - 1 \<Longrightarrow> unat (x + 1) = Suc (unat x)"
  by (metis add.commute add_eq_0_iff unatSuc)

lemma reserve_bgid_ok:
  assumes "ids_ok p" and "reserve_bgid p = (p', r)"
  shows "ids_ok p'" and "r = Ok b \<Longrightarrow> free_bgid b p'" and "spent cid g p \<Longrightarrow> spent cid g p'" and "r \<noteq> Panic"
proof -
  have n: "po_next_bgid p \<noteq> 65535 \<Longrightarrow> b < po_next_bgid p \<Longrightarrow> b < po_next_bgid p + 1" "po_next_bgid p \<noteq> 65535 \<Longrightarrow> po_next_bgid p < po_next_bgid p + 1" for b
  proof -
    have "(- 1 :: u16) = 65535" by simp
    then show "po_next_bgid p \<noteq> 65535 \<Longrightarrow> b < po_next_bgid p \<Longrightarrow> b < po_next_bgid p + 1" "po_next_bgid p \<noteq> 65535 \<Longrightarrow> po_next_bgid p < po_next_bgid p + 1"
      using unat_succ [of "po_next_bgid p"] by (simp_all only: word_less_nat_alt) simp_all
  qed
  note ends = last_butlast_distinct [of "po_free_bgids p"]
  show "ids_ok p'"
    using assms n ends unfolding ids_ok_def reserve_bgid_def
    by (auto simp: Let_def distinct_butlast dest: in_set_butlastD split: if_splits)
  show "r = Ok b \<Longrightarrow> free_bgid b p'"
    using assms n ends unfolding ids_ok_def reserve_bgid_def free_bgid_def
    by (auto simp: Let_def split: if_splits) (metis order_less_irrefl)
  show "spent cid g p \<Longrightarrow> spent cid g p'" and "r \<noteq> Panic"
    using assms unfolding reserve_bgid_def spent_def by (auto simp: Let_def split: if_splits)
qed

lemma new_slot_ok:
  assumes ok: "ids_ok p" and room: "\<not> po_next_conn_id p > ucast CONN_ID_MASK"
  defines "p' \<equiv> p\<lparr>po_next_conn_id := po_next_conn_id p + 1, po_conns := po_conns p @ [None], po_generations := po_generations p @ [0]\<rparr>"
  shows "ids_ok p'" and "occupant p' = occupant p" and "unat (po_next_conn_id p) = length (po_conns p)"
proof -
  have occ: "occupant p' = occupant p" by (rule ext) (auto simp: p'_def occupant_def slot_at_def nth_append less_Suc_eq)
  have len: "unat (po_next_conn_id p) = length (po_conns p)" using ok by (simp add: ids_ok_def)
  have m: "unat (po_next_conn_id p) < 2 ^ 28" using room by (simp add: not_less word_le_nat_alt CONN_ID_MASK_def)
  then have "po_next_conn_id p \<noteq> - 1" by (auto simp: unsigned_minus_1_eq_mask mask_eq_exp_minus_1)
  from unat_succ [OF this] have nx: "unat (po_next_conn_id p + 1) = Suc (unat (po_next_conn_id p))" .
  have same: "po_generations p' = po_generations p @ [0]" "length (po_conns p') = Suc (length (po_conns p))"
    "po_next_conn_id p' = po_next_conn_id p + 1" "po_free_conn_ids p' = po_free_conn_ids p" "po_free_bgids p' = po_free_bgids p"
    "po_next_bgid p' = po_next_bgid p"
    by (simp_all add: p'_def)
  have keep: "po_generations p' ! unat cid = po_generations p ! unat cid" if "occupant p cid = Some i" for cid i
    using occupant_less [OF that] ok by (simp add: p'_def ids_ok_def nth_append)
  show "ids_ok p'"
    using ok m len nx keep [unfolded same] unfolding ids_ok_def occ same by (simp add: token_fits_def less_SucI)
  show "occupant p' = occupant p" "unat (po_next_conn_id p) = length (po_conns p)" by (fact occ len)+
qed

lemma reserve_conn_id_ok:
  assumes ok: "ids_ok p" and r: "reserve_conn_id p = (p', r)"
  shows "ids_ok p'" and "occupant p' = occupant p" and "po_free_bgids p' = po_free_bgids p" and "po_next_bgid p' = po_next_bgid p"
    and "r = Ok cid \<Longrightarrow> unat cid < length (po_conns p') \<and> occupant p' cid = None \<and> cid \<notin> set (po_free_conn_ids p')"
    and "spent c g p \<Longrightarrow> spent c g p' \<and> (r = Ok c \<longrightarrow> g < po_generations p' ! unat c)" and "r \<noteq> Panic"
proof -
  let ?new = "p\<lparr>po_next_conn_id := po_next_conn_id p + 1, po_conns := po_conns p @ [None], po_generations := po_generations p @ [0]\<rparr>"
  consider (reuse) "po_free_conn_ids p \<noteq> []" "p' = p\<lparr>po_free_conn_ids := butlast (po_free_conn_ids p)\<rparr>" "r = Ok (last (po_free_conn_ids p))"
    | (full) "p' = p" "r = Err (CeIdSpaceExhausted ''conn_id'')"
    | (new) "\<not> po_next_conn_id p > ucast CONN_ID_MASK" "p' = ?new" "r = Ok (po_next_conn_id p)" "po_free_conn_ids p = []"
    using r by (auto simp: reserve_conn_id_def Let_def split: if_splits)
  then have "ids_ok p' \<and> occupant p' = occupant p \<and> po_free_bgids p' = po_free_bgids p \<and> po_next_bgid p' = po_next_bgid p \<and>
    (r = Ok cid \<longrightarrow> unat cid < length (po_conns p') \<and> occupant p' cid = None \<and> cid \<notin> set (po_free_conn_ids p')) \<and>
    (spent c g p \<longrightarrow> spent c g p' \<and> (r = Ok c \<longrightarrow> g < po_generations p' ! unat c)) \<and> r \<noteq> Panic"
  proof cases
    case reuse
    have ends: "last (po_free_conn_ids p) \<notin> set (butlast (po_free_conn_ids p))"
      "set (po_free_conn_ids p) = insert (last (po_free_conn_ids p)) (set (butlast (po_free_conn_ids p)))"
      using ok reuse last_butlast_distinct unfolding ids_ok_def by blast+
    have "ids_ok p'" using ok reuse unfolding ids_ok_def by (auto simp: distinct_butlast dest: in_set_butlastD)
    moreover have "spent c g p \<longrightarrow> spent c g p' \<and> (r = Ok c \<longrightarrow> g < po_generations p' ! unat c)"
      using ends reuse by (auto simp: spent_def)
    moreover have "unat (last (po_free_conn_ids p)) < length (po_conns p) \<and> occupant p (last (po_free_conn_ids p)) = None"
      using ok reuse unfolding ids_ok_def by auto
    ultimately show ?thesis using reuse ends by auto
  next
    case full
    then show ?thesis using ok by simp
  next
    case new
    note fresh = new_slot_ok [OF ok new(1)]
    have "occupant p (po_next_conn_id p) = None"
      using fresh(3) occupant_less [of p "po_next_conn_id p"] by (cases "occupant p (po_next_conn_id p)") auto
    moreover have "length (po_generations p) = length (po_conns p)" using ok by (simp add: ids_ok_def)
    ultimately show ?thesis using fresh new by (auto simp: spent_def nth_append)
  qed
  then show "ids_ok p'" and "occupant p' = occupant p" and "po_free_bgids p' = po_free_bgids p" and "po_next_bgid p' = po_next_bgid p"
    and "r = Ok cid \<Longrightarrow> unat cid < length (po_conns p') \<and> occupant p' cid = None \<and> cid \<notin> set (po_free_conn_ids p')"
    and "spent c g p \<Longrightarrow> spent c g p' \<and> (r = Ok c \<longrightarrow> g < po_generations p' ! unat c)" and "r \<noteq> Panic" by blast+
qed

lemma release_bgid_ok: "ids_ok p \<Longrightarrow> free_bgid b p \<Longrightarrow> ids_ok (release_bgid b p)"
  unfolding ids_ok_def free_bgid_def release_bgid_def by auto

lemma spent_release [simp]: "spent c g (release_bgid b p) = spent c g p"
  by (simp add: spent_def release_bgid_def)

lemma reserve_identity_ok:
  assumes ok: "ids_ok p" and r: "reserve_runtime_identity p = (p', r)"
  shows "ids_ok p' \<and> (\<forall>i. r = Ok i \<longrightarrow> reserved i p') \<and>
    (\<forall>c g. spent c g p \<longrightarrow> spent c g p' \<and> (\<forall>i. r = Ok i \<longrightarrow> id_conn_id i = c \<longrightarrow> g < id_generation i)) \<and> r \<noteq> Panic"
proof -
  obtain p1 q where b: "reserve_bgid p = (p1, q)" by force
  note one = reserve_bgid_ok [OF ok b]
  show ?thesis
  proof (cases q)
    case (Ok bgid)
    obtain p2 q2 where c: "reserve_conn_id p1 = (p2, q2)" by force
    note two = reserve_conn_id_ok [OF one(1) c]
    have bg: "free_bgid bgid p2" using one(2) [OF Ok] two(2-4) by (simp add: free_bgid_def)
    show ?thesis
    proof (cases q2)
      case 2: (Ok cid)
      have len: "unat cid < length (po_generations p2)" using two(1,5) 2 by (simp add: ids_ok_def)
      have "p' = p2" "r = Ok \<lparr>id_conn_id = cid, id_generation = po_generations p2 ! unat cid, id_bgid = bgid\<rparr>"
        using r b Ok c 2 len by (auto simp: reserve_runtime_identity_def)
      then show ?thesis using two(1) two(5) [of cid] two(6) one(3) bg 2 by (auto simp: reserved_def free_bgid_def)
    next
      case (Err e)
      have "p' = release_bgid bgid p2" "r = Err e" using r b Ok c Err by (auto simp: reserve_runtime_identity_def)
      then show ?thesis using release_bgid_ok [OF two(1) bg] two(6) one(3) by auto
    qed (use two(7) in simp)
  next
    case (Err e)
    then show ?thesis using r b one by (auto simp: reserve_runtime_identity_def)
  qed (use one(4) in simp)
qed

lemma release_reserved_ok:
  assumes "ids_ok p" and "reserved i p"
  shows "ids_ok (release_reserved_identity i p)"
    and "spent c g p \<Longrightarrow> (id_conn_id i = c \<longrightarrow> g < id_generation i) \<Longrightarrow> spent c g (release_reserved_identity i p)"
  using assms unfolding ids_ok_def reserved_def spent_def release_reserved_identity_def release_bgid_def by auto

lemma reserved_frame: "reserved i (p\<lparr>po_proactor := k\<rparr>) = reserved i p" "ids_ok (p\<lparr>po_proactor := k\<rparr>) = ids_ok p"
  "spent c g (p\<lparr>po_proactor := k\<rparr>) = spent c g p" "ids_ok (p\<lparr>po_active_count := n\<rparr>) = ids_ok p"
  "spent c g (p\<lparr>po_active_count := n\<rparr>) = spent c g p"
  by (simp_all add: reserved_def ids_ok_def spent_def)

lemma occupant_put:
  "unat cid < length (po_conns p) \<Longrightarrow> occupant (p\<lparr>po_conns := (po_conns p)[unat cid := slot]\<rparr>) = (occupant p)(cid := map_option cs_identity slot)"
  by (rule ext) (auto simp: occupant_def slot_at_def nth_list_update word_unat_eq_iff)

text \<open>A reserved identity moves into the table.\<close>

lemma occupy_ok:
  assumes ok: "ids_ok p" and res: "reserved (cs_identity conn) p"
  defines "p' \<equiv> p\<lparr>po_conns := (po_conns p)[unat (id_conn_id (cs_identity conn)) := Some conn]\<rparr>"
  shows "ids_ok p'" and "spent c g p \<Longrightarrow> (id_conn_id (cs_identity conn) = c \<longrightarrow> g < id_generation (cs_identity conn)) \<Longrightarrow> spent c g p'"
proof -
  let ?i = "cs_identity conn"
  have occ: "occupant p' = (occupant p)(id_conn_id ?i \<mapsto> ?i)"
    using res occupant_put [of "id_conn_id ?i" p "Some conn"] by (simp add: p'_def reserved_def)
  have same: "po_generations p' = po_generations p" "length (po_conns p') = length (po_conns p)" "po_next_conn_id p' = po_next_conn_id p"
    "po_free_conn_ids p' = po_free_conn_ids p" "po_free_bgids p' = po_free_bgids p" "po_next_bgid p' = po_next_bgid p"
    by (simp_all add: p'_def)
  have free: "\<forall>cid \<in> set (po_free_conn_ids p). unat cid < length (po_conns p) \<and> occupant p' cid = None"
    using ok res unfolding ids_ok_def occ reserved_def by auto
  have slot: "\<forall>cid i. occupant p' cid = Some i \<longrightarrow> id_conn_id i = cid \<and> id_generation i = po_generations p ! unat cid"
    using ok res unfolding ids_ok_def occ reserved_def by simp
  have bgid: "\<forall>cid i. occupant p' cid = Some i \<longrightarrow> id_bgid i < po_next_bgid p \<and> id_bgid i \<notin> set (po_free_bgids p)"
    using ok res unfolding ids_ok_def occ reserved_def by simp
  have "cid = cid'" if "occupant p' cid = Some i" "occupant p' cid' = Some i'" "id_bgid i = id_bgid i'" for cid cid' i i'
    using ok res that unfolding ids_ok_def occ reserved_def by (metis fun_upd_apply option.inject)
  then show "ids_ok p'" using ok free slot bgid unfolding ids_ok_def same by simp
  show "spent c g p'" if "spent c g p" "id_conn_id ?i = c \<longrightarrow> g < id_generation ?i"
    using that res unfolding spent_def occ same reserved_def by auto
qed

subsection \<open>Connecting and retiring\<close>

lemma conn_new_identity: "conn_new w cfg addr = Ok c \<Longrightarrow> cs_identity c = ac_identity cfg"
  unfolding conn_new_def Let_def by (auto simp: and_then_eq_Ok_iff split: option.splits)

lemma submit_connect_fixed: "conn_submit_connect io (c, k) = ((d, k'), r) \<Longrightarrow> fixed_part d = fixed_part c"
  by (auto simp: conn_submit_connect_def split: prod.splits result.splits)

text \<open>The handle that connecting returns was not spent, and names the connection it stands for.\<close>

lemma connect_ids:
  assumes ok: "ids_ok p" and r: "submit_connect_to ws io cfg addr p = (p', r)" and np: "r \<noteq> Panic"
  shows "ids_ok p' \<and> (\<forall>c g. spent c g p \<longrightarrow> spent c g p') \<and>
    (\<forall>h. r = Ok h \<longrightarrow> (\<exists>i. occupant p' (id_conn_id i) = Some i \<and> h = from_parts (id_conn_id i) (id_generation i) \<and> \<not> spent (id_conn_id i) (id_generation i) p))"
proof -
  obtain p1 q where b: "reserve_runtime_identity p = (p1, q)" by force
  note one = reserve_identity_ok [OF ok b]
  show ?thesis
  proof (cases q)
    case (Ok i)
    have res: "reserved i p1" and sp: "spent c g p \<Longrightarrow> spent c g p1 \<and> (id_conn_id i = c \<longrightarrow> g < id_generation i)" for c g
      using one Ok by auto
    show ?thesis
    proof (cases "conn_new (ws (id_token i)) \<lparr>ac_user = cfg, ac_identity = i\<rparr> addr")
      case 2: (Ok conn)
      obtain d k s where c: "conn_submit_connect io (conn, po_proactor p1) = ((d, k), s)" by (metis surj_pair)
      have d: "cs_identity d = i" using conn_new_identity [OF 2] submit_connect_fixed [OF c] by (simp add: fixed_part_def)
      let ?p = "p1\<lparr>po_proactor := k\<rparr>"
      show ?thesis
      proof (cases s)
        case 3: (Ok u)
        have in_range: "unat (id_conn_id i) < length (po_conns p1)" using res by (simp add: reserved_def)
        let ?q = "?p\<lparr>po_conns := (po_conns ?p)[unat (id_conn_id i) := Some d]\<rparr>"
        have p': "p' = ?q\<lparr>po_active_count := po_active_count p1 + 1\<rparr>" "r = Ok (from_parts (id_conn_id i) (id_generation i))"
          using r b Ok 2 c 3 in_range by (auto simp: submit_connect_to_def Let_def)
        have put: "ids_ok ?q" "spent c' g' ?p \<Longrightarrow> (id_conn_id i = c' \<longrightarrow> g' < id_generation i) \<Longrightarrow> spent c' g' ?q" for c' g'
          using occupy_ok [of ?p d] one res by (simp_all add: d reserved_frame)
        have "occupant ?q (id_conn_id i) = Some i" using occupant_put [of "id_conn_id i" ?p "Some d"] in_range d by simp
        moreover have "\<not> spent (id_conn_id i) (id_generation i) p" using sp by auto
        ultimately show ?thesis using put sp unfolding p' by (auto simp: reserved_frame)
      next
        case 3: (Err e)
        then have "p' = release_reserved_identity i ?p" "r = Err e" using r b Ok 2 c by (auto simp: submit_connect_to_def)
        then show ?thesis using release_reserved_ok [of ?p i] one res sp by (auto simp: reserved_frame)
      qed (use r b Ok 2 c np in \<open>simp add: submit_connect_to_def\<close>)
    next
      case 2: (Err e)
      then have "p' = release_reserved_identity i p1" "r = Err e" using r b Ok by (auto simp: submit_connect_to_def)
      then show ?thesis using release_reserved_ok [of p1 i] one res sp by auto
    qed (use r b Ok np in \<open>simp add: submit_connect_to_def\<close>)
  next
    case (Err e)
    then show ?thesis using r b one by (auto simp: submit_connect_to_def)
  qed (use one in simp)
qed

lemma vacate_ok:
  assumes ok: "ids_ok p" and occ: "occupant p cid = Some i"
  defines "p' \<equiv> p\<lparr>po_conns := (po_conns p)[unat cid := None]\<rparr>"
  shows "ids_ok p'" and "reserved i p'" and "id_conn_id i = cid"
    and "spent c g p \<Longrightarrow> spent c g p' \<and> (id_conn_id i = c \<longrightarrow> g \<le> id_generation i)" and "spent cid g p'"
proof -
  have i: "id_conn_id i = cid" "id_generation i = po_generations p ! unat cid" using ok occ unfolding ids_ok_def by blast+
  have in_range: "unat cid < length (po_conns p)" using occupant_less [OF occ] .
  have occ': "occupant p' = (occupant p)(cid := None)" using occupant_put [OF in_range, of None] by (simp add: p'_def)
  have same: "po_generations p' = po_generations p" "length (po_conns p') = length (po_conns p)" "po_next_conn_id p' = po_next_conn_id p"
    "po_free_conn_ids p' = po_free_conn_ids p" "po_free_bgids p' = po_free_bgids p" "po_next_bgid p' = po_next_bgid p"
    by (simp_all add: p'_def)
  have free: "cid \<notin> set (po_free_conn_ids p)" using ok occ unfolding ids_ok_def by fastforce
  have sub: "occupant p c = Some j" if "occupant p' c = Some j" for c j using that by (simp add: occ' split: if_splits)
  have vacant: "occupant p' c = None" if "occupant p c = None" for c using that by (simp add: occ')
  show "ids_ok p'"
    using ok unfolding ids_ok_def same by (blast intro: vacant dest: sub)
  have "id_bgid j \<noteq> id_bgid i" if "occupant p' c = Some j" for c j
    using ok occ sub [OF that] that unfolding ids_ok_def occ' by (metis fun_upd_same option.distinct(1))
  then show "reserved i p'"
    using ok occ free in_range i unfolding reserved_def same ids_ok_def by (simp add: occ')
  show "id_conn_id i = cid" by (fact i)
  show "spent c g p \<Longrightarrow> spent c g p' \<and> (id_conn_id i = c \<longrightarrow> g \<le> id_generation i)"
    using i occ by (auto simp: spent_def same occ')
  show "spent cid g p'" using in_range free by (simp add: spent_def same occ')
qed

lemma recycle_ok:
  assumes ok: "ids_ok p" and res: "reserved i p"
  defines "p' \<equiv> recycle_conn_slot (id_conn_id i) p"
  shows "ids_ok p'" and "free_bgid (id_bgid i) p'"
    and "spent c g p \<Longrightarrow> (id_conn_id i = c \<longrightarrow> g \<le> id_generation i) \<Longrightarrow> spent c g p'"
proof -
  let ?cid = "id_conn_id i" and ?gs = "po_generations p"
  have r: "unat ?cid < length ?gs" "unat ?cid < length (po_conns p)" "occupant p ?cid = None" "?cid \<notin> set (po_free_conn_ids p)"
    "id_generation i = ?gs ! unat ?cid" using ok res by (auto simp: ids_ok_def reserved_def)
  have fits: "token_fits (?gs ! unat ?cid)" using ok r(1) by (simp add: ids_ok_def)
  have occ: "occupant p' = occupant p" by (simp add: p'_def recycle_conn_slot_def Let_def)
  have "free_bgid (id_bgid i) p" using res by (simp add: reserved_def free_bgid_def)
  then show "free_bgid (id_bgid i) p'" by (simp add: p'_def recycle_conn_slot_def Let_def free_bgid_def)
  have "ids_ok p' \<and> (spent c g p \<longrightarrow> (id_conn_id i = c \<longrightarrow> g \<le> id_generation i) \<longrightarrow> spent c g p')"
  proof (cases "ucast (?gs ! unat ?cid) \<ge> CONN_GENERATION_MASK")
    case True
    then have "p' = p" using r(1) by (simp add: p'_def recycle_conn_slot_def)
    then show ?thesis using ok by simp
  next
    case False
    then have less: "unat (?gs ! unat ?cid) < 2 ^ 28 - 1" by (simp add: not_le word_less_nat_alt CONN_GENERATION_MASK_def ucast_small)
    then have "?gs ! unat ?cid \<noteq> - 1" by (auto simp: unsigned_minus_1_eq_mask mask_eq_exp_minus_1)
    from unat_succ [OF this] have up: "unat (?gs ! unat ?cid + 1) = Suc (unat (?gs ! unat ?cid))" .
    have p': "p' = p\<lparr>po_generations := ?gs[unat ?cid := ?gs ! unat ?cid + 1], po_free_conn_ids := po_free_conn_ids p @ [?cid]\<rparr>"
      using False r(1) by (simp add: p'_def recycle_conn_slot_def)
    have gens: "\<forall>x \<in> set (?gs[unat ?cid := ?gs ! unat ?cid + 1]). token_fits x"
    proof
      fix x assume "x \<in> set (?gs[unat ?cid := ?gs ! unat ?cid + 1])"
      then have "x = ?gs ! unat ?cid + 1 \<or> x \<in> set ?gs" using set_update_subset_insert by fast
      then show "token_fits x" using ok up less by (auto simp: ids_ok_def token_fits_def)
    qed
    have keep: "?gs[unat ?cid := ?gs ! unat ?cid + 1] ! unat c = ?gs ! unat c" if "c \<noteq> ?cid" for c
      using that by (simp add: word_unat_eq_iff)
    have slot: "\<forall>c j. occupant p c = Some j \<longrightarrow> id_conn_id j = c \<and> id_generation j = ?gs[unat ?cid := ?gs ! unat ?cid + 1] ! unat c"
    proof (intro allI impI)
      fix c j assume o: "occupant p c = Some j"
      then have "c \<noteq> ?cid" using r(3) by auto
      moreover have "id_conn_id j = c \<and> id_generation j = ?gs ! unat c" using ok o unfolding ids_ok_def by blast
      ultimately show "id_conn_id j = c \<and> id_generation j = ?gs[unat ?cid := ?gs ! unat ?cid + 1] ! unat c" using keep by simp
    qed
    have "ids_ok p'" using ok r(2-4) gens slot unfolding ids_ok_def occ unfolding p' by simp
    moreover have "spent c g p'" if "spent c g p" "id_conn_id i = c \<longrightarrow> g \<le> id_generation i"
    proof (cases "c = ?cid")
      case True
      then have "unat g \<le> unat (?gs ! unat ?cid)" using that r(5) by (simp add: word_le_nat_alt)
      then show ?thesis using True r up unfolding spent_def occ unfolding p' by (simp add: word_less_nat_alt)
    next
      case False
      then show ?thesis using that keep unfolding spent_def occ unfolding p' by auto
    qed
    ultimately show ?thesis by blast
  qed
  then show "ids_ok p'" and "spent c g p \<Longrightarrow> (id_conn_id i = c \<longrightarrow> g \<le> id_generation i) \<Longrightarrow> spent c g p'" by blast+
qed

lemma retire_ring_result: "snd (retire_ring io dead k) = (Panic :: ('e, bool) result) \<or> (\<exists>b. snd (retire_ring io dead k) = (Ok b :: ('e, bool) result))"
  by (auto simp: retire_ring_def split: option.splits prod.splits result.splits)

lemma retire_ids:
  assumes ok: "ids_ok p" and r: "retire_slot io cid expected p = (p', r)" and np: "r \<noteq> Panic"
  shows "ids_ok p' \<and> (\<forall>c g. spent c g p \<longrightarrow> spent c g p') \<and> (\<exists>b. r = Ok b \<and> (if b
    then \<exists>i. occupant p cid = Some i \<and> (\<forall>e. expected = Some e \<longrightarrow> e = id_generation i) \<and> spent cid (id_generation i) p' else p' = p))"
proof (cases "slot_at (po_conns p) cid")
  case None
  then show ?thesis using r ok by (auto simp: retire_slot_def)
next
  case (Some dead)
  show ?thesis
  proof (cases "case expected of Some e \<Rightarrow> e \<noteq> conn_generation dead | None \<Rightarrow> False")
    case True
    then show ?thesis using r ok Some by (auto simp: retire_slot_def)
  next
    case False
    let ?i = "cs_identity dead" and ?p = "p\<lparr>po_conns := (po_conns p)[unat cid := None]\<rparr>"
    have occ: "occupant p cid = Some ?i" using Some by (simp add: occupant_def)
    note v = vacate_ok [OF ok occ]
    obtain k q where k: "retire_ring io dead (po_proactor p) = (k, q :: (ConnectionError, bool) result)" by force
    have "q \<noteq> Panic" using r np Some False k by (auto simp: retire_slot_def Let_def)
    then obtain b where q: "q = Ok b" using retire_ring_result [where ?'e = ConnectionError, of io dead "po_proactor p"] k by auto
    define p1 where "p1 = (if conn_is_active dead then ?p\<lparr>po_proactor := k, po_active_count := saturating_sub (po_active_count p) 1\<rparr> else ?p\<lparr>po_proactor := k\<rparr>)"
    have p1: "ids_ok p1" "reserved ?i p1" "spent c g p1 = spent c g ?p" for c g
      using v(1,2) by (auto simp: p1_def reserved_def ids_ok_def spent_def)
    note w = recycle_ok [OF p1(1,2), unfolded v(3)]
    have fin: "p' = (if b then release_bgid (conn_bgid dead) (recycle_conn_slot cid p1) else recycle_conn_slot cid p1)" "r = Ok True"
      using r Some False k q by (auto simp: retire_slot_def Let_def p1_def)
    have "ids_ok p'" using release_bgid_ok [OF w(1,2)] w(1) by (simp add: fin conn_bgid_def)
    moreover have "spent c g p'" if "spent c g (recycle_conn_slot cid p1)" for c g using that by (simp add: fin)
    moreover have "\<forall>e. expected = Some e \<longrightarrow> e = id_generation ?i" using False by (auto simp: conn_generation_def)
    ultimately show ?thesis using w(3) v(3-5) p1(3) occ fin(2) by (auto simp: v(3))
  qed
qed

lemma remove_ids:
  assumes ok: "ids_ok p" and r: "remove_conn io h p = (p', r)" and np: "r \<noteq> Panic"
  shows "ids_ok p' \<and> (\<forall>c g. spent c g p \<longrightarrow> spent c g p') \<and> (r = Ok () \<longrightarrow> spent (as_u32 h) (handle_generation h) p')"
proof -
  obtain p1 q where s: "retire_slot io (as_u32 h) (Some (handle_generation h)) p = (p1, q)" by force
  have "q \<noteq> Panic" using r s np by (auto simp: remove_conn_def)
  note one = retire_ids [OF ok s this]
  then show ?thesis using r s by (auto simp: remove_conn_def split: if_splits)
qed

subsection \<open>Calls that work inside connections\<close>

lemma put_conn_ids:
  "conn_mut h p = Ok c \<Longrightarrow> fixed_part d = fixed_part c \<Longrightarrow> same_ids p (put_conn h d p)"
  using touches_update [of "unat (as_u32 h)" "po_conns p" c d UNIV]
  by (auto simp: conn_mut_def slot_at_def put_conn_def same_ids_def touches_def split: option.splits if_splits)

lemma send_ids: "send_with ws send h p = (p', r) \<Longrightarrow> same_ids p p'"
proof -
  assume s: "send_with ws send h p = (p', r)"
  show ?thesis
  proof (cases "conn_mut h p")
    case (Ok c)
    then show ?thesis
      using s put_conn_ids [OF Ok] unfolding send_with_def
      by (cases "assert_open c") (auto simp: same_ids_def split: prod.splits)
  qed (use s in \<open>auto simp: send_with_def same_ids_def\<close>)
qed

lemma initiate_close_ids: "initiate_close ws h code reason p = (p', r) \<Longrightarrow> same_ids p p'"
proof -
  assume s: "initiate_close ws h code reason p = (p', r)"
  show ?thesis
  proof (cases "conn_mut h p")
    case (Ok c)
    obtain client q where "send_close (wd_env (ws (as_u64 h))) (cs_ws c) code reason = (client, q)" by force
    then show ?thesis
      using s Ok put_conn_ids [OF Ok] unfolding initiate_close_def
      by (cases q) (auto simp: same_ids_def Let_def split: if_splits)
  qed (use s in \<open>auto simp: initiate_close_def same_ids_def\<close>)
qed

lemma slot_update_ids:
  "slot_at (po_conns p) cid = Some c \<Longrightarrow> fixed_part d = fixed_part c \<Longrightarrow>
     same_ids p (p\<lparr>po_conns := (po_conns p)[unat cid := Some d], po_active_count := n\<rparr>)"
  using touches_update [of "unat cid" "po_conns p" c d UNIV]
  by (auto simp: slot_at_def same_ids_def touches_def split: if_splits)

lemma fail_fixed: "fail_conn_and_account e was (c, sh) = (d, sh') \<Longrightarrow> fixed_part d = fixed_part c"
  by (auto simp: fail_conn_and_account_def fail_conn_def)

lemma same_ids_refl [simp]: "same_ids p p"
  by (simp add: same_ids_def)

lemma target_event_ids: "drive_target_handshake_event ws cid p = (p', r) \<Longrightarrow> same_ids p p'"
proof -
  assume s: "drive_target_handshake_event ws cid p = (p', r)"
  show ?thesis
  proof (cases "slot_at (po_conns p) cid")
    case (Some c)
    obtain client q where "poll_event (wd_env (ws (conn_token c))) (cs_ws c) = (client, q)" by force
    then show ?thesis
      using s Some slot_update_ids [OF Some] unfolding drive_target_handshake_event_def
      by (cases q) (auto simp: Let_def dest!: fail_fixed split: if_splits prod.splits)
  qed (use s in \<open>auto simp: drive_target_handshake_event_def\<close>)
qed

lemma drive_ids: "drive_conn_until_open ws io cid fuel p = Some (p', r) \<Longrightarrow> r \<noteq> Panic \<Longrightarrow> ids_move p p'"
proof (induction fuel arbitrary: p)
  case (Suc fuel)
  obtain p1 q where one: "drive_open_once ws io 1 p = (p1, q)" by force
  obtain p2 q2 where two: "drive_target_handshake_event ws cid p1 = (p2, q2)" by force
  have np: "q \<noteq> Panic" using Suc.prems one by auto
  have m1: "ids_move p p1" using drive_open_once_keeps [OF one np] by (intro same_ids_move pool_keeps_ids)
  have m2: "ids_move p p2" using ids_move_trans [OF m1 same_ids_move [OF target_event_ids [OF two]]] .
  have m3: "ids_move p (p2\<lparr>po_conns := (po_conns p2)[unat cid := Some (sync_ws_open_state c)]\<rparr>)" if "slot_at (po_conns p2) cid = Some c" for c
    using ids_move_trans [OF m2 same_ids_move [OF slot_update_ids [OF that, of "sync_ws_open_state c" "po_active_count p2"]]] by simp
  show ?case
  proof (cases q)
    case (Ok u)
    show ?thesis
    proof (cases q2)
      case 2: (Ok u2)
      show ?thesis
        using Suc.prems Suc.IH one two Ok 2 m3 by (auto simp: Let_def intro: ids_move_trans split: option.splits if_splits)
    qed (use Suc.prems one two Ok m2 in auto)
  qed (use Suc.prems one m1 in auto)
qed simp

subsection \<open>The count of active connections\<close>

definition counted :: "('t, 'h, 'k) Pool \<Rightarrow> bool" where
  "counted p \<longleftrightarrow> unat (po_active_count p) \<le> active (po_conns p)"

lemma counted_keeps: "pool_keeps p p' \<Longrightarrow> counted p \<Longrightarrow> counted p'"
  by (auto simp: pool_keeps_def counted_def round_end_def round_keeps_def round_begin_def)

lemma counted_put:
  assumes "counted p" and "unat cid < length (po_conns p)" and "po_conns p ! unat cid = Some c"
    and "accounted (weight c) (po_active_count p) (weight d) n"
  shows "counted (p\<lparr>po_conns := (po_conns p)[unat cid := Some d], po_active_count := n\<rparr>)"
proof -
  have a: "active ((po_conns p)[unat cid := Some d]) + weight c = active (po_conns p) + weight d"
    using active_put [OF assms(2), of d] assms(3) by simp
  have "weight c \<le> active (po_conns p)" using active_take [OF assms(2)] assms(3) by simp
  then show ?thesis
    using assms(1,4) a unfolding counted_def accounted_def by (auto dest!: spec [of _ "active (po_conns p) - weight c"])
qed

lemma counted_slot:
  assumes "counted p" and "slot_at (po_conns p) cid = Some c" and "accounted (weight c) (po_active_count p) (weight d) n"
  shows "counted (p\<lparr>po_conns := (po_conns p)[unat cid := Some d], po_active_count := n\<rparr>)"
  using counted_put assms by (auto simp: slot_at_def split: if_splits)

lemma counted_send: "send_with ws send h p = (p', r) \<Longrightarrow> counted p \<Longrightarrow> counted p'"
proof -
  assume s: "send_with ws send h p = (p', r)" and c: "counted p"
  have put: "counted (put_conn h (conn\<lparr>cs_ws := client\<rparr>) p)" if "conn_mut h p = Ok conn" for conn client
    using counted_slot [OF c, of "as_u32 h" conn "conn\<lparr>cs_ws := client\<rparr>" "po_active_count p"] that
    by (auto simp: conn_mut_def put_conn_def weight_def conn_is_active_def intro: accounted_keep split: option.splits if_splits)
  show ?thesis
    using s c put unfolding send_with_def by (auto elim!: try_st_cases split: prod.splits)
qed

lemma counted_close: "initiate_close ws h code reason p = (p', r) \<Longrightarrow> counted p \<Longrightarrow> counted p'"
proof -
  assume s: "initiate_close ws h code reason p = (p', r)" and c: "counted p"
  have put: "counted (put_conn h d p)" if "conn_mut h p = Ok conn" "weight conn \<le> weight d" for conn d
    using counted_slot [OF c, of "as_u32 h" conn d "po_active_count p"] that
    by (auto simp: conn_mut_def put_conn_def intro: accounted_keep split: option.splits if_splits)
  show ?thesis
  proof (cases "conn_mut h p")
    case (Ok conn)
    obtain client q where "send_close (wd_env (ws (as_u64 h))) (cs_ws conn) code reason = (client, q)" by force
    then show ?thesis
      using s Ok c put [OF Ok] unfolding initiate_close_def
      by (cases q) (auto simp: Let_def weight_def conn_is_active_def split: if_splits)
  qed (use s c in \<open>auto simp: initiate_close_def\<close>)
qed

lemma counted_target: "drive_target_handshake_event ws cid p = (p', r) \<Longrightarrow> r \<noteq> Panic \<Longrightarrow> counted p \<Longrightarrow> counted p'"
proof -
  assume s: "drive_target_handshake_event ws cid p = (p', r)" and np: "r \<noteq> Panic" and cnt: "counted p"
  show ?thesis
  proof (cases "slot_at (po_conns p) cid")
    case (Some c)
    obtain client q where pe: "poll_event (wd_env (ws (conn_token c))) (cs_ws c) = (client, q)" by force
    show ?thesis
    proof (cases "cs_state c \<in> {StOpen, StClosed}")
      case False
      let ?sh = "snd (round_begin p)"
      have sh: "sh_active_count ?sh = po_active_count p" by (simp add: round_begin_def)
      show ?thesis
      proof (cases q)
        case (Ok x)
        let ?d = "sync_ws_close_state (sync_ws_open_state (c\<lparr>cs_ws := client\<rparr>))"
        have "weight c \<le> weight ?d"
          using False by (auto simp: weight_def conn_is_active_def sync_ws_open_state_def sync_ws_close_state_def)
        moreover have "account_closed_transition (conn_is_active c) ?d ?sh = ?sh"
          using False by (auto simp: account_closed_transition_def conn_is_active_def sync_ws_open_state_def sync_ws_close_state_def)
        ultimately show ?thesis
          using s Some pe Ok False counted_slot [OF cnt Some, of ?d "po_active_count p"] sh
          by (auto simp: drive_target_handshake_event_def Let_def intro: accounted_keep)
      next
        case (Err e)
        obtain d sh' where f: "fail_conn_and_account (CeWs e) (conn_is_active c) (c\<lparr>cs_ws := client\<rparr>, ?sh) = (d, sh')" by force
        show ?thesis
          using s Some pe Err False f counted_slot [OF cnt Some] fail_accounted [OF f refl] sh
          by (auto simp: drive_target_handshake_event_def Let_def)
      qed (use s Some pe np False in \<open>auto simp: drive_target_handshake_event_def Let_def\<close>)
    qed (use s Some cnt in \<open>auto simp: drive_target_handshake_event_def Let_def\<close>)
  qed (use s np in \<open>auto simp: drive_target_handshake_event_def\<close>)
qed

lemma counted_drive: "drive_conn_until_open ws io cid fuel p = Some (p', r) \<Longrightarrow> r \<noteq> Panic \<Longrightarrow> counted p \<Longrightarrow> counted p'"
proof (induction fuel arbitrary: p)
  case (Suc fuel)
  obtain p1 q where one: "drive_open_once ws io 1 p = (p1, q)" by force
  obtain p2 q2 where two: "drive_target_handshake_event ws cid p1 = (p2, q2)" by force
  have np: "q \<noteq> Panic" using Suc.prems one by auto
  have c1: "counted p1" using counted_keeps [OF drive_open_once_keeps [OF one np]] Suc.prems(3) .
  show ?case
  proof (cases q)
    case (Ok u)
    have np2: "q2 \<noteq> Panic" using Suc.prems one two Ok by auto
    have c2: "counted p2" using counted_target [OF two np2 c1] .
    have c3: "counted (p2\<lparr>po_conns := (po_conns p2)[unat cid := Some (sync_ws_open_state c)]\<rparr>)" if "slot_at (po_conns p2) cid = Some c" for c
    proof -
      have "weight c \<le> weight (sync_ws_open_state c)" by (simp add: weight_def conn_is_active_def sync_ws_open_state_def)
      from counted_slot [OF c2 that accounted_keep [OF this]] show ?thesis by simp
    qed
    show ?thesis
    proof (cases q2)
      case 2: (Ok u2)
      show ?thesis
        using Suc.prems Suc.IH one two Ok 2 c3 by (auto simp: Let_def split: option.splits if_splits)
    qed (use Suc.prems one two Ok c2 in auto)
  qed (use Suc.prems one c1 in auto)
qed simp

lemma counted_retire:
  assumes c: "counted p" and r: "retire_slot io cid expected p = (p', r)" and np: "r \<noteq> Panic"
  shows "counted p'"
proof (cases "slot_at (po_conns p) cid")
  case (Some dead)
  show ?thesis
  proof (cases "case expected of Some e \<Rightarrow> e \<noteq> conn_generation dead | None \<Rightarrow> False")
    case False
    obtain k q where k: "retire_ring io dead (po_proactor p) = (k, q :: (ConnectionError, bool) result)" by force
    have d: "unat cid < length (po_conns p)" "po_conns p ! unat cid = Some dead"
      using Some by (auto simp: slot_at_def split: if_splits)
    have a: "active ((po_conns p)[unat cid := None]) + weight dead = active (po_conns p)" using active_take [OF d(1)] d(2) by simp
    have n: "unat (saturating_sub (po_active_count p) 1) = unat (po_active_count p) - 1" by (simp add: unat_saturating_sub)
    have rec: "po_conns (recycle_conn_slot x y) = po_conns y" "po_active_count (recycle_conn_slot x y) = po_active_count y" for x and y :: "('a, 'b, 'c) Pool"
      by (simp_all add: recycle_conn_slot_def Let_def)
    show ?thesis
      using r np Some False k c a n retire_ring_result [where ?'e = ConnectionError, of io dead "po_proactor p"]
      by (cases q) (auto simp: retire_slot_def Let_def counted_def rec release_bgid_def weight_def split: if_splits)
  qed (use r c Some in \<open>auto simp: retire_slot_def\<close>)
qed (use r c in \<open>auto simp: retire_slot_def\<close>)

lemma reserve_counted:
  "reserve_runtime_identity p = (p', r) \<Longrightarrow> active (po_conns p') = active (po_conns p) \<and> po_active_count p' = po_active_count p"
  by (auto simp: reserve_runtime_identity_def reserve_bgid_def reserve_conn_id_def release_bgid_def Let_def split: if_splits)

lemma submit_connect_active: "conn_submit_connect io (c, k) = ((d, k'), Ok u) \<Longrightarrow> weight d = 1"
  by (auto simp: conn_submit_connect_def weight_def conn_is_active_def split: prod.splits result.splits)

lemma unat_succ_le: "unat ((n :: 'a::len word) + 1) \<le> unat n + 1"
  by (metis add.commute add_eq_0_iff le0 order_refl plus_1_eq_Suc unatSuc unsigned_0)

lemma counted_connect:
  assumes ok: "ids_ok p" and c: "counted p" and r: "submit_connect_to ws io cfg addr p = (p', r)" and np: "r \<noteq> Panic"
  shows "counted p'"
proof -
  obtain p1 q where b: "reserve_runtime_identity p = (p1, q)" by force
  have c1: "counted p1" using c reserve_counted [OF b] by (simp add: counted_def)
  have rel: "counted (release_reserved_identity i x) = counted x" for i and x :: "('a, 'b, 'c) Pool"
    by (simp add: release_reserved_identity_def release_bgid_def counted_def)
  have prc: "counted (x\<lparr>po_proactor := k\<rparr>) = counted x" for k and x :: "('a, 'b, 'c) Pool" by (simp add: counted_def)
  show ?thesis
  proof (cases q)
    case (Ok i)
    have "reserved i p1" using reserve_identity_ok [OF ok b] Ok by simp
    then have slot: "unat (id_conn_id i) < length (po_conns p1)" "po_conns p1 ! unat (id_conn_id i) = None"
      by (auto simp: reserved_def occupant_def slot_at_def)
    show ?thesis
    proof (cases "conn_new (ws (id_token i)) \<lparr>ac_user = cfg, ac_identity = i\<rparr> addr")
      case 2: (Ok conn)
      obtain d k s where s: "conn_submit_connect io (conn, po_proactor p1) = ((d, k), s)" by (metis surj_pair)
      show ?thesis
      proof (cases s)
        case 3: (Ok u)
        have "active ((po_conns p1)[unat (id_conn_id i) := Some d]) = active (po_conns p1) + 1"
          using active_put [OF slot(1), of d] slot(2) submit_connect_active [OF s [unfolded 3]] by simp
        then show ?thesis
          using r b Ok 2 s 3 slot c1 unat_succ_le [of "po_active_count p1"] by (auto simp: submit_connect_to_def Let_def counted_def)
      qed (use r b Ok 2 s c1 np rel prc in \<open>auto simp: submit_connect_to_def\<close>)
    qed (use r b Ok c1 np rel in \<open>auto simp: submit_connect_to_def\<close>)
  qed (use r b c1 np in \<open>auto simp: submit_connect_to_def\<close>)
qed

subsection \<open>Every order of calls\<close>

text \<open>A scrape leaves identities and the count alone.\<close>

lemma table_reset: "table (reset_slots ws n slots) = table slots"
proof -
  have "fixed_part (reset_conn w c) = fixed_part c" for w :: "('a, 'b) World" and c by (simp add: reset_conn_def fixed_part_def)
  then have "map_option fixed_part \<circ> map_option (\<lambda>c. reset_conn (ws (conn_token c)) c) = map_option fixed_part"
    by (simp add: fun_eq_iff option.map_comp comp_def)
  then show ?thesis by (simp add: table_def reset_slots_def flip: take_map drop_map)
qed

lemma active_reset: "active (reset_slots ws n slots) = active slots"
proof (induction slots arbitrary: n rule: active.induct)
  case (2 slots)
  then show ?case by (cases n) simp_all
next
  case (3 c slots)
  then show ?case by (cases n) (simp_all add: weight_def conn_is_active_def reset_conn_def)
qed simp

lemma scrape_ids: "same_ids p (p\<lparr>po_conns := reset_slots ws n (po_conns p)\<rparr>)"
  and scrape_counted: "counted p \<Longrightarrow> counted (p\<lparr>po_conns := reset_slots ws n (po_conns p)\<rparr>)"
  by (simp_all add: same_ids_def table_reset counted_def active_reset)

text \<open>The public operations that change a pool, with any result but a panic.  The calls with a host name resolve
  it and then are one of these, or change nothing.  A scrape of the interval metrics is given by its effect, which
  is the same for every writer (\<^verbatim>\<open>scrape_cases\<close>).\<close>

inductive pool_step :: "'k Uring \<Rightarrow> ('t, 'h, 'k) Pool \<Rightarrow> ('t, 'h, 'k) Pool \<Rightarrow> bool" for io where
  connect: "submit_connect_to ws io cfg addr p = (p', r) \<Longrightarrow> r \<noteq> Panic \<Longrightarrow> pool_step io p p'"
| connect_block: "connect_blocking_to ws io cfg addr fuel p = Some (p', r) \<Longrightarrow> r \<noteq> Panic \<Longrightarrow> pool_step io p p'"
| remove: "remove_conn io h p = (p', q) \<Longrightarrow> q \<noteq> Panic \<Longrightarrow> pool_step io p p'"
| reconnect: "submit_reconnect_to ws io h cfg addr p = (p', r) \<Longrightarrow> r \<noteq> Panic \<Longrightarrow> pool_step io p p'"
| reconnect_block: "reconnect_to ws io h cfg addr fuel p = Some (p', r) \<Longrightarrow> r \<noteq> Panic \<Longrightarrow> pool_step io p p'"
| send: "s \<in> {pool_send_text ws h payload, pool_send_binary ws h payload, pool_send_ping ws h payload, pool_send_pong ws h payload} \<Longrightarrow>
    s p = (p', q) \<Longrightarrow> pool_step io p p'"
| close: "initiate_close ws h code reason p = (p', q) \<Longrightarrow> pool_step io p p'"
| scrape: "n \<le> length (po_conns p) \<Longrightarrow> pool_step io p (p\<lparr>po_conns := reset_slots ws n (po_conns p)\<rparr>)"
| pump: "pump_impl ws io n p = ((p', evs), q) \<Longrightarrow> q \<noteq> Panic \<Longrightarrow> pool_step io p p'"
| pump_spin: "pump_spin_impl ws io n p = ((p', evs), b) \<Longrightarrow> b \<noteq> Panic \<Longrightarrow> pool_step io p p'"
| data: "pump_data_impl ws io n p = ((p', devs), q) \<Longrightarrow> q \<noteq> Panic \<Longrightarrow> pool_step io p p'"
| data_marked: "pump_data_marked_impl ws io n p = ((p', mevs), q) \<Longrightarrow> q \<noteq> Panic \<Longrightarrow> pool_step io p p'"
| data_batches: "pump_data_batches_impl ws io n p = ((p', bats), q) \<Longrightarrow> q \<noteq> Panic \<Longrightarrow> pool_step io p p'"
| data_marked_batches: "pump_data_marked_batches_impl ws io n p = ((p', mbats), q) \<Longrightarrow> q \<noteq> Panic \<Longrightarrow> pool_step io p p'"
| spin: "pump_data_spin_impl ws io n p = ((p', devs), b) \<Longrightarrow> b \<noteq> Panic \<Longrightarrow> pool_step io p p'"
| spin_marked: "pump_data_spin_marked_impl ws io n p = ((p', mevs), b) \<Longrightarrow> b \<noteq> Panic \<Longrightarrow> pool_step io p p'"
| spin_batches: "pump_data_spin_batches_impl ws io n p = ((p', bats), b) \<Longrightarrow> b \<noteq> Panic \<Longrightarrow> pool_step io p p'"
| spin_marked_batches: "pump_data_spin_marked_batches_impl ws io n p = ((p', mbats), b) \<Longrightarrow> b \<noteq> Panic \<Longrightarrow> pool_step io p p'"

inductive pool_run :: "'k Uring \<Rightarrow> ('t, 'h, 'k) Pool \<Rightarrow> ('t, 'h, 'k) Pool \<Rightarrow> bool" for io p where
  start: "pool_run io p p"
| step: "pool_run io p p' \<Longrightarrow> pool_step io p' p'' \<Longrightarrow> pool_run io p p''"

definition pool_moves :: "('t, 'h, 'k) Pool \<Rightarrow> ('t, 'h, 'k) Pool \<Rightarrow> bool" where
  "pool_moves p p' \<longleftrightarrow> (ids_ok p \<and> counted p \<longrightarrow> ids_ok p' \<and> counted p' \<and> (\<forall>c g. spent c g p \<longrightarrow> spent c g p'))"

lemma pool_moves_refl [simp]: "pool_moves p p"
  by (simp add: pool_moves_def)

lemma pool_moves_trans: "pool_moves p q \<Longrightarrow> pool_moves q r \<Longrightarrow> pool_moves p r"
  by (simp add: pool_moves_def)

lemma moves_keeps: "pool_keeps p p' \<Longrightarrow> pool_moves p p'"
  using same_ids_move [OF pool_keeps_ids] counted_keeps unfolding pool_moves_def ids_move_def by blast

lemma moves_same: "same_ids p p' \<Longrightarrow> (counted p \<Longrightarrow> counted p') \<Longrightarrow> pool_moves p p'"
  using same_ids_move unfolding pool_moves_def ids_move_def by blast

lemma moves_connect: "submit_connect_to ws io cfg addr p = (p', r) \<Longrightarrow> r \<noteq> Panic \<Longrightarrow> pool_moves p p'"
  using connect_ids [of p ws io cfg addr p' r] counted_connect [of p ws io cfg addr p' r] by (simp add: pool_moves_def)

lemma moves_retire: "retire_slot io cid expected p = (p', r) \<Longrightarrow> r \<noteq> Panic \<Longrightarrow> pool_moves p p'"
  using retire_ids [of p io cid expected p' r] counted_retire [of p io cid expected p' r] by (simp add: pool_moves_def)

lemma moves_remove: "remove_conn io h p = (p', r) \<Longrightarrow> r \<noteq> Panic \<Longrightarrow> pool_moves p p'"
  unfolding remove_conn_def by (auto elim!: try_st_cases dest: moves_retire)

lemma moves_reconnect: "submit_reconnect_to ws io h cfg addr p = (p', r) \<Longrightarrow> r \<noteq> Panic \<Longrightarrow> pool_moves p p'"
  unfolding submit_reconnect_to_def by (auto elim!: try_st_cases dest!: moves_remove moves_connect intro: pool_moves_trans)

lemma moves_drive: "drive_conn_until_open ws io cid fuel p = Some (p', r) \<Longrightarrow> r \<noteq> Panic \<Longrightarrow> pool_moves p p'"
  using drive_ids counted_drive unfolding pool_moves_def ids_move_def by blast

lemma moves_open:
  assumes "open_or_retire ws io fuel (p1, q) = Some (p', r)" and "r \<noteq> Panic" and "q \<noteq> Panic \<Longrightarrow> pool_moves p p1"
  shows "pool_moves p p'"
proof (cases q)
  case (Ok h)
  obtain p2 q2 where d: "drive_conn_until_open ws io (as_u32 h) fuel p1 = Some (p2, q2)"
    using assms(1) Ok by (auto simp: open_or_retire_def split: option.splits)
  have np: "q2 \<noteq> Panic" using assms(1,2) Ok d by (auto simp: open_or_retire_def)
  have m: "pool_moves p p2" using pool_moves_trans [OF assms(3) moves_drive [OF d np]] Ok by simp
  show ?thesis
  proof (cases q2)
    case (Err e)
    obtain p3 q3 where t: "retire_slot io (as_u32 h) (Some (handle_generation h)) p2 = (p3, q3)" by force
    have "q3 \<noteq> Panic" "p' = p3" using assms(1,2) Ok d Err t by (cases q3; auto simp: open_or_retire_def)+
    then show ?thesis using pool_moves_trans [OF m moves_retire [OF t]] by simp
  qed (use assms(1) Ok d m np in \<open>auto simp: open_or_retire_def\<close>)
qed (use assms in \<open>auto simp: open_or_retire_def\<close>)

lemmas pump_defs = pump_data_impl_def pump_data_marked_impl_def pump_data_batches_impl_def pump_data_marked_batches_impl_def
  pump_data_spin_impl_def pump_data_spin_marked_impl_def pump_data_spin_batches_impl_def pump_data_spin_marked_batches_impl_def

lemma pool_step_moves: "pool_step io p p' \<Longrightarrow> pool_moves p p'"
proof (induction rule: pool_step.induct)
  case (connect_block ws cfg addr fuel p p' r)
  obtain p1 q where s: "submit_connect_to ws io cfg addr p = (p1, q)" by force
  then show ?case using connect_block by (auto simp: connect_blocking_to_def intro: moves_open moves_connect)
next
  case (reconnect_block ws h cfg addr fuel p p' r)
  obtain p1 q where s: "submit_reconnect_to ws io h cfg addr p = (p1, q)" by force
  then show ?case using reconnect_block by (auto simp: reconnect_to_def intro: moves_open moves_reconnect)
next
  case (send s ws h payload p p' q)
  then obtain f where "send_with ws f h p = (p', q)"
    by (auto simp: pool_send_text_def pool_send_binary_def pool_send_ping_def pool_send_pong_def)
  then show ?case using send_ids counted_send by (blast intro: moves_same)
qed (auto simp: pump_defs intro: moves_connect moves_remove moves_reconnect moves_same initiate_close_ids counted_close scrape_ids scrape_counted
    moves_keeps pump_keeps pump_spin_keeps pump_data_keeps pump_data_spin_keeps)

lemma pool_run_moves: "pool_run io p p' \<Longrightarrow> pool_moves p p'"
  by (induction rule: pool_run.induct) (auto intro: pool_moves_trans pool_step_moves)

lemma pool_new_ok: "pool_new io cfg = Ok p \<Longrightarrow> ids_ok p \<and> counted p"
  by (auto simp: pool_new_def and_then_eq_Ok_iff ids_ok_def counted_def occupant_def slot_at_def)

lemma pool_run_ok:
  "pool_new io cfg = Ok p0 \<Longrightarrow> pool_run io p0 p \<Longrightarrow> ids_ok p \<and> counted p"
  using pool_new_ok pool_run_moves unfolding pool_moves_def by blast

text \<open>The token of a connection of the table names its slot and generation.\<close>

lemma slot_token:
  assumes ok: "ids_ok p" and c: "slot_at (po_conns p) cid = Some c"
  shows "token_conn_id (conn_token c) = cid" and "token_generation (conn_token c) = conn_generation c"
    and "conn_generation c = po_generations p ! unat cid" and "take_bit 56 (conn_token c) = conn_token c"
proof -
  have occ: "occupant p cid = Some (cs_identity c)" using c by (simp add: occupant_def)
  have i: "id_conn_id (cs_identity c) = cid" "id_generation (cs_identity c) = po_generations p ! unat cid"
    using ok occ unfolding ids_ok_def by blast+
  have "unat cid < length (po_conns p)" using occupant_less [OF occ] .
  then have fits: "token_fits cid" "token_fits (po_generations p ! unat cid)" using ok by (auto simp: ids_ok_def token_fits_def)
  show "token_conn_id (conn_token c) = cid" "token_generation (conn_token c) = conn_generation c"
    "conn_generation c = po_generations p ! unat cid" "take_bit 56 (conn_token c) = conn_token c"
    using token_fields [OF fits] token_less [OF fits(2,1)] i by (simp_all add: conn_token_def id_token_def conn_generation_def)
qed

lemma spent_absent:
  assumes ok: "ids_ok p" and sp: "spent (token_conn_id t) (token_generation t) p" and c: "slot_at (po_conns p) (token_conn_id t) = Some c"
  shows "conn_generation c \<noteq> token_generation t" and "conn_token c \<noteq> t"
proof -
  have "occupant p (token_conn_id t) \<noteq> None" using c by (simp add: occupant_def)
  then have "token_generation t < conn_generation c" using sp slot_token(3) [OF ok c] by (auto simp: spent_def)
  then show "conn_generation c \<noteq> token_generation t" "conn_token c \<noteq> t" using slot_token(2) [OF ok c] by auto
qed

text \<open>C4. Identities in the pool, after every sequence of calls and rounds: a connection is found under its own
  handle, and so is the completion of each of its operations; no two connections share a token or a
  buffer group, and none has a buffer group that is free; and the reported number of connections never
  exceeds the number of connections that are not closed.\<close>

theorem pool_identities:
  assumes "pool_new io cfg = Ok p0" and "pool_run io p0 p"
  shows "(\<forall>cid c. slot_at (po_conns p) cid = Some c \<longrightarrow>
      conn_mut (from_conn c) p = Ok c \<and> pool_state (from_conn c) p = Some (cs_state c) \<and>
      (\<forall>kind n fl. conn_for_completion (po_conns p) \<lparr>co_user_data = ud_new kind (conn_token c), co_result = n, co_flags = fl\<rparr> = Some (unat cid, c)) \<and>
      conn_bgid c \<notin> set (po_free_bgids p) \<and>
      (\<forall>cid' d. slot_at (po_conns p) cid' = Some d \<longrightarrow> conn_token d = conn_token c \<or> conn_bgid d = conn_bgid c \<longrightarrow> cid' = cid)) \<and>
    conn_count p \<le> active (po_conns p)"
proof -
  have ok: "ids_ok p" and cnt: "counted p" using pool_run_ok [OF assms] by auto
  have bg: "conn_bgid c \<notin> set (po_free_bgids p)" "conn_bgid d = conn_bgid c \<Longrightarrow> cid' = cid"
    if "slot_at (po_conns p) cid = Some c" "slot_at (po_conns p) cid' = Some d" for c d cid cid'
  proof -
    have "occupant p cid = Some (cs_identity c)" "occupant p cid' = Some (cs_identity d)" using that by (simp_all add: occupant_def)
    then show "conn_bgid c \<notin> set (po_free_bgids p)" "conn_bgid d = conn_bgid c \<Longrightarrow> cid' = cid"
      using ok unfolding ids_ok_def conn_bgid_def by blast+
  qed
  show ?thesis
    using cnt bg slot_token [OF ok]
    by (auto simp: conn_mut_def pool_state_def from_conn_def as_u32_def conn_for_completion_def completion_token_def ud_token_new
        counted_def conn_count_def Let_def) (metis slot_token(1) [OF ok])
qed

text \<open>C5. A handle whose connection was removed is dead for good: whatever is called afterwards, however often its
  slot is used again, the handle finds no connection, removing it again is refused and changes nothing,
  no late completion of its operations reaches a connection, and no new connection ever gets it.\<close>

theorem retired_handle_is_dead:
  assumes "pool_new io cfg = Ok p0" and "pool_run io p0 p" and "remove_conn io h p = (p1, Ok ())" and "pool_run io p1 p2"
  shows "conn_mut h p2 = Err (CeInvalidState StClosed) \<and> pool_state h p2 = None \<and>
    remove_conn io h p2 = (p2, Err (CeInvalidState StClosed)) \<and>
    (\<forall>cqe. completion_token cqe = as_u64 h \<longrightarrow> conn_for_completion (po_conns p2) cqe = None) \<and>
    (\<forall>ws cfg addr p3 h'. submit_connect_to ws io cfg addr p2 = (p3, Ok h') \<longrightarrow> h' \<noteq> h)"
proof -
  have ok: "ids_ok p" "counted p" using pool_run_ok [OF assms(1,2)] by auto
  have rm: "ids_ok p1" "spent (as_u32 h) (handle_generation h) p1" using remove_ids [OF ok(1) assms(3)] by auto
  moreover have "counted p1" using moves_remove [OF assms(3)] ok by (simp add: pool_moves_def)
  ultimately have ok2: "ids_ok p2" and sp: "spent (as_u32 h) (handle_generation h) p2"
    using pool_run_moves [OF assms(4)] by (auto simp: pool_moves_def)
  note gone = spent_absent [OF ok2 sp [unfolded as_u32_def handle_generation_def]]
  have "h' \<noteq> h" if con: "submit_connect_to ws io cfg addr p2 = (p3, Ok h')" for ws cfg addr p3 h'
  proof -
    obtain i where i: "occupant p3 (id_conn_id i) = Some i" "h' = from_parts (id_conn_id i) (id_generation i)"
      "\<not> spent (id_conn_id i) (id_generation i) p2" and ok3: "ids_ok p3"
      using connect_ids [OF ok2 con] by auto
    obtain c where "slot_at (po_conns p3) (id_conn_id i) = Some c" "cs_identity c = i" using i(1) by (auto simp: occupant_def)
    then have "as_u32 h' = id_conn_id i" "handle_generation h' = id_generation i"
      using slot_token [OF ok3] i(2) by (auto simp: as_u32_def handle_generation_def from_parts_def conn_token_def id_token_def conn_generation_def)
    then show ?thesis using i(3) sp by auto
  qed
  then show ?thesis
    using gone
    by (auto simp: conn_mut_def pool_state_def remove_conn_def retire_slot_def conn_for_completion_def as_u32_def handle_generation_def Let_def
        split: option.splits)
qed

subsection \<open>A sample run\<close>

lemma sample_connect:
  obtains p0 p and c :: "(bytes \<times> bytes, u64 list) ConnectionState" where "pool_new sample_uring pool_config_default = Ok p0"
    and "submit_connect_to (\<lambda>_. sample_world) sample_uring (ac_user sample_config) sample_addr p0 = (p, Ok (from_parts 0 0))"
    and "conn_new sample_world \<lparr>ac_user = ac_user sample_config, ac_identity = \<lparr>id_conn_id = 0, id_generation = 0, id_bgid = 0\<rparr>\<rparr> sample_addr = Ok c"
    and "po_conns p = [Some (c\<lparr>cs_state := StConnecting\<rparr>)]" and "po_active_count p = 1" and "po_generations p = [0]" and "po_free_conn_ids p = []"
proof -
  define p0 :: "(bytes \<times> bytes, u64 list, Sqe list) Pool" where
    "p0 = \<lparr>po_proactor = [], po_conns = [], po_generations = [], po_free_conn_ids = [], po_free_bgids = [],
           po_active_count = 0, po_next_conn_id = 0, po_next_bgid = 0, po_post_progress_spin_iters = 0\<rparr>"
  have flags: "\<not> sf_contains SETUP_NONE COOP_TASKRUN" "\<not> sf_contains SETUP_NONE TASKRUN_FLAG" "\<not> sf_contains SETUP_NONE DEFER_TASKRUN"
    by (simp_all add: sf_contains_def SETUP_NONE_def COOP_TASKRUN_def TASKRUN_FLAG_def DEFER_TASKRUN_def)
  have pow: "is_power_of_two (256 :: u32)" by (simp add: is_power_of_two_def upt_rec)
  have new: "pool_new sample_uring pool_config_default = Ok p0"
    by (simp add: pool_new_def pool_config_default_def pool_config_new_def proactor_new_def validate_config_def proactor_config_default_def
        sample_uring_def vec_with_capacity_def p0_def flags pow DEFAULT_POOL_INITIAL_CONN_CAPACITY_def DEFAULT_POOL_COMPLETION_BATCH_CAPACITY_def
        DEFAULT_POOL_POST_PROGRESS_SPIN_ITERS_def)
  obtain c where c: "conn_new sample_world \<lparr>ac_user = ac_user sample_config, ac_identity = \<lparr>id_conn_id = 0, id_generation = 0, id_bgid = 0\<rparr>\<rparr> sample_addr = Ok c"
    using sample_conn_new by (auto simp: sample_config_def)
  obtain p where s: "submit_connect_to (\<lambda>_. sample_world) sample_uring (ac_user sample_config) sample_addr p0 = (p, Ok (from_parts 0 0))"
    and p: "po_conns p = [Some (c\<lparr>cs_state := StConnecting\<rparr>)]" "po_active_count p = 1" "po_generations p = [0]" "po_free_conn_ids p = []"
    using c by (auto simp: submit_connect_to_def reserve_runtime_identity_def reserve_bgid_def reserve_conn_id_def p0_def Let_def
        conn_submit_connect_def submits push_sqe_def sample_uring_def)
  show thesis by (rule that [OF new s c p])
qed

lemma sample_pool:
  obtains p0 p and c :: "(bytes \<times> bytes, u64 list) ConnectionState" where "pool_new sample_uring pool_config_default = Ok p0" and "pool_run sample_uring p0 p"
    and "slot_at (po_conns p) 0 = Some c" and "conn_token c = 0" and "conn_generation c = 0" and "cs_buf_ring c = None" and "conn_count p = 1"
    and "po_generations p = [0]" and "po_free_conn_ids p = []"
proof -
  obtain p0 p and c :: "(bytes \<times> bytes, u64 list) ConnectionState" where new: "pool_new sample_uring pool_config_default = Ok p0"
    and s: "submit_connect_to (\<lambda>_. sample_world) sample_uring (ac_user sample_config) sample_addr p0 = (p, Ok (from_parts 0 0))"
    and c: "conn_new sample_world \<lparr>ac_user = ac_user sample_config, ac_identity = \<lparr>id_conn_id = 0, id_generation = 0, id_bgid = 0\<rparr>\<rparr> sample_addr = Ok c"
    and p: "po_conns p = [Some (c\<lparr>cs_state := StConnecting\<rparr>)]" "po_active_count p = 1" "po_generations p = [0]" "po_free_conn_ids p = []"
    by (rule sample_connect)
  have "cs_identity c = \<lparr>id_conn_id = 0, id_generation = 0, id_bgid = 0\<rparr>" using conn_new_identity [OF c] by simp
  moreover have "cs_buf_ring c = None" using c unfolding conn_new_def Let_def by (auto simp: and_then_eq_Ok_iff split: option.splits)
  moreover have "pool_run sample_uring p0 p" by (rule pool_run.step [OF pool_run.start pool_step.connect [OF s]]) simp
  ultimately show thesis
    using p by (intro that [OF new, of p "c\<lparr>cs_state := StConnecting\<rparr>"])
      (simp_all add: slot_at_def conn_token_def id_token_def encode_conn_token_def conn_generation_def conn_count_def)
qed

text \<open>One connection has been submitted.\<close>

theorem pool_identities_witness:
  "\<exists>p0 p c. pool_new sample_uring pool_config_default = Ok p0 \<and> pool_run sample_uring p0 p \<and> slot_at (po_conns p) 0 = Some c \<and>
     conn_mut (from_conn c) p = Ok (c :: (bytes \<times> bytes, u64 list) ConnectionState) \<and> conn_count p = 1 \<and> 1 \<le> active (po_conns p)"
proof -
  obtain p0 p and c :: "(bytes \<times> bytes, u64 list) ConnectionState"
    where p: "pool_new sample_uring pool_config_default = Ok p0" "pool_run sample_uring p0 p" "slot_at (po_conns p) 0 = Some c" "conn_count p = 1"
    using sample_pool by metis
  then show ?thesis using pool_identities [OF p(1,2)] by (intro exI [of _ p0] exI [of _ p] exI [of _ c]) simp
qed

text \<open>The connection is removed, and its slot is used again: the old handle stays dead.\<close>

theorem retired_handle_is_dead_witness:
  "\<exists>p p1. remove_conn sample_uring (ConnHandle 0) (p :: (bytes \<times> bytes, u64 list, Sqe list) Pool) = (p1, Ok ()) \<and>
     po_free_conn_ids p1 = [0] \<and> conn_mut (ConnHandle 0) p1 = Err (CeInvalidState StClosed) \<and>
     (\<forall>ws cfg addr p3 h. submit_connect_to ws sample_uring cfg addr p1 = (p3, Ok h) \<longrightarrow> h \<noteq> ConnHandle 0)"
proof -
  obtain p0 p and c :: "(bytes \<times> bytes, u64 list) ConnectionState"
    where p: "pool_new sample_uring pool_config_default = Ok p0" "pool_run sample_uring p0 p"
      "slot_at (po_conns p) 0 = Some c" "conn_generation c = 0" "cs_buf_ring c = None" "po_generations p = [0]" "po_free_conn_ids p = []"
    using sample_pool by metis
  obtain p1 q where r: "remove_conn sample_uring (ConnHandle 0) p = (p1, q)" by force
  have h: "as_u32 (ConnHandle 0) = 0" "handle_generation (ConnHandle 0) = 0"
    by (simp_all add: as_u32_def handle_generation_def token_conn_id_def token_generation_def)
  have "q = Ok ()" "po_free_conn_ids p1 = [0]"
    using r p(3-7) h by (auto simp: remove_conn_def retire_slot_def retire_ring_def release_bgid_def recycle_conn_slot_def
        CONN_GENERATION_MASK_def Let_def)
  then show ?thesis using retired_handle_is_dead [OF p(1,2) _ pool_run.start, of "ConnHandle 0" p1] r by blast
qed

end
