(* ===== verification/Pool_Safe.thy ===== *)
theory Pool_Safe
  imports Pool_Ids
begin

text \<open>
  The pumps of the pool are safe: whatever the kernel reports and the peers send, a round ends without a
  panic and leaves every connection well-formed.
\<close>

subsection \<open>One connection through a round\<close>

text \<open>What every step of a round leaves: the invariant, the identity, the ring once it is there, and a closed
  connection without a ring stays closed.  So a completion that fitted the connection still fits.\<close>

definition stays :: "('t, 'h) ConnectionState \<Rightarrow> ('t, 'h) ConnectionState \<Rightarrow> bool" where
  "stays c d \<longleftrightarrow>
     conn_wf d \<and> fixed_part d = fixed_part c \<and> (cs_buf_ring c \<noteq> None \<longrightarrow> cs_buf_ring d \<noteq> None) \<and>
     (cs_state c = StClosed \<longrightarrow> cs_buf_ring d = None \<longrightarrow> cs_state d = StClosed)"

lemma stays_refl: "conn_wf c \<Longrightarrow> stays c c"
  by (simp add: stays_def)

lemma stays_trans: "stays a b \<Longrightarrow> stays b c \<Longrightarrow> stays a c"
  by (auto simp: stays_def)

lemma stays_cqe: "stays c d \<Longrightarrow> cqe_ok fl cqe c \<Longrightarrow> cqe_ok fl cqe d"
  by (auto simp: stays_def cqe_ok_def fixed_part_def)

lemma stays_moves:
  "conn_moves c d \<Longrightarrow> (cs_state c = StClosed \<Longrightarrow> cs_buf_ring d = None \<Longrightarrow> cs_state d = StClosed) \<Longrightarrow> stays c d"
  unfolding conn_moves_def stays_def by (blast intro: send_part_fixed)

lemma stays_closed: "conn_wf c \<Longrightarrow> stays c (c\<lparr>cs_state := StClosed\<rparr>)"
  by (simp add: stays_def conn_wf_closed)

lemma stays_sync:
  assumes "conn_wf c"
  shows "stays c (sync_ws_open_state c)" and "stays c (sync_ws_close_state c)"
  using assms by (auto simp: stays_def sync_ws_open_state_def sync_ws_close_state_def conn_wf_def fixed_part_def split: option.splits)

lemma stays_send:
  assumes wf: "conn_wf c" and s: "on_send_cqe cqe c = (d, r)"
  shows "stays c d"
proof -
  have "cs_buf_ring d = cs_buf_ring c" "cs_state d = cs_state c"
    using s by (auto simp: on_send_cqe_def Let_def split: result.splits if_splits)
  then show ?thesis using send_keeps [OF wf s] by (simp add: stays_def)
qed

lemma stays_completion:
  assumes io: "uring_sane io" and law: "rustls_lawful (wd_rustls w)" and wf: "conn_wf c" and ok: "cqe_ok (io_flags io) cqe c"
    and h: "handle_completion w io cqe (c, k) = ((d, k'), r)"
  shows "stays c d \<and> r \<noteq> Panic"
proof -
  have np: "r \<noteq> Panic" using completion_keeps [OF io law wf ok h] by simp
  show ?thesis
  proof (cases "cs_state c = StClosed")
    case False
    show ?thesis
    proof (cases "ud_kind (co_user_data cqe) = Some OpSend")
      case True
      obtain d1 q where s: "on_send_cqe cqe c = (d1, q)" by force
      then show ?thesis using h True False np stays_send [OF wf s] by (auto simp: handle_completion_def)
    next
      case other: False
      then show ?thesis using completion_moves [OF io law wf ok h] np False by (auto intro: stays_moves)
    qed
  next
    case True
    show ?thesis
    proof (cases "ud_kind (co_user_data cqe)")
      case None
      then show ?thesis using h np stays_refl [OF wf] by (auto simp: handle_completion_def)
    next
      case (Some kind)
      obtain e where e: "discard_completion_after_closed (io_flags io) kind cqe c = (Ok e :: (ConnectionError, _) result)" "conn_wf e"
        "fixed_part e = fixed_part c" "kind \<noteq> OpSend \<longrightarrow> conn_moves c e" "cs_state e = (if kind = OpClose then StClosed else cs_state c)"
        using discard_keeps [OF wf ok, where ?'e = ConnectionError] by blast
      have "d = e" using h Some True e(1) by (auto simp: handle_completion_def)
      moreover have "cs_buf_ring c \<noteq> None \<longrightarrow> cs_buf_ring e \<noteq> None"
        using e(1,4) by (cases "kind = OpSend") (auto simp: conn_moves_def discard_completion_after_closed_def)
      ultimately show ?thesis using e True np by (simp add: stays_def)
    qed
  qed
qed

context delivery
begin

lemma stays_data:
  assumes rng: "rng_total (wd_env w)" and io: "uring_sane io" and law: "rustls_lawful (wd_rustls w)"
    and wf: "conn_wf c" and ok: "cqe_ok (io_flags io) cqe c"
    and h: "handle_data dl w io cqe (c, k) = (((d, k'), out), r)"
  shows "stays c d \<and> r \<noteq> Panic"
proof -
  have np: "r \<noteq> Panic" using handle_data_safe [OF rng io law wf ok, of k] h by (simp add: data_safe_def)
  show ?thesis
  proof (cases "ud_kind (co_user_data cqe) \<noteq> Some OpRecv \<or> cs_state c = StClosed")
    case True
    obtain d1 k1 q where hc: "handle_completion w io cqe (c, k) = ((d1, k1), q)" by (metis surj_pair)
    have "d = d1" using h handle_data_other [OF True, of dl w io k] by (simp add: hc no_data_def)
    then show ?thesis using stays_completion [OF io law wf ok hc] np by simp
  next
    case False
    then show ?thesis using handle_data_moves [OF rng io law wf ok _ h] np by (auto intro: stays_moves)
  qed
qed

lemma stays_batch:
  assumes rng: "rng_total (wd_env w)" and wf: "conn_wf c" and can: "can_handle_plain_recv_data_batch (io_flags io) cqe c"
    and ok: "\<forall>cqe \<in> set cqes. cqe_ok (io_flags io) cqe c" and r: "plain_batch dl w io k cqes c = ((d, out), r)"
  shows "stays c d \<and> r \<noteq> Panic"
proof -
  have st: "cs_state c \<notin> {StInit, StConnecting, StClosed}" using can by (auto simp: can_handle_plain_recv_data_batch_def)
  obtain ring where ring: "cs_buf_ring c = Some ring" using wf st by (auto simp: conn_wf_def split: option.splits)
  have "batch_ok (io_flags io) (br_entries ring) cqes"
    using ok wf ring by (auto simp: batch_ok_def cqe_ok_def conn_wf_def)
  from plain_batch_moves [OF rng wf ring this r] show ?thesis using st by (auto intro: stays_moves)
qed

end

lemma stays_stage:
  fixes c :: "('t, 'h) ConnectionState"
  assumes law: "rustls_lawful (wd_rustls w)" and wf: "conn_wf c" and ring: "cs_buf_ring c \<noteq> None" and s: "stage_send w c = (d, r)"
  shows "conn_wf d \<and> cs_buf_ring d = cs_buf_ring c \<and> r \<noteq> Panic"
proof -
  define ok where "ok b = (conn_wf b \<and> cs_buf_ring b = cs_buf_ring c)" for b :: "('t, 'h) ConnectionState"
  have eg: "ok e \<and> q \<noteq> Panic" if "ok b" "cs_tls b \<noteq> None" "stage_egress w src b a = (e, q)" for b e a src q
  proof -
    obtain a1 buf x where x: "egress_plaintext (wd_rustls w) src a (cs_send_buf b) = ((a1, buf), x)" by (metis surj_pair)
    obtain more where "buf = cs_send_buf b @ more" "x \<noteq> Panic" using egress_facts [OF x] law by auto
    moreover have "e = b\<lparr>cs_tls := Some a1, cs_send_buf := buf\<rparr>" "q = map_err CeTls x" using that(3) x by (auto simp: stage_egress_def)
    ultimately show ?thesis using that(1,2) ring by (cases x) (auto simp: ok_def conn_wf_def split: option.splits)
  qed
  have ack: "ok b \<Longrightarrow> ok (b\<lparr>cs_ws := ack_tx (cs_ws b) (length (pending_tx (cs_ws b)))\<rparr>)" for b
    using ack_all(2) ring by (auto simp: ok_def conn_wf_def split: option.splits)
  have tx: "ok e \<and> q \<noteq> Panic" if "ok b" "stage_ws_tx w b = (e, q)" for b e q
  proof (cases "pending_tx (cs_ws b) = []")
    case True
    then show ?thesis using that by (auto simp: stage_ws_tx_def)
  next
    case False
    show ?thesis
    proof (cases "cs_tls b")
      case None
      have "ok (b\<lparr>cs_send_buf := cs_send_buf b @ pending_tx (cs_ws b)\<rparr>)" using that(1) by (auto simp: ok_def conn_wf_def split: option.splits)
      from ack [OF this] show ?thesis using that(2) False None by (simp add: stage_ws_tx_def) blast
    next
      case (Some a)
      obtain e1 q1 where e1: "stage_egress w (pending_tx (cs_ws b)) b a = (e1, q1)" by force
      have "cs_ws e1 = cs_ws b" using e1 by (auto simp: stage_egress_def split: prod.splits)
      then show ?thesis
        using eg [OF that(1) _ e1] ack [of e1] that(2) False Some by (cases q1) (auto simp: stage_ws_tx_def e1)
    qed
  qed
  obtain c1 where cp: "compact_send_buf_if_needed c = (Ok c1 :: (ConnectionError, _) result)" "ok c1"
    using wf by (cases "cs_send_head c = 0"; cases "cs_send_head c = length (cs_send_buf c)")
      (auto simp: compact_send_buf_if_needed_def conn_wf_def ok_def split: option.splits)
  have c2: "ok (stage_tls_pending c1)" using cp(2) by (auto simp: stage_tls_pending_def ok_def conn_wf_def split: option.splits)
  obtain c3 q3 where c3: "stage_ws_tx w (stage_tls_pending c1) = (c3, q3)" by force
  have own: "ok e \<and> q \<noteq> Panic" if "ok b" "stage_tls_own w b = (e, q)" for b e q
    using that eg by (auto simp: stage_tls_own_def split: option.splits)
  show ?thesis
    using s tx [OF c2 c3] own [of c3 d r] cp(1) c3 by (cases q3) (auto simp: stage_send_def ok_def)
qed

lemma stays_flush:
  assumes law: "rustls_lawful (wd_rustls w)" and wf: "conn_wf c" and f: "try_submit_send w io (c, k) = ((d, k'), r)"
  shows "stays c d \<and> r \<noteq> Panic"
proof (cases "cs_send_inflight c \<or> cs_state c \<in> {StInit, StConnecting, StClosed}")
  case True
  then have "try_submit_send w io (c, k) = ((c, k), Ok ())" unfolding try_submit_send_def by (simp split: if_split) blast
  then show ?thesis using f stays_refl [OF wf] by auto
next
  case False
  have ring: "cs_buf_ring c \<noteq> None" using wf False by (auto simp: conn_wf_def split: option.splits)
  obtain c1 q where s: "stage_send w c = (c1, q)" by force
  have c1: "conn_wf c1" "cs_buf_ring c1 = cs_buf_ring c" "q \<noteq> Panic" using stays_stage [OF law wf ring s] by auto
  have infl: "conn_wf (c1\<lparr>cs_send_inflight := b\<rparr>)" for b using c1(1) by (simp add: conn_wf_def split: option.splits)
  have "(d = c1 \<or> d = c1\<lparr>cs_send_inflight := True\<rparr>) \<and> r \<noteq> Panic"
    using f False s c1(3) unfolding try_submit_send_def
    by (cases q) (auto simp: submit_staged_def Let_def pr_submit_send_def push_sqe_def split: if_splits option.splits prod.splits result.splits)
  then show ?thesis using fixed_flush [OF f] c1 infl ring False by (auto simp: stays_def)
qed

lemma stays_rearm:
  assumes wf: "conn_wf c" and f: "try_rearm_multishot io (c, k) = ((d, k'), r)"
  shows "stays c d \<and> r \<noteq> Panic"
  using stays_moves [OF rearm_moves [OF assms]] fixed_rearm [OF f] f
  by (auto simp: try_rearm_multishot_def elim: notE [OF submit_recv_no_panic] split: if_splits option.splits result.splits prod.splits)

text \<open>Polling for events.  A connection without a ring has received nothing, so its client finds nothing.\<close>

lemma poll_events_fresh:
  assumes "ws_wf ws" and "ws_state ws = Connecting" and "as_slice (ws_recv_buf ws) = []"
  shows "\<exists>d. poll_events env ws evs = (d, evs, Ok ()) \<and> ws_state d = Connecting \<and> as_slice (ws_recv_buf d) = [] \<and> ws_wf d"
  using poll_fresh [OF assms, of env] by (subst poll_events.simps) auto

lemma poll_events_wf:
  "rng_total env \<Longrightarrow> ws_wf ws \<Longrightarrow> poll_events env ws evs = (d, evs', r) \<Longrightarrow> ws_wf d \<and> r \<noteq> Panic"
proof (induction env ws evs rule: poll_events.induct)
  case (1 env ws evs)
  obtain e q where p: "poll_event env ws = (e, q)" by force
  have e: "ws_wf e" "q \<noteq> Panic" using poll_event_wf [OF 1(3) p] 1(2) by auto
  show ?case
  proof (cases q)
    case (Ok v)
    show ?thesis
    proof (cases v)
      case (Some ev)
      then show ?thesis using 1 p Ok e by (auto simp: poll_events.simps [of env ws])
    qed (use 1(4) p Ok e in \<open>auto simp: poll_events.simps [of env ws]\<close>)
  qed (use 1(4) p e in \<open>auto simp: poll_events.simps [of env ws]\<close>)
qed

lemma stays_events:
  assumes rng: "rng_total (wd_env (ws (conn_token c)))" and wf: "conn_wf c"
    and e: "drain_conn_events ws c st = ((d, st'), r)"
  shows "stays c d \<and> r \<noteq> Panic"
proof (cases "cs_state c = StClosed")
  case True
  then show ?thesis
    using e stays_refl [OF wf] by (cases st) (auto simp: drain_conn_events_def stays_def)
next
  case False
  obtain sh out b where st: "st = (sh, out, b)" by (metis surj_pair)
  let ?env = "wd_env (ws (conn_token c))"
  obtain client evs q where p: "poll_events ?env (cs_ws c) [] = (client, evs, q)" by (metis surj_pair)
  have wsw: "ws_wf (cs_ws c)" using wf by (simp add: conn_wf_def)
  have client: "ws_wf client" "q \<noteq> Panic" using poll_events_wf [OF rng wsw p] by auto
  let ?c = "c\<lparr>cs_ws := client\<rparr>"
  have wf': "conn_wf ?c"
  proof (cases "cs_buf_ring c")
    case None
    then have "ws_state (cs_ws c) = Connecting" "as_slice (ws_recv_buf (cs_ws c)) = []" using wf by (auto simp: conn_wf_def)
    from poll_events_fresh [OF wsw this, of ?env "[]"] show ?thesis using p wf None by (auto simp: conn_wf_def)
  next
    case (Some ring)
    then show ?thesis using wf client(1) by (simp add: conn_wf_def)
  qed
  have base: "stays c ?c" using wf' False by (simp add: stays_def)
  have settle: "stays c (clear_ws_ingress_dirty (sync_ws_close_state (sync_ws_open_state e)))" if "stays c e" for e
  proof -
    have "conn_wf e" using that by (simp add: stays_def)
    then have "stays e (sync_ws_close_state (sync_ws_open_state e))" using stays_sync stays_trans by (metis stays_def)
    then have "stays c (sync_ws_close_state (sync_ws_open_state e))" using stays_trans that by blast
    then show ?thesis by (simp add: stays_def)
  qed
  show ?thesis
  proof (cases q)
    case (Ok u)
    then show ?thesis using e p st False settle [OF base] by (auto simp: drain_conn_events_def Let_def)
  next
    case (Err x)
    obtain e1 sh1 where f: "fail_conn_and_account (CeWs x) (conn_is_active c) (?c, sh) = (e1, sh1)" by force
    have "e1 = ?c\<lparr>cs_state := StClosed\<rparr>" using f by (auto simp: fail_conn_and_account_def fail_conn_def)
    then have "stays c e1" using stays_trans [OF base stays_closed [OF wf']] by simp
    then show ?thesis using e p st False settle f Err by (auto simp: drain_conn_events_def Let_def conn_is_active_def)
  qed (use client in simp)
qed

subsection \<open>All connections through a round\<close>

text \<open>Every connection is well-formed, and the given completions fit those they belong to.\<close>

definition fits :: "CqFlags \<Rightarrow> Completion list \<Rightarrow> ('t, 'h) ConnectionState \<Rightarrow> bool" where
  "fits fl cqes c \<longleftrightarrow> conn_wf c \<and> (\<forall>cqe \<in> set cqes. completion_token cqe = conn_token c \<longrightarrow> cqe_ok fl cqe c)"

definition all_fit :: "CqFlags \<Rightarrow> Completion list \<Rightarrow> ('t, 'h) Slots \<Rightarrow> bool" where
  "all_fit fl cqes slots \<longleftrightarrow> (\<forall>c. Some c \<in> set slots \<longrightarrow> fits fl cqes c)"

lemma fits_stays:
  assumes "fits fl cqes c" and "stays c d"
  shows "fits fl cqes d"
proof -
  have "conn_token d = conn_token c" "conn_wf d" using assms(2) by (auto simp: stays_def intro: fixed_token)
  then show ?thesis using assms(1) stays_cqe [OF assms(2)] by (simp add: fits_def)
qed

lemma ready_subset: "all_fit fl cqes slots \<Longrightarrow> set cqes' \<subseteq> set cqes \<Longrightarrow> all_fit fl cqes' slots"
  unfolding all_fit_def fits_def by blast

lemma ready_Cons: "all_fit fl cqes (slot # slots) \<longleftrightarrow> (\<forall>c. slot = Some c \<longrightarrow> fits fl cqes c) \<and> all_fit fl cqes slots"
  by (auto simp: all_fit_def)

lemma ready_put:
  assumes "all_fit fl cqes slots" and "Some c \<in> set slots" and "stays c d"
  shows "all_fit fl cqes (slots[i := Some d])"
proof -
  have d: "fits fl cqes d" using assms fits_stays unfolding all_fit_def by blast
  have "Some x \<in> set (slots[i := Some d]) \<Longrightarrow> x = d \<or> Some x \<in> set slots" for x
    using set_update_subset_insert [of slots i "Some d"] by blast
  then show ?thesis using d assms(1) unfolding all_fit_def by blast
qed

lemma each_conn_ready:
  assumes step: "\<And>c s d s' r. conn_wf c \<Longrightarrow> f c s = ((d, s'), r) \<Longrightarrow> stays c d \<and> r \<noteq> Panic"
  shows "all_fit fl cqes slots \<Longrightarrow> each_conn f slots s = ((slots', s'), r) \<Longrightarrow> all_fit fl cqes slots' \<and> r \<noteq> Panic"
proof (induction slots arbitrary: s slots' s' r)
  case (Cons slot slots)
  have rest: "all_fit fl cqes slots" using Cons.prems(1) by (simp add: ready_Cons)
  show ?case
  proof (cases slot)
    case None
    obtain slots2 s2 r2 where r: "each_conn f slots s = ((slots2, s2), r2)" by (metis surj_pair)
    from Cons.IH [OF rest this] show ?thesis using Cons.prems(2) None r by (auto simp: ready_Cons)
  next
    case (Some conn)
    obtain d s1 q where f: "f conn s = ((d, s1), q)" by (metis surj_pair)
    obtain slots2 s2 r2 where r: "each_conn f slots s1 = ((slots2, s2), r2)" by (metis surj_pair)
    have conn: "fits fl cqes conn" using Cons.prems(1) Some by (simp add: ready_Cons)
    then have d: "stays conn d" "q \<noteq> Panic" using step [OF _ f] by (auto simp: fits_def)
    have "fits fl cqes d" using fits_stays [OF conn d(1)] .
    then show ?thesis
      using Cons.prems(2) Cons.IH [OF rest r] rest Some f r d(2) by (cases q) (auto simp: ready_Cons)
  qed
qed simp

text \<open>The outside world of every connection: random bytes do not fail and TLS makes progress.\<close>

definition worlds_ok :: "('t, 'h) Worlds \<Rightarrow> bool" where
  "worlds_ok ws \<longleftrightarrow> (\<forall>t. rng_total (wd_env (ws t)) \<and> rustls_lawful (wd_rustls (ws t)))"

lemma finish_stays:
  assumes "stays b c" and "q \<noteq> Panic" and "finish_conn_result q was (c, sh) = ((d, sh'), r)"
  shows "stays b d \<and> r \<noteq> Panic"
proof -
  have wf: "conn_wf c" using assms(1) by (simp add: stays_def)
  then have "stays c (sync_ws_close_state (sync_ws_open_state c))" using stays_sync stays_trans by (metis stays_def)
  then show ?thesis
    using assms stays_trans [OF assms(1)] stays_closed [OF wf]
    by (cases q) (auto simp: finish_conn_result_def Let_def fail_conn_and_account_def fail_conn_def)
qed

lemma at_conn_ready:
  assumes rd: "all_fit fl cqes slots" and f: "conn_for_completion slots cqe = Some (i, conn)"
    and h: "\<And>d k new q. handle (conn, sh_proactor sh) = (((d, k), new), q) \<Longrightarrow> stays conn d \<and> q \<noteq> Panic"
    and a: "at_conn handle i conn ((slots, sh), out) = (((slots', sh'), out'), r)"
  shows "all_fit fl cqes slots' \<and> r \<noteq> Panic"
proof -
  have conn: "Some conn \<in> set slots" using conn_for_completionD [OF f] by (metis nth_mem)
  obtain d k new q where hd: "handle (conn, sh_proactor sh) = (((d, k), new), q)" by (metis surj_pair)
  obtain e sh2 r2 where fin: "finish_conn_result q (conn_is_active conn) (d, sh\<lparr>sh_proactor := k\<rparr>) = ((e, sh2), r2)" by (metis surj_pair)
  have "stays conn e \<and> r2 \<noteq> Panic" using finish_stays [OF _ _ fin] h [OF hd] by blast
  moreover have "slots' = slots[i := Some e]" "r = r2" using a by (auto simp: at_conn_def hd fin Let_def)
  ultimately show ?thesis using ready_put [OF rd conn] by simp
qed

lemma ready_conn:
  assumes "all_fit fl cqes slots" and "conn_for_completion slots cqe = Some (i, conn)" and "cqe' \<in> set cqes" and "completion_token cqe' = completion_token cqe"
  shows "conn_wf conn" and "cqe_ok fl cqe' conn"
proof -
  note f = conn_for_completionD [OF assms(2)]
  have "fits fl cqes conn" using assms(1) f(1,2) unfolding all_fit_def by (metis nth_mem)
  then show "conn_wf conn" "cqe_ok fl cqe' conn" using assms(3,4) f(3) by (auto simp: fits_def)
qed

lemma route_ready:
  assumes io: "uring_sane io" and w: "worlds_ok ws"
  shows "set cqes \<subseteq> set known \<Longrightarrow> all_fit (io_flags io) known slots \<Longrightarrow>
    route_completions ws io cqes ((slots, sh), out) = (((slots', sh'), out'), r) \<Longrightarrow> all_fit (io_flags io) known slots' \<and> r \<noteq> Panic"
proof (induction cqes arbitrary: slots sh out)
  case (Cons cqe cqes)
  show ?case
  proof (cases "conn_for_completion slots cqe")
    case None
    then show ?thesis using Cons.IH [of slots sh out] Cons.prems by simp
  next
    case (Some ic)
    obtain i conn where ic: "ic = (i, conn)" by force
    note found = Some [unfolded ic]
    let ?h = "\<lambda>c. case handle_completion (ws (conn_token conn)) io cqe c of (c, r) \<Rightarrow> ((c, []), r)"
    obtain slots1 sh1 out1 q where a: "at_conn ?h i conn ((slots, sh), out) = (((slots1, sh1), out1), q)" by (metis surj_pair)
    have "stays conn d \<and> s \<noteq> Panic" if "?h (conn, sh_proactor sh) = (((d, k), new), s)" for d k new s
    proof -
      have "handle_completion (ws (conn_token conn)) io cqe (conn, sh_proactor sh) = ((d, k), s)" using that by (auto split: prod.splits)
      from stays_completion [OF io _ ready_conn [OF Cons.prems(2) found, of cqe] this] show ?thesis using w Cons.prems(1) by (simp add: worlds_ok_def)
    qed
    then have one: "all_fit (io_flags io) known slots1" "q \<noteq> Panic" using at_conn_ready [where handle = ?h, OF Cons.prems(2) found _ a] by blast+
    show ?thesis using Cons.IH [OF _ one(1), of sh1 out1] Cons.prems a found one by (cases q) auto
  qed
qed auto

context delivery
begin

lemma dispatch_ready:
  assumes io: "uring_sane io" and w: "worlds_ok ws"
  shows "set cqes \<subseteq> set known \<Longrightarrow> all_fit (io_flags io) known slots \<Longrightarrow>
    dispatch_data dl min_run ws io cqes ((slots, sh), out) = (((slots', sh'), out'), r) \<Longrightarrow> all_fit (io_flags io) known slots' \<and> r \<noteq> Panic"
proof (induction "length cqes" arbitrary: cqes slots sh out rule: less_induct)
  case less
  show ?case
  proof (cases cqes)
    case Nil
    then show ?thesis using less.prems by auto
  next
    case (Cons cqe rest)
    show ?thesis
    proof (cases "conn_for_completion slots cqe")
      case None
      then show ?thesis using less.hyps [of rest slots sh out] less.prems Cons by simp
    next
      case (Some ic)
      obtain i conn where ic: "ic = (i, conn)" by force
      note found = Some [unfolded ic]
      let ?w = "ws (conn_token conn)" and ?run = "batch_run (io_flags io) conn cqe rest"
      have world: "rng_total (wd_env ?w)" "rustls_lawful (wd_rustls ?w)" using w by (auto simp: worlds_ok_def)
      note fit = ready_conn [OF less.prems(2) found]
      define batch where "batch = (can_handle_plain_recv_data_batch (io_flags io) cqe conn \<and> min_run \<le> Suc (length ?run))"
      define handle where "handle = (if batch
        then (\<lambda>(c, k). case plain_batch dl ?w io k (cqe # ?run) c of ((c, out), r) \<Rightarrow> (((c, k), out), r)) else handle_data dl ?w io cqe)"
      define later where "later = (if batch then drop (length ?run) rest else rest)"
      have h: "stays conn d \<and> s \<noteq> Panic" if hd: "handle (conn, sh_proactor sh) = (((d, k), new), s)" for d k new s
      proof (cases batch)
        case True
        have pb: "plain_batch dl ?w io (sh_proactor sh) (cqe # ?run) conn = ((d, new), s)"
          using hd True by (auto simp: handle_def split: prod.splits)
        have "x \<in> set cqes \<and> completion_token x = completion_token cqe" if "x \<in> set (cqe # ?run)" for x
          using that Cons by (auto simp: batch_run_def dest: set_takeWhileD)
        then have "\<forall>x \<in> set (cqe # ?run). cqe_ok (io_flags io) x conn" using fit(2) less.prems(1) by blast
        from stays_batch [OF world(1) fit(1) _ this pb, of cqe cqe] show ?thesis using True Cons less.prems(1) by (simp add: batch_def)
      next
        case False
        then have "handle_data dl ?w io cqe (conn, sh_proactor sh) = (((d, k), new), s)" using hd by (simp add: handle_def)
        from stays_data [OF world(1) io world(2) fit(1) fit(2) this, of cqe] show ?thesis using Cons less.prems(1) by simp
      qed
      have later: "set later \<subseteq> set rest" "length later \<le> length rest" by (auto simp: later_def dest: in_set_dropD)
      obtain slots1 sh1 out1 q where a: "at_conn handle i conn ((slots, sh), out) = (((slots1, sh1), out1), q)" by (metis surj_pair)
      have go: "try_st (((slots1, sh1), out1), q) (\<lambda>st _. dispatch_data dl min_run ws io later st) = (((slots', sh'), out'), r)"
        using less.prems(3) a found by (auto simp: Cons Let_def later_def handle_def batch_def split: if_splits)
      have one: "all_fit (io_flags io) known slots1" "q \<noteq> Panic" using at_conn_ready [OF less.prems(2) found h a] by auto
      show ?thesis
        using go one less.hyps [of later slots1 sh1 out1] later less.prems(1) Cons by (cases q) auto
    qed
  qed
qed

end

subsection \<open>Whole pumps\<close>

text \<open>The completions that a pump takes off the queue after submitting and waiting.\<close>

definition round_completions :: "('t, 'h) Worlds \<Rightarrow> 'k Uring \<Rightarrow> nat \<Rightarrow> ('t, 'h, 'k) Pool \<Rightarrow> Completion list" where
  "round_completions ws io wait_nr p =
     (case start_round ws io p of
        ((slots, sh), Ok _) \<Rightarrow>
          (case wait_for_cqe io wait_nr (sh_proactor sh) of (k, Ok _) \<Rightarrow> fst (drain_completions io k) | _ \<Rightarrow> [])
      | _ \<Rightarrow> [])"

lemma submit_op_stays:
  assumes w: "worlds_ok ws" and wf: "conn_wf c" and s: "submit_conn_op ws io c sh = ((d, sh'), r)"
  shows "stays c d \<and> r \<noteq> Panic"
proof -
  obtain c1 k1 q where f: "try_submit_send (ws (conn_token c)) io (c, sh_proactor sh) = ((c1, k1), q)" by (metis surj_pair)
  obtain c2 k2 q2 where g: "try_rearm_multishot io (c1, k1) = ((c2, k2), q2)" by (metis surj_pair)
  have one: "stays c c1" "q \<noteq> Panic" using stays_flush [OF _ wf f] w by (auto simp: worlds_ok_def)
  have wf1: "conn_wf c1" using one(1) by (simp add: stays_def)
  have two: "stays c c2" "q2 \<noteq> Panic" using stays_rearm [OF wf1 g] stays_trans [OF one(1)] by auto
  have wf2: "conn_wf c2" using two(1) by (simp add: stays_def)
  have fail: "stays c (fst (fail_conn_and_account e was (b, x)))" if "stays c b" "conn_wf b" for e was b and x :: "'c Shared"
    using stays_trans [OF that(1) stays_closed [OF that(2)]] by (simp add: fail_conn_and_account_def fail_conn_def)
  show ?thesis
    using s f g one two fail [OF one(1) wf1] fail [OF two(1) wf2]
    by (cases q; cases q2) (auto simp: submit_conn_op_def Let_def, (metis fst_conv)+)
qed

lemma start_ready:
  assumes io: "uring_sane io" and w: "worlds_ok ws" and fit: "all_fit fl cqes (po_conns p)"
    and s: "start_round ws io p = ((slots, sh), r)"
  shows "all_fit fl cqes slots \<and> r \<noteq> Panic"
proof -
  obtain slots1 sh1 q where a: "submit_conn_ops ws io (po_conns p) (snd (round_begin p)) = ((slots1, sh1), q)" by (metis surj_pair)
  have one: "all_fit fl cqes slots1 \<and> q \<noteq> Panic"
    by (rule each_conn_ready [OF _ fit a [unfolded submit_conn_ops_def]]) (rule submit_op_stays [OF w])
  have "snd (io_submit io k) \<noteq> Panic" for k using io by (simp add: uring_sane_def)
  then have "snd (pr_submit io k) \<noteq> Panic" for k by (simp add: pr_submit_def case_prod_beta)
  then show ?thesis
    using s a one by (cases q) (auto simp: start_round_def round_begin_def on_proactor_def case_prod_beta)
qed

lemma wait_no_panic: "uring_sane io \<Longrightarrow> snd (wait_for_cqe io n k) \<noteq> Panic"
  by (simp add: wait_for_cqe_def pr_submit_and_wait_def uring_sane_def case_prod_beta)

lemma drain_events_ready:
  assumes w: "worlds_ok ws" and fit: "all_fit fl known slots" and d: "drain_events ws ((slots, sh), out) = (((slots', sh'), out'), r)"
  shows "all_fit fl known slots' \<and> r \<noteq> Panic"
proof -
  obtain slots1 sh1 out1 b q where e: "each_conn (drain_conn_events ws) slots (sh, out, False) = ((slots1, sh1, out1, b), q)"
    by (metis surj_pair)
  have "all_fit fl known slots1 \<and> q \<noteq> Panic"
  proof (rule each_conn_ready [OF _ fit e])
    fix c s d s' r
    assume "conn_wf c" and "drain_conn_events ws c s = ((d, s'), r)"
    then show "stays c d \<and> r \<noteq> Panic" using w by (intro stays_events) (auto simp: worlds_ok_def)
  qed
  then show ?thesis using d e by (cases q) (auto simp: drain_events_def)
qed

text \<open>Beside the connections of the pool and their completions, the rest of a pump does not matter.\<close>

lemma pump_cases:
  assumes io: "uring_sane io" and w: "worlds_ok ws" and fit: "all_fit (io_flags io) (round_completions ws io wait_nr p) (po_conns p)"
    and work: "\<And>slots sh cqes res. cqes = round_completions ws io wait_nr p \<Longrightarrow> all_fit (io_flags io) cqes slots \<Longrightarrow>
      work cqes ((slots, sh), []) = res \<Longrightarrow> all_fit (io_flags io) [] (fst (fst (fst res))) \<and> snd res \<noteq> Panic"
    and r: "pool_round p (
       try_st (with_out [] (start_round ws io p)) (\<lambda>(st, out) _.
       try_st (with_out out (on_proactor (wait_for_cqe io wait_nr) st)) (\<lambda>(st, out) _.
       try_st (with_out out (take_completions io st)) (\<lambda>st cqes. work cqes st)))) = ((p', out), r)"
  shows "all_fit (io_flags io) [] (po_conns p') \<and> r \<noteq> Panic"
proof -
  obtain slots sh q where s: "start_round ws io p = ((slots, sh), q)" by (metis surj_pair)
  note one = start_ready [OF io w fit s]
  have keep: "all_fit (io_flags io) [] slots" using ready_subset [OF conjunct1 [OF one]] by simp
  obtain k q2 where k: "wait_for_cqe io wait_nr (sh_proactor sh) = (k, q2)" by force
  have q2: "q2 \<noteq> Panic" using wait_no_panic [OF io, of wait_nr "sh_proactor sh"] k by simp
  obtain cqes n k2 where c: "drain_completions io k = (cqes, n, k2)" by (metis surj_pair)
  show ?thesis
  proof (cases q)
    case (Ok u)
    show ?thesis
    proof (cases q2)
      case 2: (Ok v)
      have cq: "cqes = round_completions ws io wait_nr p" using s Ok k 2 c by (simp add: round_completions_def)
      then have "all_fit (io_flags io) cqes slots" using one by simp
      from work [OF cq this refl, of "sh\<lparr>sh_proactor := k2\<rparr>"] show ?thesis
        using r s Ok k 2 c by (auto simp: pool_round_def with_out_def on_proactor_def take_completions_def round_end_def split: prod.splits)
    qed (use r s Ok k keep q2 in \<open>auto simp: pool_round_def with_out_def on_proactor_def round_end_def\<close>)
  qed (use r s one keep in \<open>auto simp: pool_round_def with_out_def round_end_def\<close>)
qed

definition round_safe :: "(('t, 'h, 'k) Pool \<times> 'o) \<times> ('e, 'r) result \<Rightarrow> bool" where
  "round_safe res \<longleftrightarrow> snd res \<noteq> Panic \<and> (\<forall>c. Some c \<in> set (po_conns (fst (fst res))) \<longrightarrow> conn_wf c)"

lemma round_safe_fit: "all_fit fl [] (po_conns p) \<and> r \<noteq> Panic \<Longrightarrow> round_safe ((p, out), r)"
  by (simp add: round_safe_def all_fit_def fits_def)

context delivery
begin

lemma pump_data_safe:
  assumes "uring_sane io" and "worlds_ok ws" and "all_fit (io_flags io) (round_completions ws io wait_nr p) (po_conns p)"
  shows "round_safe (pump_data_with dl min_run ws io wait_nr p)"
proof -
  obtain p' out r where r: "pump_data_with dl min_run ws io wait_nr p = ((p', out), r)" by (metis surj_pair)
  have "all_fit (io_flags io) [] (po_conns p') \<and> r \<noteq> Panic"
  proof (rule pump_cases [OF assms _ r [unfolded pump_data_with_def]])
    fix slots sh cqes res
    assume fit: "all_fit (io_flags io) cqes slots"
      and w: "try_st (dispatch_data dl min_run ws io cqes ((slots, sh), [])) (\<lambda>st _. (st, round_result (fst st) ())) = res"
    obtain slots1 sh1 out1 q where d: "dispatch_data dl min_run ws io cqes ((slots, sh), []) = (((slots1, sh1), out1), q)" by (metis surj_pair)
    show "all_fit (io_flags io) [] (fst (fst (fst res))) \<and> snd res \<noteq> Panic"
      using dispatch_ready [OF assms(1,2) subset_refl fit d] ready_subset [of "io_flags io" cqes slots1 "[]"] w [unfolded d, symmetric] by (cases q) (auto simp: round_result_def split: option.splits)
  qed
  then show ?thesis unfolding r by (rule round_safe_fit)
qed

end

lemma pump_safe:
  assumes "uring_sane io" and "worlds_ok ws" and "all_fit (io_flags io) (round_completions ws io wait_nr p) (po_conns p)"
  shows "round_safe (pump_impl ws io wait_nr p)"
proof -
  define work where "work cqes st = try_st (route_completions ws io cqes st) (\<lambda>st _. try_st (drain_events ws st) (\<lambda>st _. (st, round_result (fst st) ())))" for cqes st
  have eq: "pump_impl ws io wait_nr p = pool_round p (
      try_st (with_out [] (start_round ws io p)) (\<lambda>(st, out) _.
      try_st (with_out out (on_proactor (wait_for_cqe io wait_nr) st)) (\<lambda>(st, out) _.
      try_st (with_out out (take_completions io st)) (\<lambda>st cqes. work cqes st))))"
    unfolding pump_impl_def drain_conn_completions_def case_prod_beta by (simp add: try_st_assoc work_def)
  obtain p' out r where r: "pump_impl ws io wait_nr p = ((p', out), r)" by (metis surj_pair)
  have "all_fit (io_flags io) [] (po_conns p') \<and> r \<noteq> Panic"
  proof (rule pump_cases [OF assms _ r [unfolded eq]])
    fix slots sh cqes res
    assume fit: "all_fit (io_flags io) cqes slots" and w: "work cqes ((slots, sh), []) = res"
    obtain slots1 sh1 out1 q where d: "route_completions ws io cqes ((slots, sh), [] :: (ConnHandle \<times> WsEvent) list) = (((slots1, sh1), out1), q)" by (metis surj_pair)
    obtain slots2 sh2 out2 q2 where e: "drain_events ws ((slots1, sh1), out1) = (((slots2, sh2), out2), q2)" by (metis surj_pair)
    have one: "all_fit (io_flags io) [] slots1" "q \<noteq> Panic" using route_ready [OF assms(1,2) subset_refl fit d] ready_subset [of "io_flags io" cqes slots1 "[]"] by auto
    show "all_fit (io_flags io) [] (fst (fst (fst res))) \<and> snd res \<noteq> Panic"
      using one drain_events_ready [OF assms(2) one(1) e] w d e unfolding work_def
      by (cases q; cases q2) (auto simp: round_result_def split: option.splits)
  qed
  then show ?thesis unfolding r by (rule round_safe_fit)
qed

subsection \<open>Spinning pumps\<close>

text \<open>The states in which a spin takes completions off the queue: the one after submitting, and then the one after
  each successful drain.\<close>

inductive drains_to :: "('s \<Rightarrow> 's \<times> ('e, 'r) result) \<Rightarrow> 's \<Rightarrow> 's \<Rightarrow> bool" for once where
  here: "drains_to once st st"
| again: "drains_to once st st1 \<Longrightarrow> once st1 = (st2, Ok r) \<Longrightarrow> drains_to once st st2"

lemma drains_to_first: "drains_to once st1 st2 \<Longrightarrow> once st = (st1, Ok r) \<Longrightarrow> drains_to once st st2"
  by (induction rule: drains_to.induct) (auto intro: drains_to.intros)

text \<open>One turn of the event spin.\<close>

definition drain_once :: "('t, 'h) Worlds \<Rightarrow> 'k Uring \<Rightarrow> ('t, 'h, 'k) Round \<times> (ConnHandle \<times> WsEvent) list \<Rightarrow>
    (('t, 'h, 'k) Round \<times> (ConnHandle \<times> WsEvent) list) \<times> (ConnectionError, bool) result" where
  "drain_once ws io st = try_st (drain_conn_completions ws io st) (\<lambda>st _. drain_events ws st)"

text \<open>The completions taken belong to the connections, for one pump and for all turns of a spin.\<close>

definition taken_fit :: "'k Uring \<Rightarrow> ('t, 'h, 'k) Round \<Rightarrow> bool" where
  "taken_fit io st \<longleftrightarrow>
     (\<forall>c. Some c \<in> set (fst st) \<longrightarrow>
        (\<forall>cqe \<in> set (fst (drain_completions io (sh_proactor (snd st)))). completion_token cqe = conn_token c \<longrightarrow> cqe_ok (io_flags io) cqe c))"

definition pump_fits :: "('t, 'h) Worlds \<Rightarrow> 'k Uring \<Rightarrow> nat \<Rightarrow> ('t, 'h, 'k) Pool \<Rightarrow> bool" where
  "pump_fits ws io wait_nr p \<longleftrightarrow>
     (\<forall>c. Some c \<in> set (po_conns p) \<longrightarrow>
        (\<forall>cqe \<in> set (round_completions ws io wait_nr p). completion_token cqe = conn_token c \<longrightarrow> cqe_ok (io_flags io) cqe c))"

definition spin_fits ::
  "('t, 'h) Worlds \<Rightarrow> 'k Uring \<Rightarrow> (('t, 'h, 'k) Round \<times> 'o list \<Rightarrow> (('t, 'h, 'k) Round \<times> 'o list) \<times> ('e, 'r) result) \<Rightarrow> ('t, 'h, 'k) Pool \<Rightarrow> bool" where
  "spin_fits ws io once p \<longleftrightarrow>
     (\<forall>st. drains_to once (fst (start_round ws io p), []) st \<longrightarrow> taken_fit io (fst st))"

lemma take_ready:
  assumes "all_fit (io_flags io) known (fst st)" and "taken_fit io st" and "take_completions io st = (st', r)"
  shows "\<exists>cqes. r = Ok cqes \<and> all_fit (io_flags io) (cqes @ known) (fst st')"
  using assms by (cases st) (auto simp: take_completions_def on_proactor_def taken_fit_def all_fit_def fits_def split: prod.splits)

text \<open>Further drains after progress, for any turn that keeps the connections well-formed when its completions fit.\<close>

lemma post_progress_ready:
  assumes turn: "\<And>st st' r. all_fit fl known (fst (fst st)) \<Longrightarrow> taken_fit io (fst st) \<Longrightarrow> once st = (st', r) \<Longrightarrow>
      all_fit fl known (fst (fst st')) \<and> r \<noteq> Panic"
  shows "all_fit fl known (fst (fst st)) \<Longrightarrow> \<forall>x. drains_to once st x \<longrightarrow> taken_fit io (fst x) \<Longrightarrow>
    drain_post_progress n failed once st = (st', r) \<Longrightarrow> all_fit fl known (fst (fst st')) \<and> r \<noteq> Panic"
proof (induction n arbitrary: st)
  case (Suc n)
  obtain st1 q where o: "once st = (st1, q)" by (metis surj_pair)
  have "taken_fit io (fst st)" by (rule Suc.prems(2) [rule_format, OF drains_to.here])
  note t = turn [OF Suc.prems(1) this o]
  show ?case
  proof (cases q)
    case (Ok x)
    have "\<forall>x. drains_to once st1 x \<longrightarrow> taken_fit io (fst x)" using Suc.prems(2) drains_to_first o Ok by metis
    then show ?thesis using Suc.IH [of st1] Suc.prems(3) o Ok t by (auto split: if_splits)
  qed (use Suc.prems(3) o t in auto)
qed auto

lemma round_result_no_panic [simp]: "round_result st v \<noteq> Panic"
  by (simp add: round_result_def split: option.splits)

context delivery
begin

lemma drain_data_turn:
  assumes io: "uring_sane io" and w: "worlds_ok ws"
    and st: "all_fit (io_flags io) known (fst (fst st))" "taken_fit io (fst st)" and d: "drain_data dl min_run ws io st = (st', r)"
  shows "all_fit (io_flags io) known (fst (fst st')) \<and> r \<noteq> Panic"
proof -
  obtain st1 q where tk: "take_completions io (fst st) = (st1, q)" by (metis surj_pair)
  obtain cqes where c: "q = Ok cqes" "all_fit (io_flags io) (cqes @ known) (fst st1)" using take_ready [OF st tk] by blast
  obtain slots1 sh1 where s1: "st1 = (slots1, sh1)" by (metis surj_pair)
  obtain slots2 sh2 out2 q2 where dd: "dispatch_data dl min_run ws io cqes ((slots1, sh1), snd st) = (((slots2, sh2), out2), q2)" by (metis surj_pair)
  show ?thesis
    using d dispatch_ready [OF io w _ _ dd, of "cqes @ known"] ready_subset [of "io_flags io" "cqes @ known" slots2 known] c s1 by (cases q2) (auto simp: drain_data_def with_out_def tk dd)
qed

lemma spin_data_ready:
  assumes io: "uring_sane io" and w: "worlds_ok ws"
  shows "all_fit (io_flags io) known (fst (fst st)) \<Longrightarrow> \<forall>x. drains_to (drain_data dl min_run ws io) st x \<longrightarrow> taken_fit io (fst x) \<Longrightarrow>
    spin_data dl min_run ws io post iters st = (st', r) \<Longrightarrow> all_fit (io_flags io) known (fst (fst st')) \<and> r \<noteq> Panic"
proof (induction iters arbitrary: st rule: less_induct)
  case (less iters)
  let ?once = "drain_data dl min_run ws io"
  note turn = drain_data_turn [OF io w]
  obtain st1 q where o: "?once st = (st1, q)" by (metis surj_pair)
  have "taken_fit io (fst st)" by (rule less.prems(2) [rule_format, OF drains_to.here])
  note t = turn [OF less.prems(1) this o]
  show ?case
  proof (cases q)
    case (Ok cqes)
    have fit: "\<forall>x. drains_to ?once st1 x \<longrightarrow> taken_fit io (fst x)" using less.prems(2) drains_to_first o Ok by metis
    obtain st2 q2 where p: "drain_post_progress post round_failed ?once st1 = (st2, q2)" by (metis surj_pair)
    have post: "all_fit (io_flags io) known (fst (fst st2)) \<and> q2 \<noteq> Panic" by (rule post_progress_ready [OF turn conjunct1 [OF t] fit p])
    have rest: "all_fit (io_flags io) known (fst (fst st')) \<and> r \<noteq> Panic" if "iters = Suc n" "spin_data dl min_run ws io post n st1 = (st', r)" for n
      using less.IH [of n st1] that t fit by simp
    show ?thesis
      using less.prems(3) t post rest unfolding spin_data.simps [of dl min_run ws io post iters st] o Ok
      by (cases q2; cases iters) (auto simp: p split: if_splits)
  qed (use less.prems(3) t in \<open>auto simp: spin_data.simps [of dl min_run ws io post iters st] o\<close>)
qed

lemma pump_data_spin_safe:
  assumes io: "uring_sane io" and w: "worlds_ok ws" and wf: "\<forall>c. Some c \<in> set (po_conns p) \<longrightarrow> conn_wf c"
    and fit: "spin_fits ws io (drain_data dl min_run ws io) p"
  shows "round_safe (pump_data_spin_with dl min_run ws io iters p)"
proof -
  have "all_fit (io_flags io) [] (po_conns p)" using wf by (simp add: all_fit_def fits_def)
  note start = start_ready [OF io w this]
  obtain slots sh q where s: "start_round ws io p = ((slots, sh), q)" by (metis surj_pair)
  obtain st' r where sp: "spin_data dl min_run ws io (po_post_progress_spin_iters p) iters ((slots, sh), []) = (st', r)" by (metis surj_pair)
  have "all_fit (io_flags io) [] (fst (fst st')) \<and> r \<noteq> Panic"
    by (rule spin_data_ready [OF io w _ _ sp]) (use start [OF s] fit s in \<open>auto simp: spin_fits_def\<close>)
  then show ?thesis
    using start [OF s] sp
    by (cases q) (auto simp: pump_data_spin_with_def s with_out_def pool_round_def round_end_def round_safe_def all_fit_def fits_def split: prod.splits)
qed

end

lemma drain_once_turn:
  assumes io: "uring_sane io" and w: "worlds_ok ws"
    and st: "all_fit (io_flags io) known (fst (fst st))" "taken_fit io (fst st)"
  shows "drain_conn_completions ws io st = (st1, q) \<Longrightarrow> all_fit (io_flags io) known (fst (fst st1)) \<and> q \<noteq> Panic"
    and "drain_once ws io st = (st', r) \<Longrightarrow> all_fit (io_flags io) known (fst (fst st')) \<and> r \<noteq> Panic"
proof -
  obtain st0 q0 where tk: "take_completions io (fst st) = (st0, q0)" by (metis surj_pair)
  obtain cqes where c: "q0 = Ok cqes" "all_fit (io_flags io) (cqes @ known) (fst st0)" using take_ready [OF st tk] by blast
  obtain slots1 sh1 where s1: "st0 = (slots1, sh1)" by (metis surj_pair)
  obtain slots2 sh2 out2 q2 where dd: "route_completions ws io cqes ((slots1, sh1), snd st) = (((slots2, sh2), out2), q2)" by (metis surj_pair)
  have one: "all_fit (io_flags io) known slots2 \<and> q2 \<noteq> Panic" using route_ready [OF io w _ _ dd, of "cqes @ known"] ready_subset [of "io_flags io" "cqes @ known" slots2 known] c s1 by simp
  then show "drain_conn_completions ws io st = (st1, q) \<Longrightarrow> all_fit (io_flags io) known (fst (fst st1)) \<and> q \<noteq> Panic"
    using c s1 by (cases q2) (auto simp: drain_conn_completions_def with_out_def tk dd)
  obtain slots3 sh3 out3 q3 where e: "drain_events ws ((slots2, sh2), out2) = (((slots3, sh3), out3), q3)" by (metis surj_pair)
  have "all_fit (io_flags io) known slots3 \<and> q3 \<noteq> Panic" using drain_events_ready [OF w _ e] one by blast
  moreover have "drain_once ws io st = (case q2 of Ok _ \<Rightarrow> (((slots3, sh3), out3), q3) | Err x \<Rightarrow> (((slots2, sh2), out2), Err x)
      | Panic \<Rightarrow> (((slots2, sh2), out2), Panic))"
    by (cases q2) (simp_all add: drain_once_def drain_conn_completions_def with_out_def tk c(1) s1 dd e)
  ultimately show "drain_once ws io st = (st', r) \<Longrightarrow> all_fit (io_flags io) known (fst (fst st')) \<and> r \<noteq> Panic"
    using one by (cases q2) auto
qed

lemma spin_events_ready:
  assumes io: "uring_sane io" and w: "worlds_ok ws"
  shows "all_fit (io_flags io) known (fst (fst st)) \<Longrightarrow> \<forall>x. drains_to (drain_once ws io) st x \<longrightarrow> taken_fit io (fst x) \<Longrightarrow>
    spin_events ws io iters st = (st', r) \<Longrightarrow> all_fit (io_flags io) known (fst (fst st')) \<and> r \<noteq> Panic"
proof (induction iters arbitrary: st rule: less_induct)
  case (less iters)
  have now: "taken_fit io (fst st)" by (rule less.prems(2) [rule_format, OF drains_to.here])
  note turn = drain_once_turn [OF io w less.prems(1) now]
  obtain st1 q where d: "drain_conn_completions ws io st = (st1, q)" by (metis surj_pair)
  show ?case
  proof (cases q)
    case (Ok cqes)
    obtain st2 q2 where e: "drain_events ws st1 = (st2, q2)" by (metis surj_pair)
    have o: "drain_once ws io st = (st2, q2)" using d Ok e by (simp add: drain_once_def)
    note t = turn(2) [OF o]
    show ?thesis
    proof (cases q2)
      case 2: (Ok polled)
      have fit: "\<forall>x. drains_to (drain_once ws io) st2 x \<longrightarrow> taken_fit io (fst x)" using less.prems(2) drains_to_first o 2 by metis
      have rest: "all_fit (io_flags io) known (fst (fst st')) \<and> r \<noteq> Panic" if "iters = Suc n" "spin_events ws io n st2 = (st', r)" for n
        using less.IH [of n st2] that t fit by simp
      show ?thesis
        using less.prems(3) t rest unfolding spin_events.simps [of ws io iters st] d Ok
        by (cases iters) (auto simp: e 2 Let_def split: if_splits)
    qed (use less.prems(3) t in \<open>auto simp: spin_events.simps [of ws io iters st] d Ok e\<close>)
  qed (use less.prems(3) turn(1) [OF d] in \<open>auto simp: spin_events.simps [of ws io iters st] d\<close>)
qed

lemma pump_spin_safe:
  assumes io: "uring_sane io" and w: "worlds_ok ws" and wf: "\<forall>c. Some c \<in> set (po_conns p) \<longrightarrow> conn_wf c"
    and fit: "spin_fits ws io (drain_once ws io) p"
  shows "round_safe (pump_spin_impl ws io iters p)"
proof -
  have "all_fit (io_flags io) [] (po_conns p)" using wf by (simp add: all_fit_def fits_def)
  note start = start_ready [OF io w this]
  obtain slots sh q where s: "start_round ws io p = ((slots, sh), q)" by (metis surj_pair)
  obtain st' r where sp: "spin_events ws io iters ((slots, sh), []) = (st', r)" by (metis surj_pair)
  have "all_fit (io_flags io) [] (fst (fst st')) \<and> r \<noteq> Panic"
    by (rule spin_events_ready [OF io w _ _ sp]) (use start [OF s] fit s in \<open>auto simp: spin_fits_def\<close>)
  then show ?thesis
    using start [OF s] sp
    by (cases q) (auto simp: pump_spin_impl_def s with_out_def pool_round_def round_end_def round_safe_def all_fit_def fits_def split: prod.splits)
qed

text \<open>C8. Pumping is safe: on a pool of well-formed connections none of the ten pumps panics, whatever arrives and
  whatever fails, and every connection is well-formed again afterwards.  This needs that the completions
  a pump takes off the queue and that belong to a connection report buffers of its ring: for the event pump
  and the four data pumps, those taken after submitting and waiting; for the spinning event pump and the
  four spinning data pumps, those taken at each turn, given the connections as they are at that turn.
  Random bytes must not fail, TLS must make progress and system calls must return.\<close>

theorem pool_pumps_safe:
  assumes "uring_sane io" and "worlds_ok ws" and "\<forall>c. Some c \<in> set (po_conns p) \<longrightarrow> conn_wf c"
  shows "(pump_fits ws io wait_nr p \<longrightarrow>
      round_safe (pump_impl ws io wait_nr p) \<and> round_safe (pump_data_impl ws io wait_nr p) \<and>
      round_safe (pump_data_marked_impl ws io wait_nr p) \<and> round_safe (pump_data_batches_impl ws io wait_nr p) \<and>
      round_safe (pump_data_marked_batches_impl ws io wait_nr p)) \<and>
    (spin_fits ws io (drain_once ws io) p \<longrightarrow> round_safe (pump_spin_impl ws io iters p)) \<and>
    (spin_fits ws io (drain_conn_completions_data ws io) p \<longrightarrow> round_safe (pump_data_spin_impl ws io iters p)) \<and>
    (spin_fits ws io (drain_conn_completions_data_marked ws io) p \<longrightarrow> round_safe (pump_data_spin_marked_impl ws io iters p)) \<and>
    (spin_fits ws io (drain_conn_completions_data_batches ws io) p \<longrightarrow> round_safe (pump_data_spin_batches_impl ws io iters p)) \<and>
    (spin_fits ws io (drain_conn_completions_data_marked_batches ws io) p \<longrightarrow> round_safe (pump_data_spin_marked_batches_impl ws io iters p))"
proof -
  note env = assms(1,2)
  have pumps: "round_safe (pump_impl ws io wait_nr p) \<and> round_safe (pump_data_impl ws io wait_nr p) \<and>
      round_safe (pump_data_marked_impl ws io wait_nr p) \<and> round_safe (pump_data_batches_impl ws io wait_nr p) \<and>
      round_safe (pump_data_marked_batches_impl ws io wait_nr p)" if "pump_fits ws io wait_nr p"
  proof -
    have fit: "all_fit (io_flags io) (round_completions ws io wait_nr p) (po_conns p)"
      using assms(3) that by (simp add: pump_fits_def all_fit_def fits_def)
    show ?thesis
      using pump_safe [OF env fit] events.pump_data_safe [OF env fit] batches.pump_data_safe [OF env fit]
        marked_events.pump_data_safe [OF env fit] marked_batches.pump_data_safe [OF env fit]
      by (simp add: pump_data_impl_def pump_data_marked_impl_def pump_data_batches_impl_def pump_data_marked_batches_impl_def)
  qed
  show ?thesis
    using pumps pump_spin_safe [OF assms] events.pump_data_spin_safe [OF assms] batches.pump_data_spin_safe [OF assms]
      marked_events.pump_data_spin_safe [OF assms] marked_batches.pump_data_spin_safe [OF assms]
    unfolding pump_data_spin_impl_def pump_data_spin_marked_impl_def pump_data_spin_batches_impl_def pump_data_spin_marked_batches_impl_def
      drain_conn_completions_data_def drain_conn_completions_data_marked_def drain_conn_completions_data_batches_def
      drain_conn_completions_data_marked_batches_def
    by blast
qed

text \<open>A kernel that reports eight bytes in buffer 1 of the sample connection.\<close>

definition busy_uring :: "Sqe list Uring" where
  "busy_uring = sample_uring\<lparr>io_completion := (\<lambda>k. ([(ud_raw (ud_new OpRecv 0), 8, 0x10003)], k))\<rparr>"

definition busy_pool :: "(bytes \<times> bytes, u64 list, Sqe list) Pool" where
  "busy_pool = \<lparr>po_proactor = [], po_conns = [Some sample_conn], po_generations = [0], po_free_conn_ids = [], po_free_bgids = [],
     po_active_count = 1, po_next_conn_id = 1, po_next_bgid = 1, po_post_progress_spin_iters = 0\<rparr>"

text \<open>The completion it reports, at each turn, fits the sample connection, and whatever the connection becomes.\<close>

definition busy_cqe :: Completion where
  "busy_cqe = \<lparr>co_user_data = ud_new OpRecv 0, co_result = 8, co_flags = 0x10003\<rparr>"

lemma busy_facts:
  "fst (drain_completions busy_uring k) = [busy_cqe]" "uring_sane busy_uring" "worlds_ok (\<lambda>_. sample_world)"
  "buffer_id (io_flags busy_uring) busy_cqe = Some 1" "all_fit (io_flags busy_uring) [busy_cqe] (po_conns busy_pool)"
proof -
  show "fst (drain_completions busy_uring k) = [busy_cqe]"
    by (simp add: drain_completions_def busy_uring_def busy_cqe_def Let_def ud_from_raw_def ud_new_def)
  show "uring_sane busy_uring" using sample_conn_facts(2) by (simp add: uring_sane_def busy_uring_def)
  show "worlds_ok (\<lambda>_. sample_world)" using sample_conn_facts by (simp add: worlds_ok_def)
  show b: "buffer_id (io_flags busy_uring) busy_cqe = Some 1"
    by (simp add: buffer_id_def busy_uring_def busy_cqe_def sample_uring_def drop_bit_eq_div)
  then have "cqe_ok (io_flags busy_uring) busy_cqe sample_conn" by (simp add: cqe_ok_def sample_conn_def with_buf_ring_def)
  then show "all_fit (io_flags busy_uring) [busy_cqe] (po_conns busy_pool)"
    using sample_conn_facts(4) by (simp add: all_fit_def fits_def busy_pool_def)
qed

lemma busy_spin:
  assumes turn: "\<And>st st' r. all_fit (io_flags busy_uring) [busy_cqe] (fst (fst st)) \<Longrightarrow> taken_fit busy_uring (fst st) \<Longrightarrow> once st = (st', r) \<Longrightarrow>
      all_fit (io_flags busy_uring) [busy_cqe] (fst (fst st')) \<and> r \<noteq> Panic"
  shows "spin_fits (\<lambda>_. sample_world) busy_uring once busy_pool"
proof -
  have taken: "taken_fit busy_uring rd" if "all_fit (io_flags busy_uring) [busy_cqe] (fst rd)" for rd :: "(bytes \<times> bytes, u64 list, Sqe list) Round"
    using that by (simp add: taken_fit_def busy_facts(1) all_fit_def fits_def)
  obtain slots sh q where s: "start_round (\<lambda>_. sample_world) busy_uring busy_pool = ((slots, sh), q)" by (metis surj_pair)
  have all: "drains_to once st0 st \<Longrightarrow> all_fit (io_flags busy_uring) [busy_cqe] (fst (fst st0)) \<Longrightarrow> all_fit (io_flags busy_uring) [busy_cqe] (fst (fst st))" for st0 st
  proof (induction rule: drains_to.induct)
    case (again st st1 st2 r)
    then show ?case using turn taken by blast
  qed simp
  have "all_fit (io_flags busy_uring) [busy_cqe] slots" using start_ready [OF busy_facts(2,3,5) s] by simp
  then show ?thesis using taken all by (simp add: spin_fits_def s)
qed

theorem pool_pumps_safe_witness:
  "buffer_id (io_flags busy_uring) busy_cqe = Some 1 \<and> fst (drain_completions busy_uring []) = [busy_cqe] \<and>
   round_safe (pump_impl (\<lambda>_. sample_world) busy_uring 1 busy_pool) \<and> round_safe (pump_data_impl (\<lambda>_. sample_world) busy_uring 1 busy_pool) \<and>
   round_safe (pump_spin_impl (\<lambda>_. sample_world) busy_uring 5 busy_pool) \<and> round_safe (pump_data_spin_impl (\<lambda>_. sample_world) busy_uring 5 busy_pool)"
proof -
  have "set (round_completions (\<lambda>_. sample_world) busy_uring 1 busy_pool) \<subseteq> {busy_cqe}"
    using busy_facts(1) by (auto simp: round_completions_def split: prod.splits result.splits)
  then have "pump_fits (\<lambda>_. sample_world) busy_uring 1 busy_pool"
    using busy_facts(5) by (auto simp: pump_fits_def all_fit_def fits_def)
  moreover have "spin_fits (\<lambda>_. sample_world) busy_uring (drain_once (\<lambda>_. sample_world) busy_uring) busy_pool"
    by (rule busy_spin) (rule drain_once_turn(2) [OF busy_facts(2,3)])
  moreover have "spin_fits (\<lambda>_. sample_world) busy_uring (drain_conn_completions_data (\<lambda>_. sample_world) busy_uring) busy_pool"
    unfolding drain_conn_completions_data_def by (rule busy_spin) (rule events.drain_data_turn [OF busy_facts(2,3)])
  moreover have "\<forall>c. Some c \<in> set (po_conns busy_pool) \<longrightarrow> conn_wf c" using busy_facts(5) by (simp add: all_fit_def fits_def)
  ultimately show ?thesis
    using pool_pumps_safe [OF busy_facts(2,3), of busy_pool 1 5] busy_facts(1,4) by blast
qed

subsection \<open>Calls\<close>

definition pool_typed :: "('t, 'h, 'k) Pool \<Rightarrow> bool" where
  "pool_typed p \<longleftrightarrow> (\<forall>c. Some c \<in> set (po_conns p) \<longrightarrow> conn_wf c)"

lemma typed_update:
  assumes "pool_typed p" and "\<And>c. slot = Some c \<Longrightarrow> conn_wf c"
  shows "pool_typed (p\<lparr>po_conns := (po_conns p)[i := slot]\<rparr>)"
proof -
  have "Some x = slot \<or> Some x \<in> set (po_conns p)" if "Some x \<in> set ((po_conns p)[i := slot])" for x
    using that set_update_subset_insert [of "po_conns p" i slot] by blast
  then show ?thesis using assms unfolding pool_typed_def by auto
qed

lemma typed_frames [simp]:
  "pool_typed (p\<lparr>po_proactor := k\<rparr>) = pool_typed p" "pool_typed (p\<lparr>po_active_count := n\<rparr>) = pool_typed p"
  "pool_typed (release_bgid b p) = pool_typed p" "pool_typed (release_reserved_identity i p) = pool_typed p"
  "pool_typed (recycle_conn_slot cid p) = pool_typed p"
  by (simp_all add: pool_typed_def release_bgid_def release_reserved_identity_def recycle_conn_slot_def Let_def)

lemma conn_new_wf: "conn_new w assigned addr = Ok c \<Longrightarrow> conn_wf c"
proof -
  assume n: "conn_new w assigned addr = Ok c"
  obtain cfg where ws: "new_client (wd_env w) 0 cfg = Ok (cs_ws c)"
    and f: "cs_buf_ring c = None" "cs_state c = StInit" "cs_send_buf c = []" "cs_send_head c = 0" "cs_tls_pending_out c = []"
    using n unfolding conn_new_def Let_def by (auto simp: and_then_eq_Ok_iff split: option.splits)
  have "as_slice (ws_recv_buf (cs_ws c)) = []" using new_client_Ok [OF ws] by (auto simp: with_capacity_def as_slice_def)
  then show ?thesis using f new_client_wf [OF ws] by (simp add: conn_wf_def)
qed

lemma submit_connect_wf: "conn_wf c \<Longrightarrow> cs_state c = StInit \<Longrightarrow> conn_submit_connect io (c, k) = ((d, k'), r) \<Longrightarrow> conn_wf d"
  by (auto simp: conn_submit_connect_def conn_wf_def split: option.splits result.splits prod.splits)

lemma reserve_typed: "reserve_runtime_identity p = (p', r) \<Longrightarrow> pool_typed p' = pool_typed p"
  by (auto simp: reserve_runtime_identity_def reserve_bgid_def reserve_conn_id_def release_bgid_def pool_typed_def Let_def split: if_splits)

lemma connect_typed:
  assumes typed: "pool_typed p"
  shows "pool_typed (fst (submit_connect_to ws io cfg addr p))"
proof -
  obtain p1 q where b: "reserve_runtime_identity p = (p1, q)" by force
  have t1: "pool_typed p1" using reserve_typed [OF b] typed by simp
  show ?thesis
  proof (cases q)
    case (Ok i)
    show ?thesis
    proof (cases "conn_new (ws (id_token i)) \<lparr>ac_user = cfg, ac_identity = i\<rparr> addr")
      case 2: (Ok conn)
      obtain d k s where c: "conn_submit_connect io (conn, po_proactor p1) = ((d, k), s)" by (metis surj_pair)
      have "cs_state conn = StInit" using 2 unfolding conn_new_def Let_def by (auto simp: and_then_eq_Ok_iff split: option.splits)
      then have "conn_wf d" using submit_connect_wf [OF conn_new_wf [OF 2] _ c] by simp
      then have "pool_typed (p1\<lparr>po_proactor := k, po_conns := (po_conns p1)[unat (id_conn_id i) := Some d]\<rparr>)"
        using typed_update [of "p1\<lparr>po_proactor := k\<rparr>" "Some d" "unat (id_conn_id i)"] t1 by simp
      then show ?thesis using b Ok 2 c t1 by (cases s) (simp_all add: submit_connect_to_def Let_def)
    qed (use b Ok t1 in \<open>simp_all add: submit_connect_to_def\<close>)
  qed (use b t1 in \<open>simp_all add: submit_connect_to_def\<close>)
qed

lemma remove_typed:
  assumes typed: "pool_typed p"
  shows "pool_typed (fst (remove_conn io h p))"
proof -
  obtain p1 q where r: "retire_slot io (as_u32 h) (Some (handle_generation h)) p = (p1, q)" by force
  have t: "pool_typed (p\<lparr>po_conns := (po_conns p)[unat (as_u32 h) := None]\<rparr>)" by (rule typed_update [OF typed]) simp
  have "pool_typed p1"
  proof (cases "slot_at (po_conns p) (as_u32 h)")
    case (Some dead)
    obtain k x where "retire_ring io dead (po_proactor p) = (k, x :: (ConnectionError, bool) result)" by force
    then show ?thesis using r typed t Some by (cases x) (auto simp: retire_slot_def Let_def split: if_splits)
  qed (use r typed in \<open>simp add: retire_slot_def\<close>)
  then show ?thesis using r by (cases q) (simp_all add: remove_conn_def)
qed

lemma conn_mut_wf: "conn_mut h p = Ok c \<Longrightarrow> pool_typed p \<Longrightarrow> conn_wf c"
  by (auto simp: conn_mut_def slot_at_def pool_typed_def split: option.splits if_splits) (metis nth_mem)

lemma send_typed:
  assumes typed: "pool_typed p" and w: "worlds_ok ws"
    and send: "\<And>env c. send env c = client_send env c m" and size: "send_size m < 2 ^ 63"
  shows "pool_typed (fst (send_with ws send h p)) \<and> snd (send_with ws send h p) \<noteq> Panic"
proof (cases "conn_mut h p")
  case (Ok c)
  note wf = conn_mut_wf [OF Ok typed]
  obtain client r where s: "client_send (wd_env (ws (as_u64 h))) (cs_ws c) m = (client, r)" by force
  have cl: "ws_wf client" "r \<noteq> Panic" using send_ok_send [OF _ s size] wf w by (auto simp: send_ok_def conn_wf_def worlds_ok_def)
  show ?thesis
  proof (cases "cs_state c = StOpen")
    case True
    then have "conn_wf (c\<lparr>cs_ws := client\<rparr>)" using wf cl by (auto simp: conn_wf_def split: option.splits)
    then have "pool_typed (put_conn h (c\<lparr>cs_ws := client\<rparr>) p)" unfolding put_conn_def by (intro typed_update [OF typed]) simp
    then show ?thesis using Ok True s cl by (simp add: send_with_def assert_open_def send)
  qed (use Ok typed in \<open>simp add: send_with_def assert_open_def\<close>)
qed (use typed in \<open>auto simp: send_with_def conn_mut_def split: option.splits if_splits\<close>)

lemma close_typed:
  assumes typed: "pool_typed p" and w: "worlds_ok ws"
  shows "pool_typed (fst (initiate_close ws h code reason p)) \<and> snd (initiate_close ws h code reason p) \<noteq> Panic"
proof (cases "conn_mut h p")
  case (Ok c)
  note wf = conn_mut_wf [OF Ok typed]
  obtain client r where s: "send_close (wd_env (ws (as_u64 h))) (cs_ws c) code reason = (client, r)" by force
  have cl: "ws_wf client" "r \<noteq> Panic" using send_ok_close [OF _ s] wf w by (auto simp: send_ok_def conn_wf_def worlds_ok_def)
  have "client = cs_ws c" if "cs_buf_ring c = None" using that wf s by (auto simp: conn_wf_def send_close_def)
  then have wf': "conn_wf (c\<lparr>cs_ws := client\<rparr>)" using wf cl by (auto simp: conn_wf_def split: option.splits)
  then have "conn_wf (c\<lparr>cs_ws := client, cs_state := StClosing\<rparr>)" if "cs_state c = StOpen"
    using that by (auto simp: conn_wf_def split: option.splits)
  then have put: "pool_typed (put_conn h (c\<lparr>cs_ws := client\<rparr>) p)"
    "cs_state c = StOpen \<Longrightarrow> pool_typed (put_conn h (c\<lparr>cs_ws := client, cs_state := StClosing\<rparr>) p)"
    unfolding put_conn_def using wf' by (auto intro!: typed_update [OF typed])
  show ?thesis using Ok s put cl typed by (cases r) (auto simp: initiate_close_def Let_def)
qed (use typed in \<open>auto simp: initiate_close_def conn_mut_def split: option.splits if_splits\<close>)

lemma reset_wf: "conn_wf (reset_conn w c) = conn_wf c"
  by (cases "cs_buf_ring c") (simp_all add: conn_wf_def reset_conn_def)

lemma scrape_typed:
  assumes "pool_typed p"
  shows "pool_typed (fst (fst (write_prometheus_metrics_and_reset_interval ws rd wr (p, text))))"
proof -
  obtain q out r where w: "write_prometheus_metrics_and_reset_interval ws rd wr (p, text) = ((q, out), r)" by (metis surj_pair)
  obtain n where "q = p\<lparr>po_conns := reset_slots ws n (po_conns p)\<rparr>" using scrape_cases(2) [OF w] by blast
  moreover have "conn_wf c" if "Some c \<in> set (reset_slots ws n (po_conns p))" for c
    using that assms [unfolded pool_typed_def]
    by (auto simp: reset_slots_def reset_wf eq_commute [of "Some _" "map_option _ _"] dest!: in_set_takeD in_set_dropD)
  ultimately show ?thesis using w by (simp add: pool_typed_def)
qed

text \<open>C24. Every connection of a pool is well-formed after a call if it was before: connecting puts only well-formed
  connections into the table, removing and reconnecting keep the others, the sends and the close
  handshake keep theirs and never panic, for every handle, payload, code and reason, and scrapes keep all.\<close>

theorem pool_calls_typed:
  assumes "pool_typed p" and "worlds_ok ws" and "length payload < 2 ^ 63"
  shows "(\<forall>s \<in> {pool_send_text ws h payload, pool_send_binary ws h payload, pool_send_ping ws h payload, pool_send_pong ws h payload}.
      pool_typed (fst (s p)) \<and> snd (s p) \<noteq> Panic) \<and>
    pool_typed (fst (initiate_close ws h code reason p)) \<and> snd (initiate_close ws h code reason p) \<noteq> Panic \<and>
    pool_typed (fst (submit_connect_to ws io cfg addr p)) \<and> pool_typed (fst (remove_conn io h p)) \<and>
    pool_typed (fst (submit_reconnect_to ws io h cfg addr p)) \<and>
    pool_typed (fst (fst (write_prometheus_metrics_and_reset_interval ws rd wr (p, text))))"
proof -
  have "pool_typed (fst (fst (write_prometheus_metrics_and_reset_interval ws rd wr (p, text))))"
    by (rule scrape_typed [OF assms(1)])
  moreover note s = send_typed [OF assms(1,2)]
  moreover have "pool_typed (fst (submit_reconnect_to ws io h cfg addr p))"
    using remove_typed [OF assms(1), of io h] connect_typed
    by (cases "remove_conn io h p"; cases "snd (remove_conn io h p)") (auto simp: submit_reconnect_to_def)
  ultimately show ?thesis
    using s [of "\<lambda>env c. send_text env c payload" "SendText payload"] s [of "\<lambda>env c. send_binary env c payload" "SendBinary payload"]
      s [of "\<lambda>env c. send_ping env c payload" "SendPing payload"] s [of "\<lambda>env c. send_pong env c payload" "SendPong payload"]
      close_typed [OF assms(1,2)] connect_typed [OF assms(1)] remove_typed [OF assms(1)] assms(3)
    by (simp add: pool_send_text_def pool_send_binary_def pool_send_ping_def pool_send_pong_def)
qed

lemma busy_typed: "pool_typed busy_pool" "worlds_ok (\<lambda>_. sample_world)"
  using sample_conn_facts by (simp_all add: pool_typed_def busy_pool_def worlds_ok_def)

theorem pool_calls_typed_witness:
  "pool_state (ConnHandle 0) busy_pool = Some StOpen \<and>
   pool_typed (fst (pool_send_text (\<lambda>_. sample_world) (ConnHandle 0) [0x68] busy_pool)) \<and>
   snd (pool_send_text (\<lambda>_. sample_world) (ConnHandle 0) [0x68] busy_pool) \<noteq> Panic"
proof -
  have "as_u32 (ConnHandle 0) = 0" by (simp add: as_u32_def token_conn_id_def)
  then have "pool_state (ConnHandle 0) busy_pool = Some StOpen"
    using sample_tokens(1) by (simp add: pool_state_def slot_at_def busy_pool_def) (simp add: sample_conn_def)
  then show ?thesis using pool_calls_typed [OF busy_typed, of "[0x68]" "ConnHandle 0" _ _ _ _ _ _ string_writer] by simp
qed

subsection \<open>Late completions\<close>

text \<open>C39. What a late send completion does to a connection that was closed while its client still was open, as after
  the peer ended the stream: it is routed to the connection, its unsent bytes are dropped, and the
  connection is open again, without being counted as active again and without an error.\<close>

theorem late_completion_revives:
  assumes "conn_for_completion slots cqe = Some (i, c)" and "ud_kind (co_user_data cqe) = Some OpSend"
    and "cs_state c = StClosed" and "ws_state (cs_ws c) = Open"
  shows "route_completions ws io [cqe] ((slots, sh), out) =
    (((slots[i := Some (c\<lparr>cs_send_inflight := False, cs_send_buf := [], cs_send_head := 0, cs_state := StOpen\<rparr>)], sh), out), Ok ())"
  using assms
  by (simp add: at_conn_def handle_completion_def discard_completion_after_closed_def finish_conn_result_def sync_ws_open_state_def
      sync_ws_close_state_def account_closed_transition_def conn_is_active_def Let_def)

theorem late_completion_revives_witness:
  "let cqe = \<lparr>co_user_data = ud_new OpSend 0, co_result = 2, co_flags = 0\<rparr>; c = sample_conn\<lparr>cs_state := StClosed\<rparr> in
   \<exists>d. fst (fst (fst (route_completions (\<lambda>_. sample_world) sample_uring [cqe] (([Some c], sample_shared), [] :: (ConnHandle \<times> unit) list))))
     = [Some d] \<and> cs_state d = StOpen"
proof -
  let ?cqe = "\<lparr>co_user_data = ud_new OpSend 0, co_result = 2, co_flags = 0\<rparr>" and ?c = "sample_conn\<lparr>cs_state := StClosed\<rparr>"
  have "token_conn_id 0 = 0" by (simp add: token_conn_id_def)
  moreover have "conn_token ?c = 0" using sample_tokens(1) by (simp add: conn_token_def)
  ultimately have f: "conn_for_completion [Some ?c] ?cqe = Some (0, ?c)"
    by (simp add: conn_for_completion_def completion_token_def ud_token_new slot_at_def)
  have "ws_state (cs_ws ?c) = Open" by (simp add: sample_conn_def sample_client_facts)
  from late_completion_revives [OF f _ _ this, of "\<lambda>_. sample_world" sample_uring sample_shared "[] :: (ConnHandle \<times> unit) list"] show ?thesis
    by (simp add: Let_def del: route_completions.simps)
qed

end
