(* ===== verification/Conn_Live.thy ===== *)
theory Conn_Live
  imports Conn_Stream
begin

text \<open>
  Progress of a plain connection: as long as the kernel takes something of every send, all that is queued
  goes out, in order.
\<close>

text \<open>Sending against a kernel that takes up to the given number of bytes each time: submit, and if a send was
  pushed to the submission queue, complete it with its own user data.  The bytes taken, which are those of
  the pushed entry, are collected.\<close>

definition send_round ::
  "('t, 'h) World \<Rightarrow> 'k Uring \<Rightarrow> ('k \<Rightarrow> Sqe list) \<Rightarrow> nat \<Rightarrow> ('t, 'h, 'k) Conn \<times> bytes \<Rightarrow> ('t, 'h, 'k) Conn \<times> bytes" where
  "send_round w io sq n st =
     (case st of ((c, k), out) \<Rightarrow>
        case fst (try_submit_send w io (c, k)) of (d, k') \<Rightarrow>
          (case handed sq (cs_socket c) k k' of
             [] \<Rightarrow> ((d, k'), out)
           | (ud, data) # _ \<Rightarrow>
               let m = min n (length data); cqe = \<lparr>co_user_data = ud, co_result = word_of_nat m, co_flags = 0\<rparr>
               in (fst (handle_completion w io cqe (d, k')), out @ take m data)))"

definition send_rounds ::
  "('t, 'h) World \<Rightarrow> 'k Uring \<Rightarrow> ('k \<Rightarrow> Sqe list) \<Rightarrow> nat list \<Rightarrow> ('t, 'h, 'k) Conn \<times> bytes \<Rightarrow> ('t, 'h, 'k) Conn \<times> bytes" where
  "send_rounds w io sq = fold (send_round w io sq)"

text \<open>A completion that takes \<open>m\<close> bytes of the send in flight.\<close>

lemma complete_plain:
  assumes wf: "conn_wf c" "cs_tls c = None" "cs_state c \<notin> {StInit, StConnecting, StClosed}" "pending_tx (cs_ws c) = []"
    and res: "to_result cqe = Ok m" "ud_kind (co_user_data cqe) = Some OpSend"
  shows "\<exists>d. fst (handle_completion w io cqe (c, k)) = (d, k) \<and> sending d \<and> unsent d = drop m (staged c)"
proof -
  obtain d q where s: "on_send_cqe cqe c = (d, q)" by force
  have d: "cs_tls d = None" "cs_ws d = cs_ws c" "cs_state d = cs_state c" "\<not> cs_send_inflight d" "staged d = drop m (staged c)"
    using s res(1) wf(2) by (auto simp: on_send_cqe_def staged_def Let_def add.commute split: if_splits)
  have "sending d" "unsent d = drop m (staged c)"
    using d wf(3,4) send_keeps [OF wf(1) s] by (simp_all add: sending_def unsent_def)
  moreover have "fst (handle_completion w io cqe (c, k)) = (d, k)" using wf(3) s res(2) by (simp add: handle_completion_def)
  ultimately show ?thesis by blast
qed

lemma send_rounds_drain:
  assumes push: "\<And>e k. io_push io e k \<noteq> None" and rec: "records io sq"
  shows "sending c \<Longrightarrow> \<forall>n \<in> set ns. 1 \<le> n \<and> n < 2 ^ 31 \<Longrightarrow> length (unsent c) \<le> length ns \<Longrightarrow>
    \<exists>d k'. send_rounds w io sq ns ((c, k), out) = ((d, k'), out @ unsent c) \<and> unsent d = [] \<and> sending d"
proof (induction ns arbitrary: c k out)
  case (Cons n ns)
  obtain c1 k1 where f: "try_submit_send w io (c, k) = ((c1, k1), Ok ())" and c1: "conn_wf c1" "cs_tls c1 = None" "cs_state c1 = cs_state c"
    "staged c1 = unsent c" "pending_tx (cs_ws c1) = []" "cs_send_inflight c1 = (unsent c \<noteq> [])" "handed sq (cs_socket c) k k1 = in_flight c1"
    using flush_plain [OF Cons.prems(1) push rec] by metis
  have up: "cs_state c1 \<notin> {StInit, StConnecting, StClosed}" using Cons.prems(1) c1(3) by (simp add: sending_def)
  show ?case
  proof (cases "unsent c = []")
    case True
    have "sending c1" "unsent c1 = []" using c1 True up by (simp_all add: sending_def unsent_def)
    then show ?thesis using Cons.IH [of c1 k1 out] Cons.prems(2) True f c1(6,7) by (simp add: send_rounds_def send_round_def in_flight_def)
  next
    case False
    define data where "data = take (2 ^ 32 - 1) (unsent c)"
    define m where "m = min n (length data)"
    define cqe where "cqe = \<lparr>co_user_data = ud_new OpSend (conn_token c1), co_result = word_of_nat m :: 32 word, co_flags = 0\<rparr>"
    have m: "1 \<le> m" "m < 2 ^ 31" "m \<le> length (unsent c)" using Cons.prems(2) False by (auto simp: m_def data_def Suc_le_eq)
    have "to_result cqe = Ok m" using to_result_small [OF m(2)] by (simp add: cqe_def)
    then obtain d where d: "fst (handle_completion w io cqe (c1, k1)) = (d, k1)" "sending d" "unsent d = drop m (unsent c)"
      using complete_plain [OF c1(1,2) up c1(5), of cqe m w io k1] c1(4) by (auto simp: cqe_def)
    have "handed sq (cs_socket c) k k1 = [(ud_new OpSend (conn_token c1), data)]"
      using c1(4,6,7) False by (simp add: in_flight_def data_def)
    moreover have "take m data = take m (unsent c)" using m by (simp add: data_def m_def)
    ultimately have step: "send_rounds w io sq (n # ns) ((c, k), out) = send_rounds w io sq ns ((d, k1), out @ take m (unsent c))"
      using f d(1) by (simp add: send_rounds_def send_round_def Let_def m_def cqe_def)
    have "length (unsent d) \<le> length ns" using d(3) m Cons.prems(3) by simp
    from Cons.IH [OF d(2) _ this, of k1 "out @ take m (unsent c)"] show ?thesis
      using step Cons.prems(2) d(3) by simp
  qed
qed (simp add: send_rounds_def)

text \<open>C14. Everything queued is sent: on a plain connected connection with a free send slot and a submission queue
  that takes every entry, however few bytes of the pushed sends the kernel takes at a time as long as it
  takes at least one, after at most as many sends as there are unsent bytes the kernel has taken exactly
  those bytes, in order, and nothing is left in the client or in the staging buffer.\<close>

theorem queue_drains:
  assumes "conn_wf c" and "cs_tls c = None" and "cs_state c \<notin> {StInit, StConnecting, StClosed}" and "\<not> cs_send_inflight c"
    and "\<forall>e k. io_push io e k \<noteq> None" and "records io sq" and "\<forall>n \<in> set ns. 1 \<le> n \<and> n < 2 ^ 31"
    and "length (drop (cs_send_head c) (cs_send_buf c) @ pending_tx (cs_ws c)) \<le> length ns"
  shows "\<exists>d k'. send_rounds w io sq ns ((c, k), []) = ((d, k'), drop (cs_send_head c) (cs_send_buf c) @ pending_tx (cs_ws c)) \<and>
    drop (cs_send_head d) (cs_send_buf d) @ pending_tx (cs_ws d) = []"
proof -
  have "sending c" using assms(1-4) by (simp add: sending_def)
  then show ?thesis
    using send_rounds_drain [of io sq c ns w k "[]"] assms(5-8) unfolding unsent_def staged_def by auto
qed

theorem queue_drains_witness:
  "let c = sample_conn\<lparr>cs_send_inflight := False\<rparr> in
   \<exists>d k'. drop (cs_send_head c) (cs_send_buf c) @ pending_tx (cs_ws c) = [2, 3] \<and>
     send_rounds sample_world sample_uring (\<lambda>k. k) [1, 1] ((c, []), []) = ((d, k'), [2, 3])"
proof -
  let ?c = "sample_conn\<lparr>cs_send_inflight := False\<rparr>"
  have q: "drop (cs_send_head ?c) (cs_send_buf ?c) @ pending_tx (cs_ws ?c) = [2, 3]"
    by (simp add: sample_conn_def sample_client_def pending_tx_def)
  have wf: "conn_wf ?c" using sample_conn_facts(4) by (simp add: conn_wf_def split: option.splits)
  have c: "cs_tls ?c = None" "cs_state ?c \<notin> {StInit, StConnecting, StClosed}" "\<not> cs_send_inflight ?c" by (simp_all add: sample_conn_def)
  have push: "\<forall>e k. io_push sample_uring e k \<noteq> None" using sample_push by blast
  have "\<exists>d k'. send_rounds sample_world sample_uring (\<lambda>k. k) [1, 1] ((?c, []), []) = ((d, k'), [2, 3])"
    using queue_drains [OF wf c push sample_records, of "[1, 1]" sample_world "[]"] unfolding q by auto
  then show ?thesis using q unfolding Let_def by blast
qed

end
