(* ===== verification/Affinity.thy ===== *)
theory Affinity
  imports Socket
begin

text \<open>
  Pinning the thread to a CPU (\<^verbatim>\<open>proactor/affinity.rs\<close>).  The CPU sets of the C library and the system call are the
  parameter \<open>Sched\<close>: the size of a set, the zeroed set, the macros, and what \<^verbatim>\<open>sched_setaffinity\<close> for the
  current thread returns with the \<^verbatim>\<open>errno\<close> it leaves.
\<close>

record 'c Sched =
  sc_CPU_SETSIZE :: c_int
  sc_zeroed :: 'c
  sc_CPU_SET :: "nat \<Rightarrow> 'c \<Rightarrow> 'c"
  sc_CPU_ISSET :: "nat \<Rightarrow> 'c \<Rightarrow> bool"
  sc_setaffinity :: "'c \<Rightarrow> c_int \<times> c_int"

datatype AffinityError = OutOfRange nat nat | SetFailed nat IoError

text \<open>\<^verbatim>\<open>CPU_SETSIZE as usize\<close>\<close>

definition cpu_count :: "'c Sched \<Rightarrow> nat" where
  "cpu_count sc = unat (scast (sc_CPU_SETSIZE sc) :: u64)"

definition pin_current_thread_to :: "'c Sched \<Rightarrow> nat \<Rightarrow> (AffinityError, unit) result" where
  "pin_current_thread_to sc cpu =
     (let available = cpu_count sc in
      if cpu \<ge> available then Err (OutOfRange cpu available)
      else
        let set = sc_CPU_SET sc cpu (sc_zeroed sc); (rc, errno) = sc_setaffinity sc set
        in if rc = 0 then Ok () else Err (SetFailed cpu (OsError (sint errno))))"

definition unpin_current_thread :: "'c Sched \<Rightarrow> (AffinityError, unit) result" where
  "unpin_current_thread sc =
     (let set = fold (sc_CPU_SET sc) [0..<cpu_count sc] (sc_zeroed sc); (rc, errno) = sc_setaffinity sc set
      in if rc = 0 then Ok () else Err (SetFailed (2 ^ 64 - 1) (OsError (sint errno))))"

text \<open>What the C library says of its macros.\<close>

definition cpu_sets_lawful :: "'c Sched \<Rightarrow> bool" where
  "cpu_sets_lawful sc \<longleftrightarrow>
     (\<forall>c < cpu_count sc. \<not> sc_CPU_ISSET sc c (sc_zeroed sc) \<and>
        (\<forall>cpu < cpu_count sc. \<forall>s. sc_CPU_ISSET sc c (sc_CPU_SET sc cpu s) \<longleftrightarrow> c = cpu \<or> sc_CPU_ISSET sc c s))"

definition members :: "'c Sched \<Rightarrow> 'c \<Rightarrow> nat set" where
  "members sc s = {c. c < cpu_count sc \<and> sc_CPU_ISSET sc c s}"

lemma members_zeroed: "cpu_sets_lawful sc \<Longrightarrow> members sc (sc_zeroed sc) = {}"
  by (auto simp: cpu_sets_lawful_def members_def)

lemma members_set: "cpu_sets_lawful sc \<Longrightarrow> cpu < cpu_count sc \<Longrightarrow> members sc (sc_CPU_SET sc cpu s) = insert cpu (members sc s)"
  by (auto simp: cpu_sets_lawful_def members_def)

lemma members_fold:
  "cpu_sets_lawful sc \<Longrightarrow> \<forall>c \<in> set cs. c < cpu_count sc \<Longrightarrow> members sc (fold (sc_CPU_SET sc) cs s) = set cs \<union> members sc s"
  by (induction cs arbitrary: s) (auto simp: members_set)

text \<open>The system is asked for exactly the CPU, respectively for all of them; a CPU that no set can hold is refused
  without asking.\<close>

lemma pin_asks_for_cpu:
  assumes "cpu_sets_lawful sc"
  shows "(cpu \<ge> cpu_count sc \<and> pin_current_thread_to sc cpu = Err (OutOfRange cpu (cpu_count sc))) \<or>
    (\<exists>s. members sc s = {cpu} \<and>
      pin_current_thread_to sc cpu = (if fst (sc_setaffinity sc s) = 0 then Ok () else Err (SetFailed cpu (OsError (sint (snd (sc_setaffinity sc s)))))))"
  using members_set [OF assms, of cpu "sc_zeroed sc"] members_zeroed [OF assms]
  by (cases "cpu < cpu_count sc") (auto simp: pin_current_thread_to_def Let_def case_prod_beta)

lemma unpin_asks_for_all:
  assumes "cpu_sets_lawful sc"
  shows "\<exists>s. members sc s = {..<cpu_count sc} \<and>
    unpin_current_thread sc = (if fst (sc_setaffinity sc s) = 0 then Ok () else Err (SetFailed (2 ^ 64 - 1) (OsError (sint (snd (sc_setaffinity sc s))))))"
  using members_fold [OF assms, of "[0..<cpu_count sc]" "sc_zeroed sc"] members_zeroed [OF assms]
  by (intro exI [of _ "fold (sc_CPU_SET sc) [0..<cpu_count sc] (sc_zeroed sc)"])
    (auto simp: unpin_current_thread_def Let_def case_prod_beta)

end
