(* ===== verification/Ws_Messages.thy ===== *)
theory Ws_Messages
  imports Ws_Deliver
begin

text \<open>
  What the receive side of \<^verbatim>\<open>ws/client.rs\<close> delivers, stated over the bytes the server sends: a reference
  decoder cuts the stream into complete frames and assembles the frames into messages, with no state
  of its own but the message under way; \<open>expected\<close> is what a client in the middle of its work still
  owes for the bytes to come.  Every operation that hands out events hands out exactly those.
\<close>

subsection \<open>The reference decoder\<close>

text \<open>The complete frames at the front of a byte stream.\<close>

function server_frames :: "bytes \<Rightarrow> (FrameHeader \<times> bytes) list" where
  "server_frames bs =
     (case parse_header bs of
        Ok (Some (h, n)) \<Rightarrow>
          let len = unat (h_payload_len h)
          in if h_mask h \<noteq> None \<or> length bs < n + len then []
             else (h, take len (drop n bs)) # server_frames (drop (n + len) bs)
      | _ \<Rightarrow> [])"
  by pat_completeness auto

lemma parse_header_pos: "parse_header bs = Ok (Some (h, n)) \<Longrightarrow> 2 \<le> n \<and> n \<le> length bs"
  using parse_header_sound [of bs h n] length_wire_header_bounds(1) by auto

termination server_frames
  by (relation "measure length") (auto dest!: parse_header_pos)

declare server_frames.simps [simp del]

type_synonym Message = "(OpCode \<times> bytes) option"

text \<open>Whether the next frame fits the message under way, and the message it then belongs to.\<close>

definition accept_frame :: "WsConfig \<Rightarrow> Message \<Rightarrow> FrameHeader \<Rightarrow> Message option" where
  "accept_frame cfg m h =
     (let fits = (\<lambda>part. length part + unat (h_payload_len h) \<le> cf_max_message_size cfg)
      in if h_payload_len h > cf_max_frame_payload cfg then None
         else if is_control (h_opcode h) then Some m
         else
           (case m of
              None \<Rightarrow> if h_opcode h \<noteq> Continuation \<and> fits [] then Some (Some (h_opcode h, [])) else None
            | Some (op, part) \<Rightarrow> if h_opcode h = Continuation \<and> fits part then Some m else None))"

text \<open>What a complete frame yields: an event or none, and the message then under way.\<close>

fun close_event :: "bytes \<Rightarrow> WsEvent option" where
  "close_event p =
     (case parse_close_payload p of
        Ok (Some (code, reason)) \<Rightarrow> Some (EvClose code reason)
      | Ok None \<Rightarrow> Some (EvClose 1005 [])
      | _ \<Rightarrow> None)"

definition message_event :: "WsConfig \<Rightarrow> OpCode \<Rightarrow> bytes \<Rightarrow> WsEvent option" where
  "message_event cfg op body =
     (if op = Text then (if cf_assume_text_utf8 cfg \<or> utf8_valid body then Some (EvText body) else None)
      else Some (EvBinary body))"

definition finish_frame :: "WsConfig \<Rightarrow> Message \<Rightarrow> OpCode \<Rightarrow> bool \<Rightarrow> bytes \<Rightarrow> (WsEvent option \<times> Message) option" where
  "finish_frame cfg m op fin p =
     (if op = Ping then Some (Some (EvPing p), m)
      else if op = Pong then Some (Some (EvPong p), m)
      else if op = Close then map_option (\<lambda>e. (Some e, m)) (close_event p)
      else
        (case m of
           None \<Rightarrow> None
         | Some (mop, part) \<Rightarrow>
             if fin then map_option (\<lambda>e. (Some e, None)) (message_event cfg mop (part @ p))
             else Some (None, Some (mop, part @ p))))"

fun is_close_event :: "WsEvent \<Rightarrow> bool" where
  "is_close_event (EvClose _ _) = True"
| "is_close_event _ = False"

fun assemble :: "WsConfig \<Rightarrow> Message \<Rightarrow> (FrameHeader \<times> bytes) list \<Rightarrow> WsEvent list" where
  "assemble cfg m [] = []"
| "assemble cfg m ((h, p) # fs) =
     (case accept_frame cfg m h of
        None \<Rightarrow> []
      | Some m' \<Rightarrow>
          (case finish_frame cfg m' (h_opcode h) (h_fin h) p of
             None \<Rightarrow> []
           | Some (None, m2) \<Rightarrow> assemble cfg m2 fs
           | Some (Some e, m2) \<Rightarrow> e # (if is_close_event e then [] else assemble cfg m2 fs)))"

definition decode :: "WsConfig \<Rightarrow> Message \<Rightarrow> bytes \<Rightarrow> WsEvent list" where
  "decode cfg m bs = assemble cfg m (server_frames bs)"

definition follow :: "WsConfig \<Rightarrow> (WsEvent option \<times> Message) option \<Rightarrow> bytes \<Rightarrow> WsEvent list" where
  "follow cfg res rest =
     (case res of
        None \<Rightarrow> []
      | Some (None, m) \<Rightarrow> decode cfg m rest
      | Some (Some e, m) \<Rightarrow> e # (if is_close_event e then [] else decode cfg m rest))"

lemma decode_frame:
  assumes "parse_header bs = Ok (Some (h, n))" "h_mask h = None"
  shows "decode cfg m bs =
    (let len = unat (h_payload_len h)
     in case accept_frame cfg m h of
          None \<Rightarrow> []
        | Some m' \<Rightarrow>
            if length bs < n + len then []
            else follow cfg (finish_frame cfg m' (h_opcode h) (h_fin h) (take len (drop n bs))) (drop (n + len) bs))"
  using assms by (simp add: decode_def follow_def server_frames.simps [of bs] Let_def split: option.split)

lemma decode_stuck:
  "parse_header bs = Ok None \<Longrightarrow> decode cfg m bs = []" "parse_header bs = Err e \<Longrightarrow> decode cfg m bs = []"
  "parse_header bs = Ok (Some (h, n)) \<Longrightarrow> h_mask h \<noteq> None \<Longrightarrow> decode cfg m bs = []"
  by (simp_all add: decode_def server_frames.simps [of bs])

lemma decode_Nil [simp]: "decode cfg m [] = []"
  by (simp add: decode_stuck(1) parse_header_def)

subsection \<open>What a client still owes\<close>

definition message_of :: "WsClient \<Rightarrow> Message" where
  "message_of c = map_option (\<lambda>op. (op, ws_msg_buf c)) (ws_msg_opcode c)"

text \<open>The part of the current frame that is kept outside the message.\<close>

definition frame_part :: "WsClient \<Rightarrow> OpCode \<Rightarrow> bytes" where
  "frame_part c op = (if is_control op then ctl_payload c else [])"

definition expected :: "WsClient \<Rightarrow> bytes \<Rightarrow> WsEvent list" where
  "expected c bs =
     (let input = as_slice (ws_recv_buf c) @ bs
      in if ws_state c = Closed then []
         else
           (case ws_parser c of
              Payload r \<Rightarrow>
                (case ws_cur_opcode c of
                   None \<Rightarrow> []
                 | Some op \<Rightarrow>
                     if length input < r then []
                     else follow (ws_config c)
                            (finish_frame (ws_config c) (message_of c) op (ws_cur_fin c) (frame_part c op @ take r input))
                            (drop r input))
            | p \<Rightarrow> decode (ws_config c) (message_of c) (pending_header p @ input)))"

lemma expected_header:
  "ws_state c \<noteq> Closed \<Longrightarrow> (\<And>r. ws_parser c \<noteq> Payload r) \<Longrightarrow>
     expected c bs = decode (ws_config c) (message_of c) (pending_header (ws_parser c) @ as_slice (ws_recv_buf c) @ bs)"
  by (simp add: expected_def Let_def split: ParserState.split)

lemma expected_payload:
  "ws_state c \<noteq> Closed \<Longrightarrow> ws_parser c = Payload r \<Longrightarrow>
     expected c bs =
       (let input = as_slice (ws_recv_buf c) @ bs
        in case ws_cur_opcode c of
             None \<Rightarrow> []
           | Some op \<Rightarrow>
               if length input < r then []
               else follow (ws_config c)
                      (finish_frame (ws_config c) (message_of c) op (ws_cur_fin c) (frame_part c op @ take r input))
                      (drop r input))"
  by (simp add: expected_def Let_def)

text \<open>Only this much of a client matters.\<close>

lemma expected_same:
  assumes "ws_state d = Closed \<longleftrightarrow> ws_state c = Closed" "ws_config d = ws_config c" "ws_parser d = ws_parser c"
    "ws_cur_opcode d = ws_cur_opcode c" "ws_cur_fin d = ws_cur_fin c" "message_of d = message_of c" "ctl_payload d = ctl_payload c"
    "as_slice (ws_recv_buf d) @ bs = as_slice (ws_recv_buf c) @ bs'"
  shows "expected d bs = expected c bs'"
  unfolding expected_def frame_part_def assms ..

subsection \<open>One step of the frame machine\<close>

lemma decode_not_ready:
  assumes "header_ready bs = None"
  shows "decode cfg m bs = []"
proof (cases bs rule: parse_header_cases)
  case (complete h n)
  then have False
    using assms parse_header_size [of bs h n] parse_header_pos [of bs h n]
    by (auto simp: header_ready_None_iff header_need_def split: if_split_asm)
  then show ?thesis ..
qed (simp_all add: decode_stuck)

lemma decode_bad_header:
  assumes "header_ready bs = Some n" "header_verdict (take n bs) k = (q, Err e)"
  shows "decode cfg m (bs @ rest) = []"
proof -
  have "parse_header (take n bs) \<noteq> Ok None" "n \<le> length bs"
    using assms by (auto simp: header_verdict_def header_ready_Some_iff)
  then have eq: "parse_header (bs @ rest) = parse_header (take n bs)"
    using parse_header_stable [of "take n bs" "drop n bs @ rest"] by (simp add: append_assoc [symmetric] del: append_assoc)
  show ?thesis
    by (cases "take n bs" rule: parse_header_cases)
      (use assms(2) eq in \<open>auto simp: header_verdict_def decode_stuck split: if_split_asm\<close>)
qed

lemma pending_header_state [simp]: "pending_header (header_state pend) = pend"
  by (simp add: header_state_def)

lemma header_state_not_Payload [simp]: "header_state pend \<noteq> Payload r" "Payload r \<noteq> header_state pend"
  by (simp_all add: header_state_def)

lemma open_message_Err:
  "open_message env c op = (d, Err e) \<Longrightarrow> \<not> is_control op \<Longrightarrow> op = Continuation \<longleftrightarrow> ws_msg_opcode c = None"
  by (cases op) (auto simp: open_message_def elim!: try_st_cases split: if_split_asm)

lemma admit_frame_cases:
  assumes "admit_frame env c h = (d, r)" "rx_wf c"
  shows "r = Ok () \<Longrightarrow> length (ws_msg_buf c) + unat (h_payload_len h) \<le> cf_max_message_size (ws_config c) \<and>
      d = c\<lparr>ws_cur_opcode := Some (h_opcode h), ws_cur_fin := h_fin h\<rparr>"
    and "r = Err e \<Longrightarrow> \<not> length (ws_msg_buf c) + unat (h_payload_len h) \<le> cf_max_message_size (ws_config c)"
proof -
  have "min n USIZE_MAX > cf_max_message_size (ws_config c) \<longleftrightarrow> n > cf_max_message_size (ws_config c)" for n
    using assms(2) by (auto simp: rx_wf_def)
  note def = assms(1) [unfolded admit_frame_def Let_def this]
  show "r = Ok () \<Longrightarrow> length (ws_msg_buf c) + unat (h_payload_len h) \<le> cf_max_message_size (ws_config c) \<and>
      d = c\<lparr>ws_cur_opcode := Some (h_opcode h), ws_cur_fin := h_fin h\<rparr>"
    "r = Err e \<Longrightarrow> \<not> length (ws_msg_buf c) + unat (h_payload_len h) \<le> cf_max_message_size (ws_config c)"
    using def by (auto elim!: try_st_cases split: if_split_asm)
qed

lemma on_frame_start_accepts:
  assumes "on_frame_start env c h = (d, r)" "quiet c" "ws_cur_opcode c = None"
  shows "r = Ok () \<Longrightarrow> accept_frame (ws_config c) (message_of c) h = Some (message_of d) \<and> ws_cur_opcode d = Some (h_opcode h) \<and>
      ws_cur_fin d = h_fin h \<and> (is_control (h_opcode h) \<longrightarrow> ws_ctl_len d = 0) \<and> ws_state d = ws_state c"
    and "r = Err e \<Longrightarrow> accept_frame (ws_config c) (message_of c) h = None"
proof -
  consider "h_payload_len h > cf_max_frame_payload (ws_config c)"
    | "\<not> h_payload_len h > cf_max_frame_payload (ws_config c)" "is_control (h_opcode h)"
    | "\<not> h_payload_len h > cf_max_frame_payload (ws_config c)" "\<not> is_control (h_opcode h)" by blast
  then have "(r = Ok () \<longrightarrow> accept_frame (ws_config c) (message_of c) h = Some (message_of d) \<and> ws_cur_opcode d = Some (h_opcode h) \<and>
      ws_cur_fin d = h_fin h \<and> (is_control (h_opcode h) \<longrightarrow> ws_ctl_len d = 0) \<and> ws_state d = ws_state c) \<and>
      (r = Err e \<longrightarrow> accept_frame (ws_config c) (message_of c) h = None)"
  proof cases
    case 3
    obtain c1 r1 where o: "open_message env c (h_opcode h) = (c1, r1)" by fastforce
    have eq: "(d, r) = try_st (c1, r1) (\<lambda>c _. admit_frame env c h)" using assms(1) 3 o by (simp add: on_frame_start_def)
    show ?thesis
    proof (cases r1)
      case (Ok u)
      then have m: "open_message env c (h_opcode h) = (c1, Ok ())" using o by simp
      have "rx_wf c1" using safe_open_message [OF assms(2,3), of env "h_opcode h"] by (simp add: o safe_step_def quiet_def)
      moreover have "admit_frame env c1 h = (d, r)" using eq Ok by simp
      ultimately show ?thesis
        using open_message_Ok [OF m] 3 admit_frame_cases(1) [of env c1 h d r] admit_frame_cases(2) [of env c1 h d r e] by (auto simp: accept_frame_def message_of_def)
    next
      case (Err x)
      then show ?thesis
        using eq open_message_Err [of env c "h_opcode h" c1 x] o 3 by (auto simp: accept_frame_def message_of_def)
    qed (use eq in simp)
  qed (use assms(1) in \<open>auto simp: on_frame_start_def accept_frame_def message_of_def elim!: try_st_cases\<close>)
  then show "r = Ok () \<Longrightarrow> accept_frame (ws_config c) (message_of c) h = Some (message_of d) \<and> ws_cur_opcode d = Some (h_opcode h) \<and>
      ws_cur_fin d = h_fin h \<and> (is_control (h_opcode h) \<longrightarrow> ws_ctl_len d = 0) \<and> ws_state d = ws_state c"
    "r = Err e \<Longrightarrow> accept_frame (ws_config c) (message_of c) h = None" by blast+
qed

lemma queue_close_no_Err: "tx_wf c \<Longrightarrow> length reason \<le> 123 \<Longrightarrow> queue_close env c code reason \<noteq> (d, Err e)"
  using keeps_queue_close(4) [of c reason env code d "Err e"] by auto

lemma on_received_close_finishes:
  assumes "on_received_close env c = (d, r)" "tx_wf c"
  shows "r = Ok () \<Longrightarrow> (\<exists>e. close_event (ctl_payload c) = Some e \<and> build_event d EkClose = Ok e) \<and> keeps c d \<and> ws_state d = Closed"
    and "r = Err x \<Longrightarrow> close_event (ctl_payload c) = None"
proof -
  show "(\<exists>e. close_event (ctl_payload c) = Some e \<and> build_event d EkClose = Ok e) \<and> keeps c d \<and> ws_state d = Closed" if "r = Ok ()"
  proof -
    have ok: "on_received_close env c = (d, Ok ())" using assms(1) that by simp
    note k = on_received_close_Ok [OF ok assms(2)]
    then have "ctl_payload d = ctl_payload c" using ctl_payload_keeps by blast
    then show ?thesis using k by (auto simp: build_event_def ctl_payload_def split: option.split)
  qed
  show "close_event (ctl_payload c) = None" if "r = Err x"
    using assms that queue_close_no_Err [OF assms(2)]
    by (auto simp: on_received_close_def ctl_payload_def Let_def elim!: try_st_cases split: result.split_asm if_split_asm)
qed

text \<open>The end of a frame: what is handed out, and the message left, are those of the reference.\<close>

definition handed_out :: "WsClient \<Rightarrow> EmitKind \<Rightarrow> WsEvent \<Rightarrow> Message \<Rightarrow> bool" where
  "handed_out d kind e m \<longleftrightarrow> build_event (d\<lparr>ws_last_emitted := Some kind\<rparr>) kind = Ok e \<and>
     message_of (cleared (d\<lparr>ws_last_emitted := Some kind\<rparr>)) = m \<and> (is_close_event e \<longleftrightarrow> ws_state d = Closed) \<and>
     \<not> is_borrowed kind"

lemma on_control_end_finishes:
  assumes "on_control_end env c op = (d, r)" "quiet c" "is_control op" "ws_state c \<noteq> Closed"
  shows "r = Ok k \<Longrightarrow> \<exists>kind e. k = Some kind \<and> ws_cur_opcode d = ws_cur_opcode c \<and>
      finish_frame (ws_config c) (message_of c) op fin (ctl_payload c) = Some (Some e, message_of c) \<and> handed_out d kind e (message_of c)"
    and "r = Err x \<Longrightarrow> finish_frame (ws_config c) (message_of c) op fin (ctl_payload c) = None"
proof -
  have len: "ws_ctl_len c \<le> 125" "length (ws_ctl_buf c) = 125" "tx_wf c" using assms(2) by (auto simp: quiet_def rx_wf_def)
  have "op = Ping \<or> op = Pong \<or> op = Close" using assms(3) by (cases op) auto
  then have "(r = Ok k \<longrightarrow> (\<exists>kind e. k = Some kind \<and> ws_cur_opcode d = ws_cur_opcode c \<and>
      finish_frame (ws_config c) (message_of c) op fin (ctl_payload c) = Some (Some e, message_of c) \<and> handed_out d kind e (message_of c))) \<and>
      (r = Err x \<longrightarrow> finish_frame (ws_config c) (message_of c) op fin (ctl_payload c) = None)"
  proof (elim disjE)
    assume op: "op = Ping"
    have w: "keeps c d' \<and> ws_state d' = ws_state c" if "write_frame env c fi o1 pl = (d', r')" for fi o1 pl d' r'
      using keeps_write_frame [OF len(3) that] by simp
    have n: "write_frame env c fi o1 pl \<noteq> (d', Err y)" for fi o1 pl d' y
      using keeps_write_frame(4) [OF len(3), of env fi o1 pl d' "Err y"] by auto
    have "r = Panic \<or> r = Ok (Some EkPing) \<and> keeps c d \<and> ws_state d = ws_state c"
      using assms(1) op len w n keeps_refl [OF len(3)]
      by (auto simp: on_control_end_def elim!: try_st_cases split: if_split_asm)
    then show ?thesis
      using op assms(4) ctl_payload_keeps [of c d] keeps_fields [of c d]
      by (auto simp: finish_frame_def handed_out_def build_event_def ctl_payload_def message_of_def cleared_def clear_after_emit_def)
  next
    assume "op = Pong"
    then show ?thesis
      using assms(1,4) by (auto simp: on_control_end_def finish_frame_def handed_out_def build_event_def ctl_payload_def
          message_of_def cleared_def clear_after_emit_def)
  next
    assume op: "op = Close"
    obtain c1 r1 where cl: "on_received_close env c = (c1, r1)" by fastforce
    have res: "(d, r) = try_st (c1, r1) (\<lambda>c _. (c, Ok (Some EkClose)))" using assms(1) op cl by (simp add: on_control_end_def)
    show ?thesis
    proof (cases r1)
      case (Ok u)
      then obtain e where e: "close_event (ctl_payload c) = Some e" "build_event c1 EkClose = Ok e" "keeps c c1" "ws_state c1 = Closed"
        using on_received_close_finishes(1) [OF cl len(3)] by auto
      moreover have "is_close_event e" using e(1) by (auto split: result.split_asm option.split_asm)
      ultimately show ?thesis
        using res Ok op keeps_fields [OF e(3)]
        by (auto simp: finish_frame_def handed_out_def build_event_def message_of_def cleared_def clear_after_emit_def simp del: close_event.simps)
    next
      case (Err y)
      then show ?thesis
        using res op on_received_close_finishes(2) [OF cl len(3)] by (auto simp: finish_frame_def simp del: close_event.simps)
    qed (use res in simp)
  qed
  then show "r = Ok k \<Longrightarrow> \<exists>kind e. k = Some kind \<and> ws_cur_opcode d = ws_cur_opcode c \<and>
      finish_frame (ws_config c) (message_of c) op fin (ctl_payload c) = Some (Some e, message_of c) \<and> handed_out d kind e (message_of c)"
    and "r = Err x \<Longrightarrow> finish_frame (ws_config c) (message_of c) op fin (ctl_payload c) = None" by blast+
qed

lemma on_data_end_finishes:
  assumes "on_frame_end env c = (d, r)" "ws_cur_opcode c = Some op" "\<not> is_control op"
    and "ws_msg_opcode c \<in> {Some Text, Some Binary}" "ws_state c \<noteq> Closed"
  defines "res \<equiv> finish_frame (ws_config c) (message_of c) op (ws_cur_fin c) []"
  shows "r = Ok None \<Longrightarrow> ws_cur_opcode d = None \<and> ws_state d = ws_state c \<and> res = Some (None, message_of d)"
    and "r = Ok (Some kind) \<Longrightarrow> ws_cur_opcode d = None \<and> (\<exists>e. res = Some (Some e, None) \<and> handed_out d kind e None)"
    and "r = Err x \<Longrightarrow> res = None"
proof -
  have op: "op \<noteq> Ping" "op \<noteq> Pong" "op \<noteq> Close" using assms(3) by auto
  note def = assms(1) [unfolded on_frame_end_def] and eqs = op assms(2-5)
  show "r = Ok None \<Longrightarrow> ws_cur_opcode d = None \<and> ws_state d = ws_state c \<and> res = Some (None, message_of d)"
    using def eqs by (auto simp: res_def finish_frame_def message_of_def Let_def elim!: try_st_cases split: if_split_asm)
  show "r = Ok (Some kind) \<Longrightarrow> ws_cur_opcode d = None \<and> (\<exists>e. res = Some (Some e, None) \<and> handed_out d kind e None)"
    using def eqs
    by (auto simp: res_def finish_frame_def message_of_def message_event_def handed_out_def build_event_def cleared_def
        clear_after_emit_def Let_def elim!: try_st_cases split: if_split_asm)
  show "r = Err x \<Longrightarrow> res = None"
    using def eqs
    by (auto simp: res_def finish_frame_def message_of_def message_event_def Let_def elim!: try_st_cases split: if_split_asm)
qed

lemma take_chunk_part:
  assumes "take_chunk (c\<lparr>ws_parser := p\<rparr>) chunk = (d, r)" "quiet c" "ws_parser c = Payload k" "length chunk \<le> k"
  shows "r = Ok () \<and> ws_cur_opcode d = ws_cur_opcode c \<and> ws_cur_fin d = ws_cur_fin c \<and> ws_state d = ws_state c \<and>
    (\<forall>op rest. ws_cur_opcode c = Some op \<longrightarrow>
      finish_frame (ws_config c) (message_of d) op (ws_cur_fin c) (frame_part d op @ rest) =
      finish_frame (ws_config c) (message_of c) op (ws_cur_fin c) (frame_part c op @ chunk @ rest))"
proof -
  have rx: "length (ws_ctl_buf c) = 125" "\<And>op. ws_cur_opcode c = Some op \<Longrightarrow> frame_progress c op k"
    using assms(2,3) by (auto simp: quiet_def rx_wf_def)
  show ?thesis
  proof (cases "ws_cur_opcode c")
    case None
    then show ?thesis using assms(1) by (auto simp: take_chunk_def)
  next
    case (Some op)
    show ?thesis
    proof (cases "is_control op")
      case True
      then have "r = Ok () \<and> d = c\<lparr>ws_parser := p,
          ws_ctl_buf := take (ws_ctl_len c) (ws_ctl_buf c) @ chunk @ drop (ws_ctl_len c + length chunk) (ws_ctl_buf c),
          ws_ctl_len := ws_ctl_len c + length chunk\<rparr>"
        using assms(1,4) rx Some by (auto simp: take_chunk_def frame_progress_def)
      moreover have "ws_ctl_len c \<le> length (ws_ctl_buf c)" using rx Some True by (auto simp: frame_progress_def)
      ultimately show ?thesis using Some True by (simp add: frame_part_def ctl_payload_def message_of_def)
    next
      case False
      then have "op \<noteq> Ping" "op \<noteq> Pong" "op \<noteq> Close" "ws_msg_opcode c \<noteq> None" using rx(2) [OF Some] by (auto simp: frame_progress_def)
      then show ?thesis
        using assms(1) Some False by (auto simp: take_chunk_def frame_part_def message_of_def finish_frame_def)
    qed
  qed
qed

text \<open>The contract of one step: what is still owed does not change, except for the event handed out; a
  step that asks for input owes nothing for the input so far, and a step that fails owes nothing more.\<close>

definition owes :: "WsClient \<Rightarrow> WsClient \<times> (WsError, AdvanceResult) result \<Rightarrow> bool" where
  "owes c res \<longleftrightarrow>
     (case res of
        (d, Ok Progressed) \<Rightarrow> \<forall>bs. expected d bs = expected c bs
      | (d, Ok AdvNeedMore) \<Rightarrow> (\<forall>bs. expected d bs = expected c bs) \<and> expected d [] = []
      | (d, Ok (AdvEmit kind)) \<Rightarrow> \<forall>bs e ev. emit d kind = (e, Ok (Some ev)) \<longrightarrow> expected c bs = ev # expected (cleared e) bs
      | (d, Err _) \<Rightarrow> \<forall>bs. expected c bs = []
      | (d, Panic) \<Rightarrow> True)"

lemma owes_simps [simp]:
  "owes c (d, Ok Progressed) \<longleftrightarrow> (\<forall>bs. expected d bs = expected c bs)"
  "owes c (d, Ok AdvNeedMore) \<longleftrightarrow> (\<forall>bs. expected d bs = expected c bs) \<and> expected d [] = []"
  "owes c (d, Err x) \<longleftrightarrow> (\<forall>bs. expected c bs = [])" "owes c (d, Panic)"
  by (simp_all add: owes_def)

lemma owes_try:
  "(\<And>d x. res = (d, Ok x) \<Longrightarrow> owes c (f d x)) \<Longrightarrow> (\<And>d e bs. res = (d, Err e) \<Longrightarrow> expected c bs = []) \<Longrightarrow> owes c (try_st res f)"
  by (cases "(res, f)" rule: try_st.cases) auto

lemma cleared_frame:
  assumes "\<not> is_borrowed kind"
  shows "ws_parser (cleared (d\<lparr>ws_last_emitted := Some kind\<rparr>)) = ws_parser d"
    "ws_recv_buf (cleared (d\<lparr>ws_last_emitted := Some kind\<rparr>)) = ws_recv_buf d"
    "ws_config (cleared (d\<lparr>ws_last_emitted := Some kind\<rparr>)) = ws_config d"
    "ws_state (cleared (d\<lparr>ws_last_emitted := Some kind\<rparr>)) = ws_state d"
  using assms by (cases kind; simp add: cleared_def clear_after_emit_def)+

lemma owes_emit:
  assumes "handed_out d kind ev m" "ws_parser d = Idle" "ws_config d = ws_config c" "as_slice (ws_recv_buf d) = as_slice (ws_recv_buf c)"
    and "\<And>bs. expected c bs = follow (ws_config c) (Some (Some ev, m)) (as_slice (ws_recv_buf c) @ bs)"
  shows "owes c (d, Ok (AdvEmit kind))"
proof -
  let ?e = "d\<lparr>ws_last_emitted := Some kind\<rparr>"
  have h: "build_event ?e kind = Ok ev" "message_of (cleared ?e) = m" "is_close_event ev \<longleftrightarrow> ws_state d = Closed" "\<not> is_borrowed kind"
    using assms(1) by (auto simp: handed_out_def)
  then have "expected c bs = ev # expected (cleared ?e) bs" for bs
    using assms(2-5) cleared_frame [OF h(4)] by (simp add: follow_def expected_def)
  then show ?thesis using h(1) by (auto simp: owes_def emit_def Let_def)
qed

lemma on_frame_end_finishes:
  assumes "on_frame_end env c = (d, r)" "ws_cur_opcode c = Some op" "quiet (c\<lparr>ws_cur_opcode := None\<rparr>)" "ws_state c \<noteq> Closed"
    and "\<not> is_control op \<Longrightarrow> ws_msg_opcode c \<noteq> None"
  defines "res \<equiv> finish_frame (ws_config c) (message_of c) op (ws_cur_fin c) (frame_part c op)"
  shows "r = Ok None \<Longrightarrow> ws_state d = ws_state c \<and> res = Some (None, message_of d)"
    and "r = Ok (Some kind) \<Longrightarrow> \<exists>e m. res = Some (Some e, m) \<and> handed_out d kind e m"
    and "r = Err x \<Longrightarrow> res = None"
proof -
  have "(r = Ok None \<longrightarrow> ws_state d = ws_state c \<and> res = Some (None, message_of d)) \<and>
    (r = Ok (Some kind) \<longrightarrow> (\<exists>e m. res = Some (Some e, m) \<and> handed_out d kind e m)) \<and> (r = Err x \<longrightarrow> res = None)"
  proof (cases "is_control op")
    case True
    let ?c = "c\<lparr>ws_cur_opcode := None\<rparr>"
    have "on_control_end env ?c op = (d, r)" using assms(1,2) True by (simp add: on_frame_end_def)
    note e = on_control_end_finishes [OF this assms(3) True, where fin = "ws_cur_fin c"]
    have "message_of ?c = message_of c" "ctl_payload ?c = ctl_payload c" by (simp_all add: message_of_def ctl_payload_def)
    then show ?thesis using e(1) [of None] e(1) [of "Some kind"] e(2) [of x] assms(4) True by (auto simp: res_def frame_part_def)
  next
    case False
    have "ws_msg_opcode c \<in> {Some Text, Some Binary}" using assms(3,5) False by (auto simp: quiet_def rx_wf_def)
    from on_data_end_finishes [OF assms(1,2) False this assms(4)] False show ?thesis by (auto simp: res_def frame_part_def)
  qed
  then show "r = Ok None \<Longrightarrow> ws_state d = ws_state c \<and> res = Some (None, message_of d)"
    "r = Ok (Some kind) \<Longrightarrow> \<exists>e m. res = Some (Some e, m) \<and> handed_out d kind e m" "r = Err x \<Longrightarrow> res = None" by blast+
qed

lemma owes_frame_end:
  assumes "quiet c" "ws_state c \<noteq> Closed" "ws_parser c = Payload 0"
  defines "d \<equiv> consume_recv (c\<lparr>ws_parser := Idle\<rparr>) 0"
  shows "owes c (run_action env d ActFrameEnd)"
proof (cases "ws_cur_opcode c")
  case None
  then show ?thesis
    using assms by (simp add: run_action_def on_frame_end_def d_def consume_recv_def expected_payload)
next
  case (Some op)
  obtain e r where fe: "on_frame_end env d = (e, r)" by fastforce
  let ?res = "finish_frame (ws_config c) (message_of c) op (ws_cur_fin c) (frame_part c op)"
  have ex: "expected c bs = follow (ws_config c) ?res (as_slice (ws_recv_buf c) @ bs)" for bs
    using assms(2,3) Some by (simp add: expected_payload)
  have d: "message_of d = message_of c" "ws_cur_opcode d = Some op" "ws_config d = ws_config c" "ws_state d = ws_state c"
    "ws_cur_fin d = ws_cur_fin c" "frame_part d op = frame_part c op"
    using Some by (simp_all add: d_def consume_recv_def message_of_def frame_part_def ctl_payload_def)
  have e: "ws_parser e = Idle" "ws_config e = ws_config c" "as_slice (ws_recv_buf e) = as_slice (ws_recv_buf c)"
    using same_input_on_frame_end [OF fe] by (simp_all add: same_input_def d_def consume_recv_def)
  have q: "quiet (d\<lparr>ws_cur_opcode := None\<rparr>)" "\<not> is_control op \<Longrightarrow> ws_msg_opcode d \<noteq> None"
    using assms(1,3) Some by (auto simp: d_def quiet_def rx_wf_def consume_recv_def frame_progress_def intro: wf_intros)
  note f = on_frame_end_finishes [OF fe d(2) q(1) _ q(2), unfolded d]
  show ?thesis
  proof (cases r)
    case (Ok k)
    show ?thesis
    proof (cases k)
      case None
      then have "?res = Some (None, message_of e)" "ws_state e \<noteq> Closed" using f(1) assms(2) Ok by auto
      then show ?thesis using fe Ok None ex e by (simp add: run_action_def follow_def expected_header)
    next
      case (Some kind)
      then obtain ev m where "?res = Some (Some ev, m)" "handed_out e kind ev m" using f(2) assms(2) Ok by blast
      then show ?thesis using owes_emit [of e kind ev m c] e ex fe Ok Some by (simp add: run_action_def)
    qed
  next
    case (Err x)
    then show ?thesis using f(3) assms(2) fe ex by (simp add: run_action_def follow_def)
  qed (use fe in \<open>simp add: run_action_def\<close>)
qed

lemma owes_frame_start:
  assumes "quiet c" "ws_state c \<noteq> Closed" "\<And>k. ws_parser c \<noteq> Payload k"
    and "pending_header (ws_parser c) @ take n (as_slice (ws_recv_buf c)) = wire_header h" "valid_header h" "h_mask h = None"
    and "n \<le> length (as_slice (ws_recv_buf c))"
  defines "d \<equiv> consume_recv (c\<lparr>ws_parser := Payload (unat (h_payload_len h))\<rparr>) n"
  shows "owes c (run_action env d (ActFrameStart h))"
proof -
  let ?in = "\<lambda>bs. drop n (as_slice (ws_recv_buf c)) @ bs" and ?len = "unat (h_payload_len h)"
  obtain e r where fs: "on_frame_start env d h = (e, r)" by fastforce
  have cur: "ws_cur_opcode c = None" using assms(1,3) by (auto simp: quiet_def rx_wf_def)
  have q: "quiet d" using assms(1,5,7) cur by (auto simp: quiet_def rx_wf_def d_def consume_recv_def valid_header_def intro: wf_intros)
  have d: "message_of d = message_of c" "ws_cur_opcode d = None" "ws_config d = ws_config c" "ws_state d = ws_state c"
    using cur by (simp_all add: d_def consume_recv_def message_of_def)
  note a = on_frame_start_accepts [OF fs q d(2), unfolded d]
  have e: "ws_parser e = Payload ?len" "ws_config e = ws_config c" "as_slice (ws_recv_buf e) = drop n (as_slice (ws_recv_buf c))"
    using same_input_on_frame_start [OF fs] by (simp_all add: same_input_def d_def consume_recv_def)
  have wire: "pending_header (ws_parser c) @ as_slice (ws_recv_buf c) @ bs = wire_header h @ ?in bs" for bs
    unfolding assms(4) [symmetric] by (metis append.assoc append_take_drop_id)
  have ex: "expected c bs = (case accept_frame (ws_config c) (message_of c) h of None \<Rightarrow> []
      | Some m \<Rightarrow> if length (?in bs) < ?len then []
          else follow (ws_config c) (finish_frame (ws_config c) m (h_opcode h) (h_fin h) (take ?len (?in bs))) (drop ?len (?in bs)))" for bs
    using expected_header [OF assms(2,3), of bs] decode_frame [OF parse_header_wire [OF assms(5)] assms(6)]
    by (simp add: wire Let_def split: option.split)
  show ?thesis
  proof (cases r)
    case (Ok u)
    then have m: "accept_frame (ws_config c) (message_of c) h = Some (message_of e)" "ws_cur_opcode e = Some (h_opcode h)"
      "ws_cur_fin e = h_fin h" "frame_part e (h_opcode h) = []" "ws_state e \<noteq> Closed"
      using a(1) assms(2) by (auto simp: frame_part_def ctl_payload_def)
    then have "expected e bs = expected c bs" for bs
      unfolding ex using expected_payload [OF m(5) e(1)] e by (simp add: Let_def)
    then show ?thesis using fs Ok by (simp add: run_action_def)
  next
    case (Err x)
    then show ?thesis using a(2) fs by (simp add: run_action_def ex)
  qed (use fs in \<open>simp add: run_action_def\<close>)
qed

lemma owes_chunk:
  assumes "quiet c" "ws_state c \<noteq> Closed" "ws_parser c = Payload k" "chunk = take n (as_slice (ws_recv_buf c))"
    and "n \<le> k" "n \<le> length (as_slice (ws_recv_buf c))"
  shows "owes c (try_st (take_chunk (c\<lparr>ws_parser := Payload (k - n)\<rparr>) chunk) (\<lambda>c _. run_action env (consume_recv c n) ActPayloadChunk))"
proof -
  let ?s = "as_slice (ws_recv_buf c)"
  obtain d r where t: "take_chunk (c\<lparr>ws_parser := Payload (k - n)\<rparr>) chunk = (d, r)" by fastforce
  have len: "length chunk = n" using assms(4,6) by simp
  note p = take_chunk_part [OF t assms(1,3), unfolded len, OF assms(5)]
  have d: "ws_parser d = Payload (k - n)" "ws_recv_buf d = ws_recv_buf c" "ws_config d = ws_config c"
    using same_input_take_chunk [OF t] by (simp_all add: same_input_def)
  let ?d = "consume_recv d n"
  have v: "message_of ?d = message_of d" "frame_part ?d op = frame_part d op" for op
    by (simp_all add: consume_recv_def message_of_def frame_part_def ctl_payload_def)
  have in': "length (drop n ?s @ bs) < k - n \<longleftrightarrow> length (?s @ bs) < k" "chunk @ take (k - n) (drop n ?s @ bs) = take k (?s @ bs)"
    "drop (k - n) (drop n ?s @ bs) = drop k (?s @ bs)" for bs
    using assms(4-6) take_add [of n "k - n" "?s @ bs"] drop_drop [of "k - n" n "?s @ bs"] by auto
  have "expected ?d bs = expected c bs" for bs
    using expected_payload [OF assms(2,3), of bs] expected_payload [of ?d "k - n" bs] assms(2) p d v in' [of bs]
    by (auto simp: consume_recv_def Let_def split: option.split)
  then show ?thesis using t p by (simp add: run_action_def)
qed

lemma owes_advance_frame:
  assumes "quiet c" "ws_state c \<noteq> Closed"
  shows "owes c (advance_frame env c)"
proof -
  let ?s = "as_slice (ws_recv_buf c)"
  have wf: "parser_wf (ws_parser c)" using assms(1) by (simp add: quiet_def rx_wf_def)
  obtain p r where one: "feed_one (ws_parser c) ?s = (p, r)" by fastforce
  note fw = feed_one_wf [OF wf one]
  from wf show ?thesis
  proof (cases rule: parser_wf_header_cases)
    case (payload k)
    consider "k = 0" | "k \<noteq> 0" "?s = []" | "k \<noteq> 0" "?s \<noteq> []" by blast
    then show ?thesis
    proof cases
      case 1
      then show ?thesis using owes_frame_end [OF assms] payload by (simp add: advance_frame_def feed_one_Payload)
    next
      case 2
      let ?d = "consume_recv (c\<lparr>ws_parser := Payload k\<rparr>) 0"
      have "expected ?d bs = expected c bs" for bs
        using payload by (intro expected_same) (simp_all add: consume_recv_def message_of_def ctl_payload_def)
      moreover have "expected c [] = []" using 2 assms(2) payload by (simp add: expected_payload split: option.split)
      ultimately show ?thesis using 2 payload by (simp add: advance_frame_def feed_one_Payload run_action_def)
    next
      case 3
      then show ?thesis
        using owes_chunk [OF assms payload(1) refl, of "min (length ?s) k" env] payload by (simp add: advance_frame_def feed_one_Payload)
    qed
  next
    case (header pend)
    have np: "ws_parser c \<noteq> Payload k" for k using header(4) by auto
    note ex = expected_header [OF assms(2) np, folded header(2)]
    show ?thesis
    proof (cases "header_ready (pend @ ?s)")
      case None
      let ?d = "consume_recv (c\<lparr>ws_parser := header_state (pend @ ?s)\<rparr>) (length ?s)"
      have "expected ?d bs = decode (ws_config c) (message_of c) (pend @ ?s @ bs)" for bs
        using assms(2) expected_header [of ?d] by (simp add: consume_recv_def message_of_def)
      then show ?thesis
        using feed_one_header [OF header(1,3), of ?s] None ex decode_not_ready [OF None]
        by (simp add: advance_frame_def run_action_def)
    next
      case (Some n)
      note fo = feed_one_header [OF header(1,3), of ?s, unfolded Some option.case]
      from Some show ?thesis
      proof (cases rule: header_verdict_cases)
        case (start h)
        then have one': "feed_one (ws_parser c) ?s = (Payload (unat (h_payload_len h)), Ok (Event (n - length pend) (FrameStart h)))"
          using fo by simp
        note w = feed_one_wf(4) [OF wf one' refl] feed_one_Event_decreases(1) [OF one']
        then show ?thesis
          using owes_frame_start [OF assms np, of "n - length pend" h env] one' by (simp add: advance_frame_def)
      next
        case (error e)
        have "expected c bs = []" for bs
          using decode_bad_header [OF Some error(1), of "ws_config c" "message_of c" bs] ex by simp
        then show ?thesis using fo error by (auto simp: advance_frame_def intro!: owes_try)
      qed
    qed
  qed
qed

subsection \<open>The borrowed fast path\<close>

lemma borrowed_event:
  fixes c n m
  defines "p \<equiv> drop n (take m (as_slice (ws_recv_buf c)))"
    and "b \<equiv> \<lparr>bp_payload_start = n, bp_payload_end = m, bp_frame_len = m\<rparr>"
  assumes "try_st (borrowed_kind env c op p) (\<lambda>c kind. (c\<lparr>ws_borrowed_payload := Some b\<rparr>, Ok (BorrowedEmit kind))) = (d, r)"
    and "op = Text \<or> op = Binary" "n \<le> m" "m \<le> length (as_slice (ws_recv_buf c))"
    and "ws_state c = Open" "ws_parser c = Idle" "message_of c = None"
    and ex: "expected c bs = follow (ws_config c) (map_option (\<lambda>ev. (Some ev, None)) (message_event (ws_config c) op p))
      (drop m (as_slice (ws_recv_buf c)) @ bs)"
  shows "r \<noteq> Ok WaitForMore" and "r = Err x \<Longrightarrow> expected c bs = []"
    and "r = Ok (BorrowedEmit kind) \<Longrightarrow> emit d kind = (e, Ok (Some ev)) \<Longrightarrow> expected c bs = ev # expected (cleared e) bs"
proof -
  show "r \<noteq> Ok WaitForMore" using assms(3) by (auto elim!: try_st_cases)
  show "expected c bs = []" if "r = Err x"
    using assms(3,4) that ex
    by (auto simp: borrowed_kind_def message_event_def follow_def elim!: try_st_cases split: if_split_asm)
  show "expected c bs = ev # expected (cleared e) bs" if "r = Ok (BorrowedEmit kind)" "emit d kind = (e, Ok (Some ev))"
  proof -
    have k: "d = c\<lparr>ws_borrowed_payload := Some b\<rparr>" "kind = (if op = Text then EkBorrowedText else EkBorrowedBinary)"
      "message_event (ws_config c) op p = Some (if op = Text then EvText p else EvBinary p)"
      using assms(3,4) that(1) by (auto simp: borrowed_kind_def message_event_def elim!: try_st_cases split: if_split_asm)
    then have e: "e = d\<lparr>ws_last_emitted := Some kind\<rparr>" "ev = (if op = Text then EvText p else EvBinary p)"
      using that(2) assms(5,6)
      by (auto simp: emit_def build_event_def borrowed_payload_def p_def b_def and_then_eq_Ok_iff Let_def split: if_split_asm)
    have "cleared e = consume_recv (c\<lparr>ws_last_emitted := None, ws_borrowed_payload := None\<rparr>) m"
      using e(1) k(1,2) by (auto simp: cleared_def clear_after_emit_def b_def consume_recv_def)
    then have "expected (cleared e) bs = decode (ws_config c) None (drop m (as_slice (ws_recv_buf c)) @ bs)"
      using assms(7-9) by (simp add: expected_header consume_recv_def message_of_def)
    then show ?thesis using ex k(3) e(2) by (simp add: follow_def)
  qed
qed

lemma borrow_frame_owes:
  assumes "borrow_frame env c h n = (d, r)" "parse_header (as_slice (ws_recv_buf c)) = Ok (Some (h, n))"
    and "quiet c" "\<not> fast_blocked c"
  shows "r = Ok WaitForMore \<Longrightarrow> expected c [] = []" and "r = Err x \<Longrightarrow> expected c bs = []"
    and "r = Ok (BorrowedEmit kind) \<Longrightarrow> emit d kind = (e, Ok (Some ev)) \<Longrightarrow> expected c bs = ev # expected (cleared e) bs"
proof -
  let ?s = "as_slice (ws_recv_buf c)" and ?len = "unat (h_payload_len h)"
  have c: "ws_state c = Open" "ws_parser c = Idle" "message_of c = None"
    using assms(4) by (auto simp: fast_blocked_def is_idle_def message_of_def)
  have ph: "parse_header (?s @ bs) = Ok (Some (h, n))" for bs using parse_header_stable [of ?s bs] assms(2) by simp
  have n: "n \<le> length ?s" "?len < 2 ^ 63" "n \<le> 14"
    using parse_header_sound [OF assms(2)] parse_header_size [OF assms(2)] hsize_bounds(2) [of "?s ! 1"]
    by (auto simp: valid_header_def MAX_HEADER_LEN_def)
  then have fit: "\<not> n + ?len > USIZE_MAX" by (simp add: USIZE_MAX_def)
  have ex: "expected c bs = decode (ws_config c) None (?s @ bs)" for bs using c by (simp add: expected_header)
  note dec = decode_frame [OF ph, of "ws_config c" None]
  note def = assms(1) [unfolded borrow_frame_def Let_def if_not_P [OF fit] length_as_slice]
  consider "h_mask h \<noteq> None" | "h_mask h = None" "\<not> h_fin h \<or> \<not> (h_opcode h = Text \<or> h_opcode h = Binary)"
    | "h_mask h = None" "h_fin h" "h_opcode h = Text \<or> h_opcode h = Binary" by blast
  then have "(r = Ok WaitForMore \<longrightarrow> expected c [] = []) \<and> (r = Err x \<longrightarrow> expected c bs = []) \<and>
    (r = Ok (BorrowedEmit kind) \<and> emit d kind = (e, Ok (Some ev)) \<longrightarrow> expected c bs = ev # expected (cleared e) bs)"
  proof cases
    case 1
    then show ?thesis using def decode_stuck(3) [OF ph] ex by (auto elim!: try_st_cases)
  next
    case 2
    then show ?thesis using def by auto
  next
    case 3
    let ?ok = "\<not> h_payload_len h > cf_max_frame_payload (ws_config c) \<and> ?len \<le> cf_max_message_size (ws_config c)"
    have acc: "accept_frame (ws_config c) None h = (if ?ok then Some (Some (h_opcode h, [])) else None)"
      using 3 by (auto simp: accept_frame_def)
    have ctl: "\<not> is_control (h_opcode h)" using 3(3) by auto
    consider "\<not> ?ok" | "?ok" "length ?s < n + ?len" | "?ok" "n + ?len \<le> length ?s" by linarith
    then show ?thesis
    proof cases
      case 1
      then show ?thesis using def 3 dec acc ex by (auto elim!: try_st_cases split: if_split_asm)
    next
      case 2
      then show ?thesis using def 3 dec [of "[]"] acc ex by (auto simp: length_as_slice)
    next
      case long: 3
      let ?p = "drop n (take (n + ?len) ?s)"
      let ?b = "\<lparr>bp_payload_start = n, bp_payload_end = n + ?len, bp_frame_len = n + ?len\<rparr>"
      have p: "take ?len (drop n (?s @ bs)) = ?p" "drop (n + ?len) (?s @ bs) = drop (n + ?len) ?s @ bs" for bs
        using long by (simp_all add: drop_take)
      have exf: "expected c bs = follow (ws_config c) (map_option (\<lambda>ev. (Some ev, None)) (message_event (ws_config c) (h_opcode h) ?p))
          (drop (n + ?len) ?s @ bs)" for bs
        using ex dec [OF 3(1), of bs] acc long(1) p [of bs] long(2) 3 by (auto simp: finish_frame_def Let_def)
      have res: "(d, r) = try_st (borrowed_kind env c (h_opcode h) ?p) (\<lambda>c kind. (c\<lparr>ws_borrowed_payload := Some ?b\<rparr>, Ok (BorrowedEmit kind)))"
        using def 3 long by (simp add: length_as_slice [symmetric])
      have "n \<le> n + ?len" by simp
      from borrowed_event [OF res [symmetric] 3(3) this long(2) c exf] show ?thesis by blast
    qed
  qed
  then show "r = Ok WaitForMore \<Longrightarrow> expected c [] = []" "r = Err x \<Longrightarrow> expected c bs = []"
    "r = Ok (BorrowedEmit kind) \<Longrightarrow> emit d kind = (e, Ok (Some ev)) \<Longrightarrow> expected c bs = ev # expected (cleared e) bs" by blast+
qed

lemma try_emit_owes:
  assumes "try_emit_borrowed_data env c = (d, r)" "quiet c"
  shows "r = Ok WaitForMore \<Longrightarrow> d = c \<and> expected c [] = []" and "r = Err x \<Longrightarrow> expected c bs = []"
    and "r = Ok (BorrowedEmit kind) \<Longrightarrow> emit d kind = (e, Ok (Some ev)) \<Longrightarrow> expected c bs = ev # expected (cleared e) bs"
proof -
  have "(r = Ok WaitForMore \<longrightarrow> d = c \<and> expected c [] = []) \<and> (r = Err x \<longrightarrow> expected c bs = []) \<and>
    (r = Ok (BorrowedEmit kind) \<and> emit d kind = (e, Ok (Some ev)) \<longrightarrow> expected c bs = ev # expected (cleared e) bs)"
  proof (cases "fast_blocked c")
    case True
    then show ?thesis using assms(1) by (auto simp: try_emit_borrowed_data_def)
  next
    case False
    let ?s = "as_slice (ws_recv_buf c)"
    note def = assms(1) [unfolded try_emit_borrowed_data_def if_not_P [OF False]]
    have ex: "expected c bs = decode (ws_config c) (message_of c) (?s @ bs)" for bs
      using False by (simp add: fast_blocked_def is_idle_def expected_header)
    show ?thesis
    proof (cases ?s rule: parse_header_cases)
      case (err y)
      then show ?thesis
        using def ex decode_stuck(2) [of "?s @ bs" y] parse_header_stable [of ?s bs] by (auto elim!: try_st_cases)
    next
      case more
      then show ?thesis using def ex [of "[]"] decode_stuck(1) by auto
    next
      case (complete h n)
      then have "borrow_frame env c h n = (d, r)" using def by simp
      note b = borrow_frame_owes [OF this complete(1) assms(2) False]
      show ?thesis
        using b(1) b(2) [of x bs] b(3) [of kind e ev bs] try_emit_cases [OF assms(2,1)] by (auto simp: borrow_outcome_def)
    qed
  qed
  then show "r = Ok WaitForMore \<Longrightarrow> d = c \<and> expected c [] = []" "r = Err x \<Longrightarrow> expected c bs = []"
    "r = Ok (BorrowedEmit kind) \<Longrightarrow> emit d kind = (e, Ok (Some ev)) \<Longrightarrow> expected c bs = ev # expected (cleared e) bs" by blast+
qed

subsection \<open>\<^verbatim>\<open>poll_event\<close>\<close>

definition poll_owes :: "WsClient \<Rightarrow> WsClient \<times> (WsError, WsEvent option) result \<Rightarrow> bool" where
  "poll_owes c res \<longleftrightarrow>
     (case res of
        (d, Ok (Some ev)) \<Rightarrow> \<forall>bs. expected c bs = ev # expected (cleared d) bs
      | (d, Ok None) \<Rightarrow> (\<forall>bs. expected c bs = expected (cleared d) bs) \<and> expected c [] = []
      | (d, Err _) \<Rightarrow> \<forall>bs. expected c bs = []
      | (d, Panic) \<Rightarrow> True)"

lemma emit_no_Err:
  assumes "tx_wf c" "rx_wf c" "backs c kind" "is_borrowed kind \<or> ws_borrowed_payload c = None" "emit c kind = (d, r)"
  shows "\<exists>ev. r = Ok (Some ev)"
  using ws_wf_emit(2) [OF assms(1-4)] assms(5) by simp

lemma poll_owes_same: "\<forall>bs. expected d bs = expected c bs \<Longrightarrow> poll_owes d res \<Longrightarrow> poll_owes c res"
  by (auto simp: poll_owes_def split: prod.split_asm result.split_asm option.split_asm)

lemma poll_borrow_owes:
  assumes "quiet c" "ws_state c \<noteq> Closed" "try_emit_borrowed_data env c = (d, b)" "b \<noteq> Ok Fallback"
  shows "poll_owes c (poll_loop env c)"
proof -
  note step = poll_loop.simps [of env c, unfolded if_not_P [OF assms(2)] assms(3), simplified]
    and bw = try_emit_owes [OF assms(3,1)]
  have c: "tx_wf c" "rx_wf c" "cleared c = c" using assms(1) cleared_quiet by (auto simp: quiet_def)
  from try_emit_cases [OF assms(1,3)] assms(4)
  consider "b = Ok WaitForMore" "d = c" | e where "b = Err e" | "b = Panic"
    | kind bp where "b = Ok (BorrowedEmit kind)" "d = c\<lparr>ws_borrowed_payload := Some bp\<rparr>" "is_borrowed kind" "backs d kind"
    unfolding borrow_outcome_def by blast
  then show ?thesis
  proof cases
    case (4 kind bp)
    obtain e r where e: "emit d kind = (e, r)" by fastforce
    then obtain ev where "r = Ok (Some ev)" using emit_no_Err [of d kind e r] 4 c by auto
    then show ?thesis using step 4 e bw(3) by (simp add: poll_owes_def)
  qed (use step bw(1,2) c in \<open>simp_all add: poll_owes_def\<close>)
qed

lemma poll_loop_owes:
  "quiet c \<Longrightarrow> ws_state c \<noteq> Connecting \<Longrightarrow> poll_owes c (poll_loop env c)"
proof (induction env c rule: poll_loop.induct)
  case (1 env c)
  obtain c1 b where b: "try_emit_borrowed_data env c = (c1, b)" by fastforce
  have tx: "tx_wf c" "rx_wf c" "cleared c = c" using "1.prems"(1) cleared_quiet by (auto simp: quiet_def)
  consider "ws_state c = Closed" | "ws_state c \<noteq> Closed" "b \<noteq> Ok Fallback" | "ws_state c \<noteq> Closed" "b = Ok Fallback" by blast
  then show ?case
  proof cases
    case 1
    then show ?thesis using tx by (simp add: poll_loop.simps [of env c] poll_owes_def expected_def)
  next
    case 2
    then show ?thesis using poll_borrow_owes [OF "1.prems"(1) _ b] by blast
  next
    case nc: 3
    then have c1: "c1 = c" using try_emit_Fallback b by blast
    note step = poll_loop.simps [of env c, unfolded if_not_P [OF nc(1)] b nc(2) c1, simplified]
    obtain c2 a where a: "advance env c = (c2, a)" by fastforce
    have af: "advance_frame env c = (c2, a)" using a nc(1) "1.prems"(2) by (cases "ws_state c") (auto simp: advance_def)
    note ow = owes_advance_frame [OF "1.prems"(1) nc(1), of env, unfolded af]
      and sa = safe_advance_frame [OF "1.prems"(1), of env, unfolded af] and st = step_advance [OF tx(1,2), of env, unfolded a]
    show ?thesis
    proof (cases a)
      case (Ok ar)
      show ?thesis
      proof (cases ar)
        case (AdvEmit kind)
        obtain e r where e: "emit c2 kind = (e, r)" by fastforce
        have "backs c2 kind" "ws_borrowed_payload c2 = None" "tx_wf c2" "rx_wf c2"
          using advance_emits [of env c c2 kind] a Ok AdvEmit tx sa by (auto simp: quiet_def)
        then obtain ev where "r = Ok (Some ev)" using emit_no_Err [of c2 kind e r] e by auto
        then show ?thesis using step a Ok AdvEmit e ow by (simp add: poll_owes_def owes_def)
      next
        case Progressed
        then have "poll_owes c2 (poll_loop env c2)"
          using "1.IH" [OF nc(1) b [symmetric] nc(2) refl, unfolded c1, OF a [symmetric] Ok Progressed] sa st "1.prems"(2) Ok
          by (simp add: calm_def)
        then show ?thesis using step a Ok Progressed ow poll_owes_same [of c2 c] by simp
      next
        case AdvNeedMore
        then have "cleared c2 = c2" using sa cleared_quiet by simp
        then show ?thesis using step a Ok AdvNeedMore ow by (simp add: poll_owes_def) metis
      qed
    qed (use step a ow in \<open>simp_all add: poll_owes_def\<close>)
  qed
qed

end
