(* ===== verification/Ws_Session.thy ===== *)
theory Ws_Session
  imports Ws_Messages
begin

text \<open>
  Whole connections: a client is built, begins its handshake, and from then on is fed bytes, polled,
  drained and told to send in any order.  The data messages it hands out are those of the reference
  decoder on the bytes that follow the response head.
\<close>

subsection \<open>The handshake\<close>

lemma parse_response_stable:
  assumes "parse_response input \<noteq> Ok None"
  shows "parse_response (input @ body) = parse_response input"
proof -
  let ?w = "\<lambda>bs. take (min (length bs) MAX_RESPONSE_HEADER_BYTES) bs"
  obtain tl where w: "?w (input @ body) = ?w input @ tl" "length input > MAX_RESPONSE_HEADER_BYTES \<Longrightarrow> tl = []"
    by (cases "length input \<le> MAX_RESPONSE_HEADER_BYTES") (auto simp: min_def)
  show ?thesis
  proof (cases "find_double_crlf (?w input)")
    case None
    then have "length input > MAX_RESPONSE_HEADER_BYTES" using assms by (auto simp: parse_response_def Let_def split: if_split_asm)
    then show ?thesis using None w by (simp add: parse_response_def Let_def)
  next
    case (Some m)
    have "m \<le> length input" using find_double_crlf_Some [OF Some] by simp
    then have t: "take m (input @ body) = take m input" by simp
    have f: "find_double_crlf (?w (input @ body)) = Some m" using find_double_crlf_append [OF Some] w by simp
    show ?thesis unfolding parse_response_def Let_def f Some option.case t ..
  qed
qed

text \<open>The bytes after an acceptable response head.\<close>

definition after_head :: "Env \<Rightarrow> WsConfig \<Rightarrow> bytes \<Rightarrow> bytes \<Rightarrow> bytes option" where
  "after_head env cfg key input =
     (case parse_response input of
        Ok (Some (r, n)) \<Rightarrow>
          (case verify_upgrade_response env r key (cf_subprotocols cfg) of Ok _ \<Rightarrow> Some (drop n input) | _ \<Rightarrow> None)
      | _ \<Rightarrow> None)"

definition opened :: "WsClient \<Rightarrow> WsClient" where
  "opened c = (consume_recv c (length (as_slice (ws_recv_buf c))))\<lparr>ws_state := Open\<rparr>"

text \<open>What a client owes in every state, the handshake included.\<close>

definition due :: "Env \<Rightarrow> WsClient \<Rightarrow> bytes \<Rightarrow> WsEvent list" where
  "due env c bs =
     (if ws_state c = Connecting then
        (case after_head env (ws_config c) (ws_client_key c) (as_slice (ws_recv_buf c) @ bs) of
           None \<Rightarrow> []
         | Some rest \<Rightarrow> HandshakeComplete # expected (opened c) rest)
      else expected c bs)"

definition poll_due :: "Env \<Rightarrow> WsClient \<Rightarrow> WsClient \<times> (WsError, WsEvent option) result \<Rightarrow> bool" where
  "poll_due env c res \<longleftrightarrow>
     (case res of
        (d, Ok (Some ev)) \<Rightarrow> \<forall>bs. due env c bs = ev # due env (cleared d) bs
      | (d, Ok None) \<Rightarrow> (\<forall>bs. due env c bs = due env (cleared d) bs) \<and> due env c [] = []
      | (d, Err _) \<Rightarrow> \<forall>bs. due env c bs = []
      | (d, Panic) \<Rightarrow> True)"

lemma poll_Connecting:
  assumes "ws_state c = Connecting"
  shows "poll_loop env c =
    (case advance_handshake env c of
       (d, Ok (AdvEmit kind)) \<Rightarrow> emit d kind
     | (d, Ok Progressed) \<Rightarrow> poll_loop env d
     | (d, Ok AdvNeedMore) \<Rightarrow> (d, Ok None)
     | (d, Err e) \<Rightarrow> (fail_poll d, Err e)
     | (d, Panic) \<Rightarrow> (d, Panic))"
proof -
  have "try_emit_borrowed_data env c = (c, Ok Fallback)" using assms by (simp add: try_emit_borrowed_data_def fast_blocked_def)
  then show ?thesis using assms by (subst poll_loop.simps) (simp add: advance_def)
qed

lemma response_cases:
  obtains (more) "parse_response bs = Ok None" | (bad) e where "parse_response bs = Err e"
    | (refused) r n e where "parse_response bs = Ok (Some (r, n))" "verify_upgrade_response env r key offered = Err e"
    | (accepted) r n where "parse_response bs = Ok (Some (r, n))" "verify_upgrade_response env r key offered = Ok ()"
proof (cases "parse_response bs")
  case (Ok v)
  show ?thesis
  proof (cases v)
    case (Some rn)
    obtain r n where "rn = (r, n)" by fastforce
    then show ?thesis
      using Ok Some refused accepted verify_upgrade_response_not_Panic [of env r key offered]
      by (cases "verify_upgrade_response env r key offered") auto
  qed (use Ok more in simp)
qed (use bad parse_response_not_Panic in auto)

lemma poll_handshake_due:
  assumes "quiet c" "ws_state c = Connecting"
  shows "poll_due env c (poll_loop env c)"
proof -
  let ?s = "as_slice (ws_recv_buf c)"
  have cl: "cleared c = c" using cleared_quiet [OF assms(1)] .
  have du: "due env c bs = (case after_head env (ws_config c) (ws_client_key c) (?s @ bs) of
      None \<Rightarrow> [] | Some rest \<Rightarrow> HandshakeComplete # expected (opened c) rest)" for bs using assms(2) by (simp add: due_def)
  have fail: ?thesis if "advance_handshake env c = (c, Err x)" "\<And>bs. after_head env (ws_config c) (ws_client_key c) (?s @ bs) = None" for x
  proof -
    have "poll_loop env c = (fail_poll c, Err x)" unfolding poll_Connecting [OF assms(2)] that(1) by simp
    then show ?thesis using that(2) du by (simp add: poll_due_def)
  qed
  show ?thesis
  proof (cases rule: response_cases [where bs = ?s and env = env and key = "ws_client_key c" and offered = "cf_subprotocols (ws_config c)"])
    case more
    then have "advance_handshake env c = (c, Ok AdvNeedMore)" "due env c [] = []"
      by (simp_all add: advance_handshake_def du after_head_def)
    then have "poll_loop env c = (c, Ok None)" "due env c [] = []" unfolding poll_Connecting [OF assms(2)] by simp_all
    then show ?thesis using cl by (simp add: poll_due_def)
  next
    case (bad e)
    then show ?thesis using parse_response_stable [of ?s] fail [of "WsHttp e"] by (simp add: advance_handshake_def after_head_def)
  next
    case (refused r n e)
    then show ?thesis using parse_response_stable [of ?s] fail [of "WsHandshake e"] by (simp add: advance_handshake_def after_head_def)
  next
    case acc: (accepted r n)
    have len: "n \<le> length ?s" using parse_response_end_le [OF acc(1)] .
    let ?d = "(consume_recv c n)\<lparr>ws_state := Open\<rparr>"
    have "advance_handshake env c = (?d, Ok (AdvEmit EkHandshakeComplete))" using acc by (simp add: advance_handshake_def)
    then have "poll_loop env c = (?d\<lparr>ws_last_emitted := Some EkHandshakeComplete\<rparr>, Ok (Some HandshakeComplete))"
      unfolding poll_Connecting [OF assms(2)] by (simp add: emit_def build_event_def)
    moreover have "cleared (?d\<lparr>ws_last_emitted := Some EkHandshakeComplete\<rparr>) = ?d"
      using assms(1) by (cases c) (simp add: cleared_def clear_after_emit_def consume_recv_def quiet_def)
    moreover have "after_head env (ws_config c) (ws_client_key c) (?s @ bs) = Some (drop n (?s @ bs))" for bs
      using acc parse_response_stable [of ?s bs] by (simp add: after_head_def)
    moreover have "due env ?d bs = expected (opened c) (drop n (?s @ bs))" for bs
      using len unfolding due_def
      by (simp del: drop_append) (intro expected_same, simp_all add: opened_def consume_recv_def message_of_def ctl_payload_def)
    ultimately show ?thesis using du by (simp add: poll_due_def)
  qed
qed

lemma poll_event_due:
  assumes "ws_wf c"
  shows "poll_due env (cleared c) (poll_event env c)"
proof -
  note pq = poll_event_quiet [OF assms, of env]
  obtain d r where d: "poll_event env c = (d, r)" by fastforce
  show ?thesis
  proof (cases "ws_state (cleared c) = Connecting")
    case True
    then show ?thesis using poll_handshake_due pq by simp
  next
    case False
    note o = poll_loop_owes [of "cleared c" env, OF _ False]
    have "ws_state (cleared d) \<noteq> Connecting" if "r \<noteq> Panic"
    proof -
      have "rank (ws_state c) \<le> rank (ws_state d)" using op_ok_poll [OF assms d] that tx_step_rank by (simp add: op_ok_def)
      moreover have "ws_state (cleared d) = ws_state d" "ws_state (cleared c) = ws_state c"
        using clear_after_emit_start [of d] clear_after_emit_start [of c] by (simp_all add: same_start_def)
      ultimately show ?thesis using False by (cases "ws_state c") auto
    qed
    then show ?thesis
      using o pq d False by (auto simp: poll_due_def poll_owes_def due_def split: result.split option.split)
  qed
qed

subsection \<open>The data messages a client owes\<close>

fun data_of :: "WsEvent \<Rightarrow> DataEvent list" where
  "data_of (EvText t) = [DText t]"
| "data_of (EvBinary b) = [DBinary b]"
| "data_of _ = []"

definition owed :: "Env \<Rightarrow> WsClient \<Rightarrow> bytes \<Rightarrow> DataEvent list" where
  "owed env c bs = concat (map data_of (due env (cleared c) bs))"

lemma owed_poll:
  assumes "ws_wf c" "poll_event env c = (d, r)"
  shows "r = Ok (Some ev) \<Longrightarrow> owed env c bs = data_of ev @ owed env d bs"
    and "r = Ok None \<Longrightarrow> owed env c bs = owed env d bs" and "r = Ok None \<Longrightarrow> owed env c [] = []"
    and "r = Err e \<Longrightarrow> owed env c bs = []"
  using poll_event_due [OF assms(1), of env] assms(2) by (auto simp: poll_due_def owed_def)

lemma owed_nothing:
  assumes "ws_wf c" "poll_event env c = (d, r)" "\<forall>ev. r \<noteq> Ok (Some ev)" "r \<noteq> Panic"
  shows "owed env c [] = []"
proof (cases r)
  case (Ok v)
  then show ?thesis using owed_poll(3) [OF assms(1,2)] assms(3) by (cases v) auto
qed (use owed_poll(4) [OF assms(1,2)] assms(4) in auto)

text \<open>A client is looked at through its receive side only, so sending and taking bytes out change nothing;
  feeding moves bytes from the future into the buffer.\<close>

lemma due_same:
  assumes "ws_state d = Connecting \<longleftrightarrow> ws_state c = Connecting" "ws_state d = Closed \<longleftrightarrow> ws_state c = Closed"
    "ws_config d = ws_config c" "ws_client_key d = ws_client_key c" "ws_parser d = ws_parser c"
    "ws_cur_opcode d = ws_cur_opcode c" "ws_cur_fin d = ws_cur_fin c" "message_of d = message_of c" "ctl_payload d = ctl_payload c"
    "as_slice (ws_recv_buf d) @ bs = as_slice (ws_recv_buf c) @ bs'"
  shows "due env d bs = due env c bs'"
proof -
  have "expected (opened d) rest = expected (opened c) rest" for rest
    using assms(3,5-9) by (intro expected_same) (simp_all add: opened_def consume_recv_def message_of_def ctl_payload_def)
  then have "expected (opened d) = expected (opened c)" by blast
  then show ?thesis using assms(1,3,4,10) expected_same [OF assms(2,3,5-10)] by (simp add: due_def split: option.split)
qed

lemma cleared_feed:
  assumes "ws_wf c"
  shows "due env (cleared (feed_recv c xs)) bs = due env (cleared c) (xs @ bs)"
proof -
  have cb: "cb_wf (ws_recv_buf c)" using assms by (simp add: ws_wf_def rx_wf_def)
  show ?thesis
  proof (cases "\<exists>kind. ws_last_emitted c = Some kind \<and> is_borrowed kind")
    case True
    then obtain kind where k: "ws_last_emitted c = Some kind" "is_borrowed kind" by blast
    then obtain b where b: "ws_borrowed_payload c = Some b" "bp_frame_len b \<le> length (as_slice (ws_recv_buf c))"
      using assms by (cases kind) (auto simp: ws_wf_def emit_wf_def borrow_wf_def split: option.split_asm)
    show ?thesis
      using k b cb
      by (cases kind; intro due_same)
        (simp_all add: cleared_def clear_after_emit_def feed_recv_def consume_recv_def message_of_def ctl_payload_def as_slice_extend)
  next
    case False
    then have "cleared (feed_recv c xs) = feed_recv (cleared c) xs" "ws_recv_buf (cleared c) = ws_recv_buf c"
      by (auto simp: cleared_def clear_after_emit_def feed_recv_def Let_def split: option.split EmitKind.split)
    then show ?thesis
      using cb by (intro due_same) (simp_all add: feed_recv_def message_of_def ctl_payload_def as_slice_extend)
  qed
qed

lemma owed_feed: "ws_wf c \<Longrightarrow> owed env (feed_recv c xs) bs = owed env c (xs @ bs)"
  by (simp add: owed_def cleared_feed)

lemma owed_rx:
  assumes "ws_state d = Connecting \<longleftrightarrow> ws_state c = Connecting" "ws_state d = Closed \<longleftrightarrow> ws_state c = Closed"
    and "ws_parser d = ws_parser c" "ws_recv_buf d = ws_recv_buf c" "ws_msg_buf d = ws_msg_buf c"
      "ws_borrowed_payload d = ws_borrowed_payload c" "ws_msg_opcode d = ws_msg_opcode c" "ws_ctl_buf d = ws_ctl_buf c"
      "ws_ctl_len d = ws_ctl_len c" "ws_cur_opcode d = ws_cur_opcode c" "ws_cur_fin d = ws_cur_fin c"
      "ws_config d = ws_config c" "ws_client_key d = ws_client_key c" "ws_last_emitted d = ws_last_emitted c"
  shows "owed env d bs = owed env c bs"
proof -
  have "due env (cleared d) bs = due env (cleared c) bs"
    using assms
    by (cases "ws_last_emitted c"; intro due_same)
      (simp_all add: cleared_def clear_after_emit_def consume_recv_def message_of_def ctl_payload_def Let_def split: EmitKind.split option.split)
  then show ?thesis by (simp add: owed_def)
qed

lemma owed_keeps:
  "keeps c d \<Longrightarrow> ws_state d = Connecting \<longleftrightarrow> ws_state c = Connecting \<Longrightarrow> ws_state d = Closed \<longleftrightarrow> ws_state c = Closed \<Longrightarrow>
     owed env d bs = owed env c bs"
  by (intro owed_rx) (simp_all add: keeps_fields)

subsection \<open>Drains\<close>

text \<open>What a drain promises: the messages added are all that the input so far is worth, and if it succeeds
  the rest is still owed.\<close>

definition drained :: "Env \<Rightarrow> WsClient \<Rightarrow> bytes \<Rightarrow> DataEvent list \<Rightarrow> DataEvent list \<times> WsClient \<times> (WsError, nat) result \<Rightarrow> bool" where
  "drained env c xs s res \<longleftrightarrow>
     (case res of (s', d, r) \<Rightarrow>
        s' = s @ owed env c xs \<and> (\<forall>m. r = Ok m \<longrightarrow> (\<forall>bs. owed env c (xs @ bs) = owed env c xs @ owed env d bs)))"

lemma drainedI:
  "s' = s @ owed env c xs \<Longrightarrow> (\<And>m bs. r = Ok m \<Longrightarrow> owed env c (xs @ bs) = owed env c xs @ owed env d bs) \<Longrightarrow>
     drained env c xs s (s', d, r)"
  by (auto simp: drained_def)

lemma drainedD:
  assumes "drained env c xs s (s', d, r)"
  shows "s' = s @ owed env c xs" "r = Ok m \<Longrightarrow> owed env c (xs @ bs) = owed env c xs @ owed env d bs"
  using assms by (simp_all add: drained_def)

lemma slow_event_plain: "slow_event plain_sink ev s = s @ data_of ev"
  by (cases ev) (simp_all add: slow_event_def plain_sink_def)

lemma owed_poll_all:
  "rng_total env \<Longrightarrow> ws_wf c \<Longrightarrow> poll_all env c n s = (s', d, r) \<Longrightarrow> drained env c [] s (s', d, r)"
proof (induction env c n s rule: poll_all.induct)
  case (1 env c n s)
  obtain d1 r1 where po: "poll_event env c = (d1, r1)" by fastforce
  note o = owed_poll [OF "1.prems"(2) po] and w = poll_event_wf [OF "1.prems"(2) po]
  show ?case
  proof (cases r1)
    case (Ok ov)
    show ?thesis
    proof (cases ov)
      case None
      then have "s' = s" "d = d1" "r = Ok n" using "1.prems"(3) po Ok by (simp_all add: poll_all.simps [of env c])
      then show ?thesis using o(2,3) Ok None by (intro drainedI) simp_all
    next
      case (Some ev)
      then have "poll_all env d1 (n + 1) (slow_event plain_sink ev s) = (s', d, r)"
        using "1.prems"(3) po Ok by (simp add: poll_all.simps [of env c])
      then have "drained env d1 [] (slow_event plain_sink ev s) (s', d, r)"
        using "1.IH" [OF po [symmetric] Ok Some "1.prems"(1) w(1)] by blast
      note D = drainedD [OF this]
      have c: "owed env c bs = data_of ev @ owed env d1 bs" for bs using o(1) Ok Some by blast
      show ?thesis
      proof (rule drainedI)
        show "s' = s @ owed env c []" using D(1) c by (simp add: slow_event_plain)
        show "owed env c ([] @ bs) = owed env c [] @ owed env d bs" if "r = Ok m" for m bs using D(2) [OF that, of bs] c by simp
      qed
    qed
  next
    case (Err e)
    then have "s' = s" "r = Err e" using "1.prems"(3) po by (simp_all add: poll_all.simps [of env c])
    then show ?thesis using o(4) Err by (intro drainedI) simp_all
  qed (use w(3) "1.prems"(1) in simp)
qed

lemma owed_drain:
  assumes "rng_total env" "ws_wf c" "drain env plain_sink c n s = (s', d, r)"
  shows "drained env c [] s (s', d, r)"
proof -
  have np: "r \<noteq> Panic" using op_ok_drain [OF assms(2,3)] assms(1) by (auto simp: op_ok_def)
  note p = drain_polls [OF assms(2,3) np]
  show ?thesis
  proof (cases r)
    case (Ok m)
    then show ?thesis using p owed_poll_all [OF assms(1,2)] by blast
  next
    case (Err e)
    then obtain d' x where "poll_all env c n s = (s', d', x)" using p by blast
    from drainedD(1) [OF owed_poll_all [OF assms(1,2) this]] show ?thesis using Err by (intro drainedI) simp_all
  qed (use np in simp)
qed

subsection \<open>Fresh input without a copy\<close>

lemma owed_quiet: "quiet c \<Longrightarrow> owed env c bs = concat (map data_of (due env c bs))"
  by (simp add: owed_def cleared_quiet)

lemma owed_fast_frame:
  assumes "fast_frame c = Ok (FfParsed ev n)" "\<not> fast_blocked c" "quiet c"
  shows "owed env c bs = ev # owed env (consume_recv c n) bs"
proof -
  obtain d where d: "poll_loop env c = (d, Ok (Some (data_event ev)))" "ws_wf d" "cleared d = consume_recv c n"
    using fast_frame_polled [OF assms] .
  have "cleared (consume_recv c n) = consume_recv c n"
    using assms(3) by (intro cleared_None) (simp add: quiet_def consume_recv_def)
  moreover have "poll_event env c = (d, Ok (Some (data_event ev)))" using d(1) poll_event_quiet_eq [OF assms(3)] by simp
  ultimately show ?thesis
    using owed_poll(1) [OF quiet_ws_wf [OF assms(3)], of env d _ "data_event ev" bs] d(3) by (cases ev) (simp_all add: owed_def)
qed

lemma owed_scan:
  "scan (sk_fast plain_sink) (ws_config c) bs k n s = (s', k', n', e) \<Longrightarrow> bs = as_slice (ws_recv_buf c) \<Longrightarrow>
     k \<le> length bs \<Longrightarrow> \<not> fast_blocked c \<Longrightarrow> quiet c \<Longrightarrow>
     \<exists>out. s' = s @ out \<and> (\<forall>xs. owed env (consume_recv c k) xs = out @ owed env (consume_recv c k') xs)"
proof (induction "sk_fast plain_sink" "ws_config c" bs k n s rule: scan.induct)
  case (1 bs k n s)
  let ?p = "parse_complete_server_data_frame (drop k bs) (cf_max_frame_payload (ws_config c)) (cf_max_message_size (ws_config c))
      (cf_assume_text_utf8 (ws_config c))"
  note sc = scan.simps [of "sk_fast plain_sink" "ws_config c" bs k n s]
  show ?case
  proof (cases "\<exists>ev f. ?p = Ok (FfParsed ev f) \<and> drop k bs \<noteq> []")
    case True
    then obtain ev f where p: "?p = Ok (FfParsed ev f)" "drop k bs \<noteq> []" by blast
    have f: "k + f \<le> length bs" using parse_complete_frame_len [OF p(1)] "1.prems"(3) by auto
    let ?c = "consume_recv c k"
    have "owed env ?c xs = ev # owed env (consume_recv ?c f) xs" for xs
      using p fast_blocked_consume [OF "1.prems"(4,5), of k] quiet_consume [OF "1.prems"(5), of k] "1.prems"(2,3)
      by (intro owed_fast_frame) (simp_all add: consume_recv_def)
    moreover have "consume_recv ?c f = consume_recv c (k + f)"
      using consume_recv_add [OF "1.prems"(5)] f "1.prems"(2) by simp
    moreover have "scan (sk_fast plain_sink) (ws_config c) bs (k + f) (n + 1) (s @ [ev]) = (s', k', n', e)"
      using "1.prems"(1) p unfolding sc by (simp add: plain_sink_def)
    ultimately show ?thesis
      using "1.hyps" [OF refl p(2,1) refl] "1.prems"(2,4,5) f by (fastforce simp: plain_sink_def)
  next
    case False
    then show ?thesis
      using "1.prems"(1) unfolding sc by (auto simp: Let_def split: if_split_asm result.split_asm FastDataFrameResult.split_asm)
  qed
qed

lemma owed_drain_fed:
  assumes "rng_total env" "ws_wf c" "drain env plain_sink (feed_recv c xs) n s = (s', d, r)"
  shows "drained env c xs s (s', d, r)"
  using drainedD [OF owed_drain [OF assms(1) ws_wf_feed_recv [OF assms(2)] assms(3)]] owed_feed [OF assms(2)]
  by (intro drainedI) simp_all

lemma owed_fast_stop:
  assumes "rng_total env" "quiet c" "\<not> fast_blocked c" "fast_frame c = Ok FfNeedMore \<or> (\<exists>x. fast_frame c = Err x)"
  shows "owed env c [] = []"
proof -
  obtain f y where p: "poll_loop env c = (f, y)" "\<forall>ev. y \<noteq> Ok (Some ev)"
    using assms(4) fast_frame_NeedMore [OF _ assms(3), of env] fast_frame_Err [OF _ assms(3), of _ env] by blast
  moreover have "y \<noteq> Panic" using poll_loop_wf [OF assms(2) p(1)] assms(1) by simp
  ultimately show ?thesis using owed_nothing [OF quiet_ws_wf [OF assms(2)]] poll_event_quiet_eq [OF assms(2)] by simp
qed

text \<open>A copy-free drain: the client is as if fed and then drained up to where the scan stopped.\<close>

lemma owed_direct:
  assumes "quiet c" "can_drain_ingress_directly c" "xs \<noteq> []"
    and "scan (sk_fast plain_sink) (ws_config c) xs 0 0 (sk_begin plain_sink s) = (s1, k, n, e)"
  shows "\<exists>out. s1 = s @ out \<and> (\<forall>bs. owed env c (xs @ bs) = out @ owed env c (drop k xs @ bs))"
    and "rng_total env \<Longrightarrow> e = ScanWait \<or> (\<exists>x. e = ScanErr x) \<Longrightarrow> owed env c (drop k xs) = []"
proof -
  let ?f = "feed_recv c xs"
  have cb: "cb_wf (ws_recv_buf c)" "as_slice (ws_recv_buf c) = []" "ws_wf c"
    using assms(1,2) quiet_ws_wf by (auto simp: quiet_def rx_wf_def can_drain_ingress_directly_def cb_is_empty_def as_slice_def)
  have sl: "as_slice (ws_recv_buf ?f) = xs" using cb by (simp add: feed_recv_def as_slice_extend)
  have q: "quiet ?f" using ws_wf_feed_recv [OF cb(3), of xs] assms(1) by (simp add: quiet_def ws_wf_def feed_recv_def)
  have nb: "\<not> fast_blocked ?f"
    using assms(2,3) sl by (auto simp: fast_blocked_def can_drain_ingress_directly_def cb_is_empty_def as_slice_def feed_recv_def)
  have k: "k \<le> length xs" using scan_bounds [OF assms(4)] by simp
  have sc: "scan (sk_fast plain_sink) (ws_config ?f) xs 0 0 s = (s1, k, n, e)" using assms(4) by (simp add: plain_sink_def feed_recv_def)
  let ?d = "consume_recv ?f k"
  have view: "owed env ?d bs = owed env c (drop k xs @ bs)" for bs
  proof -
    have "due env ?d bs = due env c (drop k xs @ bs)"
      using sl cb(2) by (intro due_same) (simp_all add: consume_recv_def feed_recv_def message_of_def ctl_payload_def)
    then show ?thesis using owed_quiet [OF assms(1)] owed_quiet [OF quiet_consume [OF q, of k]] k sl by simp
  qed
  obtain out where "s1 = s @ out" "\<And>bs. owed env (consume_recv ?f 0) bs = out @ owed env ?d bs"
    using owed_scan [OF sc sl [symmetric] _ nb q] by auto
  moreover have "consume_recv ?f 0 = ?f" using sl assms(3) by (intro consume_recv_0) simp
  ultimately show "\<exists>out. s1 = s @ out \<and> (\<forall>bs. owed env c (xs @ bs) = out @ owed env c (drop k xs @ bs))"
    using view owed_feed [OF cb(3)] by auto
  show "owed env c (drop k xs) = []" if "rng_total env" "e = ScanWait \<or> (\<exists>x. e = ScanErr x)"
  proof -
    have "e \<noteq> ScanDrained" using that(2) by auto
    from scan_stop [OF sc this] have "\<not> fast_blocked ?d" "fast_frame ?d = Ok FfNeedMore \<or> (\<exists>x. fast_frame ?d = Err x)"
      using fast_blocked_consume [OF nb q, of k] sl that(2) by (auto simp: consume_recv_def feed_recv_def Let_def)
    from owed_fast_stop [OF that(1) quiet_consume [OF q] this] show ?thesis using k sl view [of "[]"] by simp
  qed
qed

lemma owed_cleared: "ws_wf c \<Longrightarrow> owed env (cleared c) bs = owed env c bs"
  using op_ok_cleared(2) [of c] by (simp add: owed_def cleared_quiet)

lemma owed_idle: "quiet c \<Longrightarrow> can_drain_ingress_directly c \<Longrightarrow> owed env c [] = []"
  by (auto simp: owed_quiet due_def expected_header can_drain_ingress_directly_def is_idle_def cb_is_empty_def as_slice_def
      quiet_def rx_wf_def cb_wf_def)

lemma owed_ingress:
  assumes "rng_total env" "ws_wf c" "drain_from_ingress env plain_sink c xs s = (s', d, r)"
  shows "drained env c xs s (s', d, r)"
proof -
  let ?c = "cleared c"
  note cl = op_ok_cleared [OF assms(2)] and ow = owed_cleared [OF assms(2)]
  note def = assms(3) [unfolded drain_from_ingress_def cl(1), simplified]
  have wf: "ws_wf ?c" using quiet_ws_wf [OF cl(2)] .
  have res: "drained env ?c xs s (s', d, r)"
  proof (cases "xs = [] \<or> \<not> can_drain_ingress_directly ?c")
    case True
    then show ?thesis using def owed_drain [OF assms(1) wf] owed_drain_fed [OF assms(1) wf] by (auto split: if_split_asm)
  next
    case False
    then have dir: "can_drain_ingress_directly ?c" "xs \<noteq> []" by auto
    obtain s1 k n e where sc: "scan (sk_fast plain_sink) (ws_config ?c) xs 0 0 (sk_begin plain_sink s) = (s1, k, n, e)"
      by (metis prod_cases4)
    note od = owed_direct [OF cl(2) dir sc, of env]
    obtain out where out: "s1 = s @ out" "\<And>bs. owed env ?c (xs @ bs) = out @ owed env ?c (drop k xs @ bs)" using od(1) by blast
    have pf: "sk_flush plain_sink b x = x" for b x by (simp add: plain_sink_def)
    show ?thesis
    proof (cases e)
      case ScanDrained
      then have "s' = s1" "d = ?c" "drop k xs = []"
        using def dir sc scan_bounds [OF sc] by (auto simp: try_drain_ingress_def pf)
      then show ?thesis using out owed_idle [OF cl(2) dir(1)] out(2) [of "[]"] by (intro drainedI) simp_all
    next
      case ScanWait
      then have "s' = s1" "d = feed_recv ?c (drop k xs)" using def dir sc by (auto simp: try_drain_ingress_def pf)
      then show ?thesis using out od(2) [OF assms(1)] ScanWait out(2) [of "[]"] owed_feed [OF wf] by (intro drainedI) simp_all
    next
      case ScanFallback
      obtain t f x where dr: "drain env plain_sink (feed_recv ?c (drop k xs)) 0 s1 = (t, f, x)" by (rule prod_cases3)
      then have t: "s' = t" "d = f" "r = and_then x (\<lambda>m. Ok (n + m))" using def dir sc ScanFallback by (auto simp: try_drain_ingress_def pf)
      then have "r = Ok m \<Longrightarrow> \<exists>y. x = Ok y" for m by (cases x) auto
      then show ?thesis
        using drainedD [OF owed_drain_fed [OF assms(1) wf dr]] out out(2) [of "[]"] t(1,2) by (intro drainedI) auto
    next
      case (ScanErr x)
      then have "s' = s1" "\<And>m. r \<noteq> Ok m"
        using def dir sc by (auto simp: try_drain_ingress_def pf fail_fast_eq elim!: try_st_cases split: result.split_asm prod.split_asm)
      then show ?thesis using out od(2) [OF assms(1)] ScanErr out(2) [of "[]"] by (intro drainedI) auto
    next
      case ScanPanic
      then show ?thesis using scan_not_Panic [OF sc] by simp
    qed
  qed
  show ?thesis using drainedD [OF res] by (intro drainedI) (simp_all add: ow)
qed

subsection \<open>Sending\<close>

lemma owed_send:
  assumes "ws_wf c" "client_send env c m = (d, r)"
  shows "owed env d bs = owed env c bs"
proof -
  have tx: "tx_wf c" using assms(1) by (simp add: ws_wf_def)
  have w: "keeps c e \<and> ws_state e = ws_state c" if "write_frame env c fin op p = (e, x)" for fin op p e x
    using keeps_write_frame [OF tx that] by simp
  have "d = c \<or> keeps c d \<and> ws_state c = Open \<and> (ws_state d = Open \<or> ws_state d = Closing)"
    using assms(2) w
    by (cases m) (auto simp: send_text_def send_binary_def send_ping_def send_pong_def send_close_def write_close_frame_def
        assert_can_send_data_def elim!: try_st_cases split: if_split_asm result.split_asm)
  then show ?thesis using owed_keeps [of c d] by auto
qed

subsection \<open>Sessions\<close>

text \<open>\<open>ws_session env c input msgs d\<close>: starting from the client \<open>c\<close>, in any order of sends, reads, polls and
  drains, the transport has delivered the bytes \<open>input\<close> and the application has been handed the data
  messages \<open>msgs\<close>; the client is now \<open>d\<close>, and no receive operation has failed.\<close>

inductive ws_session :: "Env \<Rightarrow> WsClient \<Rightarrow> bytes \<Rightarrow> DataEvent list \<Rightarrow> WsClient \<Rightarrow> bool" for env c where
  start: "ws_session env c [] [] c"
| handshake: "ws_session env c input msgs d \<Longrightarrow> begin_handshake d = (e, r) \<Longrightarrow> ws_session env c input msgs e"
| send: "ws_session env c input msgs d \<Longrightarrow> client_send env d m = (e, r) \<Longrightarrow> send_size m < 2 ^ 63 \<Longrightarrow> ws_session env c input msgs e"
| ack: "ws_session env c input msgs d \<Longrightarrow> n \<le> length (pending_tx d) \<Longrightarrow> ws_session env c input msgs (ack_tx d n)"
| feed: "ws_session env c input msgs d \<Longrightarrow> ws_session env c (input @ bs) msgs (feed_recv d bs)"
| poll: "ws_session env c input msgs d \<Longrightarrow> poll_event env d = (e, Ok (Some ev)) \<Longrightarrow> ws_session env c input (msgs @ data_of ev) e"
| poll_none: "ws_session env c input msgs d \<Longrightarrow> poll_event env d = (e, Ok None) \<Longrightarrow> ws_session env c input msgs e"
| events: "ws_session env c input msgs d \<Longrightarrow> drain_data_events env d = (out, e, Ok n) \<Longrightarrow> ws_session env c input (msgs @ out) e"
| events_ingress: "ws_session env c input msgs d \<Longrightarrow> drain_data_events_from_ingress env d bs = (out, e, Ok n) \<Longrightarrow>
    ws_session env c (input @ bs) (msgs @ out) e"
| batches: "ws_session env c input msgs d \<Longrightarrow> drain_data_event_batches env d = (bats, e, Ok n) \<Longrightarrow>
    ws_session env c input (msgs @ concat (map ba_events bats)) e"
| batches_ingress: "ws_session env c input msgs d \<Longrightarrow> drain_data_event_batches_from_ingress env d bs = (bats, e, Ok n) \<Longrightarrow>
    ws_session env c (input @ bs) (msgs @ concat (map ba_events bats)) e"

lemma batches_as_events:
  "drain_data_event_batches env c = (bats, d, r) \<Longrightarrow> r \<noteq> Panic \<Longrightarrow> drain_data_events env c = (concat (map ba_events bats), d, r)"
  "drain_data_event_batches_from_ingress env c bs = (bats, d, r) \<Longrightarrow> r \<noteq> Panic \<Longrightarrow>
     drain_data_events_from_ingress env c bs = (concat (map ba_events bats), d, r)"
  using batch.drain_items [of "(batch_new, [])" env c 0 _ d r] batch.drain_from_ingress_items [of "(batch_new, [])" env c bs _ d r]
  by (auto simp: drain_data_event_batches_def drain_data_event_batches_from_ingress_def drain_data_events_def
      drain_data_events_from_ingress_def delivered_eq batches_ok_def batch_items_def batch_new_def)

lemma owed_events:
  assumes "rng_total env" "ws_wf c"
  shows "drain_data_events env c = (out, d, r) \<Longrightarrow> out = owed env c []"
    and "drain_data_events env c = (out, d, Ok n) \<Longrightarrow> owed env c bs = out @ owed env d bs"
    and "drain_data_events_from_ingress env c xs = (out, d, Ok n) \<Longrightarrow> owed env c (xs @ bs) = out @ owed env d bs"
proof -
  show "drain_data_events env c = (out, d, r) \<Longrightarrow> out = owed env c []"
    using drainedD(1) [OF owed_drain [OF assms, of 0 "[]" out d r]] by (simp add: drain_data_events_def)
  show "drain_data_events env c = (out, d, Ok n) \<Longrightarrow> owed env c bs = out @ owed env d bs"
    using drainedD(1) [OF owed_drain [OF assms, of 0 "[]" out d "Ok n"]] drainedD(2) [OF owed_drain [OF assms, of 0 "[]" out d "Ok n"], of n bs]
    by (simp add: drain_data_events_def)
  show "drain_data_events_from_ingress env c xs = (out, d, Ok n) \<Longrightarrow> owed env c (xs @ bs) = out @ owed env d bs"
    using drainedD(1) [OF owed_ingress [OF assms, of xs "[]" out d "Ok n"]]
      drainedD(2) [OF owed_ingress [OF assms, of xs "[]" out d "Ok n"], of n bs]
    by (simp add: drain_data_events_from_ingress_def)
qed

lemma begin_handshake_owed:
  assumes "ws_wf c" "begin_handshake c = (d, r)"
  shows "ws_wf d" "owed env d bs = owed env c bs"
proof -
  show "ws_wf d" using begin_handshake_cases [OF assms(2,1)] assms(1) by auto
  show "owed env d bs = owed env c bs"
    using assms(2)
    by (intro owed_rx) (auto simp: begin_handshake_def Let_def tx_extend_def compact_tx_if_needed_def split: if_split_asm)
qed

lemma ack_owed:
  assumes "ws_wf c" "n \<le> length (pending_tx c)"
  shows "ws_wf (ack_tx c n)" "owed env (ack_tx c n) bs = owed env c bs"
proof -
  have "keeps c (ack_tx c n)" using assms by (intro keepsI(1)) (simp_all add: ws_wf_def tx_wf_ack)
  then show "ws_wf (ack_tx c n)" using ws_wf_keeps [OF assms(1)] by blast
  show "owed env (ack_tx c n) bs = owed env c bs" by (intro owed_rx) (simp_all add: ack_tx_def Let_def)
qed

lemma session_owed:
  assumes "ws_session env c input msgs d" "rng_total env" "ws_wf c"
  shows "ws_wf d \<and> (\<forall>bs. owed env c (input @ bs) = msgs @ owed env d bs)"
  using assms(1)
proof (induction rule: ws_session.induct)
  case start
  then show ?case using assms(3) by simp
next
  case (handshake input msgs d e r)
  then show ?case using begin_handshake_owed by metis
next
  case (send input msgs d m e r)
  then show ?case using send_ok_send [of d env m e r] owed_send [of d env m e r] by (simp add: send_ok_def)
next
  case (ack input msgs d n)
  then show ?case using ack_owed by metis
next
  case (feed input msgs d bs)
  then show ?case using ws_wf_feed_recv owed_feed by simp
next
  case (poll input msgs d e ev)
  then show ?case using poll_event_wf(1) owed_poll(1) by fastforce
next
  case (poll_none input msgs d e)
  then show ?case using poll_event_wf(1) owed_poll(2) by fastforce
next
  case (events input msgs d out e n)
  then have "ws_wf e" using op_ok_drain [of d env plain_sink 0 "[]"] by (simp add: drain_data_events_def op_ok_def)
  then show ?case using events owed_events(2) [OF assms(2)] by fastforce
next
  case (events_ingress input msgs d bs out e n)
  then have "ws_wf e" using op_ok_drain_from_ingress [of d env plain_sink bs "[]"] by (simp add: drain_data_events_from_ingress_def op_ok_def)
  then show ?case using events_ingress owed_events(3) [OF assms(2)] by fastforce
next
  case (batches input msgs d bats e n)
  from batches_as_events(1) [OF batches(2)] have ev: "drain_data_events env d = (concat (map ba_events bats), e, Ok n)" by simp
  then have "ws_wf e" using batches op_ok_drain [of d env plain_sink 0 "[]"] by (simp add: drain_data_events_def op_ok_def)
  then show ?case using batches ev owed_events(2) [OF assms(2)] by fastforce
next
  case (batches_ingress input msgs d bs bats e n)
  from batches_as_events(2) [OF batches_ingress(2)]
  have ev: "drain_data_events_from_ingress env d bs = (concat (map ba_events bats), e, Ok n)" by simp
  then have "ws_wf e" using batches_ingress op_ok_drain_from_ingress [of d env plain_sink bs "[]"]
    by (simp add: drain_data_events_from_ingress_def op_ok_def)
  then show ?case using batches_ingress ev owed_events(3) [OF assms(2)] by fastforce
qed

text \<open>The data messages a byte stream from the server is worth to a client with this configuration and key.\<close>

definition conversation :: "Env \<Rightarrow> WsConfig \<Rightarrow> bytes \<Rightarrow> bytes \<Rightarrow> DataEvent list" where
  "conversation env cfg key input =
     (case after_head env cfg key input of
        None \<Rightarrow> []
      | Some rest \<Rightarrow> concat (map data_of (decode cfg None rest)))"

lemma new_client_owed:
  assumes "new_client env k cfg = Ok c"
  shows "owed env c bs = conversation env cfg (ws_client_key c) bs"
proof -
  obtain rc where c: "ws_state c = Connecting" "ws_parser c = Idle" "ws_recv_buf c = with_capacity rc" "ws_msg_opcode c = None"
    "ws_config c = cfg" "ws_last_emitted c = None"
    using new_client_Ok [OF assms] by (auto simp: parser_new_def)
  have buf: "as_slice (ws_recv_buf c) = []" using c(3) by (simp add: with_capacity_def as_slice_def)
  have "expected (opened c) rest = decode cfg None rest" for rest
    using c buf by (simp add: expected_header opened_def consume_recv_def message_of_def)
  then show ?thesis using c buf cleared_None [OF c(6)] by (simp add: owed_def due_def conversation_def split: option.split)
qed

subsection \<open>Properties\<close>

text \<open>C2. The client delivers exactly the messages the server sent.  Take a new client and any sequence of
  \<^verbatim>\<open>begin_handshake\<close>, sends, transport writes, reads of any size, polls and drains of every kind (none of
  which has failed so far).  The data messages handed out are an initial part of the messages the
  received bytes decode to: the complete frames after an acceptable response head, assembled into
  messages, as far as they are legal, fit the limits and precede a Close.  Nothing is held back: what
  the next \<^verbatim>\<open>drain_data_events\<close> hands out completes them, whether it succeeds or fails, and when
  \<^verbatim>\<open>poll_event\<close> reports no event they are complete.  So how the stream was cut into reads, and when and
  how the application asked, does not matter.\<close>

theorem messages_delivered:
  assumes "rng_total env" and "new_client env k cfg = Ok c" and "ws_session env c input msgs d"
  shows "(\<exists>rest. conversation env cfg (ws_client_key c) input = msgs @ rest) \<and>
    (\<forall>out e r. drain_data_events env d = (out, e, r) \<longrightarrow> msgs @ out = conversation env cfg (ws_client_key c) input) \<and>
    (\<forall>e r. poll_event env d = (e, r) \<and> (\<forall>ev. r \<noteq> Ok (Some ev)) \<longrightarrow> msgs = conversation env cfg (ws_client_key c) input)"
proof -
  note wf = new_client_wf(1) [OF assms(2)]
  have s: "ws_wf d" "conversation env cfg (ws_client_key c) input = msgs @ owed env d []"
    using session_owed [OF assms(3,1) wf] new_client_owed [OF assms(2), of input] by (auto dest: spec [of _ "[]"])
  have "owed env d [] = []" if "poll_event env d = (e, r)" "\<forall>ev. r \<noteq> Ok (Some ev)" for e r
    using owed_nothing [OF s(1) that] poll_event_wf(3) [OF s(1) that(1) assms(1)] .
  then show ?thesis using s owed_events(1) [OF assms(1) s(1)] by auto
qed

text \<open>A stream that accepts the handshake, sends a message in two fragments with a ping in between, and a
  complete message.\<close>

definition sample_cfg :: WsConfig where
  "sample_cfg = (ws_config_new (str ''h'') (str ''/''))\<lparr>cf_max_message_size := 16\<rparr>"

definition sample_key :: bytes where
  "sample_key = str ''FGHIJKLMNOPQRSTU''"

definition sample_upgrade :: Http1Response where
  "sample_upgrade =
     \<lparr>rs_version = str ''HTTP/1.1'', rs_status = 101, rs_reason = str ''OK'',
      rs_headers = [(str ''Upgrade'', str ''websocket''), (str ''Connection'', str ''Upgrade''),
        (str ''Sec-WebSocket-Accept'', sample_key @ WS_GUID)], rs_header_end = 133\<rparr>"

definition sample_head :: bytes where
  "sample_head =
     str ''HTTP/1.1 101 OK'' @ crlf @ str ''Upgrade:websocket'' @ crlf @ str ''Connection:Upgrade'' @ crlf @
     str ''Sec-WebSocket-Accept:'' @ sample_key @ WS_GUID @ crlf @ crlf"

definition sample_frames :: bytes where
  "sample_frames = [0x01, 1, 0x68, 0x89, 0, 0x80, 1, 0x69, 0x82, 1, 0xFF]"

lemma sample_verified: "verify_upgrade_response sample_env sample_upgrade sample_key [] = Ok ()"
  by code_simp

lemma sample_head_end: "length sample_head = 133" "find_double_crlf sample_head = Some 129"
  by code_simp+

lemma sample_head_ascii: "list_all (\<lambda>b. b \<le> 0x7F) (take 129 sample_head)"
  by code_simp

lemma sample_head_lines:
  "split_crlf (take 129 sample_head) = str ''HTTP/1.1 101 OK'' # tl (split_crlf (take 129 sample_head))"
  by code_simp

lemma sample_head_headers: "parse_header_lines (tl (split_crlf (take 129 sample_head))) [] = Ok (rs_headers sample_upgrade)"
  by code_simp

lemma sample_head_parsed: "parse_response sample_head = Ok (Some (sample_upgrade, 133))"
proof -
  have w: "take (min (length sample_head) MAX_RESPONSE_HEADER_BYTES) sample_head = sample_head"
    by (simp add: sample_head_end(1) MAX_RESPONSE_HEADER_BYTES_def)
  have st: "parse_status_line (str ''HTTP/1.1 101 OK'') = Ok (str ''HTTP/1.1'', 101, str ''OK'')"
    by (simp add: parse_status_line_def parse_u16_def str_def)
  obtain ls where ls: "split_crlf (take 129 sample_head) = str ''HTTP/1.1 101 OK'' # ls" "parse_header_lines ls [] = Ok (rs_headers sample_upgrade)"
    using sample_head_lines sample_head_headers by metis
  show ?thesis
    unfolding parse_response_def Let_def w sample_head_end(2)
    by (simp add: ls st utf8_valid_ascii sample_head_ascii) (simp add: sample_upgrade_def)
qed

lemma sample_frames_cut: "server_frames sample_frames =
    [(\<lparr>h_fin = False, h_opcode = Text, h_mask = None, h_payload_len = 1\<rparr>, [0x68]),
     (\<lparr>h_fin = True, h_opcode = Ping, h_mask = None, h_payload_len = 0\<rparr>, []),
     (\<lparr>h_fin = True, h_opcode = Continuation, h_mask = None, h_payload_len = 1\<rparr>, [0x69]),
     (\<lparr>h_fin = True, h_opcode = Binary, h_mask = None, h_payload_len = 1\<rparr>, [0xFF])]"
  by code_simp

lemma sample_conversation:
  "conversation sample_env sample_cfg sample_key (sample_head @ sample_frames) = [DText (str ''hi''), DBinary [0xFF]]"
proof -
  have "after_head sample_env sample_cfg sample_key (sample_head @ sample_frames) = Some sample_frames"
    using parse_response_stable [of sample_head sample_frames] sample_head_parsed sample_verified sample_head_end(1)
    by (simp add: after_head_def sample_cfg_def ws_config_new_def)
  moreover have "decode sample_cfg None sample_frames = [EvPing [], EvText (str ''hi''), EvBinary [0xFF]]"
    by (simp add: decode_def sample_frames_cut accept_frame_def finish_frame_def message_event_def sample_cfg_def ws_config_new_def
        DEFAULT_MAX_FRAME_PAYLOAD_def str_def utf8_valid_ascii)
  ultimately show ?thesis by (simp add: conversation_def)
qed

lemma sample_connected: "\<exists>c. new_client sample_env 10 sample_cfg = Ok c \<and> ws_client_key c = sample_key"
proof -
  have key: "generate_key sample_env 10 = Ok sample_key"
    by (simp add: generate_key_def rng_fill_def sample_env_def sample_key_def str_def upt_conv_Cons)
  obtain pool where pool: "rng_fill sample_env (10 + 1) MASK_POOL_BYTES = Some pool"
    by (simp add: rng_fill_def sample_env_def)
  show ?thesis
    unfolding new_client_def key pool Let_def
    by (simp add: sample_cfg_def ws_config_new_def vec_with_capacity_def MAX_HEADER_LEN_def USIZE_MAX_def)
qed

theorem messages_delivered_witness:
  "\<exists>c. new_client sample_env 10 sample_cfg = Ok c \<and>
     fst (drain_data_events sample_env (feed_recv (feed_recv c (take 140 (sample_head @ sample_frames))) (drop 140 (sample_head @ sample_frames)))) =
       [DText (str ''hi''), DBinary [0xFF]]"
proof -
  obtain c where c: "new_client sample_env 10 sample_cfg = Ok c" "ws_client_key c = sample_key" using sample_connected by blast
  let ?bs = "sample_head @ sample_frames"
  let ?d = "feed_recv (feed_recv c (take 140 ?bs)) (drop 140 ?bs)"
  have "ws_session sample_env c (([] @ take 140 ?bs) @ drop 140 ?bs) [] ?d"
    by (rule ws_session.feed [OF ws_session.feed [OF ws_session.start]])
  then have s: "ws_session sample_env c ?bs [] ?d" unfolding append_Nil append_take_drop_id .
  obtain out e r where "drain_data_events sample_env ?d = (out, e, r)" by (rule prod_cases3)
  then show ?thesis using messages_delivered [OF sample_client_facts(2) c(1) s] c sample_conversation by auto
qed

end
