(* ===== verification/Spec2Isabelle.thy ===== *)
theory Spec2Isabelle
  imports Pool_Safe Conn_Live Affinity Ws_Session
begin

text \<open>
  Talaris, a WebSocket client for market data feeds: one thread drives many connections through one
  \<^verbatim>\<open>io_uring\<close>.  This is its verification library; the paths below are relative to \<^verbatim>\<open>src/src/\<close>.

  \<^bold>\<open>The program.\<close>  The pool (\<^verbatim>\<open>pool.rs\<close>) owns a proactor and a table of connections.  A round of work submits
  what the connections have to send, waits, takes completions off the ring, routes each to its connection
  by a token of slot number and generation, and hands messages to the caller.  A connection
  (\<^verbatim>\<open>connection_state.rs\<close>) turns completions into bytes: it owns the socket, the ring of receive buffers it
  shares with the kernel (\<^verbatim>\<open>proactor/buf_ring.rs\<close>), the staging buffer of the one send in flight, optionally a
  TLS session (\<^verbatim>\<open>tls.rs\<close>), and a WebSocket client.  The client (\<^verbatim>\<open>ws/client.rs\<close>) is a machine without I/O:
  it is fed bytes, yields events and leaves bytes to be sent; it uses the handshake and HTTP codecs
  (\<^verbatim>\<open>ws/handshake.rs\<close>, \<^verbatim>\<open>http.rs\<close>), the frame codec and the streaming parser (\<^verbatim>\<open>ws/frame.rs\<close>,
  \<^verbatim>\<open>ws/parser.rs\<close>), masking (\<^verbatim>\<open>ws/mask.rs\<close>), close payloads (\<^verbatim>\<open>ws/close.rs\<close>) and a cursor buffer
  (\<^verbatim>\<open>cursor_buf.rs\<close>).

  \<^bold>\<open>How the code is modelled.\<close>  A struct is a record and an enum a datatype, with the names of the source
  (suffixed where HOL has the name, and with a short prefix where two structs share a field name).
  \<^verbatim>\<open>&mut self\<close> is state passing.  A \<^verbatim>\<open>Result\<close> is \<^typ>\<open>('e, 'a) result\<close>, whose third
  constructor \<^const>\<open>Panic\<close> is a panic of the release build; \<^const>\<open>try_st\<close> is the \<^verbatim>\<open>?\<close> operator under state.
  Integers that travel on the wire, wrap or saturate are words; \<^verbatim>\<open>usize\<close> counters of bytes in memory are natural
  numbers.  A callback is the list of what it was given.  Logging is left out, and \<^verbatim>\<open>debug_assert\<close> is off.

  \<^bold>\<open>What is outside\<close> is a parameter: the random generator, SHA-1 and base64 of the handshake (\<open>Env\<close>), the clock
  and histograms (\<open>Clock\<close>, \<open>HistOps\<close>, \<open>HistRead\<close>), the writer of a scrape (\<open>Writer\<close>), rustls (\<open>Rustls\<close>), the \<^verbatim>\<open>io_uring\<close> crate with the kernel behind it and the
  memory the kernel writes (\<open>Uring\<close>), the C library (\<open>Libc\<close>, \<open>Sched\<close>) and name resolution (\<open>Dns\<close>).  What the theorems rely on is named:
  \<^const>\<open>rng_total\<close> (random bytes do not fail), \<^const>\<open>rustls_lawful\<close> (rustls returns, and its buffers are
  finite), \<^const>\<open>uring_sane\<close> (system calls return), \<^const>\<open>cqe_ok\<close> (a completion reports a buffer of the ring it was
  given).  Two name a history, so that what was handed over is read from the other side and not from the books of
  the program: \<^const>\<open>records\<close> (the entries pushed to the submission queue so far) and \<^const>\<open>rustls_history\<close> (the
  plaintext chunks rustls has handed out and the bytes it has written).  Every theorem that uses one has a witness
  at a concrete instance.

  \<^bold>\<open>Theories and what they show.\<close>

  \<^item> \<^verbatim>\<open>Prelude\<close>: results, byte helpers, big-endian numbers, shared lemmas and the collections of rules.
  \<^item> \<^verbatim>\<open>Cursor_Buf\<close> (\<^verbatim>\<open>cursor_buf.rs\<close>): the interface \<open>byte_queue\<close>, interpreted on the cursor buffer, and in
    \<^verbatim>\<open>Ws_Client\<close> on the transmit buffer of the client.
  \<^item> \<^verbatim>\<open>Ws_Frame\<close>, \<^verbatim>\<open>Ws_Parser\<close>, \<^verbatim>\<open>Ws_Mask\<close>, \<^verbatim>\<open>Utf8\<close>, \<^verbatim>\<open>Ws_Close\<close>: the codecs.  Header parsing accepts exactly the
    canonical form and is read back from what is written; the streaming parser does not depend on how the
    stream is cut into reads; the word-wise and vectorised masking equal the definition of the RFC; close payloads
    are exact.
  \<^item> \<^verbatim>\<open>Http\<close>, \<^verbatim>\<open>Ws_Handshake\<close>: the response parser is bounded and legal, the upgrade request has exactly the
    lines of the RFC, the response is accepted exactly when it completes the handshake.
  \<^item> \<^verbatim>\<open>Ws_Client\<close>, \<^verbatim>\<open>Ws_Recv\<close>, \<^verbatim>\<open>Ws_Drain\<close>: the client's transmit side, receive side and data drains.
    \<^verbatim>\<open>Ws_Inv\<close>, \<^verbatim>\<open>Ws_Reply\<close>, \<^verbatim>\<open>Ws_Life\<close>: its invariant through every operation, what it answers, and over all runs
    that the outbound bytes are the request and legal frames with one Close at most.  \<^verbatim>\<open>Ws_Deliver\<close>: the fast
    drains refine polling event by event, batches hold the same events, and when the copy-free path is open.  \<^verbatim>\<open>Ws_Messages\<close>, \<^verbatim>\<open>Ws_Session\<close>: a
    reference decoder of the server's byte stream, and that over whole connections the messages handed out are the
    ones it finds, however the stream is cut into reads and polled.  The drains share the interface
    \<open>event_sink\<close>, interpreted for events, batches, marked events and marked batches.
  \<^item> \<^verbatim>\<open>Observability\<close>, \<^verbatim>\<open>Ws_Marked\<close>: sampling, histograms, and the marked drains, which add numbering and timing and
    change nothing else.
  \<^item> \<^verbatim>\<open>Socket\<close>, \<^verbatim>\<open>Affinity\<close>: the C image of an address, which is in network order on either kind of target and
    determines the address; socket creation and options; CPU pinning.
  \<^item> \<^verbatim>\<open>Proactor_Op\<close>, \<^verbatim>\<open>Proactor\<close>, \<^verbatim>\<open>Buf_Ring\<close>: operation identities round-trip through the kernel's user data;
    configurations are validated; the buffer ring refines a queue of buffer numbers (the interface
    \<open>recycling_queue\<close>) and neither loses nor duplicates a buffer while its 16-bit tail wraps.
  \<^item> \<^verbatim>\<open>Tls\<close>: ingesting ciphertext ends, delivers every plaintext chunk in order and leaves none behind; cipher preferences only reorder.
  \<^item> \<^verbatim>\<open>Conn_Meta\<close>, \<^verbatim>\<open>Conn_State\<close>: the connection, its submissions and handlers.  The four data handlers of the
    source, and the four batch handlers, are one definition each over a \<open>Delivery\<close>; the interface \<open>delivery\<close> says
    what a way of delivering must keep, and is interpreted for all four.
  \<^item> \<^verbatim>\<open>Conn_Inv\<close>, \<^verbatim>\<open>Conn_Safe\<close>: the invariant of a connection, and that no completion makes a handler panic.
    \<^verbatim>\<open>Conn_Stream\<close>: on a plain connection, through every interleaving of submissions, completions and calls, the
    bytes the kernel takes of the pushed sends are those of the accepted calls and of the client's replies,
    none lost, repeated or reordered until a send completion meets a closed connection, which drops what is
    staged.  \<^verbatim>\<open>Conn_Live\<close>: they all go out.
  \<^item> \<^verbatim>\<open>Metrics\<close>: the Prometheus writers of histograms, connections and pool.  They are shown to write a reference
    exposition, and an interval scrape to empty exactly the interval histograms.
  \<^item> \<^verbatim>\<open>Pool\<close>: the pool.  \<^verbatim>\<open>Pool_Rounds\<close>: a round touches only the connections it has completions for, and counts
    closures.  \<^verbatim>\<open>Pool_Ids\<close>: over all sequences of calls, identities are unique and a removed handle is
    dead for good.  \<^verbatim>\<open>Pool_Safe\<close>: no pump panics, waiting or spinning; calls and pumps keep all connections well-formed; and
    what a late completion does to a closed connection.
  \<^item> This theory: what connecting to a name asks the kernel for, across pool, connection, socket and proactor.

  \<^bold>\<open>Loops and fuel.\<close>  Loops over received bytes recurse with a termination proof on the bytes left.  The two loops of
  the TLS adapter that drain rustls run with fuel of one more than the amount rustls says it holds; running out
  is \<^const>\<open>Panic\<close>, and it is proved that a lawful rustls never gets there.  The loop of \<^verbatim>\<open>drive_conn_until_open\<close>
  waits for the peer and may never end: its fuel counts iterations, and \<^const>\<open>None\<close> says that it is still waiting.

  \<^bold>\<open>Not modelled.\<close>  Debug and Display of structs and errors, the building of the rustls configuration value,
  and \<^verbatim>\<open>proactor/stub.rs\<close>,
  which panics by design where there is no \<^verbatim>\<open>io_uring\<close>.  When a buffer is dropped is modelled only where the code reads
  it afterwards; that the kernel may still read memory of a connection that is dropped is not part of the model.
\<close>

section \<open>From a name to the wire\<close>

lemma connect_entry:
  assumes "submit_connect_to ws io cfg addr p = (p', Ok h)"
  obtains i c where "h = from_parts (id_conn_id i) (id_generation i)"
    and "conn_new (ws (as_u64 h)) \<lparr>ac_user = cfg, ac_identity = i\<rparr> addr = Ok c"
    and "pr_submit_connect io (cs_socket c) (cs_addr c) (ud_new OpConnect (conn_token c)) SQE_NONE (po_proactor p) = (po_proactor p', Ok ())"
    and "slot_at (po_conns p') (id_conn_id i) = Some (c\<lparr>cs_state := StConnecting\<rparr>)"
proof -
  obtain p1 q where b: "reserve_runtime_identity p = (p1, q)" by force
  then have k: "po_proactor p1 = po_proactor p"
    by (auto simp: reserve_runtime_identity_def reserve_bgid_def reserve_conn_id_def release_bgid_def Let_def split: if_splits)
  obtain i where i: "q = Ok i" using assms b by (cases q) (simp_all add: submit_connect_to_def)
  have token: "as_u64 (from_parts (id_conn_id i) (id_generation i)) = id_token i" by (simp add: from_parts_def id_token_def)
  obtain c where c: "conn_new (ws (id_token i)) \<lparr>ac_user = cfg, ac_identity = i\<rparr> addr = Ok c"
    using assms b i by (cases "conn_new (ws (id_token i)) \<lparr>ac_user = cfg, ac_identity = i\<rparr> addr") (simp_all add: submit_connect_to_def)
  obtain k' r where s: "pr_submit_connect io (cs_socket c) (cs_addr c) (ud_new OpConnect (conn_token c)) SQE_NONE (po_proactor p1) = (k', r)" by force
  show thesis
  proof (rule that [of i c])
    have "r = Ok () \<and> h = from_parts (id_conn_id i) (id_generation i) \<and> po_proactor p' = k' \<and>
        slot_at (po_conns p') (id_conn_id i) = Some (c\<lparr>cs_state := StConnecting\<rparr>)"
      using assms b i c s
      by (cases r) (auto simp: submit_connect_to_def conn_submit_connect_def slot_at_def Let_def split: if_splits)
    then show "h = from_parts (id_conn_id i) (id_generation i)"
      "pr_submit_connect io (cs_socket c) (cs_addr c) (ud_new OpConnect (conn_token c)) SQE_NONE (po_proactor p) = (po_proactor p', Ok ())"
      "slot_at (po_conns p') (id_conn_id i) = Some (c\<lparr>cs_state := StConnecting\<rparr>)"
      "conn_new (ws (as_u64 h)) \<lparr>ac_user = cfg, ac_identity = i\<rparr> addr = Ok c"
      using s k c token by simp_all
  qed
qed

text \<open>A socket of a new connection: created for the family of the address, without delay, and with a busy-poll budget that
  fits, which the kernel has accepted.\<close>

lemma conn_new_socket:
  assumes "conn_new w assigned addr = Ok c"
  shows "tcp_socket_new (wd_libc w) (domain_of addr) = Ok (cs_socket c)" and "cs_addr c = from_std (wd_libc w) addr"
    and "cs_cfg c = ac_user assigned" and "set_nodelay (wd_libc w) (cs_socket c) True = Ok ()"
    and "\<forall>usecs. cc_socket_busy_poll_usecs (ac_user assigned) = Some usecs \<longrightarrow> set_busy_poll (wd_libc w) (cs_socket c) usecs = Ok ()"
  using assms unfolding conn_new_def Let_def by (auto simp: and_then_eq_Ok_iff split: option.splits)

text \<open>C22. Connecting to a name, from the call to the kernel: if \<^verbatim>\<open>submit_connect\<close> of a reachable pool succeeds, the first address
  that the name resolved to is the one the kernel is asked to connect to.  Exactly one entry was pushed: a
  connect of a socket created for the family of the address, with the address in network byte order on
  either kind of target and of the right length, and with user data from which the handle and the operation are read back.  The
  socket has its delay switched off and its busy-poll budget, if any, fits and was accepted; the handle finds the
  connection, in state \<^verbatim>\<open>Connecting\<close> and with the caller's configuration.\<close>

theorem connect_reaches_address:
  assumes "pool_new io pcfg = Ok p0" and "pool_run io p0 p" and "submit_connect dns ws io cfg p = (p', Ok h)"
  defines "lc \<equiv> wd_libc (ws (as_u64 h))"
  shows "\<exists>addr addrs c ud. dns (cc_host cfg) (cc_port cfg) = Ok (addr # addrs) \<and>
    conn_mut h p' = Ok c \<and> cs_state c = StConnecting \<and> cs_cfg c = cfg \<and>
    tcp_socket_new lc (domain_of addr) = Ok (cs_socket c) \<and> set_nodelay lc (cs_socket c) True = Ok () \<and>
    (\<forall>usecs. cc_socket_busy_poll_usecs cfg = Some usecs \<longrightarrow> 0 \<le> sint usecs \<and> set_busy_poll lc (cs_socket c) usecs = Ok ()) \<and>
    io_push io (SqeConnect (cs_socket c) (wire_addr lc addr) (word_of_nat (length (wire_addr lc addr))) ud (sqe_flags io SQE_NONE))
      (po_proactor p) = Some (po_proactor p') \<and>
    ud_kind ud = Some OpConnect \<and> ud_token ud = as_u64 h"
proof -
  obtain addr addrs where dns: "dns (cc_host cfg) (cc_port cfg) = Ok (addr # addrs)"
    and s: "submit_connect_to ws io cfg addr p = (p', Ok h)"
    using assms(3)
    by (cases "dns (cc_host cfg) (cc_port cfg)") (auto simp: submit_connect_def resolve_addr_def split: list.splits)
  obtain i c where i: "h = from_parts (id_conn_id i) (id_generation i)"
    and c: "conn_new (ws (as_u64 h)) \<lparr>ac_user = cfg, ac_identity = i\<rparr> addr = Ok c"
    and push: "pr_submit_connect io (cs_socket c) (cs_addr c) (ud_new OpConnect (conn_token c)) SQE_NONE (po_proactor p) = (po_proactor p', Ok ())"
    and slot: "slot_at (po_conns p') (id_conn_id i) = Some (c\<lparr>cs_state := StConnecting\<rparr>)"
    using connect_entry [OF s] .
  have "pool_run io p0 p'" by (rule pool_run.step [OF assms(2) pool_step.connect [OF s]]) simp
  then have ok: "ids_ok p'" using pool_run_ok [OF assms(1)] by blast
  have token: "conn_token c = as_u64 h" using conn_new_identity [OF c] i by (simp add: conn_token_def id_token_def from_parts_def)
  note tok = slot_token [OF ok slot, simplified conn_token_def [of "c\<lparr>cs_state := StConnecting\<rparr>"], simplified, folded conn_token_def, unfolded token]
  note new = conn_new_socket [OF c, folded lc_def, simplified]
  have find: "conn_mut h p' = Ok (c\<lparr>cs_state := StConnecting\<rparr>)"
    using slot tok(1) token by (simp add: conn_mut_def as_u32_def conn_token_def)
  have poll: "0 \<le> sint usecs" if "cc_socket_busy_poll_usecs cfg = Some usecs" for usecs
    using new(5) that set_busy_poll_cases [of usecs lc "cs_socket c"] by auto
  have len: "sa_len (from_std lc addr) = word_of_nat (length (wire_addr lc addr))"
    by (simp flip: from_std_len)
  have "io_push io (SqeConnect (cs_socket c) (wire_addr lc addr) (word_of_nat (length (wire_addr lc addr))) (ud_new OpConnect (as_u64 h))
      (sqe_flags io SQE_NONE)) (po_proactor p) = Some (po_proactor p')"
    using push new(2) len token by (auto simp: pr_submit_connect_def push_sqe_def from_std_bytes split: option.splits)
  then show ?thesis
    using dns find new poll tok(4) token
    by (intro exI [of _ addr] exI [of _ addrs] exI [of _ "c\<lparr>cs_state := StConnecting\<rparr>"] exI [of _ "ud_new OpConnect (as_u64 h)"])
      (simp add: ud_token_new ud_kind_new)
qed

text \<open>The name resolves to the loopback address, port 80: the kernel gets its bytes in network order.\<close>

theorem connect_reaches_address_witness:
  "\<exists>p0 p1 ud d. pool_new sample_uring pool_config_default = Ok p0 \<and>
     submit_connect (\<lambda>_ _. Ok [sample_addr]) (\<lambda>_. sample_world) sample_uring (ac_user sample_config) p0 = (p1, Ok (ConnHandle 0)) \<and>
     conn_mut (ConnHandle 0) p1 = Ok (d :: (bytes \<times> bytes, u64 list) ConnectionState) \<and> ud_token ud = 0 \<and>
     io_push sample_uring (SqeConnect (cs_socket d) [2, 0, 0, 80, 127, 0, 0, 1, 0, 0, 0, 0, 0, 0, 0, 0] 16 ud 0) (po_proactor p0) =
       Some (po_proactor p1)"
proof -
  obtain p0 p1 and c :: "(bytes \<times> bytes, u64 list) ConnectionState" where new: "pool_new sample_uring pool_config_default = Ok p0"
    and s: "submit_connect_to (\<lambda>_. sample_world) sample_uring (ac_user sample_config) sample_addr p0 = (p1, Ok (from_parts 0 0))"
    by (rule sample_connect)
  have h: "from_parts 0 0 = ConnHandle 0" by (simp add: from_parts_def encode_conn_token_def)
  have sub: "submit_connect (\<lambda>_ _. Ok [sample_addr]) (\<lambda>_. sample_world) sample_uring (ac_user sample_config) p0 = (p1, Ok (ConnHandle 0))"
    using s h by (simp add: submit_connect_def resolve_addr_def)
  have libc: "wd_libc sample_world = sample_libc" by (simp add: sample_world_def)
  have nums: "(2 :: nat) = Suc (Suc 0)" "(4 :: nat) = Suc (Suc (Suc (Suc 0)))" by simp_all
  have to_be: "to_be 2 v = [word_of_nat (v div 256), word_of_nat v]"
    "to_be 4 v = [word_of_nat (v div 16777216), word_of_nat (v div 65536), word_of_nat (v div 256), word_of_nat v]" for v
    by (simp_all only: nums to_be.simps) (simp_all add: power_Suc)
  have zeros: "replicate 8 (0 :: u8) = [0, 0, 0, 0, 0, 0, 0, 0]" by (simp add: numeral_eq_Suc)
  have wire: "wire_addr sample_libc sample_addr = [2, 0, 0, 80, 127, 0, 0, 1, 0, 0, 0, 0, 0, 0, 0, 0]"
    by (simp add: wire_addr_def sample_addr_def sample_libc_def to_ne_bytes_def u16_to_be_def octets_def to_be zeros)
  have flags: "sqe_flags sample_uring SQE_NONE = 0" by (simp add: sqe_flags_def into_io_uring_def sample_uring_def SQE_NONE_def)
  show ?thesis
    using connect_reaches_address [OF new pool_run.start sub] new sub by (auto simp: libc wire flags)
qed

end
